(* ===== verification/Prelude.thy ===== *)
theory Prelude
  imports Main "HOL-Library.Word"
begin

text \<open>
  Shared vocabulary of the AlienOS development: the machine types of the i386 target, the
  outcome of a kernel routine (a value, or the way in which it fails to return), the two
  primitives with which the kernel stops itself (\<^verbatim>\<open>kernel_panic\<close> and \<^verbatim>\<open>kernel_assert\<close> of
  \<^verbatim>\<open>src/kernel/kernel.c\<close>), singly linked chains of pointers, and the arithmetic facts that
  move between 32-bit addresses and natural numbers.
\<close>

unbundle bit_operations_syntax

section \<open>Machine types\<close>

text \<open>\<^verbatim>\<open>uint8_t\<close>, \<^verbatim>\<open>uint16_t\<close>, \<^verbatim>\<open>uint32_t\<close>; on i386 \<^verbatim>\<open>size_t\<close>, \<^verbatim>\<open>uintptr_t\<close> and every pointer are
  32 bits wide. The null pointer is the word 0.\<close>

type_synonym u8 = "8 word"
type_synonym u16 = "16 word"
type_synonym u32 = "32 word"
type_synonym u64 = "64 word"
type_synonym memory = "u32 \<Rightarrow> u8"

named_theorems addr_simps \<open>comparisons of addresses given as natural numbers below 4 GiB\<close>
named_theorems outcome_simps \<open>evaluation of sequenced kernel routines\<close>
named_theorems frame_simps \<open>what an operation leaves unchanged\<close>

section \<open>Outcomes of kernel routines\<close>

text \<open>
  A routine returns a value or does not return: the kernel panicked (\<^verbatim>\<open>cpu_halt\<close> never
  returns), a loop runs forever, or a null pointer is dereferenced, after which C gives the
  program no meaning, a formatted print asks for more arguments than it was given, which C leaves
  undefined as well, or an interrupt handler would have to wait for a lock (\<open>IrqBlock\<close>), which switches
  threads in the middle of a switch and is outside the model.
\<close>

datatype kerror = Panic string | Diverge | NullDeref | NoVarArg | IrqBlock

type_synonym 'a outcome = "kerror + 'a"

definition andthen :: "'a outcome \<Rightarrow> ('a \<Rightarrow> 'b outcome) \<Rightarrow> 'b outcome" where
  "andthen m f = (case m of Inl e \<Rightarrow> Inl e | Inr x \<Rightarrow> f x)"

definition kernel_panic :: "string \<Rightarrow> 'a outcome" where
  "kernel_panic msg = Inl (Panic msg)"

definition kernel_assert :: "bool \<Rightarrow> string \<Rightarrow> unit outcome" where
  "kernel_assert cond msg = (if \<not> cond then kernel_panic msg else Inr ())"

text \<open>The value of a loop defined in the option domain, where \<open>None\<close> is non-termination.\<close>

definition settle :: "'a option \<Rightarrow> 'a outcome" where
  "settle r = (case r of None \<Rightarrow> Inl Diverge | Some x \<Rightarrow> Inr x)"

text \<open>The same for a loop whose body can fail.\<close>

definition settle_loop :: "'a outcome option \<Rightarrow> 'a outcome" where
  "settle_loop r = (case r of None \<Rightarrow> Inl Diverge | Some x \<Rightarrow> x)"

lemma settle_loop_simps [simp, outcome_simps]: "settle_loop None = Inl Diverge" "settle_loop (Some x) = x"
  by (simp_all add: settle_loop_def)

lemma andthen_Inl [simp, outcome_simps]: "andthen (Inl e) f = Inl e"
  by (simp add: andthen_def)

lemma andthen_Inr [simp, outcome_simps]: "andthen (Inr x) f = f x"
  by (simp add: andthen_def)

lemma andthen_eq_Inr [simp]: "andthen m f = Inr y \<longleftrightarrow> (\<exists>x. m = Inr x \<and> f x = Inr y)"
  by (cases m) simp_all

lemma andthen_assoc: "andthen (andthen m f) g = andthen m (\<lambda>x. andthen (f x) g)"
  by (cases m) simp_all

lemma kernel_assert_True [simp, outcome_simps]: "kernel_assert True msg = Inr ()"
  by (simp add: kernel_assert_def)

lemma kernel_assert_False [simp, outcome_simps]: "kernel_assert False msg = Inl (Panic msg)"
  by (simp add: kernel_assert_def kernel_panic_def)

lemma kernel_assert_Inr [simp]: "kernel_assert c msg = Inr u \<longleftrightarrow> c"
  by (simp add: kernel_assert_def kernel_panic_def)

lemma settle_simps [simp, outcome_simps]: "settle None = Inl Diverge" "settle (Some x) = Inr x"
  by (simp_all add: settle_def)

section \<open>Addresses as natural numbers\<close>

lemma unat_of_nat32 [addr_simps]: "a < 4294967296 \<Longrightarrow> unat (of_nat a :: u32) = a"
  by (simp add: unat_of_nat take_bit_nat_eq_self)

lemma of_nat32_eq [addr_simps]:
  "a < 4294967296 \<Longrightarrow> b < 4294967296 \<Longrightarrow> (of_nat a :: u32) = of_nat b \<longleftrightarrow> a = b"
  by (metis unat_of_nat32)

lemma of_nat32_less [addr_simps]:
  "a < 4294967296 \<Longrightarrow> b < 4294967296 \<Longrightarrow> (of_nat a :: u32) < of_nat b \<longleftrightarrow> a < b"
  by (simp add: word_less_nat_alt unat_of_nat32)

lemma of_nat32_le [addr_simps]:
  "a < 4294967296 \<Longrightarrow> b < 4294967296 \<Longrightarrow> (of_nat a :: u32) \<le> of_nat b \<longleftrightarrow> a \<le> b"
  by (simp add: word_le_nat_alt unat_of_nat32)

lemma of_nat32_zero [addr_simps]: "a < 4294967296 \<Longrightarrow> (of_nat a :: u32) = 0 \<longleftrightarrow> a = 0"
  using of_nat32_eq [of a 0] by simp

lemma of_nat_unat32 [simp]: "of_nat (unat (a :: u32)) = a"
  by simp

lemma unat32_bound [simp]: "unat (a :: u32) < 4294967296"
  using unsigned_less [of a, where 'a = nat] by simp

lemma unat32_plus:
  "unat a + unat b < 4294967296 \<Longrightarrow> unat (a + b) = unat a + unat (b :: u32)"
  by (simp add: unat_word_ariths)

lemma unat32_Suc: "(i :: u32) < n \<Longrightarrow> unat (i + 1) = unat i + 1"
proof -
  assume "i < n"
  then have "unat i + 1 \<le> unat n" by (simp add: word_less_nat_alt)
  also have "\<dots> < 4294967296" by (rule unat32_bound)
  finally show ?thesis by (subst unat32_plus) simp_all
qed

section \<open>Chains of pointers\<close>

text \<open>
  \<open>chain nxt p xs\<close>: following the successor function \<open>nxt\<close> from the pointer \<open>p\<close> visits
  exactly the non-null nodes \<open>xs\<close>, in this order, and then reaches the null pointer.
\<close>

fun chain :: "(u32 \<Rightarrow> u32) \<Rightarrow> u32 \<Rightarrow> u32 list \<Rightarrow> bool" where
  "chain nxt p [] \<longleftrightarrow> p = 0"
| "chain nxt p (x # xs) \<longleftrightarrow> p = x \<and> x \<noteq> 0 \<and> chain nxt (nxt x) xs"

lemma chain_null [simp]: "chain nxt 0 xs \<longleftrightarrow> xs = []"
  by (cases xs) auto

lemma chain_nonnull: "p \<noteq> 0 \<Longrightarrow> chain nxt p xs \<longleftrightarrow> (\<exists>ys. xs = p # ys \<and> chain nxt (nxt p) ys)"
  by (cases xs) auto

lemma chain_cong [fundef_cong]:
  "p = q \<Longrightarrow> xs = ys \<Longrightarrow> (\<And>x. x \<in> set ys \<Longrightarrow> f x = g x) \<Longrightarrow> chain f p xs = chain g q ys"
  by (induction xs arbitrary: p q ys) auto

lemma chain_functional: "chain nxt p xs \<Longrightarrow> chain nxt p ys \<Longrightarrow> xs = ys"
proof (induction xs arbitrary: p ys)
  case Nil
  then show ?case by simp
next
  case (Cons x xs)
  then show ?case by (cases ys) auto
qed

text \<open>\<open>segment nxt p xs q\<close>: the part \<open>xs\<close> of a chain that leads from \<open>p\<close> to \<open>q\<close>.\<close>

fun segment :: "(u32 \<Rightarrow> u32) \<Rightarrow> u32 \<Rightarrow> u32 list \<Rightarrow> u32 \<Rightarrow> bool" where
  "segment nxt p [] q \<longleftrightarrow> p = q"
| "segment nxt p (x # xs) q \<longleftrightarrow> p = x \<and> x \<noteq> 0 \<and> segment nxt (nxt x) xs q"

lemma chain_append: "chain nxt p (xs @ ys) \<longleftrightarrow> (\<exists>q. segment nxt p xs q \<and> chain nxt q ys)"
  by (induction xs arbitrary: p) auto

lemma segment_snoc:
  "segment nxt p (xs @ [x]) q \<longleftrightarrow> segment nxt p xs x \<and> x \<noteq> 0 \<and> nxt x = q"
  by (induction xs arbitrary: p) auto

lemma segment_cong [fundef_cong]:
  "p = q \<Longrightarrow> xs = ys \<Longrightarrow> r = r' \<Longrightarrow> (\<And>x. x \<in> set ys \<Longrightarrow> f x = g x) \<Longrightarrow>
     segment f p xs r = segment g q ys r'"
  by (induction xs arbitrary: p q ys) auto

lemma chain_nonzero: "chain nxt p xs \<Longrightarrow> x \<in> set xs \<Longrightarrow> x \<noteq> 0"
  by (induction xs arbitrary: p) auto

lemma chain_suffix: "chain nxt p (xs @ y # ys) \<Longrightarrow> chain nxt (nxt y) ys"
  by (induction xs arbitrary: p) auto

lemma chain_distinct: "chain nxt p xs \<Longrightarrow> distinct xs"
proof (induction xs arbitrary: p)
  case Nil
  then show ?case by simp
next
  case (Cons x xs)
  have "x \<notin> set xs"
  proof
    assume "x \<in> set xs"
    then obtain ys zs where xs: "xs = ys @ x # zs"
      by (auto simp: in_set_conv_decomp)
    have "chain nxt (nxt x) (ys @ x # zs)" "chain nxt (nxt x) zs"
      using Cons.prems xs chain_suffix [of nxt p "x # ys" x zs] by auto
    then have "ys @ x # zs = zs" by (rule chain_functional)
    then have "length (ys @ x # zs) = length zs" by (rule arg_cong)
    then show False by simp
  qed
  with Cons show ?case by auto
qed

end
