(* ===== verification/Memory.thy ===== *)
theory Memory
  imports Prelude
begin

text \<open>
  Physical memory. AlienOS runs without paging, so the kernel heap, its block headers and the
  buffers of the C library all live in one array of \<open>2^32\<close> bytes. A \<^verbatim>\<open>uint32_t\<close> is stored in
  little-endian order. The interface \<open>word_memory\<close> is what the heap allocator relies on: reading
  back a stored word, and stores to other words not interfering. The last section models the
  byte loops of the C sources (copying forwards and backwards, filling) as they are written,
  with the loop counter a 32-bit word.
\<close>

section \<open>Words in byte memory\<close>

definition load32 :: "memory \<Rightarrow> u32 \<Rightarrow> u32" where
  "load32 m a = ucast (m a) OR push_bit 8 (ucast (m (a + 1)))
     OR push_bit 16 (ucast (m (a + 2))) OR push_bit 24 (ucast (m (a + 3)))"

definition store32 :: "memory \<Rightarrow> u32 \<Rightarrow> u32 \<Rightarrow> memory" where
  "store32 m a v = m(a := ucast v, a + 1 := ucast (drop_bit 8 v),
     a + 2 := ucast (drop_bit 16 v), a + 3 := ucast (drop_bit 24 v))"

text \<open>\<open>within b n x\<close>: the byte \<open>x\<close> lies in the \<open>n\<close> bytes from \<open>b\<close> on, modulo \<open>2^32\<close>.\<close>

definition within :: "u32 \<Rightarrow> u32 \<Rightarrow> u32 \<Rightarrow> bool" where
  "within b n x \<longleftrightarrow> x - b < n"

definition apart32 :: "u32 \<Rightarrow> u32 \<Rightarrow> bool" where
  "apart32 a b \<longleftrightarrow> 4 \<le> a - b \<and> 4 \<le> b - a"

lemma word_less_4_cases: "(d :: u32) < 4 \<longleftrightarrow> d = 0 \<or> d = 1 \<or> d = 2 \<or> d = 3"
proof -
  have "unat d < 4 \<longleftrightarrow> unat d = 0 \<or> unat d = 1 \<or> unat d = 2 \<or> unat d = 3"
    by arith
  then show ?thesis
    by (simp add: word_less_nat_alt word_unat_eq_iff)
qed

lemma store32_outside: "\<not> within a 4 x \<Longrightarrow> store32 m a v x = m x"
proof -
  assume "\<not> within a 4 x"
  then have "x - a \<noteq> 0 \<and> x - a \<noteq> 1 \<and> x - a \<noteq> 2 \<and> x - a \<noteq> 3"
    by (simp add: within_def word_less_4_cases)
  then have "x \<noteq> a \<and> x \<noteq> a + 1 \<and> x \<noteq> a + 2 \<and> x \<noteq> a + 3"
    by auto
  then show ?thesis by (simp add: store32_def)
qed

lemma load32_cong: "(\<And>x. within a 4 x \<Longrightarrow> m x = m' x) \<Longrightarrow> load32 m a = load32 m' a"
  by (simp add: load32_def within_def)

lemma load32_store32_same: "load32 (store32 m a v) a = v"
proof (rule bit_word_eqI)
  fix n :: nat
  assume "n < LENGTH(32)"
  then have "n < 8 \<or> (8 \<le> n \<and> n < 16) \<or> (16 \<le> n \<and> n < 24) \<or> (24 \<le> n \<and> n < 32)"
    by auto
  then show "bit (load32 (store32 m a v) a) n = bit v n"
    by (auto simp: load32_def store32_def bit_or_iff bit_push_bit_iff bit_ucast_iff bit_drop_bit_eq)
qed

lemma apart32_outside: "apart32 a b \<Longrightarrow> within b 4 x \<Longrightarrow> \<not> within a 4 x"
proof
  assume ap: "apart32 a b" and b: "within b 4 x" and a: "within a 4 x"
  have eq: "a - b = (x - b) - (x - a)" "b - a = (x - a) - (x - b)"
    by simp_all
  show False
    using a b ap unfolding apart32_def within_def word_less_4_cases eq
    by (elim disjE) (auto simp: word_le_nat_alt)
qed

lemma load32_store32_apart: "apart32 a b \<Longrightarrow> load32 (store32 m a v) b = load32 m b"
  by (rule load32_cong) (simp add: apart32_outside store32_outside)

lemma apart32_of_nat:
  assumes "a + 4 \<le> 4294967296" "b + 4 \<le> 4294967296" "a + 4 \<le> b \<or> b + 4 \<le> a"
  shows "apart32 (of_nat a) (of_nat b)"
proof -
  have lt: "unat (of_nat a - of_nat b :: u32) = (if b \<le> a then a - b else 4294967296 - (b - a))"
    if "a < 4294967296" "b < 4294967296" for a b
    using that by (auto simp: unat_sub_if' unat_of_nat32)
  show ?thesis
    using assms lt [of a b] lt [of b a]
    by (auto simp: apart32_def word_le_nat_alt split: if_splits)
qed

section \<open>The memory interface\<close>

text \<open>
  A memory of 32-bit words, and what its clients may rely on. Block headers are four words at
  16-byte aligned addresses: \<open>header a\<close> says that \<open>a\<close> can be the address of one.
\<close>

definition header :: "nat \<Rightarrow> bool" where
  "header a \<longleftrightarrow> 16 dvd a \<and> 0 < a \<and> a < 4294967296"

lemma header_bound [dest]: "header a \<Longrightarrow> a < 4294967296"
  by (simp add: header_def)

lemma header_room: "header a \<Longrightarrow> a + 16 \<le> 4294967296"
proof -
  assume "header a"
  then obtain k where "a = 16 * k" "a < 4294967296" by (auto simp: header_def dvd_def)
  then show ?thesis by simp
qed

lemma header_spacing: "header a \<Longrightarrow> header b \<Longrightarrow> a < b \<Longrightarrow> a + 16 \<le> b"
proof -
  assume "header a" "header b" "a < b"
  then obtain j k where "a = 16 * j" "b = 16 * k" "a < b"
    by (auto simp: header_def dvd_def)
  then show ?thesis by simp
qed

locale word_memory =
  fixes ld :: "'m \<Rightarrow> u32 \<Rightarrow> u32"
    and st :: "'m \<Rightarrow> u32 \<Rightarrow> u32 \<Rightarrow> 'm"
  assumes ld_st_same: "ld (st m a v) a = v"
    and ld_st_apart: "apart32 a b \<Longrightarrow> ld (st m a v) b = ld m b"
begin

text \<open>Two different fields, of the same header or of two headers, do not interfere.\<close>

lemma field_other:
  assumes "header a" "header b" "i < 4" "j < 4" "(a, i) \<noteq> (b, j)"
  shows "ld (st m (of_nat a + of_nat (4 * i)) v) (of_nat b + of_nat (4 * j)) =
         ld m (of_nat b + of_nat (4 * j))"
proof -
  have "a + 4 * i + 4 \<le> b + 4 * j \<or> b + 4 * j + 4 \<le> a + 4 * i"
  proof (cases "a = b")
    case True
    with assms have "i < j \<or> j < i" by auto
    with True show ?thesis by auto
  next
    case False
    then have "a < b \<or> b < a" by auto
    then show ?thesis
      using header_spacing [of a b] header_spacing [of b a] assms by auto
  qed
  then have "apart32 (of_nat (a + 4 * i)) (of_nat (b + 4 * j))"
    using assms header_room [of a] header_room [of b] by (intro apart32_of_nat) auto
  then have "apart32 (of_nat a + of_nat (4 * i)) (of_nat b + of_nat (4 * j))"
    by (simp only: of_nat_add)
  then show ?thesis by (rule ld_st_apart)
qed

end

interpretation phys: word_memory load32 store32
  by unfold_locales (auto simp: load32_store32_same load32_store32_apart)

section \<open>Untouched bytes\<close>

text \<open>
  \<open>same_outside H m m'\<close>: the two memories agree on every byte that is not in the 16-byte header
  of a block of \<open>H\<close>. This is the footprint of the allocator's operations.
\<close>

definition same_outside :: "nat set \<Rightarrow> memory \<Rightarrow> memory \<Rightarrow> bool" where
  "same_outside H m m' \<longleftrightarrow> (\<forall>x. (\<forall>h \<in> H. \<not> within (of_nat h) 16 x) \<longrightarrow> m' x = m x)"

lemma same_outside_refl [simp, intro]: "same_outside H m m"
  by (simp add: same_outside_def)

lemma same_outside_trans:
  "same_outside H m m' \<Longrightarrow> same_outside K m' m'' \<Longrightarrow> same_outside (H \<union> K) m m''"
  by (simp add: same_outside_def)

lemma same_outside_mono: "same_outside H m m' \<Longrightarrow> H \<subseteq> K \<Longrightarrow> same_outside K m m'"
  by (auto simp: same_outside_def)

lemma within_of_nat:
  "h + n \<le> 4294967296 \<Longrightarrow> n < 4294967296 \<Longrightarrow> h < 4294967296 \<Longrightarrow>
     within (of_nat h) (of_nat n) x \<longleftrightarrow> h \<le> unat x \<and> unat x < h + n"
  by (auto simp: within_def word_less_nat_alt unat_sub_if' unat_of_nat32)

lemma within_header: "header h \<Longrightarrow> within (of_nat h) 16 x \<longleftrightarrow> h \<le> unat x \<and> unat x < h + 16"
  using within_of_nat [of h 16 x] header_room [of h] header_bound [of h] by simp

lemma within_word:
  "header h \<Longrightarrow> i < 4 \<Longrightarrow> within (of_nat h + of_nat (4 * i)) 4 x \<longleftrightarrow>
     h + 4 * i \<le> unat x \<and> unat x < h + 4 * i + 4"
  using within_of_nat [of "h + 4 * i" 4 x] header_room [of h] by simp

lemma store32_same_outside:
  assumes "header h" "i < 4"
  shows "same_outside {h} m (store32 m (of_nat h + of_nat (4 * i)) v)"
  unfolding same_outside_def
proof (intro allI impI)
  fix x
  assume "\<forall>h' \<in> {h}. \<not> within (of_nat h') 16 x"
  then have "\<not> within (of_nat h + of_nat (4 * i)) 4 x"
    using assms by (simp add: within_header within_word del: of_nat_mult of_nat_add) arith
  then show "store32 m (of_nat h + of_nat (4 * i)) v x = m x"
    by (rule store32_outside)
qed

lemma same_outside_load32:
  assumes "same_outside H m m'" "\<And>h. h \<in> H \<Longrightarrow> header h" "header b" "b \<notin> H" "i < 4"
  shows "load32 m' (of_nat b + of_nat (4 * i)) = load32 m (of_nat b + of_nat (4 * i))"
proof (rule load32_cong)
  fix x
  assume "within (of_nat b + of_nat (4 * i)) 4 x"
  then have x: "b \<le> unat x" "unat x < b + 16"
    using assms(3,5) by (simp_all add: within_word del: of_nat_mult of_nat_add)
  have "\<not> within (of_nat h) 16 x" if "h \<in> H" for h
  proof -
    have "h \<noteq> b" "header h" using that assms by auto
    then have "h + 16 \<le> b \<or> b + 16 \<le> h"
      using header_spacing [of h b] header_spacing [of b h] assms(3) by (cases "h < b") auto
    then show ?thesis using x \<open>header h\<close> by (auto simp: within_header)
  qed
  then show "m' x = m x" using assms(1) by (simp add: same_outside_def)
qed

section \<open>Byte loops\<close>

text \<open>
  \<open>for (size_t i = 0; i < n; i++) dst[i] = src[i];\<close> and its two relatives, from the counter \<open>i\<close>
  on. Copying reads and writes the same memory, so overlapping buffers behave as in C.
\<close>

lemma word_Suc_measure: "(i :: u32) < n \<Longrightarrow> unat n - unat (i + 1) < unat n - unat i"
proof -
  assume "i < n"
  then have "unat i < unat n" by (simp add: word_less_nat_alt)
  with unat32_Suc [OF \<open>i < n\<close>] show ?thesis by simp
qed

lemma word_Suc_measure_max: "(i :: u32) < n \<Longrightarrow> 4294967296 - unat (i + 1) < 4294967296 - unat i"
  using unat32_bound [of i] by (simp add: unat32_Suc del: unat32_bound)

function copy_up :: "memory \<Rightarrow> u32 \<Rightarrow> u32 \<Rightarrow> u32 \<Rightarrow> u32 \<Rightarrow> memory" where
  "copy_up m dst src n i =
     (if i < n then copy_up (m(dst + i := m (src + i))) dst src n (i + 1) else m)"
  by pat_completeness auto
termination
  by (relation "measure (\<lambda>(m, dst, src, n, i). unat n - unat i)") (auto simp: word_Suc_measure)

function copy_down :: "memory \<Rightarrow> u32 \<Rightarrow> u32 \<Rightarrow> u32 \<Rightarrow> memory" where
  "copy_down m dst src i =
     (if i \<noteq> 0 then copy_down (m(dst + (i - 1) := m (src + (i - 1)))) dst src (i - 1) else m)"
  by pat_completeness auto
termination
  by (relation "measure (\<lambda>(m, dst, src, i). unat i)") (auto simp: unat_minus_one unat_gt_0)

function fill_up :: "memory \<Rightarrow> u32 \<Rightarrow> u8 \<Rightarrow> u32 \<Rightarrow> u32 \<Rightarrow> memory" where
  "fill_up m buf v n i = (if i < n then fill_up (m(buf + i := v)) buf v n (i + 1) else m)"
  by pat_completeness auto
termination
  by (relation "measure (\<lambda>(m, buf, v, n, i). unat n - unat i)") (auto simp: word_Suc_measure)

declare copy_up.simps [simp del] copy_down.simps [simp del] fill_up.simps [simp del]

lemma word_between_Suc:
  "(i :: u32) < n \<Longrightarrow> i \<le> d \<and> d < n \<longleftrightarrow> d = i \<or> (i + 1 \<le> d \<and> d < n)"
proof -
  assume "i < n"
  then have "unat (i + 1) = unat i + 1" by (rule unat32_Suc)
  with \<open>i < n\<close> show ?thesis
    by (auto simp: word_less_nat_alt word_le_nat_alt word_unat_eq_iff)
qed

lemma fill_up_apply:
  "fill_up m buf v n i x = (if i \<le> x - buf \<and> x - buf < n then v else m x)"
proof (induction m buf v n i rule: fill_up.induct)
  case (1 m buf v n i)
  show ?case
  proof (cases "i < n")
    case True
    have "x - buf = i \<longleftrightarrow> x = buf + i" by auto
    with True show ?thesis
      by (subst fill_up.simps) (simp add: "1.IH" [OF True] word_between_Suc)
  next
    case False
    then have "\<not> (i \<le> x - buf \<and> x - buf < n)" by auto
    then show ?thesis using False by (subst fill_up.simps) auto
  qed
qed

text \<open>
  A forward copy is right when no byte still to be read is overwritten before it is read.
\<close>

lemma copy_up_apply:
  assumes "\<And>j k. i \<le> j \<Longrightarrow> j < k \<Longrightarrow> k < n \<Longrightarrow> dst + j \<noteq> src + k"
  shows "copy_up m dst src n i x =
     (if i \<le> x - dst \<and> x - dst < n then m (src + (x - dst)) else m x)"
  using assms
proof (induction m dst src n i rule: copy_up.induct)
  case (1 m dst src n i)
  show ?case
  proof (cases "i < n")
    case True
    then have Suc_i: "unat (i + 1) = unat i + 1" by (rule unat32_Suc)
    then have le: "i + 1 \<le> j \<longleftrightarrow> i < j" for j
      by (auto simp: word_less_nat_alt word_le_nat_alt)
    let ?m = "m(dst + i := m (src + i))"
    have IH: "copy_up ?m dst src n (i + 1) x =
        (if i + 1 \<le> x - dst \<and> x - dst < n then ?m (src + (x - dst)) else ?m x)"
      by (rule "1.IH" [OF True]) (use "1.prems" le in auto)
    have "src + (x - dst) \<noteq> dst + i" if "i < x - dst" "x - dst < n"
      using "1.prems" [of i "x - dst"] that by fastforce
    moreover have "x - dst = i \<longleftrightarrow> x = dst + i" by auto
    ultimately show ?thesis
      using True by (subst copy_up.simps) (auto simp: IH word_between_Suc le)
  next
    case False
    then have "\<not> (i \<le> x - dst \<and> x - dst < n)" by auto
    then show ?thesis using False by (subst copy_up.simps) auto
  qed
qed

lemma copy_down_apply:
  assumes "\<And>j k. j < k \<Longrightarrow> k < i \<Longrightarrow> dst + k \<noteq> src + j"
  shows "copy_down m dst src i x = (if x - dst < i then m (src + (x - dst)) else m x)"
  using assms
proof (induction m dst src i rule: copy_down.induct)
  case (1 m dst src i)
  show ?case
  proof (cases "i = 0")
    case True
    then show ?thesis by (subst copy_down.simps) simp
  next
    case False
    then have pred: "unat (i - 1) = unat i - 1" "0 < unat i"
      by (simp_all add: unat_minus_one unat_gt_0)
    then have lt: "j < i \<longleftrightarrow> j = i - 1 \<or> j < i - 1" for j
      by (auto simp: word_less_nat_alt word_unat_eq_iff)
    let ?m = "m(dst + (i - 1) := m (src + (i - 1)))"
    have IH: "copy_down ?m dst src (i - 1) x =
        (if x - dst < i - 1 then ?m (src + (x - dst)) else ?m x)"
      by (rule "1.IH" [OF False]) (use "1.prems" lt in auto)
    have "src + (x - dst) \<noteq> dst + (i - 1)" if "x - dst < i - 1"
      using "1.prems" [of "x - dst" "i - 1"] that lt by metis
    moreover have "x - dst = i - 1 \<longleftrightarrow> x = dst + (i - 1)" by (auto simp: algebra_simps)
    ultimately show ?thesis
      using False by (subst copy_down.simps) (auto simp: IH lt)
  qed
qed

end
