(* ===== verification/Kmalloc.thy ===== *)
theory Kmalloc
  imports Memory
begin

text \<open>
  The kernel heap of \<^verbatim>\<open>src/kernel/kmalloc.c\<close>: a first-fit allocator over one contiguous region
  \<open>[kheap_begin, kheap_end)\<close> of physical memory. Every block starts with a 16-byte header in
  that same memory; the free blocks are linked through their headers in address order. The
  definitions work on the byte memory exactly as the C code does, with all sizes and addresses
  32-bit words that wrap around. The debug output of the file is compiled out of the kernel
  (\<^verbatim>\<open>DEBUG\<close> is empty without \<^verbatim>\<open>ALIENOS_TEST\<close>) and is not part of the model; the locked entry
  points \<^verbatim>\<open>kmalloc\<close>, \<^verbatim>\<open>kcalloc\<close>, \<^verbatim>\<open>krealloc\<close>, \<^verbatim>\<open>kfree\<close> wrap the routines modelled here.
\<close>

section \<open>State\<close>

record km_stats =
  allocation_cnt :: u32
  allocation_bytes :: u32
  free_cnt :: u32
  free_bytes :: u32

record km_state =
  mem :: memory
  kheap_begin :: u32
  kheap_end :: u32
  kheap_max_end :: u32
  enable_debug_print :: bool
  kmalloc_stats :: km_stats
  free_list :: u32
  kmalloc_inited :: bool

abbreviation KMALLOC_PAGESIZE :: u32 where "KMALLOC_PAGESIZE \<equiv> 4096"
abbreviation KMALLOC_ALIGNMENT :: u32 where "KMALLOC_ALIGNMENT \<equiv> 16"
abbreviation KMALLOC_HEAP_INIT_SIZE :: u32 where "KMALLOC_HEAP_INIT_SIZE \<equiv> 16384"
abbreviation KMALLOC_MAX_INTERNAL_FRAG :: u32 where "KMALLOC_MAX_INTERNAL_FRAG \<equiv> 16"
abbreviation KMALLOC_MAGIC :: u32 where "KMALLOC_MAGIC \<equiv> 0xF00BA700"
abbreviation sizeof_km_block_header_t :: u32 where "sizeof_km_block_header_t \<equiv> 16"

definition KMALLOC_ALIGN :: "u32 \<Rightarrow> u32 \<Rightarrow> u32" where
  "KMALLOC_ALIGN x align = ((x + align - 1) div align) * align"

definition kmalloc_enabledebug :: "km_state \<Rightarrow> km_state" where
  "kmalloc_enabledebug s = s\<lparr>enable_debug_print := True\<rparr>"

definition kmalloc_disabledebug :: "km_state \<Rightarrow> km_state" where
  "kmalloc_disabledebug s = s\<lparr>enable_debug_print := False\<rparr>"

section \<open>Block headers\<close>

text \<open>
  \<^verbatim>\<open>km_block_header_t\<close>: the word at offset 0 is \<^verbatim>\<open>metadata\<close> (size in the upper 28 bits, flags in
  the lower four), at offset 4 \<^verbatim>\<open>next\<close>, at offset 8 \<^verbatim>\<open>pad[0]\<close> (the magic number) and at offset 12
  \<^verbatim>\<open>pad[1]\<close> (unused).
\<close>

definition km_metadata :: "memory \<Rightarrow> u32 \<Rightarrow> u32" where
  "km_metadata m block = load32 m block"

definition km_next :: "memory \<Rightarrow> u32 \<Rightarrow> u32" where
  "km_next m block = load32 m (block + 4)"

definition km_set_next :: "memory \<Rightarrow> u32 \<Rightarrow> u32 \<Rightarrow> memory" where
  "km_set_next m block v = store32 m (block + 4) v"

definition km_getsize :: "memory \<Rightarrow> u32 \<Rightarrow> u32" where
  "km_getsize m block = km_metadata m block AND NOT 15"

definition km_setsize :: "memory \<Rightarrow> u32 \<Rightarrow> u32 \<Rightarrow> memory" where
  "km_setsize m block sz = store32 m block ((km_metadata m block AND 15) OR sz)"

definition km_isalloc :: "memory \<Rightarrow> u32 \<Rightarrow> bool" where
  "km_isalloc m block \<longleftrightarrow> km_metadata m block AND 1 \<noteq> 0"

definition km_setalloc :: "memory \<Rightarrow> u32 \<Rightarrow> memory" where
  "km_setalloc m block = store32 m block ((km_metadata m block AND NOT 1) OR 1)"

definition km_clearalloc :: "memory \<Rightarrow> u32 \<Rightarrow> memory" where
  "km_clearalloc m block = store32 m block (km_metadata m block AND NOT 1)"

definition km_checkmagic :: "memory \<Rightarrow> u32 \<Rightarrow> bool" where
  "km_checkmagic m block \<longleftrightarrow> load32 m (block + 8) = KMALLOC_MAGIC"

definition km_setmagic :: "memory \<Rightarrow> u32 \<Rightarrow> memory" where
  "km_setmagic m block = store32 m (block + 8) KMALLOC_MAGIC"

definition km_initblock :: "memory \<Rightarrow> u32 \<Rightarrow> u32 \<Rightarrow> memory" where
  "km_initblock m block sz = km_setmagic (km_clearalloc (km_setsize m block sz) block) block"

section \<open>The free list\<close>

definition km_coalesce :: "memory \<Rightarrow> u32 \<Rightarrow> memory" where
  "km_coalesce m block =
     (if km_next m block \<noteq> 0 \<and> block + km_getsize m block = km_next m block then
        let m1 = km_setsize m block (km_getsize m block + km_getsize m (km_next m block))
        in km_set_next m1 block (km_next m1 (km_next m1 block))
      else m)"

text \<open>The loop of \<^verbatim>\<open>km_insert\<close>, from the current values of \<^verbatim>\<open>prev\<close> and \<^verbatim>\<open>next\<close>.\<close>

partial_function (option) km_insert_walk :: "memory \<Rightarrow> u32 \<Rightarrow> u32 \<Rightarrow> u32 \<Rightarrow> (u32 \<times> u32) option" where
  "km_insert_walk m block prev nxt =
     (if nxt \<noteq> 0 \<and> nxt < block then km_insert_walk m block nxt (km_next m nxt)
      else Some (prev, nxt))"

definition km_insert :: "km_state \<Rightarrow> u32 \<Rightarrow> km_state outcome" where
  "km_insert s block =
     (if block = 0 then Inr s
      else if free_list s = 0 \<or> block < free_list s then
        Inr (s\<lparr>mem := km_coalesce (km_set_next (mem s) block (free_list s)) block,
               free_list := block\<rparr>)
      else
        andthen (settle (km_insert_walk (mem s) block (free_list s) (km_next (mem s) (free_list s))))
          (\<lambda>(prev, nxt).
        andthen (kernel_assert (km_next (mem s) prev = nxt)
          ''km_insert(): mismatch prev/next (%x,%x)'') (\<lambda>_.
        andthen (kernel_assert (prev + km_getsize (mem s) prev \<le> block)
          ''km_insert(): prev is not before block (%x,%x)'') (\<lambda>_.
        andthen (kernel_assert (nxt = 0 \<or> block + km_getsize (mem s) block \<le> nxt)
          ''km_insert(): next is not after block (%x,%x)'') (\<lambda>_.
        let m1 = km_set_next (mem s) block nxt;
            m2 = km_set_next m1 prev block;
            m3 = km_coalesce m2 block
        in Inr (s\<lparr>mem := km_coalesce m3 prev\<rparr>))))))"

definition km_extend :: "km_state \<Rightarrow> u32 \<Rightarrow> (u32 \<times> km_state) outcome" where
  "km_extend s sz =
     (let block_size = KMALLOC_ALIGN sz KMALLOC_PAGESIZE;
          block_begin = kheap_end s;
          s1 = s\<lparr>kheap_end := kheap_end s + block_size\<rparr>
      in if kheap_max_end s1 < kheap_end s1 then kernel_panic ''km_extend(): out of memory''
         else Inr (block_begin, s1\<lparr>mem := km_initblock (mem s1) block_begin block_size\<rparr>))"

partial_function (option) km_find_walk :: "memory \<Rightarrow> u32 \<Rightarrow> u32 \<Rightarrow> u32 \<Rightarrow> (u32 \<times> u32) option" where
  "km_find_walk m sz prev cur =
     (if cur \<noteq> 0 \<and> km_getsize m cur < sz then km_find_walk m sz cur (km_next m cur)
      else Some (prev, cur))"

definition km_find :: "km_state \<Rightarrow> u32 \<Rightarrow> (u32 \<times> km_state) outcome" where
  "km_find s sz =
     andthen (settle (km_find_walk (mem s) sz 0 (free_list s))) (\<lambda>(prev, cur).
       if cur = 0 then km_extend s sz
       else
         let s1 = (if prev = 0 then s\<lparr>free_list := km_next (mem s) cur\<rparr>
                   else s\<lparr>mem := km_set_next (mem s) prev (km_next (mem s) cur)\<rparr>)
         in Inr (cur, s1\<lparr>mem := km_set_next (mem s1) cur 0\<rparr>))"

definition km_split :: "km_state \<Rightarrow> u32 \<Rightarrow> u32 \<Rightarrow> (u32 \<times> km_state) outcome" where
  "km_split s block sz =
     (if km_getsize (mem s) block < sz + KMALLOC_MAX_INTERNAL_FRAG then Inr (block, s)
      else
        let split_block = block + sz;
            s1 = s\<lparr>mem := km_initblock (mem s) split_block (km_getsize (mem s) block - sz)\<rparr>
        in andthen (km_insert s1 split_block) (\<lambda>s2.
             Inr (block, s2\<lparr>mem := km_setsize (mem s2) block sz\<rparr>)))"

section \<open>Initialisation\<close>

text \<open>
  The boot loader leaves a multiboot information structure in memory: \<^verbatim>\<open>flags\<close> at offset 0,
  \<^verbatim>\<open>mmap_length\<close> at 44 and \<^verbatim>\<open>mmap_addr\<close> at 48. Each packed memory-map entry has \<^verbatim>\<open>size\<close> at offset 0,
  the 64-bit \<^verbatim>\<open>addr\<close> at 4 and \<^verbatim>\<open>len\<close> at 12 (of which the code keeps the low 32 bits) and \<^verbatim>\<open>type\<close>
  at 20. The address of the linker symbol \<^verbatim>\<open>kernel_end\<close> is a parameter.
\<close>

partial_function (option) mmap_scan :: "memory \<Rightarrow> u32 \<Rightarrow> u32 \<Rightarrow> u32 \<Rightarrow> u32 option option" where
  "mmap_scan m kernel_end limit mmap =
     (if mmap < limit then
        let start = load32 m (mmap + 4); ende = start + load32 m (mmap + 12)
        in if load32 m (mmap + 20) = 1 \<and> start \<le> kernel_end \<and> kernel_end < ende
           then Some (Some ende)
           else mmap_scan m kernel_end limit (mmap + load32 m mmap + 4)
      else Some None)"

definition internal_read_multibootinfo :: "km_state \<Rightarrow> u32 \<Rightarrow> u32 \<Rightarrow> km_state outcome" where
  "internal_read_multibootinfo s mbinfo kernel_end =
     andthen (kernel_assert (load32 (mem s) mbinfo AND 0x40 \<noteq> 0)
       ''kmalloc_init(): mmap unavailable'') (\<lambda>_.
     let mmap_length = load32 (mem s) (mbinfo + 44); mmap_addr = load32 (mem s) (mbinfo + 48) in
     andthen (settle (mmap_scan (mem s) kernel_end (mmap_addr + mmap_length) mmap_addr)) (\<lambda>found.
       case found of
         None \<Rightarrow> kernel_panic ''kmalloc_init(): failed to find valid memory block''
       | Some ende \<Rightarrow> Inr (s\<lparr>kheap_max_end := ende\<rparr>)))"

text \<open>
  \<^verbatim>\<open>kmalloc_init\<close> up to the initialisation of the lock, which belongs to the thread system.
\<close>

definition kmalloc_init_heap :: "km_state \<Rightarrow> bool \<Rightarrow> u32 \<Rightarrow> u32 \<Rightarrow> km_state outcome" where
  "kmalloc_init_heap s interrupts mbinfo kernel_end =
     andthen (kernel_assert (\<not> interrupts) ''kmalloc_init(): interrupts are enabled'') (\<lambda>_.
     andthen (kernel_assert (sizeof_km_block_header_t = 16)
       ''kmalloc_init(): km_block_header_t is not 16 bytes'') (\<lambda>_.
     andthen (kernel_assert (\<not> kmalloc_inited s) ''kmalloc_init(): already initialized'') (\<lambda>_.
     andthen (internal_read_multibootinfo (s\<lparr>kmalloc_inited := True\<rparr>) mbinfo kernel_end) (\<lambda>s1.
     let kbegin = KMALLOC_ALIGN kernel_end KMALLOC_PAGESIZE;
         s2 = s1\<lparr>kheap_begin := kbegin, kheap_end := kbegin\<rparr>
     in andthen (km_extend s2 KMALLOC_HEAP_INIT_SIZE) (\<lambda>(block, s3). km_insert s3 block)))))"

section \<open>Allocation, reallocation, release\<close>

definition request_size :: "u32 \<Rightarrow> u32" where
  "request_size sz = KMALLOC_ALIGN (sz + sizeof_km_block_header_t) KMALLOC_ALIGNMENT"

definition kmalloc_unsafe :: "km_state \<Rightarrow> u32 \<Rightarrow> (u32 \<times> km_state) outcome" where
  "kmalloc_unsafe s sz =
     (let target_size = request_size sz in
      andthen (km_find s target_size) (\<lambda>(block, s1).
        if block = 0 then Inr (0, s1)
        else
          andthen (km_split s1 block target_size) (\<lambda>(block, s2).
            let m = km_setalloc (mem s2) block;
                st = kmalloc_stats s2
            in Inr (block + sizeof_km_block_header_t,
                    s2\<lparr>mem := m,
                       kmalloc_stats := st\<lparr>allocation_cnt := allocation_cnt st + 1,
                         allocation_bytes := allocation_bytes st + km_getsize m block\<rparr>\<rparr>))))"

definition kcalloc_unsafe :: "km_state \<Rightarrow> u32 \<Rightarrow> u32 \<Rightarrow> (u32 \<times> km_state) outcome" where
  "kcalloc_unsafe s nelems elemsize =
     (let bytes = nelems * elemsize in
      andthen (kmalloc_unsafe s bytes) (\<lambda>(p, s1).
        if p = 0 \<and> 0 < bytes then Inl NullDeref
        else Inr (p, s1\<lparr>mem := fill_up (mem s1) p 0 bytes 0\<rparr>)))"

definition kfree_unsafe :: "km_state \<Rightarrow> u32 \<Rightarrow> km_state outcome" where
  "kfree_unsafe s ptr =
     (if ptr = 0 then Inr s
      else
        let block = ptr - sizeof_km_block_header_t in
        andthen (kernel_assert (km_checkmagic (mem s) block) ''kfree() - Bad pointer.'') (\<lambda>_.
        andthen (kernel_assert (km_isalloc (mem s) block) ''kfree() - Unallocated memory.'') (\<lambda>_.
        let st = kmalloc_stats s;
            s1 = s\<lparr>kmalloc_stats := st\<lparr>free_bytes := free_bytes st + km_getsize (mem s) block,
                                        free_cnt := free_cnt st + 1\<rparr>\<rparr>
        in km_insert (s1\<lparr>mem := km_clearalloc (mem s1) block\<rparr>) block)))"

text \<open>
  The copying loop of \<^verbatim>\<open>_krealloc_unsafe\<close>; its bound is read from the old block's header in every
  iteration.
\<close>

function krealloc_copy :: "memory \<Rightarrow> u32 \<Rightarrow> u32 \<Rightarrow> u32 \<Rightarrow> u32 \<Rightarrow> memory" where
  "krealloc_copy m new_ptr ptr block i =
     (if i < km_getsize m block - sizeof_km_block_header_t
      then krealloc_copy (m(new_ptr + i := m (ptr + i))) new_ptr ptr block (i + 1) else m)"
  by pat_completeness auto
termination
  by (relation "measure (\<lambda>(m, new_ptr, ptr, block, i). 4294967296 - unat i)")
    (auto simp: word_Suc_measure_max)

declare krealloc_copy.simps [simp del]

partial_function (option) krealloc_walk :: "memory \<Rightarrow> u32 \<Rightarrow> u32 \<Rightarrow> u32 option" where
  "krealloc_walk m next_block cur =
     (if cur \<noteq> 0 \<and> km_next m cur \<noteq> next_block then krealloc_walk m next_block (km_next m cur)
      else Some cur)"

text \<open>Unlinking the block that follows the one being grown.\<close>

definition krealloc_unlink :: "km_state \<Rightarrow> u32 \<Rightarrow> km_state outcome" where
  "krealloc_unlink s next_block =
     (if free_list s = next_block then Inr (s\<lparr>free_list := km_next (mem s) next_block\<rparr>)
      else
        andthen (settle (krealloc_walk (mem s) next_block (free_list s))) (\<lambda>cur.
        andthen (kernel_assert (cur \<noteq> 0)
          ''krealloc() - Next block is unallocated but not in free list.'') (\<lambda>_.
        Inr (s\<lparr>mem := km_set_next (mem s) cur (km_next (mem s) next_block)\<rparr>))))"

definition krealloc_unsafe :: "km_state \<Rightarrow> u32 \<Rightarrow> u32 \<Rightarrow> (u32 \<times> km_state) outcome" where
  "krealloc_unsafe s ptr sz =
     (if ptr = 0 then kmalloc_unsafe s sz
      else if sz = 0 then andthen (kfree_unsafe s ptr) (\<lambda>s1. Inr (0, s1))
      else
        let target_size = request_size sz;
            block = ptr - sizeof_km_block_header_t in
        andthen (kernel_assert (km_checkmagic (mem s) block) ''krealloc() - Bad pointer.'') (\<lambda>_.
        andthen (kernel_assert (km_isalloc (mem s) block) ''krealloc() - Unallocated memory.'') (\<lambda>_.
        if target_size \<le> km_getsize (mem s) block then
          andthen (km_split s block target_size) (\<lambda>(new_block, s1).
            Inr (new_block + sizeof_km_block_header_t, s1))
        else
          let next_block = block + km_getsize (mem s) block in
          if next_block < kheap_end s \<and> \<not> km_isalloc (mem s) next_block \<and>
             target_size \<le> km_getsize (mem s) block + km_getsize (mem s) next_block then
            andthen (kernel_assert (km_checkmagic (mem s) next_block)
              ''krealloc() - Next block corrupted.'') (\<lambda>_.
            andthen (krealloc_unlink s next_block) (\<lambda>s1.
            let s2 = s1\<lparr>mem := km_setsize (mem s1) block
                        (km_getsize (mem s1) block + km_getsize (mem s1) next_block)\<rparr> in
            andthen (km_split s2 block target_size) (\<lambda>(_, s3).
              Inr (block + sizeof_km_block_header_t, s3))))
          else
            andthen (kmalloc_unsafe s sz) (\<lambda>(new_ptr, s1).
              if new_ptr = 0 then Inr (0, s1)
              else
                let s2 = s1\<lparr>mem := krealloc_copy (mem s1) new_ptr ptr block 0\<rparr> in
                andthen (kfree_unsafe s2 ptr) (\<lambda>s3. Inr (new_ptr, s3))))))"

definition kmalloc_getstats :: "km_state \<Rightarrow> km_stats" where
  "kmalloc_getstats s = kmalloc_stats s"

declare km_insert_walk.simps [code] km_find_walk.simps [code] mmap_scan.simps [code]
  krealloc_walk.simps [code]

end
