(* ===== verification/KmallocHeader.thy ===== *)
theory KmallocHeader
  imports Kmalloc
begin

text \<open>
  What the header routines of the allocator do to one header and to all others: field by field
  for the header they write, and through the footprint \<open>same_outside\<close> for every other one.
\<close>

named_theorems hdr_simps \<open>fields of a header after a header routine\<close>

section \<open>Sizes and flags in one word\<close>

lemma fifteen_mask: "(15 :: u32) = mask 4"
  by (simp add: mask_eq_exp_minus_1)

lemma aligned_low_bits: "16 dvd n \<Longrightarrow> (of_nat n :: u32) AND 15 = 0"
proof -
  assume "16 dvd n"
  then obtain k where "n = k * 16" by (auto simp: dvd_def)
  then have n: "(of_nat n :: u32) = push_bit 4 (of_nat k)" by (simp add: push_bit_eq_mult)
  show ?thesis
    unfolding n fifteen_mask
    by (rule bit_word_eqI) (simp add: bit_and_iff bit_push_bit_iff bit_mask_iff)
qed

lemma low_bits_clear: "v AND mask 4 = 0 \<Longrightarrow> bit (v :: u32) n \<Longrightarrow> \<not> n < 4"
  by (metis bit_and_iff bit_mask_iff bit_0_eq bot_apply bot_bool_def bit_imp_possible_bit)

lemma and_one_bit: "(x AND 1 \<noteq> 0) = bit (x :: u32) 0"
  by (simp add: and_one_eq odd_iff_mod_2_eq_one bit_0)

lemma size_of_flags_or:
  "v AND 15 = 0 \<Longrightarrow> ((x AND 15) OR v) AND NOT 15 = (v :: u32)"
  unfolding fifteen_mask
  by (rule bit_word_eqI)
    (auto simp: bit_and_iff bit_or_iff bit_not_iff bit_mask_iff dest: low_bits_clear)

lemma alloc_of_flags_or:
  "v AND 15 = 0 \<Longrightarrow> (((x AND 15) OR v) AND 1 \<noteq> 0) = (x AND 1 \<noteq> (0 :: u32))"
  unfolding and_one_bit fifteen_mask
  by (auto simp del: bit_0 simp: bit_and_iff bit_or_iff bit_mask_iff dest: low_bits_clear)

lemma size_of_set_flag: "(x AND NOT 1 OR 1) AND NOT 15 = (x :: u32) AND NOT 15"
  unfolding fifteen_mask
  by (rule bit_word_eqI) (auto simp: bit_and_iff bit_or_iff bit_not_iff bit_mask_iff bit_1_iff)

lemma size_of_clear_flag: "(x AND NOT 1) AND NOT 15 = (x :: u32) AND NOT 15"
  unfolding fifteen_mask
  by (rule bit_word_eqI) (auto simp: bit_and_iff bit_or_iff bit_not_iff bit_mask_iff bit_1_iff)

lemma alloc_of_set_flag: "(x AND NOT 1 OR 1) AND 1 \<noteq> (0 :: u32)"
  unfolding and_one_bit by (simp add: bit_or_iff bit_1_iff del: bit_0)

lemma alloc_of_clear_flag: "(x AND NOT 1) AND 1 = (0 :: u32)"
proof -
  have "\<not> ((x AND NOT 1) AND 1 \<noteq> (0 :: u32))"
    unfolding and_one_bit by (simp add: bit_and_iff bit_not_iff bit_1_iff del: bit_0)
  then show ?thesis by simp
qed

section \<open>Fields\<close>

lemma metadata_store [hdr_simps]:
  assumes "header a" "header b"
  shows "km_metadata (store32 m (of_nat a) v) (of_nat b) =
           (if a = b then v else km_metadata m (of_nat b))"
    and "km_next (store32 m (of_nat a) v) (of_nat b) = km_next m (of_nat b)"
    and "km_checkmagic (store32 m (of_nat a) v) (of_nat b) = km_checkmagic m (of_nat b)"
  using assms phys.field_other [of a b 0 0 m v] phys.field_other [of a b 0 1 m v]
    phys.field_other [of a b 0 2 m v]
  by (auto simp: km_metadata_def km_next_def km_checkmagic_def phys.ld_st_same)

lemma next_store [hdr_simps]:
  assumes "header a" "header b"
  shows "km_metadata (km_set_next m (of_nat a) v) (of_nat b) = km_metadata m (of_nat b)"
    and "km_next (km_set_next m (of_nat a) v) (of_nat b) =
           (if a = b then v else km_next m (of_nat b))"
    and "km_checkmagic (km_set_next m (of_nat a) v) (of_nat b) = km_checkmagic m (of_nat b)"
  using assms phys.field_other [of a b 1 0 m v] phys.field_other [of a b 1 1 m v]
    phys.field_other [of a b 1 2 m v]
  by (auto simp: km_metadata_def km_next_def km_set_next_def km_checkmagic_def phys.ld_st_same)

lemma magic_store [hdr_simps]:
  assumes "header a" "header b"
  shows "km_metadata (km_setmagic m (of_nat a)) (of_nat b) = km_metadata m (of_nat b)"
    and "km_next (km_setmagic m (of_nat a)) (of_nat b) = km_next m (of_nat b)"
    and "km_checkmagic (km_setmagic m (of_nat a)) (of_nat b) \<longleftrightarrow>
           a = b \<or> km_checkmagic m (of_nat b)"
  using assms phys.field_other [of a b 2 0 m KMALLOC_MAGIC]
    phys.field_other [of a b 2 1 m KMALLOC_MAGIC] phys.field_other [of a b 2 2 m KMALLOC_MAGIC]
  by (simp_all add: km_metadata_def km_next_def km_setmagic_def km_checkmagic_def)
    (cases "a = b"; simp add: phys.ld_st_same)

lemma size_alloc_next [hdr_simps]:
  assumes "header a" "header b"
  shows "km_getsize (km_set_next m (of_nat a) v) (of_nat b) = km_getsize m (of_nat b)"
    and "km_isalloc (km_set_next m (of_nat a) v) (of_nat b) = km_isalloc m (of_nat b)"
    and "km_getsize (km_setmagic m (of_nat a)) (of_nat b) = km_getsize m (of_nat b)"
    and "km_isalloc (km_setmagic m (of_nat a)) (of_nat b) = km_isalloc m (of_nat b)"
  using assms by (simp_all add: km_getsize_def km_isalloc_def hdr_simps)

lemma setsize_links [hdr_simps]:
  assumes "header a" "header b"
  shows "km_next (km_setsize m (of_nat a) v) (of_nat b) = km_next m (of_nat b)"
    and "km_checkmagic (km_setsize m (of_nat a) v) (of_nat b) = km_checkmagic m (of_nat b)"
  using assms by (simp_all add: km_setsize_def hdr_simps)

lemma setsize_fields [hdr_simps]:
  assumes "header a" "header b" "16 dvd n"
  shows "km_getsize (km_setsize m (of_nat a) (of_nat n)) (of_nat b) =
           (if a = b then of_nat n else km_getsize m (of_nat b))"
    and "km_isalloc (km_setsize m (of_nat a) (of_nat n)) (of_nat b) = km_isalloc m (of_nat b)"
  using assms aligned_low_bits [OF assms(3)]
  by (simp_all add: km_setsize_def km_getsize_def km_isalloc_def hdr_simps
      size_of_flags_or [simplified] alloc_of_flags_or [simplified])

lemma setalloc_fields [hdr_simps]:
  assumes "header a" "header b"
  shows "km_getsize (km_setalloc m (of_nat a)) (of_nat b) = km_getsize m (of_nat b)"
    and "km_isalloc (km_setalloc m (of_nat a)) (of_nat b) \<longleftrightarrow> a = b \<or> km_isalloc m (of_nat b)"
    and "km_next (km_setalloc m (of_nat a)) (of_nat b) = km_next m (of_nat b)"
    and "km_checkmagic (km_setalloc m (of_nat a)) (of_nat b) = km_checkmagic m (of_nat b)"
  using assms
  by (auto simp: km_setalloc_def km_getsize_def km_isalloc_def hdr_simps
      size_of_set_flag [simplified] alloc_of_set_flag [simplified])

lemma clearalloc_fields [hdr_simps]:
  assumes "header a" "header b"
  shows "km_getsize (km_clearalloc m (of_nat a)) (of_nat b) = km_getsize m (of_nat b)"
    and "km_isalloc (km_clearalloc m (of_nat a)) (of_nat b) \<longleftrightarrow> a \<noteq> b \<and> km_isalloc m (of_nat b)"
    and "km_next (km_clearalloc m (of_nat a)) (of_nat b) = km_next m (of_nat b)"
    and "km_checkmagic (km_clearalloc m (of_nat a)) (of_nat b) = km_checkmagic m (of_nat b)"
  using assms
  by (auto simp: km_clearalloc_def km_getsize_def km_isalloc_def hdr_simps
      size_of_clear_flag [simplified] alloc_of_clear_flag [simplified])

lemma initblock_fields [hdr_simps]:
  assumes "header a" "header b" "16 dvd n"
  shows "km_getsize (km_initblock m (of_nat a) (of_nat n)) (of_nat b) =
           (if a = b then of_nat n else km_getsize m (of_nat b))"
    and "km_isalloc (km_initblock m (of_nat a) (of_nat n)) (of_nat b) \<longleftrightarrow>
           a \<noteq> b \<and> km_isalloc m (of_nat b)"
    and "km_next (km_initblock m (of_nat a) (of_nat n)) (of_nat b) = km_next m (of_nat b)"
    and "km_checkmagic (km_initblock m (of_nat a) (of_nat n)) (of_nat b) \<longleftrightarrow>
           a = b \<or> km_checkmagic m (of_nat b)"
  using assms by (simp_all add: km_initblock_def hdr_simps)

section \<open>Footprints\<close>

lemma set_next_footprint [frame_simps]: "header a \<Longrightarrow> same_outside {a} m (km_set_next m (of_nat a) v)"
  using store32_same_outside [of a 1 m v] by (simp add: km_set_next_def)

lemma setsize_footprint [frame_simps]: "header a \<Longrightarrow> same_outside {a} m (km_setsize m (of_nat a) v)"
  using store32_same_outside [of a 0 m] by (simp add: km_setsize_def)

lemma setalloc_footprint [frame_simps]: "header a \<Longrightarrow> same_outside {a} m (km_setalloc m (of_nat a))"
  using store32_same_outside [of a 0 m] by (simp add: km_setalloc_def)

lemma clearalloc_footprint [frame_simps]:
  "header a \<Longrightarrow> same_outside {a} m (km_clearalloc m (of_nat a))"
  using store32_same_outside [of a 0 m] by (simp add: km_clearalloc_def)

lemma setmagic_footprint [frame_simps]: "header a \<Longrightarrow> same_outside {a} m (km_setmagic m (of_nat a))"
  using store32_same_outside [of a 2 m] by (simp add: km_setmagic_def)

lemma initblock_footprint [frame_simps]:
  assumes "header a"
  shows "same_outside {a} m (km_initblock m (of_nat a) v)"
proof -
  let ?m1 = "km_setsize m (of_nat a) v" and ?m2 = "km_clearalloc (km_setsize m (of_nat a) v) (of_nat a)"
  have "same_outside ({a} \<union> ({a} \<union> {a})) m (km_setmagic ?m2 (of_nat a))"
    using assms
    by (intro same_outside_trans [of _ m ?m1] same_outside_trans [of _ ?m1 ?m2] frame_simps)
  then show ?thesis by (simp add: km_initblock_def)
qed

text \<open>A header outside the footprint keeps all its fields.\<close>

lemma same_outside_header:
  assumes "same_outside H m m'" "\<And>h. h \<in> H \<Longrightarrow> header h" "header b" "b \<notin> H"
  shows "km_metadata m' (of_nat b) = km_metadata m (of_nat b)"
    and "km_getsize m' (of_nat b) = km_getsize m (of_nat b)"
    and "km_isalloc m' (of_nat b) = km_isalloc m (of_nat b)"
    and "km_next m' (of_nat b) = km_next m (of_nat b)"
    and "km_checkmagic m' (of_nat b) = km_checkmagic m (of_nat b)"
  using same_outside_load32 [OF assms, of 0] same_outside_load32 [OF assms, of 1]
    same_outside_load32 [OF assms, of 2]
  by (simp_all add: km_metadata_def km_next_def km_checkmagic_def km_getsize_def km_isalloc_def)

end
