(* ===== verification/KmallocList.thy ===== *)
theory KmallocList
  imports KmallocHeader
begin

text \<open>
  The free list. \<open>free_chain m p xs\<close> says that the headers linked from \<open>p\<close> are those of the
  blocks \<open>xs\<close>, each an address and a size. The abstract operation \<open>free_insert\<close> inserts a block
  in address order and joins it with the neighbours it touches; \<open>km_insert\<close> is shown to
  implement it, to finish, and to write to no byte outside the headers of the blocks involved.
\<close>

fun free_chain :: "memory \<Rightarrow> u32 \<Rightarrow> (nat \<times> nat) list \<Rightarrow> bool" where
  "free_chain m p [] \<longleftrightarrow> p = 0"
| "free_chain m p ((a, n) # xs) \<longleftrightarrow>
     p = of_nat a \<and> header a \<and> km_getsize m p = of_nat n \<and> free_chain m (km_next m p) xs"

text \<open>Address order with gaps: each block ends strictly before the next begins.\<close>

fun spaced :: "nat \<Rightarrow> (nat \<times> nat) list \<Rightarrow> bool" where
  "spaced lo [] \<longleftrightarrow> True"
| "spaced lo ((a, n) # xs) \<longleftrightarrow>
     lo < a \<and> 16 \<le> n \<and> 16 dvd n \<and> a + n < 4294967296 \<and> spaced (a + n) xs"

fun merge_next :: "nat \<times> nat \<Rightarrow> (nat \<times> nat) list \<Rightarrow> (nat \<times> nat) list" where
  "merge_next (a, n) ((b, k) # xs) = (if a + n = b then (a, n + k) # xs else (a, n) # (b, k) # xs)"
| "merge_next (a, n) [] = [(a, n)]"

fun free_insert :: "nat \<times> nat \<Rightarrow> (nat \<times> nat) list \<Rightarrow> (nat \<times> nat) list" where
  "free_insert (a, n) [] = [(a, n)]"
| "free_insert (a, n) ((b, k) # xs) =
     (if a < b then merge_next (a, n) ((b, k) # xs)
      else merge_next (b, k) (free_insert (a, n) xs))"

lemma free_chain_is_chain:
  "free_chain m p xs \<Longrightarrow> chain (km_next m) p (map (\<lambda>(a, n). of_nat a) xs)"
  by (induction xs arbitrary: p) (auto simp: addr_simps header_def)

lemma header_nonzero [addr_simps]: "header a \<Longrightarrow> (of_nat a :: u32) \<noteq> 0"
  by (auto simp: header_def of_nat32_zero)

lemma header_eq [addr_simps]: "header a \<Longrightarrow> header b \<Longrightarrow> (of_nat a :: u32) = of_nat b \<longleftrightarrow> a = b"
  by (simp add: of_nat32_eq header_bound)

lemma free_chain_header: "free_chain m p xs \<Longrightarrow> x \<in> fst ` set xs \<Longrightarrow> header x"
  by (induction xs arbitrary: p) force+

lemma free_chain_frame:
  assumes "same_outside H m m'" "\<And>h. h \<in> H \<Longrightarrow> header h" "H \<inter> fst ` set xs = {}"
    and "free_chain m p xs"
  shows "free_chain m' p xs"
  using assms(3,4)
proof (induction xs arbitrary: p)
  case Nil
  then show ?case by simp
next
  case (Cons x xs)
  obtain a n where x: "x = (a, n)" by force
  have a: "header a" "a \<notin> H" using Cons.prems x by auto
  show ?case
    using Cons x same_outside_header [OF assms(1,2) a] by auto
qed

lemma spaced_lower: "spaced lo xs \<Longrightarrow> x \<in> set xs \<Longrightarrow> lo < fst x"
  by (induction lo xs rule: spaced.induct) force+

lemma spaced_weaken: "spaced lo xs \<Longrightarrow> lo' \<le> lo \<Longrightarrow> spaced lo' xs"
  by (cases xs) auto

lemma spaced_notin: "spaced lo xs \<Longrightarrow> lo' \<le> lo \<Longrightarrow> lo' \<notin> fst ` set xs"
  using spaced_lower by fastforce

section \<open>Coalescing\<close>

lemma km_coalesce_chain:
  assumes b: "header b" "km_getsize m (of_nat b) = of_nat n" "16 dvd n" "b + n < 4294967296"
    and xs: "free_chain m (km_next m (of_nat b)) xs" "spaced lo xs" "b < b + n" "b \<le> lo"
    and below: "\<And>c k. (c, k) \<in> set xs \<Longrightarrow> b + n \<le> c"
  shows "free_chain (km_coalesce m (of_nat b)) (of_nat b) (merge_next (b, n) xs)"
    and "same_outside {b} m (km_coalesce m (of_nat b))"
    and "header h \<Longrightarrow> km_isalloc (km_coalesce m (of_nat b)) (of_nat h) = km_isalloc m (of_nat h)"
    and "header h \<Longrightarrow> km_checkmagic (km_coalesce m (of_nat b)) (of_nat h) = km_checkmagic m (of_nat h)"
proof -
  let ?m' = "km_coalesce m (of_nat b)"
  have "free_chain ?m' (of_nat b) (merge_next (b, n) xs) \<and> same_outside {b} m ?m' \<and>
     (header h \<longrightarrow> km_isalloc ?m' (of_nat h) = km_isalloc m (of_nat h) \<and>
       km_checkmagic ?m' (of_nat h) = km_checkmagic m (of_nat h))" for h
  proof (cases xs)
    case Nil
    then show ?thesis using xs b by (simp add: km_coalesce_def)
  next
    case (Cons x ys)
    obtain c k where x: "x = (c, k)" by force
    have c: "header c" "km_next m (of_nat b) = of_nat c" "km_getsize m (of_nat c) = of_nat k"
      "free_chain m (km_next m (of_nat c)) ys" "16 dvd k" "c + k < 4294967296" "spaced (c + k) ys"
      using xs Cons x by auto
    have sum: "of_nat b + km_getsize m (of_nat b) = (of_nat (b + n) :: u32)"
      using b by simp
    have touch: "of_nat b + km_getsize m (of_nat b) = (of_nat c :: u32) \<longleftrightarrow> b + n = c"
      unfolding sum using b c by (subst of_nat32_eq) auto
    show ?thesis
    proof (cases "b + n = c")
      case False
      then show ?thesis
        using b c touch xs Cons x by (simp add: km_coalesce_def)
    next
      case True
      let ?m1 = "km_setsize m (of_nat b) (of_nat (n + k))"
      have nk: "16 dvd n + k" using b c by simp
      have neq: "c \<noteq> b" using True xs by auto
      have size: "km_getsize m (of_nat b) + km_getsize m (of_nat c) = (of_nat (n + k) :: u32)"
        using b c by simp
      have m': "?m' = km_set_next ?m1 (of_nat b) (km_next m (of_nat c))"
        using True touch c b neq
        by (simp add: km_coalesce_def size header_nonzero Let_def hdr_simps)
      have foot: "same_outside {b} m ?m'"
        unfolding m' using same_outside_trans [of "{b}" m ?m1 "{b}"] b by (simp add: frame_simps)
      have "b \<notin> fst ` set ys"
        using c True xs by (intro spaced_notin [of "c + k"]) auto
      then have "free_chain ?m' (km_next m (of_nat c)) ys"
        using foot b c by (intro free_chain_frame [of "{b}" m ?m']) auto
      then have "free_chain ?m' (of_nat b) (merge_next (b, n) xs)"
        using True Cons x b nk by (simp add: m' hdr_simps del: of_nat_add)
      then show ?thesis
        using foot b nk by (simp add: m' hdr_simps del: of_nat_add)
    qed
  qed
  then show "free_chain ?m' (of_nat b) (merge_next (b, n) xs)" "same_outside {b} m ?m'"
    "header h \<Longrightarrow> km_isalloc ?m' (of_nat h) = km_isalloc m (of_nat h)"
    "header h \<Longrightarrow> km_checkmagic ?m' (of_nat h) = km_checkmagic m (of_nat h)"
    by auto
qed

section \<open>Insertion\<close>

text \<open>What a caller of \<open>km_insert\<close> owes: a block that overlaps no block of the list.\<close>

definition fits :: "nat \<Rightarrow> nat \<Rightarrow> (nat \<times> nat) list \<Rightarrow> bool" where
  "fits a n xs \<longleftrightarrow> header a \<and> 16 \<le> n \<and> 16 dvd n \<and> a + n < 4294967296 \<and>
     (\<forall>(c, k) \<in> set xs. a + n \<le> c \<or> c + k \<le> a)"

lemma spaced_merge_next:
  assumes "lo < a" "16 \<le> n" "16 dvd n" "a + n < 4294967296" "spaced lo' xs"
    and "\<And>c k. (c, k) \<in> set xs \<Longrightarrow> a + n \<le> c"
  shows "spaced lo (merge_next (a, n) xs)"
proof (cases xs)
  case Nil
  then show ?thesis using assms by simp
next
  case (Cons x ys)
  obtain c k where x: "x = (c, k)" by force
  have "a + n \<le> c" by (rule assms(6) [of c k]) (simp add: Cons x)
  then show ?thesis using assms(1-5) Cons x by (simp add: add.assoc [symmetric])
qed

lemma merge_next_head: "\<exists>n' ys. merge_next (a, n) xs = (a, n') # ys"
  by (cases "((a, n), xs)" rule: merge_next.cases) auto

lemma merge_next_gap: "p + t < c \<Longrightarrow> merge_next (p, t) (merge_next (c, k) xs) = (p, t) # merge_next (c, k) xs"
  using merge_next_head [of c k xs] by auto

lemma merge_next_above:
  assumes "(c, k) \<in> set (merge_next (a, n) xs)" "\<And>d j. (d, j) \<in> set xs \<Longrightarrow> a \<le> d"
  shows "a \<le> c"
proof (cases xs)
  case Nil
  then show ?thesis using assms by simp
next
  case (Cons x ys)
  then show ?thesis using assms by (cases x) (force split: if_splits)
qed

definition keeps_flags :: "memory \<Rightarrow> memory \<Rightarrow> bool" where
  "keeps_flags m m' \<longleftrightarrow> (\<forall>h. header h \<longrightarrow>
     km_isalloc m' (of_nat h) = km_isalloc m (of_nat h) \<and>
     km_checkmagic m' (of_nat h) = km_checkmagic m (of_nat h))"

definition splice_after :: "memory \<Rightarrow> u32 \<Rightarrow> u32 \<Rightarrow> u32 \<Rightarrow> memory" where
  "splice_after m block prev nxt =
     km_coalesce (km_coalesce (km_set_next (km_set_next m block nxt) prev block) block) prev"

lemma splice_here:
  assumes p: "header p" "km_getsize m (of_nat p) = of_nat t" "16 dvd t" "16 \<le> t" "p + t \<le> a"
    and xs: "free_chain m (km_next m (of_nat p)) xs" "spaced (p + t) xs"
    and a: "header a" "km_getsize m (of_nat a) = of_nat n" "16 dvd n" "16 \<le> n" "a + n < 4294967296"
    and above: "\<And>c k. (c, k) \<in> set xs \<Longrightarrow> a + n \<le> c"
  defines "m' \<equiv> splice_after m (of_nat a) (of_nat p) (km_next m (of_nat p))"
  shows "free_chain m' (of_nat p) (merge_next (p, t) (merge_next (a, n) xs)) \<and>
    same_outside {a, p} m m' \<and> keeps_flags m m'"
proof -
  let ?r = "km_next m (of_nat p)"
  let ?m1 = "km_set_next m (of_nat a) ?r"
  let ?m2 = "km_set_next ?m1 (of_nat p) (of_nat a)"
  let ?m3 = "km_coalesce ?m2 (of_nat a)"
  have neq: "p < a" using p by simp
  have out2: "same_outside {a, p} m ?m2"
    using same_outside_trans [of "{a}" m ?m1 "{p}" ?m2] a p by (simp add: frame_simps insert_commute)
  have "a \<notin> fst ` set xs" "p \<notin> fst ` set xs"
    using above a neq spaced_notin [OF xs(2), of p] by fastforce+
  then have chain2: "free_chain ?m2 ?r xs"
    using a p xs by (intro free_chain_frame [OF out2]) auto
  have flds2: "km_next ?m2 (of_nat a) = ?r" "km_getsize ?m2 (of_nat a) = of_nat n"
    "km_next ?m2 (of_nat p) = of_nat a" "km_getsize ?m2 (of_nat p) = of_nat t"
    using a p neq by (simp_all add: hdr_simps)
  have sp: "spaced (p + t) xs" by (rule xs)
  have sp_a: "spaced a xs"
    using sp above a by (cases xs) force+
  note A = km_coalesce_chain [OF a(1) flds2(2) a(3) a(5), of xs a]
  have c3: "free_chain ?m3 (of_nat a) (merge_next (a, n) xs)" "same_outside {a} ?m2 ?m3"
    "keeps_flags ?m2 ?m3"
    using A chain2 flds2 sp_a above a(4) by (auto simp: keeps_flags_def)
  have flds3: "km_next ?m3 (of_nat p) = of_nat a" "km_getsize ?m3 (of_nat p) = of_nat t"
    using same_outside_header [OF c3(2) _ p(1)] a neq flds2 by auto
  have sp3: "spaced p (merge_next (a, n) xs)"
    using neq a above sp by (intro spaced_merge_next) auto
  have above3: "p + t \<le> c" if "(c, k) \<in> set (merge_next (a, n) xs)" for c k
    using merge_next_above [OF that] above p by fastforce
  note P = km_coalesce_chain [OF p(1) flds3(2) p(3), of "merge_next (a, n) xs" p]
  have c4: "free_chain m' (of_nat p) (merge_next (p, t) (merge_next (a, n) xs))"
    "same_outside {p} ?m3 m'" "keeps_flags ?m3 m'"
    unfolding m'_def splice_after_def
    using P c3 flds3 sp3 above3 p a by (auto simp: keeps_flags_def)
  have "same_outside {a, p} m m'"
    using same_outside_trans [OF same_outside_trans [OF out2 c3(2)] c4(2)] by (simp add: insert_commute)
  moreover have "keeps_flags m ?m2"
    using a p by (simp add: keeps_flags_def hdr_simps)
  ultimately show ?thesis
    using c3 c4 by (auto simp: keeps_flags_def)
qed

text \<open>
  \<open>inserts_after m a n p t xs q\<close>: the walk from the node \<open>p\<close> (of size \<open>t\<close>, followed by \<open>xs\<close>)
  stops at \<open>q\<close>, the assertions of \<open>km_insert\<close> hold there, and linking the block in after \<open>q\<close>
  gives the chain of \<open>free_insert\<close>.
\<close>

definition inserts_after ::
    "memory \<Rightarrow> nat \<Rightarrow> nat \<Rightarrow> nat \<Rightarrow> nat \<Rightarrow> (nat \<times> nat) list \<Rightarrow> nat \<Rightarrow> bool" where
  "inserts_after m a n p t xs q \<longleftrightarrow> header q \<and>
     km_insert_walk m (of_nat a) (of_nat p) (km_next m (of_nat p)) =
       Some (of_nat q, km_next m (of_nat q)) \<and>
     of_nat q + km_getsize m (of_nat q) \<le> (of_nat a :: u32) \<and>
     (km_next m (of_nat q) = 0 \<or> of_nat a + km_getsize m (of_nat a) \<le> km_next m (of_nat q)) \<and>
     (let m' = splice_after m (of_nat a) (of_nat q) (km_next m (of_nat q)) in
      free_chain m' (of_nat p) (merge_next (p, t) (free_insert (a, n) xs)) \<and>
      same_outside (insert a (insert p (fst ` set xs))) m m' \<and> keeps_flags m m')"

definition node_before :: "memory \<Rightarrow> nat \<Rightarrow> nat \<Rightarrow> nat \<Rightarrow> (nat \<times> nat) list \<Rightarrow> bool" where
  "node_before m a p t xs \<longleftrightarrow> header p \<and> km_getsize m (of_nat p) = of_nat t \<and> 16 dvd t \<and>
     16 \<le> t \<and> p + t \<le> a \<and> free_chain m (km_next m (of_nat p)) xs \<and> spaced (p + t) xs"

lemma insert_stop:
  assumes p: "node_before m a p t xs" and a: "fits a n xs" "km_getsize m (of_nat a) = of_nat n"
    and above: "\<And>d j. (d, j) \<in> set xs \<Longrightarrow> a + n \<le> d"
  shows "inserts_after m a n p t xs p"
proof -
  have an: "header a" "16 dvd n" "16 \<le> n" "a + n < 4294967296"
    using a by (auto simp: fits_def)
  have le: "of_nat p + km_getsize m (of_nat p) \<le> (of_nat a :: u32)"
    using p an of_nat32_le [of "p + t" a] by (simp add: node_before_def)
  have nxt: "km_next m (of_nat p) = 0 \<or>
      (\<not> km_next m (of_nat p) < of_nat a \<and>
       of_nat a + km_getsize m (of_nat a) \<le> km_next m (of_nat p))"
  proof (cases xs)
    case Nil
    then show ?thesis using p by (simp add: node_before_def)
  next
    case (Cons x ys)
    obtain c k where x: "x = (c, k)" by force
    have "km_next m (of_nat p) = of_nat c" "header c" "a + n \<le> c"
      using p above [of c k] Cons x by (auto simp: node_before_def)
    then show ?thesis
      using a(2) an of_nat32_le [of "a + n" c] by (simp add: of_nat32_less header_bound)
  qed
  have "free_insert (a, n) xs = merge_next (a, n) xs"
  proof (cases xs)
    case (Cons x ys)
    then show ?thesis using above [of "fst x" "snd x"] an(3) by (cases x) auto
  qed simp
  then show ?thesis
    using splice_here [of p m t a xs n] p an a(2) above le nxt
    by (auto simp: inserts_after_def node_before_def Let_def
        km_insert_walk.simps [of m "of_nat a" "of_nat p"] elim: same_outside_mono)
qed

lemma insert_step:
  assumes p: "node_before m a p t ((c, k) # ys)" and a: "header a" and ca: "c + k \<le> a"
    and rest: "inserts_after m a n c k ys q"
  shows "inserts_after m a n p t ((c, k) # ys) q"
proof -
  let ?m' = "splice_after m (of_nat a) (of_nat q) (km_next m (of_nat q))"
  have c: "header c" "km_next m (of_nat p) = of_nat c" "free_chain m (km_next m (of_nat c)) ys"
    "p + t < c" "16 \<le> k" "spaced (c + k) ys" and pp: "header p" "16 \<le> t" "p + t \<le> a"
    "km_getsize m (of_nat p) = of_nat t"
    using p by (auto simp: node_before_def)
  have go: "of_nat c < (of_nat a :: u32)"
    using ca a c by (simp add: of_nat32_less header_bound)
  have m': "free_chain ?m' (of_nat c) (merge_next (c, k) (free_insert (a, n) ys))"
    "same_outside (insert a (insert c (fst ` set ys))) m ?m'" "keeps_flags m ?m'"
    using rest by (simp_all add: inserts_after_def Let_def)
  have "p \<notin> insert a (insert c (fst ` set ys))"
    using pp c(4) spaced_notin [OF c(6), of p] by auto
  moreover have "header h" if "h \<in> insert a (insert c (fst ` set ys))" for h
    using that a c free_chain_header [OF c(3)] by auto
  ultimately have "km_next ?m' (of_nat p) = of_nat c" "km_getsize ?m' (of_nat p) = of_nat t"
    using same_outside_header [OF m'(2) _ pp(1)] c(2) pp(4) by auto
  moreover have "free_insert (a, n) ((c, k) # ys) = merge_next (c, k) (free_insert (a, n) ys)"
    using ca c(5) by simp
  ultimately have "free_chain ?m' (of_nat p) (merge_next (p, t) (free_insert (a, n) ((c, k) # ys)))"
    using m'(1) pp(1) merge_next_gap [OF c(4)] by simp
  then show ?thesis
    using rest m' go c(1,2) same_outside_mono [OF m'(2)]
    by (simp add: inserts_after_def Let_def header_nonzero subset_insertI2
        km_insert_walk.simps [of m "of_nat a" "of_nat p"])
qed

lemma insert_walk:
  assumes "node_before m a p t xs" "fits a n xs" "km_getsize m (of_nat a) = of_nat n"
  shows "\<exists>q. inserts_after m a n p t xs q"
  using assms
proof (induction xs arbitrary: p t)
  case Nil
  then show ?case by (intro exI [of _ p] insert_stop) auto
next
  case (Cons x ys)
  obtain c k where x: "x = (c, k)" by force
  have sp: "spaced (c + k) ys"
    using Cons.prems x by (auto simp: node_before_def)
  consider "a + n \<le> c" | "c + k \<le> a"
    using Cons.prems x by (auto simp: fits_def)
  then show ?case
  proof cases
    case 1
    then have "a + n \<le> d" if "(d, j) \<in> set (x # ys)" for d j
      using that x spaced_lower [OF sp, of "(d, j)"] by auto
    then show ?thesis
      using Cons.prems by (intro exI [of _ p] insert_stop) auto
  next
    case 2
    then have "node_before m a c k ys" "fits a n ys"
      using Cons.prems x by (auto simp: node_before_def fits_def)
    then obtain q where "inserts_after m a n c k ys q"
      using Cons.IH Cons.prems(3) by blast
    moreover have "header a" using Cons.prems by (simp add: fits_def)
    ultimately have "inserts_after m a n p t (x # ys) q"
      using insert_step [OF _ _ 2] Cons.prems x by simp
    then show ?thesis by blast
  qed
qed

section \<open>The insertion routine\<close>

lemma first_above:
  assumes "fits a n xs" "spaced lo xs" "\<And>p t ys. xs = (p, t) # ys \<Longrightarrow> a < p"
  shows "\<And>d j. (d, j) \<in> set xs \<Longrightarrow> a + n \<le> d" and "spaced a xs"
    and "free_insert (a, n) xs = merge_next (a, n) xs"
proof -
  have "(\<forall>(d, j) \<in> set xs. a + n \<le> d) \<and> spaced a xs \<and> free_insert (a, n) xs = merge_next (a, n) xs"
  proof (cases xs)
    case (Cons x ys)
    obtain p t where x: "x = (p, t)" by force
    have ap: "a < p" using assms(3) Cons x by simp
    then have "a + n \<le> p" using assms(1) Cons x by (auto simp: fits_def)
    moreover have "p + t < d" if "(d, j) \<in> set ys" for d j
      using assms(2) Cons x spaced_lower [of "p + t" ys "(d, j)"] that by auto
    ultimately show ?thesis using assms(2) Cons x ap by fastforce
  qed simp
  then show "\<And>d j. (d, j) \<in> set xs \<Longrightarrow> a + n \<le> d" "spaced a xs"
    "free_insert (a, n) xs = merge_next (a, n) xs" by auto
qed

lemma insert_front:
  assumes chain: "free_chain m p xs" "spaced 0 xs"
    and a: "fits a n xs" "km_getsize m (of_nat a) = of_nat n" "p = 0 \<or> of_nat a < p"
  defines "m' \<equiv> km_coalesce (km_set_next m (of_nat a) p) (of_nat a)"
  shows "free_chain m' (of_nat a) (free_insert (a, n) xs) \<and>
    same_outside {a} m m' \<and> keeps_flags m m'"
proof -
  let ?m1 = "km_set_next m (of_nat a) p"
  have an: "header a" "16 dvd n" "16 \<le> n" "a + n < 4294967296"
    using a by (auto simp: fits_def)
  have lt: "a < q" if "xs = (q, t) # ys" for q t ys
    using chain(1) a(3) that an by (auto simp: of_nat32_less header_bound header_nonzero)
  note above = first_above [OF a(1) chain(2) lt]
  have out: "same_outside {a} m ?m1" using an by (simp add: frame_simps)
  have "a \<notin> fst ` set xs" using spaced_notin [OF above(2)] by simp
  then have "free_chain ?m1 (km_next ?m1 (of_nat a)) xs"
    using free_chain_frame [OF out _ _ chain(1)] an by (simp add: hdr_simps)
  then have "free_chain m' (of_nat a) (merge_next (a, n) xs)" "same_outside {a} ?m1 m'"
    "keeps_flags ?m1 m'"
    unfolding m'_def
    using km_coalesce_chain [OF an(1) _ an(2,4), of ?m1 xs a] above a(2) an
    by (auto simp: hdr_simps keeps_flags_def)
  then show ?thesis
    using above(3) same_outside_trans [OF out, of "{a}" m'] an
    by (simp add: keeps_flags_def hdr_simps)
qed

theorem km_insert_refines:
  assumes chain: "free_chain (mem s) (free_list s) xs" "spaced 0 xs"
    and a: "fits a n xs" "km_getsize (mem s) (of_nat a) = of_nat n"
  shows "\<exists>m' p'. km_insert s (of_nat a) = Inr (s\<lparr>mem := m', free_list := p'\<rparr>) \<and>
     free_chain m' p' (free_insert (a, n) xs) \<and>
     same_outside (insert a (fst ` set xs)) (mem s) m' \<and> keeps_flags (mem s) m'"
proof (cases "free_list s = 0 \<or> of_nat a < free_list s")
  case True
  let ?m' = "km_coalesce (km_set_next (mem s) (of_nat a) (free_list s)) (of_nat a)"
  have "km_insert s (of_nat a) = Inr (s\<lparr>mem := ?m', free_list := of_nat a\<rparr>)"
    using True a by (simp add: km_insert_def fits_def header_nonzero)
  then show ?thesis
    using insert_front [OF chain a True] same_outside_mono [of "{a}"] by blast
next
  case False
  then obtain p t ys where xs: "xs = (p, t) # ys" "free_list s = of_nat p"
    using chain by (cases xs) auto
  have an: "header a" using a by (simp add: fits_def)
  have p: "header p" "0 < t" using xs chain by auto
  then have "\<not> a < p" using False xs an by (auto simp: of_nat32_less header_bound header_nonzero)
  then have "\<not> a + n \<le> p" using a by (auto simp: fits_def)
  then have "p + t \<le> a" using xs a by (auto simp: fits_def)
  then have "node_before (mem s) a p t ys" "fits a n ys" and eq:
    "free_insert (a, n) xs = merge_next (p, t) (free_insert (a, n) ys)"
    using xs chain a p by (auto simp: node_before_def fits_def)
  then obtain q where q: "inserts_after (mem s) a n p t ys q"
    using insert_walk a(2) by blast
  let ?m' = "splice_after (mem s) (of_nat a) (of_nat q) (km_next (mem s) (of_nat q))"
  have "km_insert s (of_nat a) = Inr (s\<lparr>mem := ?m', free_list := of_nat p\<rparr>)"
    using q False xs an
    by (simp add: km_insert_def inserts_after_def splice_after_def header_nonzero Let_def)
  then show ?thesis
    using q xs eq by (auto simp: inserts_after_def Let_def)
qed

section \<open>Searching and unlinking\<close>

definition keeps_sizes :: "memory \<Rightarrow> memory \<Rightarrow> bool" where
  "keeps_sizes m m' \<longleftrightarrow> (\<forall>h. header h \<longrightarrow> km_getsize m' (of_nat h) = km_getsize m (of_nat h))"

lemma free_chain_distinct: "free_chain m p xs \<Longrightarrow> distinct (map fst xs)"
proof -
  assume ch: "free_chain m p xs"
  then have "distinct (map (\<lambda>(a, n). of_nat a :: u32) xs)"
    by (intro chain_distinct [OF free_chain_is_chain])
  then have "distinct (map (of_nat :: nat \<Rightarrow> u32) (map fst xs))"
    by (simp add: case_prod_unfold comp_def)
  then show ?thesis unfolding distinct_map by blast
qed

lemma unlink_after:
  assumes "free_chain m p (ys @ (q, t) # (a, n) # zs)"
  defines "m' \<equiv> km_set_next m (of_nat q) (km_next m (of_nat a))"
  shows "free_chain m' p (ys @ (q, t) # zs)" and "same_outside {q} m m'"
    and "keeps_flags m m'" and "keeps_sizes m m'"
proof -
  have q: "header q" using free_chain_header [OF assms(1), of q] by force
  show out: "same_outside {q} m m'" unfolding m'_def using q by (simp add: frame_simps)
  show "keeps_flags m m'" "keeps_sizes m m'"
    unfolding m'_def using q by (simp_all add: keeps_flags_def keeps_sizes_def hdr_simps)
  have dist: "distinct (map fst (ys @ (q, t) # (a, n) # zs))"
    using assms(1) by (rule free_chain_distinct)
  show "free_chain m' p (ys @ (q, t) # zs)"
    using assms(1) dist
  proof (induction ys arbitrary: p)
    case Nil
    then have "free_chain m' (km_next m (of_nat a)) zs"
      using q by (intro free_chain_frame [OF out]) (auto simp: image_iff)
    then show ?case using Nil q by (auto simp: m'_def hdr_simps)
  next
    case (Cons y ys)
    obtain c k where y: "y = (c, k)" by force
    then show ?case using Cons q by (auto simp: m'_def hdr_simps)
  qed
qed

lemma find_walk_skip:
  assumes "free_chain m p (ys @ zs)" "\<forall>(c, k) \<in> set ys. k < sz" "sz < 4294967296"
  shows "km_find_walk m (of_nat sz) prev p =
     km_find_walk m (of_nat sz) (last (prev # map (\<lambda>(a, n). of_nat a) ys))
       (if zs = [] then 0 else of_nat (fst (hd zs)))"
  using assms
proof (induction ys arbitrary: prev p)
  case Nil
  then show ?case by (cases zs) auto
next
  case (Cons y ys)
  obtain c k where y: "y = (c, k)" by force
  have c: "p = of_nat c" "km_getsize m (of_nat c) < of_nat sz" "of_nat c \<noteq> (0 :: u32)"
    "free_chain m (km_next m (of_nat c)) (ys @ zs)"
    using Cons.prems y by (auto simp: of_nat32_less header_nonzero)
  have "km_find_walk m (of_nat sz) prev p = km_find_walk m (of_nat sz) (of_nat c) (km_next m (of_nat c))"
    using c by (subst km_find_walk.simps) simp
  with Cons.IH [OF c(4)] Cons.prems y show ?case by simp
qed

lemma free_chain_memD:
  assumes "free_chain m p xs" "(a, n) \<in> set xs"
  shows "header a" and "km_getsize m (of_nat a) = of_nat n"
  using assms by (induction xs arbitrary: p) auto

lemma find_walk_hit:
  assumes "free_chain m p (ys @ (a, n) # zs)" "\<forall>(c, k) \<in> set ys. k < sz"
    and "sz \<le> n" "n < 4294967296"
  shows "km_find_walk m (of_nat sz) 0 p =
     Some (last (0 # map (\<lambda>(a, n). of_nat a) ys), of_nat a)"
proof -
  have "\<not> km_getsize m (of_nat a) < of_nat sz"
    using free_chain_memD [OF assms(1), of a n] assms(3,4) by (simp add: of_nat32_less)
  then show ?thesis
    using find_walk_skip [OF assms(1,2), of 0] assms(3,4)
      km_find_walk.simps [of m "of_nat sz" "last (0 # map (\<lambda>(a, n). of_nat a) ys)" "of_nat a"]
    by simp
qed

lemma km_find_hit:
  assumes ch: "free_chain (mem s) (free_list s) (ys @ (a, n) # zs)"
    and small: "\<forall>(c, k) \<in> set ys. k < sz" and big: "sz \<le> n" "n < 4294967296"
  shows "\<exists>m' p'. km_find s (of_nat sz) = Inr (of_nat a, s\<lparr>mem := m', free_list := p'\<rparr>) \<and>
     free_chain m' p' (ys @ zs) \<and> same_outside (insert a (fst ` set ys)) (mem s) m' \<and>
     keeps_flags (mem s) m' \<and> keeps_sizes (mem s) m'"
proof -
  let ?m = "mem s"
  note a = free_chain_memD [OF ch, of a n, simplified]
  note walk = find_walk_hit [OF ch small big]
  have clear: "free_chain (km_set_next m (of_nat a) 0) p (ys @ zs)" 
    "same_outside {a} m (km_set_next m (of_nat a) 0)"
    "keeps_flags m (km_set_next m (of_nat a) 0)" "keeps_sizes m (km_set_next m (of_nat a) 0)"
    if "free_chain m p (ys @ zs)" for m p
    using that free_chain_frame [OF set_next_footprint [OF a(1)], of "ys @ zs" m p 0] a
      free_chain_distinct [OF ch]
    by (auto simp: frame_simps keeps_flags_def keeps_sizes_def hdr_simps image_iff)
  show ?thesis
  proof (cases ys rule: rev_cases)
    case Nil
    then have "free_chain ?m (km_next ?m (of_nat a)) (ys @ zs)" using ch by auto
    moreover have "km_find s (of_nat sz) =
        Inr (of_nat a, s\<lparr>mem := km_set_next ?m (of_nat a) 0, free_list := km_next ?m (of_nat a)\<rparr>)"
      using walk Nil a by (simp add: km_find_def header_nonzero)
    ultimately show ?thesis using clear Nil by fastforce
  next
    case (snoc vs y)
    obtain q t where y: "y = (q, t)" by force
    let ?m1 = "km_set_next ?m (of_nat q) (km_next ?m (of_nat a))"
    have ch': "free_chain ?m (free_list s) (vs @ (q, t) # (a, n) # zs)"
      using ch snoc y by simp
    note un = unlink_after [OF ch']
    have q: "header q" using free_chain_memD [OF ch', of q t] by simp
    have "km_find s (of_nat sz) =
        Inr (of_nat a, s\<lparr>mem := km_set_next ?m1 (of_nat a) 0, free_list := free_list s\<rparr>)"
      using walk snoc y a q by (simp add: km_find_def header_nonzero)
    moreover have "same_outside (insert a (fst ` set ys)) ?m (km_set_next ?m1 (of_nat a) 0)"
      using same_outside_mono [OF same_outside_trans [OF un(2) clear(2)]] un(1) snoc y by simp
    moreover have "keeps_flags ?m (km_set_next ?m1 (of_nat a) 0)"
      "keeps_sizes ?m (km_set_next ?m1 (of_nat a) 0)"
      using un a q by (simp_all add: keeps_flags_def keeps_sizes_def hdr_simps)
    ultimately show ?thesis using clear(1) un(1) snoc y by fastforce
  qed
qed

lemma km_find_miss:
  assumes "free_chain (mem s) (free_list s) xs" "\<forall>(c, k) \<in> set xs. k < sz" "sz < 4294967296"
  shows "km_find s (of_nat sz) = km_extend s (of_nat sz)"
  using find_walk_skip [of "mem s" "free_list s" xs "[]" sz 0] assms
  by (simp add: km_find_def km_find_walk.simps [of _ _ _ 0])

section \<open>Unlinking for reallocation\<close>

lemma realloc_walk_reaches:
  assumes "free_chain m p (ys @ (q, t) # (a, n) # zs)"
  shows "krealloc_walk m (of_nat a) p = Some (of_nat q)"
  using assms
proof (induction ys arbitrary: p)
  case Nil
  then show ?case by (subst krealloc_walk.simps) auto
next
  case (Cons y ys)
  obtain c k where y: "y = (c, k)" by force
  obtain d j where "hd (ys @ [(q, t)]) = (d, j)" by force
  then have d: "km_next m (of_nat c) = of_nat d" "header d" "d \<noteq> a" "header a"
    using Cons.prems y free_chain_distinct [OF Cons.prems] free_chain_memD(1) [OF Cons.prems]
    by (cases ys; auto)+
  then have "krealloc_walk m (of_nat a) p = krealloc_walk m (of_nat a) (km_next m (of_nat c))"
    using Cons.prems y by (subst krealloc_walk.simps) (simp add: header_nonzero header_eq)
  then show ?case using Cons y by auto
qed

lemma krealloc_unlink_refines:
  assumes ch: "free_chain (mem s) (free_list s) (ys @ (a, n) # zs)"
  shows "\<exists>m' p'. krealloc_unlink s (of_nat a) = Inr (s\<lparr>mem := m', free_list := p'\<rparr>) \<and>
     free_chain m' p' (ys @ zs) \<and> same_outside (fst ` set ys) (mem s) m' \<and>
     keeps_flags (mem s) m' \<and> keeps_sizes (mem s) m'"
proof (cases ys rule: rev_cases)
  case Nil
  then have "krealloc_unlink s (of_nat a) =
      Inr (s\<lparr>mem := mem s, free_list := km_next (mem s) (of_nat a)\<rparr>)"
    using ch by (simp add: krealloc_unlink_def)
  then show ?thesis
    using ch Nil by (fastforce simp: keeps_flags_def keeps_sizes_def)
next
  case (snoc vs y)
  obtain q t where y: "y = (q, t)" by force
  have ch': "free_chain (mem s) (free_list s) (vs @ (q, t) # (a, n) # zs)"
    using ch snoc y by simp
  let ?m' = "km_set_next (mem s) (of_nat q) (km_next (mem s) (of_nat a))"
  have "free_list s \<noteq> of_nat a"
    using ch' free_chain_distinct [OF ch'] free_chain_memD(1) [OF ch', of a n]
    by (cases vs) (auto simp: header_eq)
  then have "krealloc_unlink s (of_nat a) = Inr (s\<lparr>mem := ?m', free_list := free_list s\<rparr>)"
    using realloc_walk_reaches [OF ch'] free_chain_memD(1) [OF ch', of q t]
    by (simp add: krealloc_unlink_def header_nonzero)
  then show ?thesis
    using unlink_after [OF ch'] snoc y by (fastforce elim: same_outside_mono)
qed

end
