(* ===== verification/KmallocTiling.thy ===== *)
theory KmallocTiling
  imports KmallocList
begin

text \<open>
  The abstract heap: a list of blocks (address, size, allocated?) that tile the heap region.
  \<open>release\<close> turns a block free and joins it with free neighbours, \<open>carve\<close> cuts a block down to
  a requested size, \<open>first_fit\<close> is the search. These are the specification that the routines
  on byte memory are shown to refine; this theory holds their arithmetic and order theory.
\<close>

type_synonym block = "nat \<times> nat \<times> bool"

fun tiled :: "nat \<Rightarrow> block list \<Rightarrow> nat \<Rightarrow> bool" where
  "tiled lo [] hi \<longleftrightarrow> lo = hi"
| "tiled lo ((a, n, al) # bs) hi \<longleftrightarrow> a = lo \<and> 16 \<le> n \<and> 16 dvd n \<and> tiled (lo + n) bs hi"

fun coalesced :: "block list \<Rightarrow> bool" where
  "coalesced [] \<longleftrightarrow> True"
| "coalesced [x] \<longleftrightarrow> True"
| "coalesced ((a, n, al) # (b, k, bl) # bs) \<longleftrightarrow> (al \<or> bl) \<and> coalesced ((b, k, bl) # bs)"

fun frees :: "block list \<Rightarrow> (nat \<times> nat) list" where
  "frees [] = []"
| "frees ((a, n, al) # bs) = (if al then frees bs else (a, n) # frees bs)"

text \<open>Freeing \<open>(a, n)\<close> between the blocks \<open>L\<close> before it and \<open>R\<close> after it.\<close>

fun absorb_next :: "nat \<times> nat \<Rightarrow> block list \<Rightarrow> block list" where
  "absorb_next (a, n) ((b, k, bl) # R) =
     (if bl then (a, n, False) # (b, k, bl) # R else (a, n + k, False) # R)"
| "absorb_next (a, n) [] = [(a, n, False)]"

fun release :: "block list \<Rightarrow> nat \<times> nat \<Rightarrow> block list \<Rightarrow> block list" where
  "release [] x R = absorb_next x R"
| "release [(c, k, cl)] x R =
     (if cl then (c, k, cl) # absorb_next x R
      else (case absorb_next x R of (_, n, _) # R' \<Rightarrow> (c, k + n, False) # R'))"
| "release (y # z # L) x R = y # release (z # L) x R"

text \<open>Cutting the block \<open>(a, n)\<close> down to \<open>t\<close> bytes if at least a header's worth is left over.\<close>

definition carve :: "nat \<times> nat \<Rightarrow> nat \<Rightarrow> block list \<Rightarrow> block list" where
  "carve x t R = (case x of (a, n) \<Rightarrow>
     if n < t + 16 then (a, n, True) # R else (a, t, True) # absorb_next (a + t, n - t) R)"

fun first_fit :: "nat \<Rightarrow> block list \<Rightarrow> (block list \<times> (nat \<times> nat) \<times> block list) option" where
  "first_fit t [] = None"
| "first_fit t ((a, n, al) # bs) =
     (if \<not> al \<and> t \<le> n then Some ([], (a, n), bs)
      else map_option (\<lambda>(L, x, R). ((a, n, al) # L, x, R)) (first_fit t bs))"

section \<open>Tilings\<close>

lemma tiled_le: "tiled lo bs hi \<Longrightarrow> lo \<le> hi"
  by (induction lo bs hi rule: tiled.induct) auto

lemma tiled_append: "tiled lo (xs @ ys) hi \<longleftrightarrow> (\<exists>mid. tiled lo xs mid \<and> tiled mid ys hi)"
  by (induction xs arbitrary: lo) auto

lemma tiled_member:
  "tiled lo bs hi \<Longrightarrow> (a, n, al) \<in> set bs \<Longrightarrow> lo \<le> a \<and> a + n \<le> hi \<and> 16 \<le> n \<and> 16 dvd n"
proof (induction lo bs hi rule: tiled.induct)
  case (2 lo b k bl bs hi)
  then show ?case using tiled_le by fastforce
qed simp

lemma tiled_aligned: "tiled lo bs hi \<Longrightarrow> 16 dvd lo \<Longrightarrow> (a, n, al) \<in> set bs \<Longrightarrow> 16 dvd a"
  by (induction lo bs hi rule: tiled.induct) auto

lemma tiled_header:
  assumes "tiled lo bs hi" "16 dvd lo" "0 < lo" "hi < 4294967296" "(a, n, al) \<in> set bs"
  shows "header a"
  using tiled_member [OF assms(1,5)] tiled_aligned [OF assms(1,2,5)] assms(3,4)
  by (simp add: header_def)

lemma tiled_disjoint:
  assumes "tiled lo (L @ (a, n, al) # R) hi" "(b, k, bl) \<in> set L \<union> set R"
  shows "b + k \<le> a \<or> a + n \<le> b"
proof -
  obtain mid where m: "tiled lo L mid" "tiled mid ((a, n, al) # R) hi"
    using assms(1) by (auto simp: tiled_append)
  then show ?thesis
    using assms(2) tiled_member [OF m(1), of b k bl] tiled_member [of "mid + n" R hi b k bl] by auto
qed

lemma frees_append [simp]: "frees (xs @ ys) = frees xs @ frees ys"
  by (induction xs rule: frees.induct) auto

lemma frees_mem: "(a, n) \<in> set (frees bs) \<longleftrightarrow> (a, n, False) \<in> set bs"
  by (induction bs rule: frees.induct) auto

lemma frees_address: "(a, n, False) \<in> set bs \<Longrightarrow> a \<in> fst ` set (frees bs)"
  by (metis frees_mem fst_conv image_eqI)

lemma coalesced_Cons: "coalesced (x # bs) \<Longrightarrow> coalesced bs"
  by (cases bs; cases x; auto)

lemma coalesced_append: "coalesced (xs @ ys) \<Longrightarrow> coalesced xs \<and> coalesced ys"
proof (induction xs rule: coalesced.induct)
  case (2 x)
  then show ?case using coalesced_Cons by auto
qed auto

lemma coalesced_snoc: "coalesced bs \<Longrightarrow> coalesced (bs @ [(a, n, True)])"
  by (induction bs rule: coalesced.induct) auto

lemma coalesced_allocate: "coalesced (L @ (a, n, al) # R) \<Longrightarrow> coalesced (L @ (a, n, True) # R)"
proof (induction L rule: coalesced.induct)
  case 1
  then show ?case by (cases R) auto
next
  case (2 x)
  then show ?case by (cases x; cases R) auto
qed auto

lemma frees_spaced:
  assumes "tiled lo bs hi" "coalesced bs" "hi < 4294967296"
  shows "lo' < lo \<Longrightarrow> spaced lo' (frees bs)"
    and "(\<And>b k bs'. bs \<noteq> (b, k, False) # bs') \<Longrightarrow> spaced lo (frees bs)"
proof -
  have "(lo' < lo \<longrightarrow> spaced lo' (frees bs)) \<and>
    ((\<forall>b k bs'. bs \<noteq> (b, k, False) # bs') \<longrightarrow> spaced lo (frees bs))" for lo'
    using assms
  proof (induction bs arbitrary: lo lo' rule: coalesced.induct)
    case (3 a n al b k bl bs)
    then have IH: "(lo'' < lo + n \<longrightarrow> spaced lo'' (frees ((b, k, bl) # bs))) \<and>
        (bl \<longrightarrow> spaced (lo + n) (frees ((b, k, bl) # bs)))" for lo''
      by auto
    have "lo + n \<le> hi" "16 \<le> n" using "3.prems" tiled_le by fastforce+
    then show ?case using "3.prems" IH [of lo'] IH [of lo] by auto
  qed auto
  then show "lo' < lo \<Longrightarrow> spaced lo' (frees bs)"
    "(\<And>b k bs'. bs \<noteq> (b, k, False) # bs') \<Longrightarrow> spaced lo (frees bs)"
    by blast+
qed

section \<open>Releasing a block\<close>

lemma absorb_next_tiled:
  "tiled lo ((a, n, al) # R) hi \<Longrightarrow> tiled lo (absorb_next (a, n) R) hi"
  by (cases R) (auto simp: add.assoc)

lemma absorb_next_head: "\<exists>n' R'. absorb_next (a, n) R = (a, n', False) # R'"
  by (cases R) auto

lemma release_tiled: "tiled lo (L @ (a, n, al) # R) hi \<Longrightarrow> tiled lo (release L (a, n) R) hi"
proof (induction L "(a, n)" R arbitrary: lo rule: release.induct)
  case (1 R)
  then show ?case using absorb_next_tiled by simp
next
  case (2 c k cl R)
  then show ?case
    using absorb_next_tiled [of "lo + k" a n al R hi] absorb_next_head [of a n R]
    by (auto simp: add.assoc)
qed auto

lemma absorb_next_coalesced:
  "coalesced ((a, n, True) # R) \<Longrightarrow> coalesced (absorb_next (a, n) R)"
  by (cases R rule: coalesced.cases) (auto split: if_splits)

lemma release_coalesced:
  "coalesced (L @ (a, n, True) # R) \<Longrightarrow> coalesced (release L (a, n) R)"
proof (induction L "(a, n)" R rule: release.induct)
  case (1 R)
  then show ?case by (simp add: absorb_next_coalesced)
next
  case (2 c k cl R)
  then show ?case
    using absorb_next_coalesced [of a n R] absorb_next_head [of a n R]
    by (cases R rule: coalesced.cases) (auto split: if_splits)
next
  case (3 y z L R)
  obtain c k cl d j dl where yz: "y = (c, k, cl)" "z = (d, j, dl)" by (cases y, cases z)
  have "\<exists>j' L'. release (z # L) (a, n) R = (d, j', dl) # L'"
    using absorb_next_head [of a n R] yz by (cases L) auto
  then show ?case using 3 yz by auto
qed

text \<open>The allocated blocks are not affected by freeing another block.\<close>

lemma absorb_next_allocated: "(c, k, True) \<in> set (absorb_next (a, n) R) \<longleftrightarrow> (c, k, True) \<in> set R"
  by (cases "((a, n), R)" rule: absorb_next.cases) auto

lemma absorb_next_free:
  "(c, k, False) \<in> set (absorb_next (a, n) R) \<Longrightarrow> c = a \<or> c \<in> fst ` set (frees R)"
  by (cases "((a, n), R)" rule: absorb_next.cases) (auto dest: frees_address split: if_splits)

lemma release_allocated:
  "(c, k, True) \<in> set (release L (a, n) R) \<longleftrightarrow> (c, k, True) \<in> set L \<union> set R"
proof (induction L "(a, n)" R rule: release.induct)
  case (1 R)
  then show ?case by (simp add: absorb_next_allocated)
next
  case (2 d j dl R)
  then show ?case
    using absorb_next_allocated [of c k a n R] absorb_next_head [of a n R] by auto
qed auto

lemma release_free_address:
  "(c, k, False) \<in> set (release L (a, n) R) \<Longrightarrow> c = a \<or> c \<in> fst ` set (frees L @ frees R)"
proof (induction L "(a, n)" R rule: release.induct)
  case (1 R)
  then show ?case using absorb_next_free by auto
next
  case (2 d j dl R)
  then show ?case
    using absorb_next_free [of c k a n R] absorb_next_head [of a n R]
    by (auto split: if_splits simp: image_iff)
next
  case (3 y z L R)
  then show ?case by (cases y) (auto split: if_splits)
qed

text \<open>Freeing is insertion into the free list.\<close>

lemma frees_absorb_next:
  assumes "tiled lo ((a, n, al) # R) hi" "coalesced ((a, n, True) # R)" "hi < 4294967296"
  shows "free_insert (a, n) (frees R) = frees (absorb_next (a, n) R)"
proof (cases R)
  case (Cons x R')
  obtain b k bl where x: "x = (b, k, bl)" by (cases x)
  have R': "tiled (b + k) R' hi" "b = a + n" "16 \<le> k" "16 \<le> n" "coalesced R'"
    using assms Cons x coalesced_Cons by fastforce+
  have "spaced (a + n) (frees R')"
    using frees_spaced(1) [OF R'(1,5) assms(3), of "a + n"] R' by simp
  then show ?thesis
    using Cons x R' by (cases "frees R'") auto
qed simp

lemma frees_release:
  assumes "tiled lo (L @ (a, n, al) # R) hi" "coalesced (L @ (a, n, True) # R)" "hi < 4294967296"
  shows "free_insert (a, n) (frees L @ frees R) = frees (release L (a, n) R)"
  using assms
proof (induction L "(a, n)" R arbitrary: lo rule: release.induct)
  case (1 R)
  then show ?case using frees_absorb_next [of lo a n al R hi] by simp
next
  case (2 c k cl R)
  then have "free_insert (a, n) (frees R) = frees (absorb_next (a, n) R)" "c + k = a" "16 \<le> k"
    using frees_absorb_next [of "c + k" a n al R hi] coalesced_Cons by auto
  then show ?case using absorb_next_head [of a n R] by auto
next
  case (3 y z L R)
  obtain c k cl d j dl where yz: "y = (c, k, cl)" "z = (d, j, dl)" by (cases y, cases z)
  have IH: "free_insert (a, n) (frees (z # L) @ frees R) = frees (release (z # L) (a, n) R)"
    using "3.hyps" [of "lo + k"] "3.prems" yz by auto
  show ?case
  proof (cases cl)
    case True
    then show ?thesis using IH yz by simp
  next
    case False
    let ?rest = "release (z # L) (a, n) R"
    have dl: dl and ca: "c < a"
      using "3.prems" yz False tiled_disjoint [of lo "y # z # L" a n al R hi c k cl]
        tiled_member [OF "3.prems"(1), of c k cl] tiled_member [OF "3.prems"(1), of a n al] 
      by (auto)
    have "tiled (lo + k) ?rest hi" "coalesced ?rest"
      using release_tiled [of "lo + k" "z # L" a n al R hi] release_coalesced [of "z # L"] "3.prems" yz
      by auto
    moreover have "?rest \<noteq> (b, m, False) # bs" for b m bs
      using yz dl by (cases L) auto
    ultimately have "spaced (c + k) (frees ?rest)"
      using frees_spaced(2) "3.prems" yz by auto
    then have "merge_next (c, k) (frees ?rest) = (c, k) # frees ?rest"
      by (cases "frees ?rest") auto
    then show ?thesis using IH yz False ca by simp
  qed
qed

text \<open>Cutting an allocated block leaves the rest of the tiling alone.\<close>

lemma release_after_allocated:
  "release (L @ [(a, t, True)]) x R = L @ (a, t, True) # absorb_next x R"
proof (induction L)
  case (Cons y L)
  then show ?case by (cases L) auto
qed simp

lemma coalesced_cut: "coalesced (L @ (a, n, True) # R) \<Longrightarrow> coalesced (L @ (a, t, True) # (b, k, True) # R)"
proof (induction L rule: coalesced.induct)
  case 1
  then show ?case by (cases R) auto
next
  case (2 x)
  then show ?case by (cases x; cases R) auto
qed auto

lemma tiled_cut:
  "tiled lo (L @ (a, n, al) # R) hi \<Longrightarrow> 16 \<le> t \<Longrightarrow> 16 dvd t \<Longrightarrow> t + 16 \<le> n \<Longrightarrow>
     tiled lo (L @ (a, t, True) # (a + t, n - t, True) # R) hi"
  by (auto simp: tiled_append)

section \<open>First fit\<close>

lemma first_fit_Some:
  "first_fit t bs = Some (L, (a, n), R) \<Longrightarrow>
     bs = L @ (a, n, False) # R \<and> t \<le> n \<and> (\<forall>(c, k) \<in> set (frees L). k < t)"
proof (induction bs arbitrary: L)
  case (Cons x bs)
  obtain b k bl where "x = (b, k, bl)" by (cases x)
  then show ?case using Cons by (auto split: if_splits)
qed simp

lemma first_fit_None: "first_fit t bs = None \<Longrightarrow> \<forall>(c, k) \<in> set (frees bs). k < t"
  by (induction t bs rule: first_fit.induct) (auto split: if_splits)

end
