(* ===== verification/KmallocHeap.thy ===== *)
theory KmallocHeap
  imports KmallocTiling
begin

text \<open>
  The heap invariant, and that every allocator routine refines the abstract heap of the tiling:
  the invariant says that the blocks tile the heap region, that each block's header in memory
  records its size, its flag and the magic number, that the free list links exactly the free
  blocks in address order, and that no two free blocks touch.
\<close>

definition hdr_ok :: "memory \<Rightarrow> block \<Rightarrow> bool" where
  "hdr_ok m b = (case b of (a, n, al) \<Rightarrow>
     km_getsize m (of_nat a) = of_nat n \<and> km_isalloc m (of_nat a) = al \<and>
     km_checkmagic m (of_nat a))"

definition region_ok :: "km_state \<Rightarrow> bool" where
  "region_ok s \<longleftrightarrow> 0 < unat (kheap_begin s) \<and> 4096 dvd unat (kheap_begin s) \<and>
     4096 dvd unat (kheap_end s) \<and> kheap_end s \<le> kheap_max_end s"

definition heap_inv :: "km_state \<Rightarrow> block list \<Rightarrow> bool" where
  "heap_inv s bs \<longleftrightarrow> region_ok s \<and> tiled (unat (kheap_begin s)) bs (unat (kheap_end s)) \<and>
     coalesced bs \<and> (\<forall>b \<in> set bs. hdr_ok (mem s) b) \<and>
     free_chain (mem s) (free_list s) (frees bs)"

text \<open>
  Between the steps of an operation one block \<open>(a, n)\<close> is in nobody's hands: out of the free
  list, its flag not yet meaningful.
\<close>

definition heap_open :: "km_state \<Rightarrow> block list \<Rightarrow> nat \<times> nat \<Rightarrow> block list \<Rightarrow> bool" where
  "heap_open s L x R = (case x of (a, n) \<Rightarrow>
     region_ok s \<and> tiled (unat (kheap_begin s)) (L @ (a, n, True) # R) (unat (kheap_end s)) \<and>
     coalesced (L @ (a, n, True) # R) \<and> (\<forall>b \<in> set L \<union> set R. hdr_ok (mem s) b) \<and>
     km_getsize (mem s) (of_nat a) = of_nat n \<and> km_checkmagic (mem s) (of_nat a) \<and>
     free_chain (mem s) (free_list s) (frees L @ frees R))"

lemma region_lo:
  assumes "region_ok s"
  shows "16 dvd unat (kheap_begin s)" "0 < unat (kheap_begin s)" "unat (kheap_end s) < 4294967296"
proof -
  have "(16 :: nat) dvd 4096" by simp
  then show "16 dvd unat (kheap_begin s)"
    using assms by (meson dvd_trans region_ok_def)
qed (use assms in \<open>auto simp: region_ok_def\<close>)

lemma hdr_okD:
  assumes "hdr_ok m (a, n, al)"
  shows "km_getsize m (of_nat a) = of_nat n" "km_isalloc m (of_nat a) = al"
    "km_checkmagic m (of_nat a)"
  using assms by (auto simp: hdr_ok_def)

lemma hdr_ok_frame:
  assumes "hdr_ok m (a, n, al)" "same_outside H m m'" "\<And>h. h \<in> H \<Longrightarrow> header h" "header a" "a \<notin> H"
  shows "hdr_ok m' (a, n, al)"
  using assms same_outside_header [OF assms(2-5)] by (simp add: hdr_ok_def)

section \<open>Inserting a block that the tiling knows\<close>

lemma tiled_fits:
  assumes "tiled lo (L @ (b, k, al) # R) hi" "16 dvd lo" "0 < lo" "hi < 4294967296"
  shows "fits b k (frees L @ frees R)"
proof -
  have "header b" using tiled_header [OF assms, of b k al] by simp
  then show ?thesis
    using tiled_member [OF assms(1), of b k al] assms(4) tiled_disjoint [OF assms(1)]
    by (fastforce simp: fits_def frees_mem)
qed

lemma free_chain_size: "free_chain m p xs \<Longrightarrow> (a, n) \<in> set xs \<Longrightarrow> km_getsize m (of_nat a) = of_nat n"
  by (rule free_chain_memD)

lemma open_distinct:
  assumes "tiled lo (L @ (b, k, al) # R) hi" "(c, j, cl) \<in> set L \<union> set R"
  shows "c \<noteq> b"
  using tiled_disjoint [OF assms] tiled_member [OF assms(1), of b k al]
    tiled_member [OF assms(1), of c j cl] assms(2) by auto

lemma tiled_addresses_distinct:
  "tiled lo bs hi \<Longrightarrow> (a, n, al) \<in> set bs \<Longrightarrow> (a, n', al') \<in> set bs \<Longrightarrow> n = n' \<and> al = al'"
proof (induction lo bs hi rule: tiled.induct)
  case (2 lo b k bl bs hi)
  then show ?case using tiled_member [of "lo + k" bs hi] by fastforce
qed simp

lemma open_not_free:
  assumes "tiled lo (L @ (b, k, al) # R) hi"
  shows "b \<notin> fst ` set (frees L @ frees R)"
proof
  assume "b \<in> fst ` set (frees L @ frees R)"
  then obtain j where "(b, j) \<in> set (frees L @ frees R)" by force
  then have "(b, j, False) \<in> set L \<union> set R" by (simp add: frees_mem)
  then show False using open_distinct [OF assms] by blast
qed

lemma allocated_not_free:
  assumes "tiled lo (L @ (b, k, al) # R) hi" "(c, j, True) \<in> set L \<union> set R"
  shows "c \<notin> fst ` set (frees L @ frees R)"
proof
  assume "c \<in> fst ` set (frees L @ frees R)"
  then obtain i where "(c, i) \<in> set (frees L @ frees R)" by force
  then have "(c, i, False) \<in> set L \<union> set R" by (simp add: frees_mem)
  then show False using tiled_addresses_distinct [OF assms(1), of c j True i False] assms(2) by auto
qed

lemma insert_release:
  assumes t: "tiled lo (L @ (b, k, al) # R) hi" "16 dvd lo" "0 < lo" "hi < 4294967296"
    and co: "coalesced (L @ (b, k, True) # R)"
    and ch: "free_chain (mem s) (free_list s) (frees L @ frees R)"
    and b: "km_getsize (mem s) (of_nat b) = of_nat k" "\<not> km_isalloc (mem s) (of_nat b)"
      "km_checkmagic (mem s) (of_nat b)"
    and hdrs: "\<And>x. x \<in> set L \<union> set R \<Longrightarrow> x \<notin> E \<Longrightarrow> hdr_ok (mem s) x"
    and E: "\<And>c j. (c, j, False) \<notin> E"
  shows "\<exists>m' p'. km_insert s (of_nat b) = Inr (s\<lparr>mem := m', free_list := p'\<rparr>) \<and>
     free_chain m' p' (frees (release L (b, k) R)) \<and>
     (\<forall>x \<in> set (release L (b, k) R). x \<notin> E \<longrightarrow> hdr_ok m' x) \<and>
     same_outside (insert b (fst ` set (frees L @ frees R))) (mem s) m' \<and> keeps_flags (mem s) m'"
proof -
  let ?H = "insert b (fst ` set (frees L @ frees R))"
  have sp: "spaced 0 (frees L @ frees R)"
    using frees_spaced(1) [of lo "L @ (b, k, True) # R" hi 0] t co by (simp add: tiled_append)
  have fit: "fits b k (frees L @ frees R)" by (rule tiled_fits [OF t])
  obtain m' p' where ins: "km_insert s (of_nat b) = Inr (s\<lparr>mem := m', free_list := p'\<rparr>)"
    and ch': "free_chain m' p' (frees (release L (b, k) R))"
    and out: "same_outside ?H (mem s) m'" and keep: "keeps_flags (mem s) m'"
    using km_insert_refines [OF ch sp fit b(1)] frees_release [OF t(1) co t(4)] by auto
  have H: "header h" if "h \<in> ?H" for h
    using that fit free_chain_header [OF ch] by (auto simp: fits_def)
  have rel: "tiled lo (release L (b, k) R) hi" by (rule release_tiled [OF t(1)])
  have "hdr_ok m' (c, j, cl)" if x: "(c, j, cl) \<in> set (release L (b, k) R)" "(c, j, cl) \<notin> E" for c j cl
  proof (cases cl)
    case True
    then have mem: "(c, j, True) \<in> set L \<union> set R" using x release_allocated by simp
    then have "c \<notin> fst ` set (frees L @ frees R)"
      by (rule allocated_not_free [OF t(1)])
    then show ?thesis
      using hdr_ok_frame [OF _ out H, of c j cl] hdrs [of "(c, j, True)"] mem True x
        open_distinct [OF t(1) mem] tiled_header [OF rel t(2,3,4) x(1)] by auto
  next
    case False
    then have c: "c = b \<or> c \<in> fst ` set (frees L @ frees R)"
      using release_free_address x by simp
    have "\<not> km_isalloc (mem s) (of_nat c) \<and> km_checkmagic (mem s) (of_nat c)"
      using c b hdrs E by (fastforce simp: frees_mem hdr_ok_def)
    then show ?thesis
      using keep x False free_chain_size [OF ch', of c j] tiled_header [OF rel t(2,3,4) x(1)]
      by (simp add: hdr_ok_def keeps_flags_def frees_mem)
  qed
  then have "\<forall>x \<in> set (release L (b, k) R). x \<notin> E \<longrightarrow> hdr_ok m' x" by auto
  then show ?thesis using ins ch' out keep by blast
qed

section \<open>The steps of an operation\<close>

lemma open_header: "heap_open s L (a, n) R \<Longrightarrow> header a"
  using tiled_header [of "unat (kheap_begin s)" "L @ (a, n, True) # R" "unat (kheap_end s)" a n True]
    region_lo [of s] by (auto simp: heap_open_def)

lemma open_frees_header: "heap_open s L (a, n) R \<Longrightarrow> h \<in> fst ` set (frees L @ frees R) \<Longrightarrow> header h"
  using free_chain_header [of "mem s" "free_list s" "frees L @ frees R"] by (auto simp: heap_open_def)

lemma open_hdr: "heap_open s L (a, n) R \<Longrightarrow> x \<in> set L \<union> set R \<Longrightarrow> hdr_ok (mem s) x"
  by (simp add: heap_open_def)

lemma open_insert:
  assumes "heap_open s L (a, n) R" "\<not> km_isalloc (mem s) (of_nat a)"
  shows "\<exists>m' p'. km_insert s (of_nat a) = Inr (s\<lparr>mem := m', free_list := p'\<rparr>) \<and>
     heap_inv (s\<lparr>mem := m', free_list := p'\<rparr>) (release L (a, n) R) \<and>
     same_outside (insert a (fst ` set (frees L @ frees R))) (mem s) m' \<and> keeps_flags (mem s) m'"
proof -
  let ?lo = "unat (kheap_begin s)" and ?hi = "unat (kheap_end s)"
  have o: "region_ok s" "tiled ?lo (L @ (a, n, True) # R) ?hi" "coalesced (L @ (a, n, True) # R)"
    using assms by (simp_all add: heap_open_def)
  then show ?thesis
    using insert_release [of ?lo L a n True R ?hi s "{}"] assms region_lo [OF o(1)]
      release_tiled [OF o(2)] release_coalesced [OF o(3)]
    by (fastforce simp: heap_open_def heap_inv_def region_ok_def)
qed

lemma open_close:
  assumes "heap_open s L (a, n) R"
  shows "heap_inv (s\<lparr>mem := km_setalloc (mem s) (of_nat a)\<rparr>) (L @ (a, n, True) # R)"
proof -
  let ?m' = "km_setalloc (mem s) (of_nat a)"
  have a: "header a" by (rule open_header [OF assms])
  have o: "region_ok s" "tiled (unat (kheap_begin s)) (L @ (a, n, True) # R) (unat (kheap_end s))"
    using assms by (simp_all add: heap_open_def)
  have "hdr_ok ?m' (c, k, cl)" if "(c, k, cl) \<in> set L \<union> set R" for c k cl
  proof -
    have "header c" using tiled_header [OF o(2), of c k cl] region_lo [OF o(1)] that by auto
    then show ?thesis
      using open_hdr [OF assms that] a open_distinct [OF o(2) that] by (simp add: hdr_ok_def hdr_simps)
  qed
  moreover have "a \<notin> fst ` set (frees L @ frees R)"
    by (rule open_not_free [OF o(2)])
  then have "free_chain ?m' (free_list s) (frees L @ frees R)"
    using assms a by (intro free_chain_frame [OF setalloc_footprint [OF a]]) (auto simp: heap_open_def)
  ultimately show ?thesis
    using assms a by (auto simp: heap_open_def heap_inv_def region_ok_def hdr_ok_def hdr_simps)
qed

text \<open>Taking a fitting block out of the free list.\<close>

lemma find_open:
  assumes "heap_inv s (L @ (a, n, False) # R)" "\<forall>(c, k) \<in> set (frees L). k < t" "t \<le> n"
  shows "\<exists>m' p'. km_find s (of_nat t) = Inr (of_nat a, s\<lparr>mem := m', free_list := p'\<rparr>) \<and>
     heap_open (s\<lparr>mem := m', free_list := p'\<rparr>) L (a, n) R \<and>
     same_outside (insert a (fst ` set (frees L))) (mem s) m'"
proof -
  let ?lo = "unat (kheap_begin s)" and ?hi = "unat (kheap_end s)"
  have h: "region_ok s" "tiled ?lo (L @ (a, n, False) # R) ?hi" "coalesced (L @ (a, n, False) # R)"
    and ch: "free_chain (mem s) (free_list s) (frees L @ (a, n) # frees R)"
    and hd: "\<And>x. x \<in> set (L @ (a, n, False) # R) \<Longrightarrow> hdr_ok (mem s) x"
    using assms by (auto simp: heap_inv_def)
  have "a + n \<le> ?hi" "?hi < 4294967296" using tiled_member [OF h(2), of a n False] by auto
  then have n: "n < 4294967296" by linarith
  obtain m' p' where f: "km_find s (of_nat t) = Inr (of_nat a, s\<lparr>mem := m', free_list := p'\<rparr>)"
    "free_chain m' p' (frees L @ frees R)" "same_outside (insert a (fst ` set (frees L))) (mem s) m'"
    "keeps_flags (mem s) m'" "keeps_sizes (mem s) m'"
    using km_find_hit [OF ch assms(2,3) n] by blast
  have "hdr_ok m' x" if "x \<in> set (L @ (a, n, False) # R)" for x
    using f(4,5) hd [OF that] that tiled_header [OF h(2)] region_lo [OF h(1)]
    by (cases x) (auto simp: hdr_ok_def keeps_flags_def keeps_sizes_def)
  then have "\<forall>x \<in> set L \<union> set R. hdr_ok m' x" "hdr_ok m' (a, n, False)" by simp_all
  moreover have "tiled ?lo (L @ (a, n, True) # R) ?hi" using h by (auto simp: tiled_append)
  moreover have "coalesced (L @ (a, n, True) # R)" by (rule coalesced_allocate [OF h(3)])
  ultimately have "heap_open (s\<lparr>mem := m', free_list := p'\<rparr>) L (a, n) R"
    using f(2) h(1) hdr_okD by (simp add: heap_open_def region_ok_def)
  then show ?thesis using f(1,3) by blast
qed

text \<open>Extending the heap by whole pages.\<close>

definition round_up :: "nat \<Rightarrow> nat \<Rightarrow> nat" where
  "round_up al t = (t + al - 1) div al * al"

lemma round_up_ge: "0 < al \<Longrightarrow> t \<le> round_up al t"
  using div_mult_mod_eq [of "t + al - 1" al] mod_less_divisor [of al "t + al - 1"]
  unfolding round_up_def by linarith

lemma round_up_dvd: "al dvd round_up al t"
  by (simp add: round_up_def)

lemma round_up_le: "round_up al t \<le> t + al - 1"
  unfolding round_up_def by (rule div_times_less_eq_dividend)

lemma align_refines:
  assumes "0 < al" "al < 4294967296" "t + al - 1 < 4294967296"
  shows "KMALLOC_ALIGN (of_nat t) (of_nat al) = of_nat (round_up al t)"
proof -
  have "(of_nat t + of_nat al - 1 :: u32) = of_nat (t + al - 1)"
    using assms(1) by (simp add: of_nat_diff)
  moreover have "(t + al - 1) div al < 4294967296"
    using assms(3) by (rule le_less_trans [OF div_le_dividend])
  then have "(of_nat (t + al - 1) :: u32) div of_nat al = of_nat ((t + al - 1) div al)"
    using assms by (simp only: word_unat_eq_iff unat_div_distrib unat_of_nat32)
  ultimately show ?thesis
    by (simp only: KMALLOC_ALIGN_def round_up_def of_nat_mult)
qed

lemma extend_open:
  assumes h: "heap_inv s bs" and t: "0 < t" "t + 4095 < 4294967296"
    and room: "unat (kheap_end s) + round_up 4096 t \<le> unat (kheap_max_end s)"
  defines "b \<equiv> unat (kheap_end s)" and "k \<equiv> round_up 4096 t"
  shows "\<exists>m'. km_extend s (of_nat t) = Inr (of_nat b, s\<lparr>kheap_end := of_nat (b + k), mem := m'\<rparr>) \<and>
     heap_open (s\<lparr>kheap_end := of_nat (b + k), mem := m'\<rparr>) bs (b, k) [] \<and>
     \<not> km_isalloc m' (of_nat b) \<and> same_outside {b} (mem s) m'"
proof -
  let ?m' = "km_initblock (mem s) (of_nat b) (of_nat k)"
  have r: "region_ok s" and bs: "tiled (unat (kheap_begin s)) bs b" "coalesced bs"
    and ch: "free_chain (mem s) (free_list s) (frees bs)"
    using h by (auto simp: heap_inv_def b_def)
  have k: "4096 dvd k" "t \<le> k" "b + k \<le> unat (kheap_max_end s)"
    using round_up_dvd round_up_ge room by (auto simp: k_def b_def)
  then have bk: "b + k < 4294967296" "16 dvd k" "16 \<le> k"
    using unat32_bound [of "kheap_max_end s"] t(1) dvd_trans [of 16 4096 k] dvd_imp_le [of 4096 k]
    by (auto simp del: unat32_bound)
  have b: "header b"
    using r tiled_le [OF bs(1)] dvd_trans [of 16 4096 b] by (auto simp: header_def region_ok_def b_def)
  have ext: "km_extend s (of_nat t) = Inr (of_nat b, s\<lparr>kheap_end := of_nat (b + k), mem := ?m'\<rparr>)"
    using align_refines [of 4096 t] t k(3) bk(1)
    by (simp add: km_extend_def Let_def b_def k_def word_less_nat_alt unat32_plus unat_of_nat32 not_less)
  have below: "header c" "c \<noteq> b" if "(c, j, cl) \<in> set bs" for c j cl
    using tiled_header [OF bs(1)] region_lo [OF r] tiled_member [OF bs(1)] that bk by (fastforce simp: b_def)+
  have "hdr_ok ?m' (c, j, cl)" if "(c, j, cl) \<in> set bs" for c j cl
    using h that below [OF that] b by (auto simp: heap_inv_def intro: hdr_ok_frame [OF _ initblock_footprint [OF b]])
  moreover have "b \<notin> fst ` set (frees bs)"
    using below(2) by (fastforce simp: frees_mem)
  then have "free_chain ?m' (free_list s) (frees bs)"
    using b by (intro free_chain_frame [OF initblock_footprint [OF b] _ _ ch]) auto
  moreover have new: "hdr_ok ?m' (b, k, False)"
    using b bk by (simp add: hdr_ok_def hdr_simps)
  moreover have "tiled (unat (kheap_begin s)) (bs @ [(b, k, True)]) (b + k)"
    using bs bk by (auto simp: tiled_append)
  moreover have "unat (of_nat (b + k) :: u32) = b + k" using bk(1) by (rule unat_of_nat32)
  moreover have "4096 dvd b + k" using r k by (simp add: region_ok_def b_def)
  ultimately have "heap_open (s\<lparr>kheap_end := of_nat (b + k), mem := ?m'\<rparr>) bs (b, k) []"
    using r bs k coalesced_snoc [OF bs(2)]
    by (auto simp: heap_open_def region_ok_def word_le_nat_alt hdr_okD [OF new] simp del: of_nat_add)
  then show ?thesis
    using ext hdr_okD [OF new] initblock_footprint [OF b] by blast
qed

lemma extend_panic:
  assumes "t + 4095 < 4294967296" "unat (kheap_end s) + round_up 4096 t < 4294967296"
    and "unat (kheap_max_end s) < unat (kheap_end s) + round_up 4096 t"
  shows "km_extend s (of_nat t) = Inl (Panic ''km_extend(): out of memory'')"
proof -
  have "unat (kheap_end s + of_nat (round_up 4096 t)) = unat (kheap_end s) + round_up 4096 t"
    using assms by (subst unat32_plus) (auto simp: unat_of_nat32)
  then show ?thesis
    using align_refines [of 4096 t] assms
    by (simp add: km_extend_def Let_def word_less_nat_alt kernel_panic_def)
qed

text \<open>
  The headers an operation on the block \<open>(a, n)\<close> may write: its own, one at or after the offset
  \<open>t\<close> inside it, and those of free blocks.
\<close>

definition footprint :: "nat \<Rightarrow> nat \<Rightarrow> nat \<Rightarrow> block list \<Rightarrow> nat set" where
  "footprint a t n bs =
     insert a ({h. header h \<and> a + t \<le> h \<and> h + 16 \<le> a + n} \<union> fst ` set (frees bs))"

lemma open_bounds:
  assumes "heap_open s L (a, n) R"
  shows "16 \<le> n" "16 dvd n" "16 \<le> a" "a + n < 4294967296"
proof -
  have t: "tiled (unat (kheap_begin s)) (L @ (a, n, True) # R) (unat (kheap_end s))"
    and r: "region_ok s"
    using assms by (auto simp: heap_open_def)
  have "unat (kheap_begin s) \<le> a \<and> a + n \<le> unat (kheap_end s) \<and> 16 \<le> n \<and> 16 dvd n"
    using tiled_member [OF t, of a n True] by simp
  then show "16 \<le> n" "16 dvd n" "16 \<le> a" "a + n < 4294967296"
    using unat32_bound [of "kheap_end s"] region_lo [OF r] dvd_imp_le [of 16 "unat (kheap_begin s)"]
    by (auto simp del: unat32_bound)
qed

lemma split_insert:
  assumes o: "heap_open s L (a, n) R" and t: "16 \<le> t" "16 dvd t" "t + 16 \<le> n"
  defines "m1 \<equiv> km_initblock (mem s) (of_nat (a + t)) (of_nat (n - t))"
  shows "\<exists>m2 p2. km_insert (s\<lparr>mem := m1\<rparr>) (of_nat (a + t)) = Inr (s\<lparr>mem := m2, free_list := p2\<rparr>) \<and>
     free_chain m2 p2 (frees L @ frees (absorb_next (a + t, n - t) R)) \<and>
     (\<forall>x \<in> set L \<union> set (absorb_next (a + t, n - t) R). hdr_ok m2 x) \<and>
     same_outside (insert (a + t) (fst ` set (frees L @ frees R))) (mem s) m2 \<and>
     km_isalloc m2 (of_nat a) = km_isalloc (mem s) (of_nat a) \<and>
     km_checkmagic m2 (of_nat a) = km_checkmagic (mem s) (of_nat a)"
proof -
  let ?L = "L @ [(a, t, True)]" and ?b = "a + t" and ?k = "n - t"
  let ?lo = "unat (kheap_begin s)" and ?hi = "unat (kheap_end s)"
  note bd = open_bounds [OF o]
  have r: "region_ok s" and til: "tiled ?lo (L @ (a, n, True) # R) ?hi"
    and co: "coalesced (L @ (a, n, True) # R)"
    and ch: "free_chain (mem s) (free_list s) (frees L @ frees R)"
    using o by (auto simp: heap_open_def)
  have til': "tiled ?lo (?L @ (?b, ?k, True) # R) ?hi" and co': "coalesced (?L @ (?b, ?k, True) # R)"
    using tiled_cut [OF til t] coalesced_cut [OF co] by simp_all
  have b: "header ?b" "header a"
    using tiled_header [OF til', of ?b ?k True] tiled_header [OF til', of a t True] region_lo [OF r] by simp_all
  have k: "16 dvd ?k" using t bd by simp
  have foot: "same_outside {?b} (mem s) m1" unfolding m1_def by (rule initblock_footprint [OF b(1)])
  have ch1: "free_chain m1 (free_list s) (frees ?L @ frees R)"
    using free_chain_frame [OF foot _ _ ch] b open_not_free [OF til'] by simp
  have hdrs: "hdr_ok m1 x" if x: "x \<in> set ?L \<union> set R" "x \<notin> {(a, t, True)}" for x
  proof -
    obtain c j cl where c: "x = (c, j, cl)" by (cases x)
    have "header c" using tiled_header [OF til', of c j cl] region_lo [OF r] x c by auto
    then show ?thesis
      using hdr_ok_frame [OF _ foot, of c j cl] open_hdr [OF o, of x] open_distinct [OF til', of c j cl] b x c
      by auto
  qed
  have new: "hdr_ok m1 (?b, ?k, False)"
    using b k by (simp add: m1_def hdr_ok_def hdr_simps del: of_nat_add)
  obtain m2 p2 where ins: "km_insert (s\<lparr>mem := m1\<rparr>) (of_nat ?b) = Inr (s\<lparr>mem := m2, free_list := p2\<rparr>)"
    "free_chain m2 p2 (frees (release ?L (?b, ?k) R))"
    "\<forall>x \<in> set (release ?L (?b, ?k) R). x \<notin> {(a, t, True)} \<longrightarrow> hdr_ok m2 x"
    "same_outside (insert ?b (fst ` set (frees ?L @ frees R))) m1 m2" "keeps_flags m1 m2"
    using insert_release [OF til' region_lo [OF r] co', of "s\<lparr>mem := m1\<rparr>" "{(a, t, True)}"]
      ch1 hdrs hdr_okD [OF new] by auto
  have rel: "release ?L (?b, ?k) R = L @ (a, t, True) # absorb_next (?b, ?k) R"
    by (rule release_after_allocated)
  have "x \<noteq> (a, t, True)" if "x \<in> set L \<union> set (absorb_next (?b, ?k) R)" for x
    using open_distinct [OF release_tiled [OF til', unfolded rel]] that by (cases x) blast
  then have "\<forall>x \<in> set L \<union> set (absorb_next (?b, ?k) R). hdr_ok m2 x"
    using ins(3) rel by auto
  moreover have "same_outside (insert ?b (fst ` set (frees L @ frees R))) (mem s) m2"
    using same_outside_trans [OF foot ins(4)] by simp
  moreover have "km_isalloc m1 (of_nat a) = km_isalloc (mem s) (of_nat a)"
    "km_checkmagic m1 (of_nat a) = km_checkmagic (mem s) (of_nat a)"
    using same_outside_header [OF foot _ b(2)] b(1) t(1) by auto
  ultimately show ?thesis
    using ins(1,2,5) rel b(2) by (auto simp: keeps_flags_def)
qed

text \<open>Writing the size of the open block, once the blocks around it fit.\<close>

lemma resize_open:
  assumes r: "region_ok s" and til: "tiled (unat (kheap_begin s)) (L @ (a, t, True) # R) (unat (kheap_end s))"
    and co: "coalesced (L @ (a, t, True) # R)" and hd: "\<forall>x \<in> set L \<union> set R. hdr_ok m x"
    and mg: "km_checkmagic m (of_nat a)" and ch: "free_chain m p (frees L @ frees R)"
  shows "heap_open (s\<lparr>mem := km_setsize m (of_nat a) (of_nat t), free_list := p\<rparr>) L (a, t) R"
proof -
  let ?m' = "km_setsize m (of_nat a) (of_nat t)"
  have a: "header a" using tiled_header [OF til, of a t True] region_lo [OF r] by simp
  have t: "16 dvd t" using tiled_member [OF til, of a t True] by simp
  note foot = setsize_footprint [OF a, of m "of_nat t"]
  have "hdr_ok ?m' x" if x: "x \<in> set L \<union> set R" for x
  proof -
    obtain c j cl where c: "x = (c, j, cl)" by (cases x)
    have "header c" "c \<noteq> a"
      using tiled_header [OF til, of c j cl] region_lo [OF r] open_distinct [OF til, of c j cl] x c by auto
    then show ?thesis using hdr_ok_frame [OF _ foot, of c j cl] hd a x c by auto
  qed
  moreover have "free_chain ?m' p (frees L @ frees R)"
    using free_chain_frame [OF foot _ _ ch] a open_not_free [OF til] by simp
  ultimately show ?thesis
    using r til co mg a t by (simp add: heap_open_def region_ok_def hdr_simps)
qed

text \<open>Splitting cuts the open block down as \<open>carve\<close> does.\<close>

lemma cut_tiling:
  assumes "tiled lo (L @ (a, n, True) # R) hi" "coalesced (L @ (a, n, True) # R)"
    and "16 \<le> t" "16 dvd t" "t + 16 \<le> n"
  shows "tiled lo (L @ (a, t, True) # absorb_next (a + t, n - t) R) hi"
    and "coalesced (L @ (a, t, True) # absorb_next (a + t, n - t) R)"
  using release_tiled [of lo "L @ [(a, t, True)]" "a + t" "n - t" True R hi]
    release_coalesced [of "L @ [(a, t, True)]" "a + t" "n - t" R]
    tiled_cut [OF assms(1,3,4,5)] coalesced_cut [OF assms(2), of t "a + t" "n - t"]
  by (simp_all add: release_after_allocated)

lemma header_after: "header a \<Longrightarrow> 16 dvd t \<Longrightarrow> a + t < 4294967296 \<Longrightarrow> header (a + t)"
  by (simp add: header_def)

lemma split_open:
  assumes o: "heap_open s L (a, n) R" and t: "16 \<le> t" "16 dvd t" "t \<le> n"
  shows "\<exists>m' p' n' R'. km_split s (of_nat a) (of_nat t) = Inr (of_nat a, s\<lparr>mem := m', free_list := p'\<rparr>) \<and>
     carve (a, n) t R = (a, n', True) # R' \<and> t \<le> n' \<and>
     heap_open (s\<lparr>mem := m', free_list := p'\<rparr>) L (a, n') R' \<and>
     same_outside (footprint a t n (L @ R)) (mem s) m' \<and>
     km_isalloc m' (of_nat a) = km_isalloc (mem s) (of_nat a)"
proof -
  note bd = open_bounds [OF o]
  have size: "km_getsize (mem s) (of_nat a) = of_nat n" using o by (simp add: heap_open_def)
  have guard: "km_getsize (mem s) (of_nat a) < of_nat t + 16 \<longleftrightarrow> n < t + 16"
    using size bd t of_nat32_less [of n "t + 16"] by simp
  show ?thesis
  proof (cases "n < t + 16")
    case True
    then have "km_split s (of_nat a) (of_nat t) = Inr (of_nat a, s\<lparr>mem := mem s, free_list := free_list s\<rparr>)"
      using guard by (simp add: km_split_def)
    moreover have "carve (a, n) t R = (a, n, True) # R" using True by (simp add: carve_def)
    moreover have "s\<lparr>mem := mem s, free_list := free_list s\<rparr> = s" by simp
    ultimately show ?thesis using o t(3) same_outside_refl by metis
  next
    case False
    then have t': "t + 16 \<le> n" by simp
    let ?R' = "absorb_next (a + t, n - t) R"
    obtain m2 p2 where i: "km_insert (s\<lparr>mem := km_initblock (mem s) (of_nat (a + t)) (of_nat (n - t))\<rparr>)
          (of_nat (a + t)) = Inr (s\<lparr>mem := m2, free_list := p2\<rparr>)"
      "free_chain m2 p2 (frees L @ frees ?R')" "\<forall>x \<in> set L \<union> set ?R'. hdr_ok m2 x"
      "same_outside (insert (a + t) (fst ` set (frees L @ frees R))) (mem s) m2"
      "km_isalloc m2 (of_nat a) = km_isalloc (mem s) (of_nat a)"
      "km_checkmagic m2 (of_nat a) = km_checkmagic (mem s) (of_nat a)"
      using split_insert [OF o t(1,2) t'] by blast
    let ?m' = "km_setsize m2 (of_nat a) (of_nat t)"
    have "km_split s (of_nat a) (of_nat t) = Inr (of_nat a, s\<lparr>mem := ?m', free_list := p2\<rparr>)"
      using False guard i(1) size t(3) by (simp add: km_split_def Let_def of_nat_diff)
    moreover have "carve (a, n) t R = (a, t, True) # ?R'" using False by (simp add: carve_def)
    moreover have "heap_open (s\<lparr>mem := ?m', free_list := p2\<rparr>) L (a, t) ?R'"
      using i(2,3,6) cut_tiling [OF _ _ t(1,2) t', of "unat (kheap_begin s)" L a R "unat (kheap_end s)"] o
      by (intro resize_open) (auto simp: heap_open_def)
    moreover have "same_outside (footprint a t n (L @ R)) (mem s) ?m'"
      using header_after [OF open_header [OF o] t(2)] bd t'
      by (intro same_outside_mono [OF same_outside_trans [OF i(4) setsize_footprint [OF open_header [OF o]]]])
        (auto simp: footprint_def)
    moreover have "km_isalloc ?m' (of_nat a) = km_isalloc (mem s) (of_nat a)"
      using i(5) open_header [OF o] t(2) by (simp add: hdr_simps)
    ultimately show ?thesis by blast
  qed
qed

end
