(* ===== verification/KmallocOps.thy ===== *)
theory KmallocOps
  imports KmallocHeap
begin

text \<open>
  The allocator's entry points against the abstract heap: what \<open>kmalloc\<close>, \<open>kcalloc\<close>, \<open>kfree\<close>
  and \<open>krealloc\<close> do to the list of blocks, and that they never touch the bytes of a block that
  stays allocated.
\<close>

section \<open>Specification\<close>

text \<open>The size of the block that serves a request of \<open>sz\<close> bytes.\<close>

definition block_size :: "nat \<Rightarrow> nat" where
  "block_size sz = round_up 16 (sz + 16)"

text \<open>
  \<open>alloc_blocks t hi bs\<close>: the address given out, the new end of the heap and the new blocks when a
  block of \<open>t\<close> bytes is taken from the blocks \<open>bs\<close> of a heap that ends at \<open>hi\<close>.
\<close>

definition alloc_blocks :: "nat \<Rightarrow> nat \<Rightarrow> block list \<Rightarrow> nat \<times> nat \<times> block list" where
  "alloc_blocks t hi bs =
     (case first_fit t bs of
        Some (L, (a, n), R) \<Rightarrow> (a, hi, L @ carve (a, n) t R)
      | None \<Rightarrow> (hi, hi + round_up 4096 t, bs @ carve (hi, round_up 4096 t) t []))"

text \<open>The bytes of the allocated blocks of \<open>bs\<close>, headers included, are the same in both memories.\<close>

definition live_kept :: "block list \<Rightarrow> memory \<Rightarrow> memory \<Rightarrow> bool" where
  "live_kept bs m m' \<longleftrightarrow> (\<forall>(b, k, bl) \<in> set bs. bl \<longrightarrow>
     (\<forall>x. b \<le> unat x \<and> unat x < b + k \<longrightarrow> m' x = m x))"

text \<open>Memory that does not belong to the heap, now or later, is not touched.\<close>

definition outside_kept :: "km_state \<Rightarrow> km_state \<Rightarrow> bool" where
  "outside_kept s s' \<longleftrightarrow> kheap_begin s' = kheap_begin s \<and> kheap_max_end s' = kheap_max_end s \<and>
     (\<forall>x. unat x < unat (kheap_begin s) \<or> unat (kheap_max_end s) \<le> unat x \<longrightarrow> mem s' x = mem s x)"

lemma outside_kept_refl [simp]: "outside_kept s s"
  by (simp add: outside_kept_def)

lemma outside_kept_trans: "outside_kept s s' \<Longrightarrow> outside_kept s' s'' \<Longrightarrow> outside_kept s s''"
  by (simp add: outside_kept_def)

text \<open>A request that the heap can serve without its sizes wrapping around.\<close>

definition serviceable :: "km_state \<Rightarrow> block list \<Rightarrow> u32 \<Rightarrow> bool" where
  "serviceable s bs sz \<longleftrightarrow> block_size (unat sz) + 4095 < 4294967296 \<and> unat sz + 31 < 4294967296 \<and>
     (first_fit (block_size (unat sz)) bs \<noteq> None \<or>
      unat (kheap_end s) + round_up 4096 (block_size (unat sz)) \<le> unat (kheap_max_end s))"

lemma block_size_bounds:
  shows "16 \<le> block_size sz" "16 dvd block_size sz" "sz + 16 \<le> block_size sz"
    "block_size sz \<le> sz + 31"
  using round_up_ge [of 16 "sz + 16"] round_up_le [of 16 "sz + 16"] round_up_dvd [of 16 "sz + 16"]
  by (simp_all add: block_size_def)

lemma request_size_refines:
  assumes "unat sz + 31 < 4294967296"
  shows "request_size sz = of_nat (block_size (unat sz))"
  using align_refines [of 16 "unat sz + 16"] assms by (simp add: request_size_def block_size_def)

section \<open>Footprints and live blocks\<close>

lemma tiled_pair:
  assumes "tiled lo bs hi" "(b, k, bl) \<in> set bs" "(c, j, cl) \<in> set bs" "b \<noteq> c"
  shows "b + k \<le> c \<or> c + j \<le> b"
proof -
  obtain L R where bs: "bs = L @ (b, k, bl) # R" using assms(2) by (auto simp: in_set_conv_decomp)
  then have "(c, j, cl) \<in> set L \<union> set R" using assms(3,4) by auto
  then show ?thesis using tiled_disjoint assms(1) bs by blast
qed

lemma same_outside_range:
  assumes "same_outside H m m'" "b \<le> unat x" "unat x < b + k"
    and "\<And>h. h \<in> H \<Longrightarrow> header h" "\<And>h. h \<in> H \<Longrightarrow> h + 16 \<le> b \<or> b + k \<le> h"
  shows "m' x = m x"
proof -
  have "\<not> within (of_nat h) 16 x" if "h \<in> H" for h
    using assms(2,3) assms(4,5) [OF that] by (auto simp: within_header)
  then show ?thesis using assms(1) by (simp add: same_outside_def)
qed

lemma footprint_live:
  assumes til: "tiled lo (L @ (a, n, al) # R) hi" "16 dvd lo" "0 < lo" "hi < 4294967296"
    and out: "same_outside (footprint a t n (L @ R)) m m'"
  shows "live_kept (L @ R) m m'"
  unfolding live_kept_def
proof (clarify)
  fix b k bl and x :: u32
  assume b: "(b, k, bl) \<in> set (L @ R)" bl and x: "b \<le> unat x" "unat x < b + k"
  have "header h \<and> (h + 16 \<le> b \<or> b + k \<le> h)" if h: "h \<in> footprint a t n (L @ R)" for h
  proof (cases "h \<in> fst ` set (frees (L @ R))")
    case True
    then obtain j where "(h, j) \<in> set (frees (L @ R))" by force
    then have j: "(h, j, False) \<in> set (L @ (a, n, al) # R)" by (simp add: frees_mem)
    have "(b, k, True) \<in> set (L @ (a, n, al) # R)" using b by auto
    then have "b \<noteq> h" using tiled_addresses_distinct [OF til(1) _ j] by auto
    then show ?thesis
      using tiled_pair [OF til(1), of b k bl h j False] j b tiled_member [OF til(1) j]
        tiled_header [OF til j] by auto
  next
    case False
    then have "header h" "a \<le> h" "h + 16 \<le> a + n"
      using h tiled_header [OF til, of a n al] tiled_member [OF til(1), of a n al]
      by (auto simp: footprint_def)
    then show ?thesis using tiled_disjoint [OF til(1), of b k bl] b by auto
  qed
  then show "m' x = m x" using same_outside_range [OF out x] by blast
qed

lemma footprint_outside:
  assumes til: "tiled lo (L @ (a, n, al) # R) hi" "16 dvd lo" "0 < lo" "hi < 4294967296"
    and out: "same_outside (footprint a t n (L @ R)) m m'" and x: "unat x < lo \<or> hi \<le> unat x"
  shows "m' x = m x"
proof -
  have "header h \<and> lo \<le> h \<and> h + 16 \<le> hi" if h: "h \<in> footprint a t n (L @ R)" for h
  proof (cases "h \<in> fst ` set (frees (L @ R))")
    case True
    then obtain j where "(h, j) \<in> set (frees (L @ R))" by force
    then have j: "(h, j, False) \<in> set (L @ (a, n, al) # R)" by (simp add: frees_mem)
    then show ?thesis using tiled_member [OF til(1) j] tiled_header [OF til j] by auto
  next
    case False
    have "(a, n, al) \<in> set (L @ (a, n, al) # R)" by simp
    from tiled_member [OF til(1) this] tiled_header [OF til this] show ?thesis
      using h False by (auto simp: footprint_def)
  qed
  then have "\<not> within (of_nat h) 16 x" if "h \<in> footprint a t n (L @ R)" for h
    using that x by (fastforce simp: within_header)
  then show ?thesis using out by (simp add: same_outside_def)
qed

text \<open>Addresses of blocks and of the bytes in them.\<close>

lemma inv_bounds:
  assumes "heap_inv s bs" "(a, n, al) \<in> set bs"
  shows "header a" "a + n < 4294967296" "16 \<le> n" "16 dvd n"
proof -
  have h: "region_ok s" "tiled (unat (kheap_begin s)) bs (unat (kheap_end s))"
    using assms(1) by (auto simp: heap_inv_def)
  show "header a" using tiled_header [OF h(2) _ _ _ assms(2)] region_lo [OF h(1)] by simp
  show "a + n < 4294967296" "16 \<le> n" "16 dvd n"
    using tiled_member [OF h(2) assms(2)] unat32_bound [of "kheap_end s"] by linarith+
qed

lemma payload_nonzero:
  assumes "heap_inv s bs" "(a, n, al) \<in> set bs"
  shows "(of_nat (a + 16) :: u32) \<noteq> 0"
proof -
  have "a + 16 < 4294967296" using inv_bounds(2,3) [OF assms] by linarith
  then show ?thesis by (subst of_nat32_zero) auto
qed

lemma outside_footprint:
  assumes "region_ok s" "tiled (unat (kheap_begin s)) (L @ (a, n, al) # R) hi"
    "same_outside (footprint a t n (L @ R)) (mem s) m'" "hi \<le> unat (kheap_max_end s)"
    "unat x < unat (kheap_begin s) \<or> unat (kheap_max_end s) \<le> unat x"
  shows "m' x = mem s x"
proof (rule footprint_outside [OF assms(2) _ _ _ assms(3)])
  show "16 dvd unat (kheap_begin s)" "0 < unat (kheap_begin s)" using region_lo [OF assms(1)] by simp_all
  show "hi < 4294967296" using assms(4) unat32_bound [of "kheap_max_end s"] by linarith
qed (use assms(4,5) in auto)

section \<open>Allocation\<close>

lemma kmalloc_finish:
  assumes find: "km_find s (request_size sz) = Inr (of_nat a, s1)"
    and o: "heap_open s1 L (a, n) R" and t: "16 \<le> t" "16 dvd t" "t \<le> n"
    and req: "request_size sz = of_nat t"
  shows "\<exists>s' n' R'. kmalloc_unsafe s sz = Inr (of_nat (a + 16), s') \<and>
     carve (a, n) t R = (a, n', True) # R' \<and> t \<le> n' \<and> heap_inv s' (L @ (a, n', True) # R') \<and>
     kheap_begin s' = kheap_begin s1 \<and> kheap_end s' = kheap_end s1 \<and>
     kheap_max_end s' = kheap_max_end s1 \<and>
     same_outside (footprint a t n (L @ R)) (mem s1) (mem s')"
proof -
  obtain m' p' n' R' where sp:
    "km_split s1 (of_nat a) (of_nat t) = Inr (of_nat a, s1\<lparr>mem := m', free_list := p'\<rparr>)"
    "carve (a, n) t R = (a, n', True) # R'" "t \<le> n'"
    "heap_open (s1\<lparr>mem := m', free_list := p'\<rparr>) L (a, n') R'"
    "same_outside (footprint a t n (L @ R)) (mem s1) m'"
    using split_open [OF o t] by blast
  let ?s2 = "s1\<lparr>mem := m', free_list := p'\<rparr>"
  let ?m = "km_setalloc m' (of_nat a)"
  let ?st = "kmalloc_stats s1"
  let ?s' = "?s2\<lparr>mem := ?m, kmalloc_stats := ?st\<lparr>allocation_cnt := allocation_cnt ?st + 1,
               allocation_bytes := allocation_bytes ?st + km_getsize ?m (of_nat a)\<rparr>\<rparr>"
  have "kmalloc_unsafe s sz = Inr (of_nat (a + 16), ?s')"
    using find sp(1) open_header [OF o] req by (simp add: kmalloc_unsafe_def Let_def header_nonzero)
  moreover have "heap_inv ?s' (L @ (a, n', True) # R')"
    using open_close [OF sp(4)] by (simp add: heap_inv_def region_ok_def)
  moreover have "same_outside (footprint a t n (L @ R)) (mem s1) ?m"
    using same_outside_trans [OF sp(5) setalloc_footprint [OF open_header [OF o]]]
    by (rule same_outside_mono) (auto simp: footprint_def)
  ultimately show ?thesis using sp(2,3)
    by (intro exI [of _ ?s'] exI [of _ n'] exI [of _ R']) simp
qed

lemma kmalloc_fit:
  assumes inv: "heap_inv s bs" and sz: "unat sz + 31 < 4294967296"
    and fit: "first_fit (block_size (unat sz)) bs = Some (L, (a, n), R)"
  shows "\<exists>s' n' R'. kmalloc_unsafe s sz = Inr (of_nat (a + 16), s') \<and>
     carve (a, n) (block_size (unat sz)) R = (a, n', True) # R' \<and> block_size (unat sz) \<le> n' \<and>
     heap_inv s' (L @ (a, n', True) # R') \<and> kheap_begin s' = kheap_begin s \<and>
     kheap_end s' = kheap_end s \<and> kheap_max_end s' = kheap_max_end s \<and>
     live_kept bs (mem s) (mem s') \<and> outside_kept s s'"
proof -
  let ?t = "block_size (unat sz)"
  have bs: "bs = L @ (a, n, False) # R" "?t \<le> n" "\<forall>(c, k) \<in> set (frees L). k < ?t"
    using first_fit_Some [OF fit] by auto
  obtain m' p' where f: "km_find s (of_nat ?t) = Inr (of_nat a, s\<lparr>mem := m', free_list := p'\<rparr>)"
    "heap_open (s\<lparr>mem := m', free_list := p'\<rparr>) L (a, n) R"
    "same_outside (insert a (fst ` set (frees L))) (mem s) m'"
    using find_open [of s L a n R ?t] inv bs by blast
  obtain s' n' R' where k: "kmalloc_unsafe s sz = Inr (of_nat (a + 16), s')"
    "carve (a, n) ?t R = (a, n', True) # R'" "?t \<le> n'" "heap_inv s' (L @ (a, n', True) # R')"
    "kheap_begin s' = kheap_begin s" "kheap_end s' = kheap_end s" "kheap_max_end s' = kheap_max_end s"
    "same_outside (footprint a ?t n (L @ R)) m' (mem s')"
    using kmalloc_finish [OF _ f(2), of s sz ?t] f(1) request_size_refines [OF sz]
      block_size_bounds bs(2) by auto
  have out: "same_outside (footprint a ?t n (L @ R)) (mem s) (mem s')"
    using same_outside_trans [OF f(3) k(8)] by (rule same_outside_mono) (auto simp: footprint_def)
  have reg: "region_ok s" and til: "tiled (unat (kheap_begin s)) (L @ (a, n, False) # R) (unat (kheap_end s))"
    using inv bs(1) by (simp_all add: heap_inv_def)
  have "live_kept (L @ R) (mem s) (mem s')"
    using footprint_live [OF til _ _ _ out] region_lo [OF reg] by simp
  then have "live_kept bs (mem s) (mem s')" using bs(1) by (auto simp: live_kept_def)
  moreover have "outside_kept s s'"
    using outside_footprint [OF reg til out] reg k(5,7) by (simp add: outside_kept_def region_ok_def word_le_nat_alt)
  ultimately show ?thesis using k by blast
qed


lemma kmalloc_grow:
  assumes inv: "heap_inv s bs" and sv: "serviceable s bs sz"
    and fit: "first_fit (block_size (unat sz)) bs = None"
  defines "t \<equiv> block_size (unat sz)" and "hi \<equiv> unat (kheap_end s)"
  shows "\<exists>s' n' R'. kmalloc_unsafe s sz = Inr (of_nat (hi + 16), s') \<and>
     carve (hi, round_up 4096 t) t [] = (hi, n', True) # R' \<and> t \<le> n' \<and>
     heap_inv s' (bs @ (hi, n', True) # R') \<and> kheap_begin s' = kheap_begin s \<and>
     unat (kheap_end s') = hi + round_up 4096 t \<and> kheap_max_end s' = kheap_max_end s \<and>
     live_kept bs (mem s) (mem s') \<and> outside_kept s s'"
proof -
  let ?k = "round_up 4096 t"
  have t: "t + 4095 < 4294967296" "unat sz + 31 < 4294967296" "hi + ?k \<le> unat (kheap_max_end s)"
    using sv fit by (auto simp: serviceable_def t_def hi_def)
  then have hik: "hi + ?k < 4294967296"
    using unat32_bound [of "kheap_max_end s"] by linarith
  note tb = block_size_bounds [of "unat sz", folded t_def]
  obtain m' where e: "km_extend s (of_nat t) = Inr (of_nat hi, s\<lparr>kheap_end := of_nat (hi + ?k), mem := m'\<rparr>)"
    "heap_open (s\<lparr>kheap_end := of_nat (hi + ?k), mem := m'\<rparr>) bs (hi, ?k) []"
    "same_outside {hi} (mem s) m'"
    using extend_open [OF inv _ t(1)] t(3) tb(1) by (auto simp: hi_def)
  have "km_find s (of_nat t) = km_extend s (of_nat t)"
    using km_find_miss [of s "frees bs" t] inv first_fit_None [OF fit] t(1)
    by (auto simp: heap_inv_def t_def)
  then have find: "km_find s (request_size sz) = Inr (of_nat hi, s\<lparr>kheap_end := of_nat (hi + ?k), mem := m'\<rparr>)"
    using e(1) request_size_refines [OF t(2)] by (simp add: t_def)
  obtain s' n' R' where k: "kmalloc_unsafe s sz = Inr (of_nat (hi + 16), s')"
    "carve (hi, ?k) t [] = (hi, n', True) # R'" "t \<le> n'" "heap_inv s' (bs @ (hi, n', True) # R')"
    "kheap_begin s' = kheap_begin s" "kheap_end s' = of_nat (hi + ?k)" "kheap_max_end s' = kheap_max_end s"
    "same_outside (footprint hi t ?k bs) m' (mem s')"
    using kmalloc_finish [OF find e(2) tb(1,2) round_up_ge request_size_refines [OF t(2), folded t_def]]
    by auto
  have out: "same_outside (footprint hi t ?k (bs @ [])) (mem s) (mem s')"
    using same_outside_trans [OF e(3) k(8)] by (rule same_outside_mono) (auto simp: footprint_def)
  have e': "unat (of_nat (hi + ?k) :: u32) = hi + ?k" using hik by (rule unat_of_nat32)
  then have til: "tiled (unat (kheap_begin s)) (bs @ (hi, ?k, True) # []) (hi + ?k)"
    using e(2) by (simp add: heap_open_def)
  have reg: "region_ok s" using inv by (simp add: heap_inv_def)
  have "live_kept bs (mem s) (mem s')"
    using footprint_live [OF til _ _ hik out] region_lo [OF reg] by simp
  moreover have "outside_kept s s'"
    using outside_footprint [OF reg til out t(3)] k(5,7) by (simp add: outside_kept_def)
  ultimately show ?thesis using k(1-7) e' by auto
qed

theorem kmalloc_refines:
  assumes inv: "heap_inv s bs" and sv: "serviceable s bs sz"
    and spec: "alloc_blocks (block_size (unat sz)) (unat (kheap_end s)) bs = (a, hi', bs')"
  shows "\<exists>s'. kmalloc_unsafe s sz = Inr (of_nat (a + 16), s') \<and> heap_inv s' bs' \<and>
     kheap_begin s' = kheap_begin s \<and> unat (kheap_end s') = hi' \<and>
     kheap_max_end s' = kheap_max_end s \<and> live_kept bs (mem s) (mem s') \<and> outside_kept s s'"
proof (cases "first_fit (block_size (unat sz)) bs")
  case None
  then show ?thesis using kmalloc_grow [OF inv sv None] spec by (auto simp: alloc_blocks_def)
next
  case (Some x)
  obtain L b n R where x: "first_fit (block_size (unat sz)) bs = Some (L, (b, n), R)"
    using Some by (cases x) auto
  then show ?thesis
    using kmalloc_fit [OF inv _ x] sv spec by (auto simp: alloc_blocks_def serviceable_def)
qed

text \<open>What the abstract allocation promises about the block it hands out.\<close>

lemma alloc_blocks_shape:
  assumes "tiled lo bs hi" "alloc_blocks t hi bs = (a, hi', bs')" "16 \<le> t"
  shows "\<exists>n. t \<le> n \<and> (a, n, True) \<in> set bs' \<and>
     (\<forall>(b, k, bl) \<in> set bs. bl \<longrightarrow> (b, k, bl) \<in> set bs' \<and> (b + k \<le> a \<or> a + n \<le> b))"
proof (cases "first_fit t bs")
  case None
  have c: "\<exists>n R. carve (hi, round_up 4096 t) t [] = (hi, n, True) # R \<and> t \<le> n"
    using round_up_ge [of 4096 t] by (auto simp: carve_def)
  then obtain n R where n: "carve (hi, round_up 4096 t) t [] = (hi, n, True) # R" "t \<le> n" by blast
  then have "a = hi" "bs' = bs @ (hi, n, True) # R" using assms(2) None by (auto simp: alloc_blocks_def)
  then show ?thesis using n tiled_member [OF assms(1)] by fastforce
next
  case (Some x)
  obtain L b n R where x: "first_fit t bs = Some (L, (b, n), R)"
    using Some by (cases x) auto
  note f = first_fit_Some [OF x]
  have bs': "bs' = L @ carve (b, n) t R" "a = b"
    using assms(2) x by (auto simp: alloc_blocks_def)
  have *: "\<exists>n' R'. carve (b, n) t R = (b, n', True) # R' \<and> t \<le> n' \<and> n' \<le> n \<and>
     (\<forall>c k. (c, k, True) \<in> set R \<longrightarrow> (c, k, True) \<in> set R')"
    using f by (auto simp: carve_def absorb_next_allocated)
  then obtain n' R' where n': "carve (b, n) t R = (b, n', True) # R'" "t \<le> n'" "n' \<le> n"
    "\<And>c k. (c, k, True) \<in> set R \<Longrightarrow> (c, k, True) \<in> set R'" by blast
  have "c + k \<le> b \<or> b + n' \<le> c" if "(c, k, cl) \<in> set L \<union> set R" for c k cl
    using tiled_disjoint [of lo L b n False R hi c k cl] assms(1) f that n'(3) by auto
  then show ?thesis using n' bs' f by (intro exI [of _ n']) auto
qed

section \<open>Release\<close>

theorem kfree_refines:
  assumes inv: "heap_inv s (L @ (a, n, True) # R)"
  shows "\<exists>s'. kfree_unsafe s (of_nat (a + 16)) = Inr s' \<and> heap_inv s' (release L (a, n) R) \<and>
     kheap_begin s' = kheap_begin s \<and> kheap_end s' = kheap_end s \<and>
     kheap_max_end s' = kheap_max_end s \<and>
     kmalloc_stats s' = (kmalloc_stats s)\<lparr>free_bytes := free_bytes (kmalloc_stats s) + of_nat n,
       free_cnt := free_cnt (kmalloc_stats s) + 1\<rparr> \<and>
     same_outside (insert a (fst ` set (frees L @ frees R))) (mem s) (mem s') \<and>
     \<not> km_isalloc (mem s') (of_nat a) \<and> km_checkmagic (mem s') (of_nat a)"
proof -
  let ?lo = "unat (kheap_begin s)" and ?hi = "unat (kheap_end s)"
  have h: "region_ok s" "tiled ?lo (L @ (a, n, True) # R) ?hi" "coalesced (L @ (a, n, True) # R)"
    "hdr_ok (mem s) (a, n, True)"
    and ch: "free_chain (mem s) (free_list s) (frees L @ frees R)"
    and hd: "\<forall>x \<in> set L \<union> set R. hdr_ok (mem s) x"
    using inv by (auto simp: heap_inv_def)
  have a: "header a" using tiled_header [OF h(2), of a n True] region_lo [OF h(1)] by simp
  have nz: "(of_nat (a + 16) :: u32) \<noteq> 0" using inv by (intro payload_nonzero) auto
  let ?s1 = "s\<lparr>kmalloc_stats := (kmalloc_stats s)\<lparr>free_bytes := free_bytes (kmalloc_stats s) + of_nat n,
       free_cnt := free_cnt (kmalloc_stats s) + 1\<rparr>, mem := km_clearalloc (mem s) (of_nat a)\<rparr>"
  have "kfree_unsafe s (of_nat (a + 16)) = km_insert ?s1 (of_nat a)"
    using nz hdr_okD [OF h(4)] by (simp add: kfree_unsafe_def Let_def kernel_assert_def)
  moreover have "\<forall>x \<in> set L \<union> set R. hdr_ok (km_clearalloc (mem s) (of_nat a)) x"
  proof (clarify)
    fix c k cl assume c: "(c, k, cl) \<in> set L \<union> set R"
    then have "header c" "c \<noteq> a"
      using tiled_header [OF h(2), of c k cl] region_lo [OF h(1)] open_distinct [OF h(2) c] by auto
    then show "hdr_ok (km_clearalloc (mem s) (of_nat a)) (c, k, cl)"
      using hdr_ok_frame [OF _ clearalloc_footprint [OF a]] hd c a by auto
  qed
  moreover have "free_chain (km_clearalloc (mem s) (of_nat a)) (free_list s) (frees L @ frees R)"
    using free_chain_frame [OF clearalloc_footprint [OF a] _ _ ch] a open_not_free [OF h(2)] by simp
  ultimately have o: "heap_open ?s1 L (a, n) R"
    using h hdr_okD [OF h(4)] a by (simp add: heap_open_def region_ok_def hdr_simps)
  have flags: "\<not> km_isalloc (mem ?s1) (of_nat a)" "km_checkmagic (mem ?s1) (of_nat a)"
    using a hdr_okD [OF h(4)] by (simp_all add: hdr_simps)
  then obtain m' p' where i: "km_insert ?s1 (of_nat a) = Inr (?s1\<lparr>mem := m', free_list := p'\<rparr>)"
    "heap_inv (?s1\<lparr>mem := m', free_list := p'\<rparr>) (release L (a, n) R)"
    "same_outside (insert a (fst ` set (frees L @ frees R))) (mem ?s1) m'" "keeps_flags (mem ?s1) m'"
    using open_insert [OF o] by blast
  have out: "same_outside (insert a (fst ` set (frees L @ frees R))) (mem s) m'"
    using same_outside_trans [OF clearalloc_footprint [OF a] i(3) [simplified]] by simp
  have "\<not> km_isalloc m' (of_nat a) \<and> km_checkmagic m' (of_nat a)"
    using i(4) a flags by (simp add: keeps_flags_def)
  then show ?thesis
    using i(1,2) out \<open>kfree_unsafe s (of_nat (a + 16)) = km_insert ?s1 (of_nat a)\<close>
    by (intro exI [of _ "?s1\<lparr>mem := m', free_list := p'\<rparr>"]) simp
qed


lemma kfree_live:
  assumes "heap_inv s (L @ (a, n, True) # R)"
    and "same_outside (insert a (fst ` set (frees L @ frees R))) (mem s) m'"
  shows "live_kept (L @ R) (mem s) m'"
proof -
  have "same_outside (footprint a 0 n (L @ R)) (mem s) m'"
    using assms(2) by (rule same_outside_mono) (auto simp: footprint_def)
  then show ?thesis
    using footprint_live [of "unat (kheap_begin s)" L a n True R "unat (kheap_end s)"] assms(1)
      region_lo [of s] by (auto simp: heap_inv_def)
qed

lemma kfree_outside:
  assumes inv: "heap_inv s (L @ (a, n, True) # R)" and f: "kfree_unsafe s (of_nat (a + 16)) = Inr s'"
  shows "outside_kept s s'"
proof -
  have k: "kheap_begin s' = kheap_begin s" "kheap_max_end s' = kheap_max_end s"
    "same_outside (insert a (fst ` set (frees L @ frees R))) (mem s) (mem s')"
    using kfree_refines [OF inv] f by auto
  have out: "same_outside (footprint a 0 n (L @ R)) (mem s) (mem s')"
    using k(3) by (rule same_outside_mono) (auto simp: footprint_def)
  have reg: "region_ok s" and til: "tiled (unat (kheap_begin s)) (L @ (a, n, True) # R) (unat (kheap_end s))"
    using inv by (simp_all add: heap_inv_def)
  show ?thesis
    using outside_footprint [OF reg til out] reg k(1,2) by (simp add: outside_kept_def region_ok_def word_le_nat_alt)
qed

section \<open>Failures\<close>

lemma kmalloc_out_of_memory:
  assumes inv: "heap_inv s bs" and sz: "unat sz + 31 < 4294967296"
    and fit: "first_fit (block_size (unat sz)) bs = None"
    and room: "unat (kheap_max_end s) < unat (kheap_end s) + round_up 4096 (block_size (unat sz))"
      "unat (kheap_end s) + round_up 4096 (block_size (unat sz)) < 4294967296"
      "block_size (unat sz) + 4095 < 4294967296"
  shows "kmalloc_unsafe s sz = Inl (Panic ''km_extend(): out of memory'')"
proof -
  let ?t = "block_size (unat sz)"
  have "km_find s (of_nat ?t) = km_extend s (of_nat ?t)"
    using km_find_miss [of s "frees bs" ?t] inv first_fit_None [OF fit] room(3)
    by (auto simp: heap_inv_def)
  then show ?thesis
    using extend_panic [OF room(3,2,1)] request_size_refines [OF sz]
    by (simp add: kmalloc_unsafe_def Let_def)
qed

lemma kfree_unallocated:
  assumes "ptr \<noteq> 0" "km_checkmagic (mem s) (ptr - 16)" "\<not> km_isalloc (mem s) (ptr - 16)"
  shows "kfree_unsafe s ptr = Inl (Panic ''kfree() - Unallocated memory.'')"
  using assms by (simp add: kfree_unsafe_def Let_def kernel_assert_def kernel_panic_def)

lemma kfree_bad_pointer:
  assumes "ptr \<noteq> 0" "\<not> km_checkmagic (mem s) (ptr - 16)"
  shows "kfree_unsafe s ptr = Inl (Panic ''kfree() - Bad pointer.'')"
  using assms by (simp add: kfree_unsafe_def Let_def kernel_assert_def kernel_panic_def)

lemma kfree_twice:
  assumes inv: "heap_inv s (L @ (a, n, True) # R)"
    and "kfree_unsafe s (of_nat (a + 16)) = Inr s'"
  shows "kfree_unsafe s' (of_nat (a + 16)) = Inl (Panic ''kfree() - Unallocated memory.'')"
proof -
  have "\<not> km_isalloc (mem s') (of_nat a) \<and> km_checkmagic (mem s') (of_nat a)"
    using kfree_refines [OF inv] assms(2) by auto
  then show ?thesis using payload_nonzero [OF inv, of a n True] by (intro kfree_unallocated) auto
qed

end
