(* ===== verification/KmallocData.thy ===== *)
theory KmallocData
  imports KmallocOps
begin

text \<open>
  The contents of blocks: writes inside an allocated block never disturb the heap, \<open>kcalloc\<close>
  returns zeroed memory, and \<open>krealloc\<close> in each of its three ways (shrink in place, grow into the
  next block, move) keeps the invariant and the data.
\<close>

section \<open>The bytes of a block\<close>

text \<open>The 16-byte cells of the block \<open>(a, n)\<close> behind its header.\<close>

definition payload :: "nat \<Rightarrow> nat \<Rightarrow> nat set" where
  "payload a n = {h. header h \<and> a + 16 \<le> h \<and> h + 16 \<le> a + n}"

lemma cell_bounds:
  assumes "16 dvd a" "16 dvd n" "a + 16 \<le> x" "x < a + (n :: nat)"
  shows "a + 16 \<le> x div 16 * 16" "x div 16 * 16 + 16 \<le> a + n"
proof -
  obtain i j where i: "a = 16 * i" "n = 16 * j" using assms(1,2) by (elim dvdE)
  then have "i + 1 \<le> x div 16" "x div 16 < i + j"
    using assms(3,4) by (auto simp: less_eq_div_iff_mult_less_eq div_less_iff_less_mult)
  then show "a + 16 \<le> x div 16 * 16" "x div 16 * 16 + 16 \<le> a + n" using i by simp_all
qed

lemma payload_cover:
  assumes "header a" "16 dvd n" "a + n < 4294967296"
    and "\<And>x. unat x < a + 16 \<or> a + n \<le> unat x \<Longrightarrow> m' x = m x"
  shows "same_outside (payload a n) m m'"
  unfolding same_outside_def
proof (intro allI impI)
  fix x :: u32 assume out: "\<forall>h \<in> payload a n. \<not> within (of_nat h) 16 x"
  let ?h = "unat x div 16 * 16"
  have "a + 16 \<le> ?h" "?h + 16 \<le> a + n" if "a + 16 \<le> unat x" "unat x < a + n"
    using cell_bounds [of a n "unat x"] assms(1,2) that by (simp_all add: header_def)
  moreover have "header ?h" if "a + 16 \<le> ?h" "?h + 16 \<le> a + n"
    using that assms(3) by (simp add: header_def)
  ultimately have "?h \<in> payload a n" "header ?h" if "a + 16 \<le> unat x" "unat x < a + n"
    using that by (auto simp: payload_def)
  moreover have "within (of_nat ?h) 16 x" if "header ?h"
    unfolding within_header [OF that] using dividend_less_div_times [of 16 "unat x"] by simp
  ultimately have "\<not> (a + 16 \<le> unat x \<and> unat x < a + n)" using out by blast
  then show "m' x = m x" by (intro assms(4)) linarith
qed

lemma payload_write:
  assumes inv: "heap_inv s bs" and b: "(a, n, al) \<in> set bs"
    and out: "same_outside (payload a n) (mem s) m'"
  shows "heap_inv (s\<lparr>mem := m'\<rparr>) bs"
proof -
  have t: "tiled (unat (kheap_begin s)) bs (unat (kheap_end s))" using inv by (simp add: heap_inv_def)
  have away: "c \<notin> payload a n" if "(c, k, cl) \<in> set bs" for c k cl
    using tiled_pair [OF t b that] inv_bounds(3) [OF inv that] by (auto simp: payload_def)
  have "hdr_ok m' (c, k, cl)" if "(c, k, cl) \<in> set bs" for c k cl
    using inv that away [OF that] inv_bounds(1) [OF inv that]
    by (auto simp: heap_inv_def payload_def intro: hdr_ok_frame [OF _ out])
  moreover have "payload a n \<inter> fst ` set (frees bs) = {}"
    using away by (fastforce simp: frees_mem)
  then have "free_chain m' (free_list s) (frees bs)"
    using inv by (intro free_chain_frame [OF out]) (auto simp: payload_def heap_inv_def)
  ultimately show ?thesis using inv by (auto simp: heap_inv_def region_ok_def)
qed

lemma payload_live:
  assumes inv: "heap_inv s bs" and b: "(a, n, al) \<in> set bs" and c: "(c, k, cl) \<in> set bs" "c \<noteq> a"
    and out: "same_outside (payload a n) m m'" and x: "c \<le> unat x" "unat x < c + k"
  shows "m' x = m x"
proof -
  have t: "tiled (unat (kheap_begin s)) bs (unat (kheap_end s))" using inv by (simp add: heap_inv_def)
  show ?thesis
    using tiled_pair [OF t b c(1)] c(2) by (intro same_outside_range [OF out x]) (auto simp: payload_def)
qed

lemma payload_outside:
  assumes inv: "heap_inv s bs" and b: "(a, n, al) \<in> set bs" and out: "same_outside (payload a n) (mem s) m'"
  shows "outside_kept s (s\<lparr>mem := m'\<rparr>)"
proof -
  have t: "tiled (unat (kheap_begin s)) bs (unat (kheap_end s))" "region_ok s" using inv by (simp_all add: heap_inv_def)
  have "unat (kheap_begin s) \<le> a" "a + n \<le> unat (kheap_max_end s)"
    using tiled_member [OF t(1) b] t(2) by (simp_all add: region_ok_def word_le_nat_alt)
  then have "\<not> within (of_nat h) 16 x" if "h \<in> payload a n" "unat x < unat (kheap_begin s) \<or> unat (kheap_max_end s) \<le> unat x" for h x
    using that by (auto simp: payload_def within_header)
  then show ?thesis using out by (simp add: outside_kept_def same_outside_def)
qed

section \<open>kcalloc\<close>

lemma word_offset:
  assumes "p + unat n < 4294967296"
  shows "(x - of_nat p :: u32) < n \<longleftrightarrow> p \<le> unat x \<and> unat x < p + unat n"
  using within_of_nat [of p "unat n" x] assms by (simp add: within_def)

lemma unat_offset: "p + unat i < 4294967296 \<Longrightarrow> unat (of_nat p + i :: u32) = p + unat i"
  by (subst unat32_plus) (simp_all add: unat_of_nat32)

text \<open>
  A request of \<open>nelems * elemsize\<close> bytes that does not wrap around is served with a fresh block of
  zeroes; the heap invariant and the live blocks are kept.
\<close>

theorem kcalloc_refines:
  assumes inv: "heap_inv s bs" and sv: "serviceable s bs (nelems * elemsize)"
    and spec: "alloc_blocks (block_size (unat (nelems * elemsize))) (unat (kheap_end s)) bs = (a, hi', bs')"
  shows "\<exists>s'. kcalloc_unsafe s nelems elemsize = Inr (of_nat (a + 16), s') \<and> heap_inv s' bs' \<and>
     unat (kheap_end s') = hi' \<and> live_kept bs (mem s) (mem s') \<and>
     (\<forall>i < nelems * elemsize. mem s' (of_nat (a + 16) + i) = 0) \<and> outside_kept s s'"
proof -
  let ?b = "nelems * elemsize" and ?p = "of_nat (a + 16) :: u32"
  obtain s1 where k: "kmalloc_unsafe s ?b = Inr (?p, s1)" "heap_inv s1 bs'" "unat (kheap_end s1) = hi'"
    "live_kept bs (mem s) (mem s1)" "outside_kept s s1"
    using kmalloc_refines [OF inv sv spec] by blast
  obtain n where n: "block_size (unat ?b) \<le> n" "(a, n, True) \<in> set bs'"
    "\<forall>(b, k, bl) \<in> set bs. bl \<longrightarrow> (b, k, bl) \<in> set bs' \<and> (b + k \<le> a \<or> a + n \<le> b)"
    using alloc_blocks_shape [OF _ spec block_size_bounds(1)] inv unfolding heap_inv_def by blast
  note nb = inv_bounds [OF k(2) n(2)]
  have room: "a + 16 + unat ?b \<le> a + n" using n(1) block_size_bounds(3) [of "unat ?b"] by linarith
  let ?m = "fill_up (mem s1) ?p 0 ?b 0"
  have fill: "?m x = (if a + 16 \<le> unat x \<and> unat x < a + 16 + unat ?b then 0 else mem s1 x)" for x
    using word_offset [of "a + 16" ?b x] room nb(2) by (simp add: fill_up_apply)
  have out: "same_outside (payload a n) (mem s1) ?m"
  proof (intro payload_cover nb)
    fix x :: u32 assume "unat x < a + 16 \<or> a + n \<le> unat x"
    then show "?m x = mem s1 x" using room unfolding fill by auto
  qed
  have "kcalloc_unsafe s nelems elemsize = Inr (?p, s1\<lparr>mem := ?m\<rparr>)"
    using k(1) payload_nonzero [OF k(2) n(2)] by (simp add: kcalloc_unsafe_def Let_def)
  moreover have "heap_inv (s1\<lparr>mem := ?m\<rparr>) bs'" by (rule payload_write [OF k(2) n(2) out])
  moreover have "live_kept bs (mem s1) ?m"
    using n(3) room unfolding live_kept_def fill by fastforce
  then have "live_kept bs (mem s) ?m" using k(4) unfolding live_kept_def by fastforce
  moreover have "\<forall>i < ?b. ?m (?p + i) = 0" by (simp add: fill_up_apply)
  moreover have "outside_kept s (s1\<lparr>mem := ?m\<rparr>)"
    using outside_kept_trans [OF k(5) payload_outside [OF k(2) n(2) out]] .
  ultimately show ?thesis using k(3) by (intro exI [of _ "s1\<lparr>mem := ?m\<rparr>"]) simp
qed

section \<open>krealloc in place\<close>

text \<open>An allocated block in the hands of an operation, and back.\<close>

lemma inv_open: "heap_inv s (L @ (a, n, True) # R) \<Longrightarrow> heap_open s L (a, n) R"
  using hdr_okD [of "mem s" a n True] by (auto simp: heap_inv_def heap_open_def)

lemma open_inv:
  "heap_open s L (a, n) R \<Longrightarrow> km_isalloc (mem s) (of_nat a) \<Longrightarrow> heap_inv s (L @ (a, n, True) # R)"
  by (auto simp: heap_inv_def heap_open_def hdr_ok_def)

text \<open>The bytes of the block \<open>(a, n)\<close> behind its header, up to the offset \<open>t\<close>, are kept.\<close>

lemma footprint_data:
  assumes til: "tiled lo (L @ (a, n, al) # R) hi" "16 dvd lo" "0 < lo" "hi < 4294967296"
    and out: "same_outside (footprint a t n (L @ R)) m m'"
    and x: "a + 16 \<le> unat x" "unat x < a + t" "t \<le> n"
  shows "m' x = m x"
proof -
  have "header h \<and> (h + 16 \<le> a + 16 \<or> a + t \<le> h)" if h: "h \<in> footprint a t n (L @ R)" for h
  proof (cases "h \<in> fst ` set (frees (L @ R))")
    case True
    then obtain j where "(h, j) \<in> set (frees (L @ R))" by force
    then have j: "(h, j, False) \<in> set L \<union> set R" by (simp add: frees_mem)
    have "h + j \<le> a \<or> a + n \<le> h" by (rule tiled_disjoint [OF til(1) j])
    moreover have "header h" using tiled_header [OF til, of h j False] j by auto
    ultimately show ?thesis using x(3) by auto
  next
    case False
    then show ?thesis using h tiled_header [OF til, of a n al] by (auto simp: footprint_def)
  qed
  then show ?thesis using same_outside_range [OF out, of "a + 16" x "t - 16"] x by fastforce
qed

lemma krealloc_shrink:
  assumes inv: "heap_inv s (L @ (a, n, True) # R)" and sz: "0 < sz" "unat sz + 31 < 4294967296"
    and t: "block_size (unat sz) \<le> n"
  shows "\<exists>s' n' R'. krealloc_unsafe s (of_nat (a + 16)) sz = Inr (of_nat (a + 16), s') \<and>
     carve (a, n) (block_size (unat sz)) R = (a, n', True) # R' \<and> block_size (unat sz) \<le> n' \<and>
     heap_inv s' (L @ (a, n', True) # R') \<and> kheap_end s' = kheap_end s \<and>
     kheap_begin s' = kheap_begin s \<and> kheap_max_end s' = kheap_max_end s \<and>
     live_kept (L @ R) (mem s) (mem s') \<and> (\<forall>i < sz. mem s' (of_nat (a + 16) + i) = mem s (of_nat (a + 16) + i)) \<and>
     outside_kept s s'"
proof -
  let ?t = "block_size (unat sz)"
  note ib = inv_bounds [OF inv, of a n True, simplified]
  note o = inv_open [OF inv]
  have hd: "hdr_ok (mem s) (a, n, True)" using inv by (simp add: heap_inv_def)
  obtain m' p' n' R' where sp: "km_split s (of_nat a) (of_nat ?t) = Inr (of_nat a, s\<lparr>mem := m', free_list := p'\<rparr>)"
     "carve (a, n) ?t R = (a, n', True) # R'" "?t \<le> n'"
     "heap_open (s\<lparr>mem := m', free_list := p'\<rparr>) L (a, n') R'"
     "same_outside (footprint a ?t n (L @ R)) (mem s) m'" "km_isalloc m' (of_nat a) = km_isalloc (mem s) (of_nat a)"
    using split_open [OF o block_size_bounds(1,2) t] by blast
  have "request_size sz \<le> km_getsize (mem s) (of_nat a)"
    using request_size_refines [OF sz(2)] hdr_okD(1) [OF hd] t ib(2) by (simp add: of_nat32_le)
  then have "krealloc_unsafe s (of_nat (a + 16)) sz = Inr (of_nat (a + 16), s\<lparr>mem := m', free_list := p'\<rparr>)"
    using sp(1) payload_nonzero [OF inv, of a n True] sz(1) hdr_okD [OF hd] request_size_refines [OF sz(2)]
    by (simp add: krealloc_unsafe_def Let_def kernel_assert_def)
  moreover have "heap_inv (s\<lparr>mem := m', free_list := p'\<rparr>) (L @ (a, n', True) # R')"
    using open_inv [OF sp(4)] sp(6) hdr_okD [OF hd] by simp
  moreover have til: "tiled (unat (kheap_begin s)) (L @ (a, n, True) # R) (unat (kheap_end s))" "region_ok s"
    using inv by (auto simp: heap_inv_def)
  then have "live_kept (L @ R) (mem s) m'"
    using footprint_live [OF til(1) _ _ _ sp(5)] region_lo [OF til(2)] by simp
  moreover have "outside_kept s (s\<lparr>mem := m', free_list := p'\<rparr>)"
    using outside_footprint [OF til(2,1) sp(5)] til(2) by (simp add: outside_kept_def region_ok_def word_le_nat_alt)
  moreover have "m' (of_nat (a + 16) + i) = mem s (of_nat (a + 16) + i)" if "i < sz" for i
  proof -
    have "unat (of_nat (a + 16) + i) = a + 16 + unat i"
      using that block_size_bounds(3) [of "unat sz"] t ib(2)
      by (intro unat_offset) (simp add: word_less_nat_alt)
    then show ?thesis
      using footprint_data [OF til(1) _ _ _ sp(5), of "of_nat (a + 16) + i"] region_lo [OF til(2)] that t
        block_size_bounds(3) [of "unat sz"] by (simp add: word_less_nat_alt)
  qed
  ultimately show ?thesis using sp(2,3) by (intro exI [of _ "s\<lparr>mem := m', free_list := p'\<rparr>"]) auto
qed


lemma coalesced_allocated: "coalesced (L @ (a, n, True) # R) \<longleftrightarrow> coalesced L \<and> coalesced R"
proof (induction L rule: coalesced.induct)
  case 1
  then show ?case by (cases R) auto
next
  case (2 x)
  then show ?case by (cases x; cases R) auto
qed auto

text \<open>Growing into the free block \<open>(b, k)\<close> that follows.\<close>

lemma krealloc_absorb:
  assumes inv: "heap_inv s (L @ (a, n, True) # (b, k, False) # R)"
  shows "\<exists>m' p'. krealloc_unlink s (of_nat b) = Inr (s\<lparr>mem := m', free_list := p'\<rparr>) \<and>
     km_getsize m' (of_nat a) = of_nat n \<and> km_getsize m' (of_nat b) = of_nat k \<and>
     heap_open (s\<lparr>mem := km_setsize m' (of_nat a) (of_nat (n + k)), free_list := p'\<rparr>) L (a, n + k) R \<and>
     km_isalloc (km_setsize m' (of_nat a) (of_nat (n + k))) (of_nat a) \<and>
     same_outside (insert a (fst ` set (frees L))) (mem s) (km_setsize m' (of_nat a) (of_nat (n + k)))"
proof -
  let ?bs = "L @ (a, n, True) # (b, k, False) # R"
  let ?lo = "unat (kheap_begin s)" and ?hi = "unat (kheap_end s)"
  have h: "region_ok s" "tiled ?lo ?bs ?hi" "coalesced ?bs"
    and hd: "\<And>x. x \<in> set ?bs \<Longrightarrow> hdr_ok (mem s) x"
    and ch: "free_chain (mem s) (free_list s) (frees L @ (b, k) # frees R)"
    using inv by (auto simp: heap_inv_def)
  obtain m' p' where u: "krealloc_unlink s (of_nat b) = Inr (s\<lparr>mem := m', free_list := p'\<rparr>)"
    "free_chain m' p' (frees L @ frees R)" "same_outside (fst ` set (frees L)) (mem s) m'"
    "keeps_flags (mem s) m'" "keeps_sizes (mem s) m'"
    using krealloc_unlink_refines [OF ch] by blast
  have hd': "hdr_ok m' x" if "x \<in> set ?bs" for x
    using u(4,5) hd [OF that] that tiled_header [OF h(2)] region_lo [OF h(1)]
    by (cases x) (auto simp: hdr_ok_def keeps_flags_def keeps_sizes_def)
  have a: "hdr_ok m' (a, n, True)" "hdr_ok m' (b, k, False)" using hd' by simp_all
  have ah: "header a" using inv_bounds(1) [OF inv, of a n True] by simp
  have dv: "16 dvd n + k" using inv_bounds(4) [OF inv, of a n True] inv_bounds(4) [OF inv, of b k False] by simp
  have "tiled ?lo (L @ (a, n + k, True) # R) ?hi" using h(2) by (auto simp: tiled_append add.assoc)
  moreover have "coalesced (L @ (a, n + k, True) # R)"
    using h(3) coalesced_Cons by (auto simp: coalesced_allocated)
  ultimately have "heap_open (s\<lparr>mem := km_setsize m' (of_nat a) (of_nat (n + k)), free_list := p'\<rparr>) L (a, n + k) R"
    using h(1) hd' u(2) hdr_okD [OF a(1)] by (intro resize_open) auto
  moreover have "km_isalloc (km_setsize m' (of_nat a) (of_nat (n + k))) (of_nat a)"
    using hdr_okD [OF a(1)] ah dv by (simp add: hdr_simps del: of_nat_add)
  moreover have "same_outside (insert a (fst ` set (frees L))) (mem s) (km_setsize m' (of_nat a) (of_nat (n + k)))"
    using same_outside_trans [OF u(3) setsize_footprint [OF ah]] by simp
  ultimately show ?thesis using u(1) hdr_okD [OF a(1)] hdr_okD [OF a(2)] by blast
qed


lemma krealloc_grow:
  assumes inv: "heap_inv s (L @ (a, n, True) # (b, k, False) # R)"
    and sz: "0 < sz" "unat sz + 31 < 4294967296"
    and t: "n < block_size (unat sz)" "block_size (unat sz) \<le> n + k"
  shows "\<exists>s' n' R'. krealloc_unsafe s (of_nat (a + 16)) sz = Inr (of_nat (a + 16), s') \<and>
     carve (a, n + k) (block_size (unat sz)) R = (a, n', True) # R' \<and> block_size (unat sz) \<le> n' \<and>
     heap_inv s' (L @ (a, n', True) # R') \<and> kheap_end s' = kheap_end s \<and>
     kheap_begin s' = kheap_begin s \<and> kheap_max_end s' = kheap_max_end s \<and>
     live_kept (L @ R) (mem s) (mem s') \<and>
     (\<forall>i. unat i < n - 16 \<longrightarrow> mem s' (of_nat (a + 16) + i) = mem s (of_nat (a + 16) + i)) \<and> outside_kept s s'"
proof -
  let ?t = "block_size (unat sz)" and ?bs = "L @ (a, n, True) # (b, k, False) # R"
  let ?lo = "unat (kheap_begin s)" and ?hi = "unat (kheap_end s)"
  have hd: "hdr_ok (mem s) (a, n, True)" "hdr_ok (mem s) (b, k, False)" and r: "region_ok s"
    and til: "tiled ?lo ?bs ?hi"
    using inv by (auto simp: heap_inv_def)
  note ib = inv_bounds [OF inv, of a n True, simplified] inv_bounds [OF inv, of b k False, simplified]
  have b: "b = a + n" and til': "tiled ?lo (L @ (a, n + k, True) # R) ?hi"
    using til by (auto simp: tiled_append add.assoc)
  have bhi: "b < ?hi" using tiled_member [OF til, of b k False] by auto
  obtain m1 p1 where u: "krealloc_unlink s (of_nat b) = Inr (s\<lparr>mem := m1, free_list := p1\<rparr>)"
     "km_getsize m1 (of_nat a) = of_nat n" "km_getsize m1 (of_nat b) = of_nat k"
     "heap_open (s\<lparr>mem := km_setsize m1 (of_nat a) (of_nat (n + k)), free_list := p1\<rparr>) L (a, n + k) R"
     "km_isalloc (km_setsize m1 (of_nat a) (of_nat (n + k))) (of_nat a)"
     "same_outside (insert a (fst ` set (frees L))) (mem s) (km_setsize m1 (of_nat a) (of_nat (n + k)))"
    using krealloc_absorb [OF inv] by blast
  let ?s2 = "s\<lparr>mem := km_setsize m1 (of_nat a) (of_nat (n + k)), free_list := p1\<rparr>"
  obtain m' p' n' R' where sp: "km_split ?s2 (of_nat a) (of_nat ?t) = Inr (of_nat a, ?s2\<lparr>mem := m', free_list := p'\<rparr>)"
     "carve (a, n + k) ?t R = (a, n', True) # R'" "?t \<le> n'"
     "heap_open (?s2\<lparr>mem := m', free_list := p'\<rparr>) L (a, n') R'"
     "same_outside (footprint a ?t (n + k) (L @ R)) (mem ?s2) m'"
     "km_isalloc m' (of_nat a) = km_isalloc (mem ?s2) (of_nat a)"
    using split_open [OF u(4) block_size_bounds(1,2) t(2)] by blast
  have req: "request_size sz = of_nat ?t" by (rule request_size_refines [OF sz(2)])
  have b': "(of_nat a + of_nat n :: u32) = of_nat b" using b by simp
  have "(of_nat b :: u32) < kheap_end s"
    using bhi ib(6) by (simp add: word_less_nat_alt unat_of_nat32)
  moreover have "\<not> of_nat ?t \<le> (of_nat n :: u32)" "of_nat ?t \<le> (of_nat n + of_nat k :: u32)"
    using t ib b of_nat32_le [of ?t n] of_nat32_le [of ?t "n + k"] by auto
  moreover have comm: "?s2 = s\<lparr>free_list := p1, mem := km_setsize m1 (of_nat a) (of_nat n + of_nat k)\<rparr>"
    by simp
  ultimately have "krealloc_unsafe s (of_nat (a + 16)) sz = Inr (of_nat (a + 16), s\<lparr>mem := m', free_list := p'\<rparr>)"
    using sp(1) [unfolded comm] u(1-3) payload_nonzero [OF inv, of a n True] sz(1) hdr_okD [OF hd(1)] hdr_okD [OF hd(2)] req b'
    by (simp add: krealloc_unsafe_def Let_def kernel_assert_def word_gt_0)
  moreover have "heap_inv (s\<lparr>mem := m', free_list := p'\<rparr>) (L @ (a, n', True) # R')"
    using open_inv [OF sp(4)] sp(6) u(5) by simp
  moreover have out: "same_outside (footprint a ?t (n + k) (L @ R)) (mem s) m'"
    using same_outside_trans [OF u(6), of _ m'] sp(5)
    by (auto simp: footprint_def intro: same_outside_mono)
  then have "live_kept (L @ R) (mem s) m'"
    using footprint_live [OF til'] region_lo [OF r] by simp
  moreover have "outside_kept s (s\<lparr>mem := m', free_list := p'\<rparr>)"
    using outside_footprint [OF r til' out] r by (simp add: outside_kept_def region_ok_def word_le_nat_alt)
  moreover have "m' (of_nat (a + 16) + i) = mem s (of_nat (a + 16) + i)" if "unat i < n - 16" for i
    using footprint_data [OF til' _ _ _ out, of "of_nat (a + 16) + i"] region_lo [OF r] that t
      unat_offset [of "a + 16" i] ib by auto
  ultimately show ?thesis using sp(2,3) by (intro exI [of _ "s\<lparr>mem := m', free_list := p'\<rparr>"]) auto
qed


section \<open>krealloc by moving\<close>

text \<open>
  The copying loop reads its bound from the old header in every iteration; it is a plain copy when
  it never writes there.
\<close>

lemma getsize_outside: "\<not> within blk 4 x \<Longrightarrow> km_getsize (m(x := v)) blk = km_getsize m blk"
  unfolding km_getsize_def km_metadata_def
  by (metis (no_types, lifting) fun_upd_other load32_cong)

lemma krealloc_copy_is_copy:
  assumes "\<And>j. j < n \<Longrightarrow> \<not> within blk 4 (dst + j)" "km_getsize m blk - 16 = n"
  shows "krealloc_copy m dst src blk i = copy_up m dst src n i"
  using assms(2)
proof (induction "unat n - unat i" arbitrary: m i rule: less_induct)
  case less
  show ?case
  proof (cases "i < n")
    case True
    have "km_getsize (m(dst + i := m (src + i))) blk - 16 = n"
      using getsize_outside [OF assms(1) [OF True]] less.prems by simp
    then show ?thesis
      using less.hyps [OF word_Suc_measure [OF True]] True less.prems
      by (simp add: krealloc_copy.simps [of m] copy_up.simps [of m])
  qed (use less.prems in \<open>simp add: krealloc_copy.simps [of m] copy_up.simps [of m]\<close>)
qed

text \<open>Copying the data of \<open>(a, n)\<close> into a block \<open>(c, k)\<close> that is at least as large.\<close>

lemma krealloc_copy_block:
  assumes inv: "heap_inv s bs" and a: "(a, n, True) \<in> set bs" and c: "(c, k, True) \<in> set bs"
    and ne: "a \<noteq> c" and nk: "n \<le> k"
  defines "m' \<equiv> krealloc_copy (mem s) (of_nat (c + 16)) (of_nat (a + 16)) (of_nat a) 0"
  shows "same_outside (payload c k) (mem s) m'"
    and "\<And>i. unat i < n - 16 \<Longrightarrow> m' (of_nat (c + 16) + i) = mem s (of_nat (a + 16) + i)"
proof -
  let ?n = "of_nat (n - 16) :: u32"
  note ab = inv_bounds [OF inv a] and cb = inv_bounds [OF inv c]
  have til: "tiled (unat (kheap_begin s)) bs (unat (kheap_end s))" using inv by (simp add: heap_inv_def)
  have dis: "a + n \<le> c \<or> c + k \<le> a" by (rule tiled_pair [OF til a c ne])
  have un: "unat ?n = n - 16" using ab by (intro unat_of_nat32) linarith
  have ci: "unat (of_nat (c + 16) + j) = c + 16 + unat j" if "j < ?n" for j :: u32
    using that un cb nk by (intro unat_offset) (simp add: word_less_nat_alt)
  have ai: "unat (of_nat (a + 16) + j) = a + 16 + unat j" if "j < ?n" for j :: u32
    using that un ab by (intro unat_offset) (simp add: word_less_nat_alt)
  have "\<not> within (of_nat a) 4 (of_nat (c + 16) + j)" if "j < ?n" for j
    using within_word [OF ab(1), of 0 "of_nat (c + 16) + j"] ci [OF that] that un dis ab(3) nk
    by (auto simp: word_less_nat_alt simp del: of_nat_add)
  moreover have "km_getsize (mem s) (of_nat a) = of_nat n"
    using inv a hdr_okD by (fastforce simp: heap_inv_def)
  then have "km_getsize (mem s) (of_nat a) - 16 = ?n" using ab(3) by (simp add: of_nat_diff)
  ultimately have m': "m' = copy_up (mem s) (of_nat (c + 16)) (of_nat (a + 16)) ?n 0"
    unfolding m'_def by (rule krealloc_copy_is_copy)
  have clear: "of_nat (c + 16) + j \<noteq> of_nat (a + 16) + j'" if "j < j'" "j' < ?n" for j j' :: u32
  proof -
    have "j < ?n" using that by simp
    then have "unat (of_nat (c + 16) + j) \<noteq> unat (of_nat (a + 16) + j')"
      using ci [of j] ai [of j'] that dis un nk by (auto simp: word_less_nat_alt simp del: of_nat_add)
    then show ?thesis by metis
  qed
  have ap: "m' x = (if x - of_nat (c + 16) < ?n then mem s (of_nat (a + 16) + (x - of_nat (c + 16))) else mem s x)" for x
    unfolding m' using copy_up_apply [of 0 ?n "of_nat (c + 16)" "of_nat (a + 16)" "mem s" x] clear by simp
  show "same_outside (payload c k) (mem s) m'"
  proof (intro payload_cover cb)
    fix x :: u32 assume "unat x < c + 16 \<or> c + k \<le> unat x"
    then have "\<not> x - of_nat (c + 16) < ?n"
      using word_offset [of "c + 16" ?n x] un nk cb ab(3) by (auto simp del: of_nat_add)
    then show "m' x = mem s x" by (simp add: ap)
  qed
  show "m' (of_nat (c + 16) + i) = mem s (of_nat (a + 16) + i)" if "unat i < n - 16" for i
    using that un by (simp add: ap word_less_nat_alt)
qed


lemma krealloc_moves:
  assumes inv: "heap_inv s (L @ (a, n, True) # R)" and sz: "0 < sz" "unat sz + 31 < 4294967296"
    and t: "n < block_size (unat sz)" and no_room: "\<forall>b k R'. R = (b, k, False) # R' \<longrightarrow> n + k < block_size (unat sz)"
  shows "krealloc_unsafe s (of_nat (a + 16)) sz =
     andthen (kmalloc_unsafe s sz) (\<lambda>(new_ptr, s1).
       if new_ptr = 0 then Inr (0, s1)
       else
         let s2 = s1\<lparr>mem := krealloc_copy (mem s1) new_ptr (of_nat a + 16) (of_nat a) 0\<rparr> in
         andthen (kfree_unsafe s2 (of_nat a + 16)) (\<lambda>s3. Inr (new_ptr, s3)))"
proof -
  let ?t = "block_size (unat sz)"
  have hd: "hdr_ok (mem s) (a, n, True)" and til: "tiled (unat (kheap_begin s)) (L @ (a, n, True) # R) (unat (kheap_end s))"
    using inv by (auto simp: heap_inv_def)
  note ib = inv_bounds [OF inv, of a n True, simplified]
  have req: "request_size sz = of_nat ?t" by (rule request_size_refines [OF sz(2)])
  have "\<not> of_nat ?t \<le> (of_nat n :: u32)"
    using t block_size_bounds(4) [of "unat sz"] sz ib by (subst of_nat32_le) auto
  moreover have "\<not> (of_nat a + of_nat n < kheap_end s \<and> \<not> km_isalloc (mem s) (of_nat a + of_nat n) \<and>
      of_nat ?t \<le> of_nat n + km_getsize (mem s) (of_nat a + of_nat n))"
  proof (cases R)
    case Nil
    then have "unat (kheap_end s) = a + n" using til by (auto simp: tiled_append)
    then have "kheap_end s = of_nat (a + n)"
      by (metis word_unat_eq_iff unat_of_nat32 ib(2))
    then show ?thesis by simp
  next
    case (Cons x R')
    obtain b k bl where x: "x = (b, k, bl)" by (cases x)
    then have b: "b = a + n" and bh: "hdr_ok (mem s) (b, k, bl)" and bm: "(b, k, bl) \<in> set (L @ (a, n, True) # R)"
      using til inv Cons by (auto simp: tiled_append heap_inv_def)
    have "\<not> of_nat ?t \<le> (of_nat (n + k) :: u32)" if "\<not> bl"
      using no_room Cons x that b inv_bounds [OF inv bm] block_size_bounds(4) [of "unat sz"] sz
      by (subst of_nat32_le) auto
    then show ?thesis using hdr_okD [OF bh] b by auto
  qed
  ultimately show ?thesis
    using payload_nonzero [OF inv, of a n True] sz(1) hdr_okD [OF hd] req
    by (auto simp: krealloc_unsafe_def Let_def kernel_assert_def word_gt_0)
qed

text \<open>The abstract reallocation of the block \<open>(a, n)\<close> between \<open>L\<close> and \<open>R\<close>.\<close>

definition free_at :: "nat \<Rightarrow> block list \<Rightarrow> block list" where
  "free_at a bs = (case dropWhile (\<lambda>b. fst b \<noteq> a) bs of
       [] \<Rightarrow> bs | (_, n, _) # R \<Rightarrow> release (takeWhile (\<lambda>b. fst b \<noteq> a) bs) (a, n) R)"

definition grow_room :: "block list \<Rightarrow> nat" where
  "grow_room R = (case R of (b, k, False) # _ \<Rightarrow> k | _ \<Rightarrow> 0)"

definition realloc_blocks ::
  "nat \<Rightarrow> nat \<Rightarrow> block list \<Rightarrow> nat \<times> nat \<Rightarrow> block list \<Rightarrow> nat \<times> nat \<times> block list" where
  "realloc_blocks t hi L x R = (case x of (a, n) \<Rightarrow>
     if t \<le> n then (a, hi, L @ carve (a, n) t R)
     else if t \<le> n + grow_room R then (a, hi, L @ carve (a, n + grow_room R) t (tl R))
     else (case alloc_blocks t hi (L @ (a, n, True) # R) of (c, hi', bs) \<Rightarrow> (c, hi', free_at a bs)))"

lemma free_at_split:
  assumes "tiled lo (L @ (a, n, al) # R) hi"
  shows "free_at a (L @ (a, n, al) # R) = release L (a, n) R"
proof -
  have "fst x \<noteq> a" if "x \<in> set L" for x
    using open_distinct [OF assms, of "fst x" "fst (snd x)" "snd (snd x)"] that by simp
  then show ?thesis by (simp add: free_at_def)
qed

lemma free_at_split_ex:
  assumes "tiled lo bs hi" "(a, n, al) \<in> set bs"
  shows "\<exists>L R. bs = L @ (a, n, al) # R \<and> free_at a bs = release L (a, n) R"
proof -
  obtain L R where "bs = L @ (a, n, al) # R" using assms(2) by (auto simp: in_set_conv_decomp)
  then show ?thesis using free_at_split assms(1) by blast
qed


lemma live_keptD:
  "live_kept bs m m' \<Longrightarrow> (b, k, True) \<in> set bs \<Longrightarrow> b \<le> unat x \<Longrightarrow> unat x < b + k \<Longrightarrow> m' x = m x"
  by (fastforce simp: live_kept_def)

lemma live_keptI:
  "(\<And>b k x. (b, k, True) \<in> set bs \<Longrightarrow> b \<le> unat x \<Longrightarrow> unat x < b + k \<Longrightarrow> m' x = m x) \<Longrightarrow> live_kept bs m m'"
  by (fastforce simp: live_kept_def)

lemma krealloc_move:
  assumes inv: "heap_inv s (L @ (a, n, True) # R)" and sz: "0 < sz" and t: "n < block_size (unat sz)"
    and no_room: "\<forall>b k R'. R = (b, k, False) # R' \<longrightarrow> n + k < block_size (unat sz)"
    and sv: "serviceable s (L @ (a, n, True) # R) sz"
    and spec: "alloc_blocks (block_size (unat sz)) (unat (kheap_end s)) (L @ (a, n, True) # R) = (c, hi', bs1)"
  shows "\<exists>s'. krealloc_unsafe s (of_nat (a + 16)) sz = Inr (of_nat (c + 16), s') \<and>
     heap_inv s' (free_at a bs1) \<and> unat (kheap_end s') = hi' \<and>
     live_kept (L @ R) (mem s) (mem s') \<and>
     (\<forall>i. unat i < n - 16 \<longrightarrow> mem s' (of_nat (c + 16) + i) = mem s (of_nat (a + 16) + i)) \<and> outside_kept s s'"
proof -
  let ?bs = "L @ (a, n, True) # R"
  have sz': "unat sz + 31 < 4294967296" using sv by (simp add: serviceable_def)
  have til: "tiled (unat (kheap_begin s)) ?bs (unat (kheap_end s))" using inv by (simp add: heap_inv_def)
  obtain s1 where k: "kmalloc_unsafe s sz = Inr (of_nat (c + 16), s1)" "heap_inv s1 bs1"
    "unat (kheap_end s1) = hi'" "live_kept ?bs (mem s) (mem s1)" "outside_kept s s1"
    using kmalloc_refines [OF inv sv spec] by blast
  obtain k where c: "block_size (unat sz) \<le> k" "(c, k, True) \<in> set bs1"
    and old: "\<And>b j. (b, j, True) \<in> set ?bs \<Longrightarrow> (b, j, True) \<in> set bs1 \<and> (b + j \<le> c \<or> c + k \<le> b)"
    using alloc_blocks_shape [OF til spec block_size_bounds(1)] by fastforce
  have ne: "b \<noteq> c" if "(b, j, True) \<in> set ?bs" for b j
    using old [OF that] inv_bounds(3) [OF inv that] inv_bounds(3) [OF k(2) c(2)] by auto
  have a1: "(a, n, True) \<in> set bs1" and ac: "a \<noteq> c" using old [of a n] ne [of a n] by auto
  let ?m2 = "krealloc_copy (mem s1) (of_nat (c + 16)) (of_nat (a + 16)) (of_nat a) 0"
  let ?s2 = "s1\<lparr>mem := ?m2\<rparr>"
  have nk: "n \<le> k" using t c(1) by simp
  note cp = krealloc_copy_block [OF k(2) a1 c(2) ac nk]
  have inv2: "heap_inv ?s2 bs1" by (rule payload_write [OF k(2) c(2) cp(1)])
  obtain L1 R1 where bs1: "bs1 = L1 @ (a, n, True) # R1" "free_at a bs1 = release L1 (a, n) R1"
    using free_at_split_ex [OF _ a1] k(2) unfolding heap_inv_def by blast
  obtain s3 where f: "kfree_unsafe ?s2 (of_nat (a + 16)) = Inr s3" "heap_inv s3 (free_at a bs1)"
    "kheap_end s3 = kheap_end s1" "live_kept (L1 @ R1) ?m2 (mem s3)"
    using kfree_refines [of ?s2 L1 a n R1] kfree_live [of ?s2 L1 a n R1] inv2 bs1 by auto
  have "krealloc_unsafe s (of_nat (a + 16)) sz = Inr (of_nat (c + 16), s3)"
    using krealloc_moves [OF inv sz sz' t no_room] k(1) f(1) payload_nonzero [OF k(2) c(2)] by simp
  moreover have "outside_kept s s3"
    using kfree_outside [OF _ f(1), of L1 n R1] inv2 bs1(1) payload_outside [OF k(2) c(2) cp(1)] k(5)
    by (auto intro: outside_kept_trans)
  moreover have "live_kept (L @ R) (mem s) (mem s3)"
  proof (rule live_keptI)
    fix b j and x :: u32
    assume b: "(b, j, True) \<in> set (L @ R)" and x: "b \<le> unat x" "unat x < b + j"
    then have bb: "(b, j, True) \<in> set ?bs" "b \<noteq> a" using open_distinct [OF til] by auto
    then have "(b, j, True) \<in> set (L1 @ R1)" using old [OF bb(1)] bs1(1) by auto
    then have "mem s3 x = ?m2 x" by (rule live_keptD [OF f(4) _ x])
    also have "\<dots> = mem s1 x" using payload_live [OF k(2) c(2) _ ne [OF bb(1)] cp(1) x] old [OF bb(1)] by blast
    also have "\<dots> = mem s x" by (rule live_keptD [OF k(4) bb(1) x])
    finally show "mem s3 x = mem s x" .
  qed
  moreover have "mem s3 (of_nat (c + 16) + i) = mem s (of_nat (a + 16) + i)" if i: "unat i < n - 16" for i
  proof -
    have u: "unat (of_nat (c + 16) + i) = c + 16 + unat i" "unat (of_nat (a + 16) + i) = a + 16 + unat i"
      using i nk inv_bounds [OF k(2) c(2)] inv_bounds [OF k(2) a1] by (auto intro!: unat_offset simp del: of_nat_add)
    have "(c, k, True) \<in> set (L1 @ R1)" using c(2) bs1(1) ac by auto
    then have "mem s3 (of_nat (c + 16) + i) = ?m2 (of_nat (c + 16) + i)"
      using i nk u by (intro live_keptD [OF f(4)]) auto
    also have "\<dots> = mem s1 (of_nat (a + 16) + i)" by (rule cp(2) [OF i])
    also have "\<dots> = mem s (of_nat (a + 16) + i)"
      using i u by (intro live_keptD [OF k(4), of a n]) auto
    finally show ?thesis .
  qed
  ultimately show ?thesis using f k(3) by auto
qed

text \<open>
  Reallocation as a whole: the block list changes as the specification says, the other live blocks
  keep every byte and the data moves with the block, up to the smaller of the two sizes.
\<close>

theorem krealloc_refines:
  assumes inv: "heap_inv s (L @ (a, n, True) # R)" and sz: "0 < sz"
    and sv: "serviceable s (L @ (a, n, True) # R) sz"
    and spec: "realloc_blocks (block_size (unat sz)) (unat (kheap_end s)) L (a, n) R = (c, hi', bs')"
  shows "\<exists>s'. krealloc_unsafe s (of_nat (a + 16)) sz = Inr (of_nat (c + 16), s') \<and>
     heap_inv s' bs' \<and> unat (kheap_end s') = hi' \<and> live_kept (L @ R) (mem s) (mem s') \<and> outside_kept s s' \<and>
     (\<forall>i < sz. unat i < n - 16 \<longrightarrow> mem s' (of_nat (c + 16) + i) = mem s (of_nat (a + 16) + i))"
proof -
  let ?t = "block_size (unat sz)"
  have sz': "unat sz + 31 < 4294967296" using sv by (simp add: serviceable_def)
  consider (shrink) "?t \<le> n" | (grow) b k R' where "R = (b, k, False) # R'" "n < ?t" "?t \<le> n + k"
    | (move) "n < ?t" "\<forall>b k R'. R = (b, k, False) # R' \<longrightarrow> n + k < ?t"
    by (meson not_le)
  then show ?thesis
  proof cases
    case shrink
    then show ?thesis
      using krealloc_shrink [OF inv sz sz' shrink] spec by (auto simp: realloc_blocks_def)
  next
    case grow
    have "live_kept (L @ R) m m' = live_kept (L @ R') m m'" for m m'
      using grow(1) by (auto simp: live_kept_def)
    then show ?thesis
      using krealloc_grow [OF inv [unfolded grow(1)] sz sz' grow(2,3)] spec grow
      by (auto simp: realloc_blocks_def grow_room_def)
  next
    case move
    then have "\<not> ?t \<le> n + grow_room R"
      by (auto simp: grow_room_def not_le split: list.splits bool.splits)
    then obtain bs1 where "alloc_blocks ?t (unat (kheap_end s)) (L @ (a, n, True) # R) = (c, hi', bs1)"
      "bs' = free_at a bs1"
      using spec move(1) by (auto simp: realloc_blocks_def split: prod.splits)
    then show ?thesis using krealloc_move [OF inv sz move sv] by blast
  qed
qed

end
