(* ===== verification/HeapInterface.thy ===== *)
theory HeapInterface
  imports Prelude
begin

text \<open>
  What the rest of the kernel relies on when it calls the allocator: a request that fits is answered
  with a fresh region, a region can be given back, the regions handed out never overlap and keep
  their bytes while other regions come and go. The state of the allocator and its layout (a ghost
  value) are parameters; clients reason only from these laws.
\<close>

definition region_kept :: "nat \<times> nat \<Rightarrow> memory \<Rightarrow> memory \<Rightarrow> bool" where
  "region_kept r m m' = (case r of (p, n) \<Rightarrow> \<forall>x. p \<le> unat x \<and> unat x < p + n \<longrightarrow> m' x = m x)"

lemma region_kept_trans: "region_kept r m m' \<Longrightarrow> region_kept r m' m'' \<Longrightarrow> region_kept r m m''"
  by (cases r) (simp add: region_kept_def)

lemma region_kept_refl [simp]: "region_kept r m m"
  by (cases r) (simp add: region_kept_def)

locale allocator =
  fixes inv :: "'s \<Rightarrow> 'g \<Rightarrow> bool"
    and live :: "'g \<Rightarrow> (nat \<times> nat) set"
    and can :: "'s \<Rightarrow> 'g \<Rightarrow> u32 \<Rightarrow> bool"
    and alloc :: "'s \<Rightarrow> u32 \<Rightarrow> (u32 \<times> 's) outcome"
    and free :: "'s \<Rightarrow> u32 \<Rightarrow> 's outcome"
    and bytes :: "'s \<Rightarrow> memory"
  assumes alloc_fresh: "inv s g \<Longrightarrow> can s g sz \<Longrightarrow>
      \<exists>p n s' g'. alloc s sz = Inr (of_nat p, s') \<and> inv s' g' \<and> live g' = insert (p, n) (live g) \<and>
        (p, n) \<notin> live g \<and> unat sz \<le> n \<and> 16 dvd p \<and> (\<forall>r \<in> live g. region_kept r (bytes s) (bytes s'))"
    and free_live: "inv s g \<Longrightarrow> (p, n) \<in> live g \<Longrightarrow>
      \<exists>s' g'. free s (of_nat p) = Inr s' \<and> inv s' g' \<and> live g' = live g - {(p, n)} \<and>
        (\<forall>r \<in> live g'. region_kept r (bytes s) (bytes s'))"
    and live_disjoint: "inv s g \<Longrightarrow> (p, n) \<in> live g \<Longrightarrow> (q, k) \<in> live g \<Longrightarrow> (p, n) \<noteq> (q, k) \<Longrightarrow>
      p + n + 16 \<le> q \<or> q + k + 16 \<le> p"
    and live_range: "inv s g \<Longrightarrow> (p, n) \<in> live g \<Longrightarrow> 0 < p \<and> p + n < 4294967296"
begin

text \<open>A request followed by giving the region back leaves the same regions live.\<close>

lemma alloc_then_free:
  assumes "inv s g" "can s g sz"
  shows "\<exists>p s1 s2 g2. alloc s sz = Inr (p, s1) \<and> free s1 p = Inr s2 \<and> inv s2 g2 \<and> live g2 = live g \<and>
     (\<forall>r \<in> live g. region_kept r (bytes s) (bytes s2))"
proof -
  obtain p n s1 g1 where a: "alloc s sz = Inr (of_nat p, s1)" "inv s1 g1" "live g1 = insert (p, n) (live g)"
    "(p, n) \<notin> live g" "\<forall>r \<in> live g. region_kept r (bytes s) (bytes s1)"
    using alloc_fresh [OF assms] by blast
  obtain s2 g2 where f: "free s1 (of_nat p) = Inr s2" "inv s2 g2" "live g2 = live g1 - {(p, n)}"
    "\<forall>r \<in> live g2. region_kept r (bytes s1) (bytes s2)"
    using free_live [OF a(2), of p n] a(3) by blast
  have "live g2 = live g" using a(3,4) f(3) by blast
  moreover have "region_kept r (bytes s) (bytes s2)" if "r \<in> live g" for r
    using that a(5) f(4) calculation by (auto intro: region_kept_trans)
  ultimately show ?thesis using a(1) f(1,2) by blast
qed

text \<open>The pointer handed out is not null and differs from every pointer that is live.\<close>

lemma alloc_distinct:
  assumes "inv s g" "can s g sz" "alloc s sz = Inr (p, s')"
  shows "p \<noteq> 0" and "\<And>q n. (q, n) \<in> live g \<Longrightarrow> of_nat q \<noteq> p"
proof -
  obtain p' n g' where a: "p = of_nat p'" "inv s' g'" "live g' = insert (p', n) (live g)" "(p', n) \<notin> live g"
    using alloc_fresh [OF assms(1,2)] assms(3) by fastforce
  have p': "0 < p' \<and> p' + n < 4294967296" using live_range [OF a(2), of p' n] a(3) by simp
  then show "p \<noteq> 0" using a(1) by (auto simp: of_nat32_zero)
  fix q k assume q: "(q, k) \<in> live g"
  then have "q \<noteq> p'" using live_disjoint [OF a(2), of q k p' n] a(3,4) by (cases "k = n") auto
  moreover have "q < 4294967296" using live_range [OF assms(1) q] by simp
  ultimately show "of_nat q \<noteq> p" using a(1) p' by (auto simp: of_nat32_eq)
qed

end

text \<open>The whole interface: cleared regions, regions that change their size, and writing through a pointer.\<close>

locale full_allocator = allocator +
  fixes zalloc :: "'s \<Rightarrow> u32 \<Rightarrow> u32 \<Rightarrow> (u32 \<times> 's) outcome"
    and resize :: "'s \<Rightarrow> u32 \<Rightarrow> u32 \<Rightarrow> (u32 \<times> 's) outcome"
    and poke :: "'s \<Rightarrow> u32 \<Rightarrow> u8 \<Rightarrow> 's"
  assumes zalloc_fresh: "inv s g \<Longrightarrow> can s g (m * e) \<Longrightarrow>
      \<exists>p n s' g'. zalloc s m e = Inr (of_nat p, s') \<and> inv s' g' \<and> live g' = insert (p, n) (live g) \<and>
        (p, n) \<notin> live g \<and> unat (m * e) \<le> n \<and> (\<forall>r \<in> live g. region_kept r (bytes s) (bytes s')) \<and>
        (\<forall>x. p \<le> unat x \<and> unat x < p + unat (m * e) \<longrightarrow> bytes s' x = 0)"
    and resize_live: "inv s g \<Longrightarrow> (p, n) \<in> live g \<Longrightarrow> 0 < sz \<Longrightarrow> can s g sz \<Longrightarrow>
      \<exists>q k s' g'. resize s (of_nat p) sz = Inr (of_nat q, s') \<and> inv s' g' \<and>
        live g' = insert (q, k) (live g - {(p, n)}) \<and> unat sz \<le> k \<and>
        (\<forall>r \<in> live g - {(p, n)}. region_kept r (bytes s) (bytes s') \<and> fst r \<noteq> q)"
    and poke_live: "inv s g \<Longrightarrow> (p, n) \<in> live g \<Longrightarrow> p \<le> unat x \<Longrightarrow> unat x < p + n \<Longrightarrow>
      inv (poke s x b) g \<and> bytes (poke s x b) = (bytes s)(x := b)"
begin

text \<open>A write through one pointer is not seen through any other.\<close>

lemma poke_elsewhere:
  assumes "inv s g" "(p, n) \<in> live g" "p \<le> unat x" "unat x < p + n" "r \<in> live g" "fst r \<noteq> p"
  shows "region_kept r (bytes s) (bytes (poke s x b))"
proof -
  obtain q k where r: "r = (q, k)" by (cases r)
  have "q + k + 16 \<le> p \<or> p + n + 16 \<le> q"
    using live_disjoint [OF assms(1,2), of q k] assms(5,6) r by auto
  then show ?thesis using poke_live [OF assms(1-4)] assms(3,4) r by (auto simp: region_kept_def)
qed

text \<open>Pointers that are live are told apart by their address.\<close>

lemma live_unique: "inv s g \<Longrightarrow> (p, n) \<in> live g \<Longrightarrow> (p, k) \<in> live g \<Longrightarrow> n = k"
  using live_disjoint [of s g p n p k] by fastforce

end

end
