(* ===== verification/KmallocClient.thy ===== *)
theory KmallocClient
  imports KmallocData HeapInterface
begin

text \<open>
  The allocator provides the interface the kernel relies on, and clients that follow its rules can
  call it in any order: the runs of such clients form a step relation whose reachable states all
  satisfy the heap invariant, and in which no call panics.
\<close>

section \<open>The allocator interface\<close>

definition handed_out :: "block list \<Rightarrow> (nat \<times> nat) set" where
  "handed_out bs = {(a + 16, n - 16) | a n. (a, n, True) \<in> set bs}"

lemma handed_out_mem:
  "tiled lo bs hi \<Longrightarrow> (p, n) \<in> handed_out bs \<longleftrightarrow> 16 \<le> p \<and> (p - 16, n + 16, True) \<in> set bs"
proof -
  assume t: "tiled lo bs hi"
  have "16 \<le> k" if "(a, k, True) \<in> set bs" for a k using tiled_member [OF t that] by simp
  then show ?thesis by (force simp: handed_out_def)
qed

lemma handed_out_release: "handed_out (release L (a, n) R) = handed_out (L @ R)"
  by (simp add: handed_out_def release_allocated)

lemma handed_out_append: "handed_out (L @ (a, n, True) # R) = insert (a + 16, n - 16) (handed_out (L @ R))"
  by (auto simp: handed_out_def)

lemma handed_out_carve:
  assumes "t \<le> n"
  shows "\<exists>n'. t \<le> n' \<and> handed_out (L @ carve (a, n) t R) = insert (a + 16, n' - 16) (handed_out (L @ R))"
proof (cases "n < t + 16")
  case True
  then show ?thesis using assms by (intro exI [of _ n]) (simp add: carve_def handed_out_append)
next
  case False
  have "handed_out (L @ absorb_next (a + t, n - t) R) = handed_out (L @ R)"
    by (simp add: handed_out_def absorb_next_allocated)
  then show ?thesis using False by (intro exI [of _ t]) (simp add: carve_def handed_out_append)
qed

lemma handed_out_alloc:
  assumes "alloc_blocks t hi bs = (a, hi', bs')"
  shows "\<exists>n. t \<le> n \<and> handed_out bs' = insert (a + 16, n - 16) (handed_out bs)"
proof (cases "first_fit t bs")
  case None
  then show ?thesis
    using assms handed_out_carve [OF round_up_ge [of 4096 t], of bs hi "[]"] by (auto simp: alloc_blocks_def)
next
  case (Some x)
  obtain L b n R where x: "first_fit t bs = Some (L, (b, n), R)" using Some by (cases x) auto
  then have "bs = L @ (b, n, False) # R" "t \<le> n" using first_fit_Some by auto
  moreover have "handed_out (L @ (b, n, False) # R) = handed_out (L @ R)" by (auto simp: handed_out_def)
  ultimately show ?thesis
    using assms x handed_out_carve [of t n L b R] by (auto simp: alloc_blocks_def)
qed

lemma live_kept_regions:
  assumes "live_kept bs m m'" "r \<in> handed_out bs"
  shows "region_kept r m m'"
proof -
  obtain a n where r: "r = (a + 16, n - 16)" "(a, n, True) \<in> set bs" using assms(2) by (auto simp: handed_out_def)
  have "m' x = m x" if "a + 16 \<le> unat x" "unat x < a + 16 + (n - 16)" for x
    using live_keptD [OF assms(1) r(2)] that by simp
  then show ?thesis by (simp add: r(1) region_kept_def)
qed

text \<open>The region of a request, wherever the block list says it comes from.\<close>

lemma fresh_region:
  assumes inv: "heap_inv s bs" "heap_inv s' bs'"
    and spec: "alloc_blocks (block_size (unat sz)) (unat (kheap_end s)) bs = (a, hi', bs')"
  shows "\<exists>n. handed_out bs' = insert (a + 16, n) (handed_out bs) \<and> (a + 16, n) \<notin> handed_out bs \<and> unat sz \<le> n \<and> 16 dvd a + 16"
proof -
  let ?t = "block_size (unat sz)"
  have til: "tiled (unat (kheap_begin s)) bs (unat (kheap_end s))" using inv by (simp add: heap_inv_def)
  obtain n where n: "?t \<le> n" "handed_out bs' = insert (a + 16, n - 16) (handed_out bs)"
    using handed_out_alloc [OF spec] by blast
  obtain n2 where n2: "?t \<le> n2" "(a, n2, True) \<in> set bs'"
    "\<And>b k. (b, k, True) \<in> set bs \<Longrightarrow> b + k \<le> a \<or> a + n2 \<le> b"
    using alloc_blocks_shape [OF til spec block_size_bounds(1)] by fastforce
  have "(a + 16, n - 16) \<notin> handed_out bs"
  proof
    assume "(a + 16, n - 16) \<in> handed_out bs"
    then obtain k where b: "(a, k, True) \<in> set bs" by (auto simp: handed_out_def)
    show False
      using n2(3) [OF b] n2(1) block_size_bounds(1) [of "unat sz"] tiled_member [OF til b] by simp
  qed
  moreover have "unat sz \<le> n - 16" using n(1) block_size_bounds(3) [of "unat sz"] by simp
  moreover have "16 dvd a + 16" using inv_bounds(1) [OF inv(2) n2(2)] by (simp add: header_def)
  ultimately show ?thesis using n(2) by blast
qed

lemma kmalloc_fresh:
  assumes inv: "heap_inv s bs" and sv: "serviceable s bs sz"
  shows "\<exists>p n s' bs'. kmalloc_unsafe s sz = Inr (of_nat p, s') \<and> heap_inv s' bs' \<and>
     handed_out bs' = insert (p, n) (handed_out bs) \<and> (p, n) \<notin> handed_out bs \<and> unat sz \<le> n \<and>
     16 dvd p \<and> (\<forall>r \<in> handed_out bs. region_kept r (mem s) (mem s'))"
proof -
  obtain a hi' bs' where spec: "alloc_blocks (block_size (unat sz)) (unat (kheap_end s)) bs = (a, hi', bs')"
    by (metis prod_cases3)
  obtain s' where k: "kmalloc_unsafe s sz = Inr (of_nat (a + 16), s')" "heap_inv s' bs'"
    "live_kept bs (mem s) (mem s')"
    using kmalloc_refines [OF inv sv spec] by blast
  then show ?thesis using fresh_region [OF inv k(2) spec] live_kept_regions [OF k(3)] by blast
qed

lemma kcalloc_handed_out:
  assumes inv: "heap_inv s bs" and sv: "serviceable s bs (m * e)"
  shows "\<exists>p n s' bs'. kcalloc_unsafe s m e = Inr (of_nat p, s') \<and> heap_inv s' bs' \<and>
     handed_out bs' = insert (p, n) (handed_out bs) \<and> (p, n) \<notin> handed_out bs \<and> unat (m * e) \<le> n \<and>
     (\<forall>r \<in> handed_out bs. region_kept r (mem s) (mem s')) \<and>
     (\<forall>x. p \<le> unat x \<and> unat x < p + unat (m * e) \<longrightarrow> mem s' x = 0)"
proof -
  obtain a hi' bs' where spec: "alloc_blocks (block_size (unat (m * e))) (unat (kheap_end s)) bs = (a, hi', bs')"
    by (metis prod_cases3)
  obtain s' where k: "kcalloc_unsafe s m e = Inr (of_nat (a + 16), s')" "heap_inv s' bs'"
    "live_kept bs (mem s) (mem s')" "\<forall>i < m * e. mem s' (of_nat (a + 16) + i) = 0"
    using kcalloc_refines [OF inv sv spec] by blast
  have "mem s' x = 0" if x: "a + 16 \<le> unat x" "unat x < a + 16 + unat (m * e)" for x
  proof -
    let ?i = "x - of_nat (a + 16)"
    have "unat (of_nat (a + 16) :: u32) = a + 16" using x(1) by (metis le_less_trans unat32_bound unat_of_nat32)
    then have "unat ?i = unat x - (a + 16)" using x(1) by (simp add: unat_sub word_le_nat_alt)
    then have "?i < m * e" using x by (simp add: word_less_nat_alt)
    then show ?thesis using k(4) by (metis add.commute diff_add_cancel)
  qed
  then show ?thesis using k(1,2) fresh_region [OF inv k(2) spec] live_kept_regions [OF k(3)] by blast
qed

lemma kfree_handed_out:
  assumes inv: "heap_inv s bs" and p: "(p, n) \<in> handed_out bs"
  shows "\<exists>s'. kfree_unsafe s (of_nat p) = Inr s' \<and> heap_inv s' (free_at (p - 16) bs) \<and>
     handed_out (free_at (p - 16) bs) = handed_out bs - {(p, n)} \<and> kheap_end s' = kheap_end s \<and>
     kheap_max_end s' = kheap_max_end s \<and>
     (\<forall>r \<in> handed_out (free_at (p - 16) bs). region_kept r (mem s) (mem s'))"
proof -
  have til: "tiled (unat (kheap_begin s)) bs (unat (kheap_end s))" using inv by (simp add: heap_inv_def)
  have p': "16 \<le> p" "(p - 16, n + 16, True) \<in> set bs" using handed_out_mem [OF til] p by auto
  obtain L R where bs: "bs = L @ (p - 16, n + 16, True) # R" "free_at (p - 16) bs = release L (p - 16, n + 16) R"
    using free_at_split_ex [OF til p'(2)] by blast
  obtain s' where f: "kfree_unsafe s (of_nat (p - 16 + 16)) = Inr s'" "heap_inv s' (free_at (p - 16) bs)"
    "live_kept (L @ R) (mem s) (mem s')" "kheap_end s' = kheap_end s" "kheap_max_end s' = kheap_max_end s"
    using kfree_refines [of s L "p - 16" "n + 16" R] kfree_live [of s L "p - 16" "n + 16" R] inv bs by auto
  have "(p, n) \<notin> handed_out (L @ R)"
    using open_distinct [OF til [unfolded bs(1)]] p'(1) by (fastforce simp: handed_out_def)
  then have "handed_out (release L (p - 16, n + 16) R) = handed_out bs - {(p, n)}"
    using p'(1) unfolding handed_out_release bs(1) by (auto simp: handed_out_append)
  then show ?thesis
    using f bs(2) p'(1) live_kept_regions [OF f(3)] handed_out_release [of L "p - 16" "n + 16" R] by auto
qed

interpretation kheap: allocator heap_inv handed_out serviceable kmalloc_unsafe kfree_unsafe mem
proof unfold_locales
  fix s bs sz assume "heap_inv s bs" "serviceable s bs sz"
  then show "\<exists>p n s' g'. kmalloc_unsafe s sz = Inr (of_nat p, s') \<and> heap_inv s' g' \<and>
      handed_out g' = insert (p, n) (handed_out bs) \<and> (p, n) \<notin> handed_out bs \<and> unat sz \<le> n \<and> 16 dvd p \<and>
      (\<forall>r \<in> handed_out bs. region_kept r (mem s) (mem s'))"
    by (rule kmalloc_fresh)
next
  fix s bs p n assume "heap_inv s bs" "(p, n) \<in> handed_out bs"
  then show "\<exists>s' g'. kfree_unsafe s (of_nat p) = Inr s' \<and> heap_inv s' g' \<and>
      handed_out g' = handed_out bs - {(p, n)} \<and> (\<forall>r \<in> handed_out g'. region_kept r (mem s) (mem s'))"
    using kfree_handed_out by blast
next
  fix s bs p n q k
  assume inv: "heap_inv s bs" and pq: "(p, n) \<in> handed_out bs" "(q, k) \<in> handed_out bs" "(p, n) \<noteq> (q, k)"
  have til: "tiled (unat (kheap_begin s)) bs (unat (kheap_end s))" using inv by (simp add: heap_inv_def)
  have m: "(p - 16, n + 16, True) \<in> set bs" "(q - 16, k + 16, True) \<in> set bs" "16 \<le> p" "16 \<le> q"
    using pq handed_out_mem [OF til] by auto
  then have "p - 16 \<noteq> q - 16" using tiled_addresses_distinct [OF til m(1), of "k + 16" True] pq(3) by auto
  then show "p + n + 16 \<le> q \<or> q + k + 16 \<le> p" using tiled_pair [OF til m(1,2)] m(3,4) by auto
next
  fix s bs p n assume inv: "heap_inv s bs" and p: "(p, n) \<in> handed_out bs"
  have til: "tiled (unat (kheap_begin s)) bs (unat (kheap_end s))" using inv by (simp add: heap_inv_def)
  have m: "(p - 16, n + 16, True) \<in> set bs" "16 \<le> p" using p handed_out_mem [OF til] by auto
  then show "0 < p \<and> p + n < 4294967296" using inv_bounds(2) [OF inv m(1)] by auto
qed


text \<open>Reallocation seen from the regions: one is replaced, the others stay.\<close>

lemma handed_out_realloc:
  assumes inv: "heap_inv s (L @ (a, n, True) # R)" and sv: "serviceable s (L @ (a, n, True) # R) sz"
    and t_def: "t = block_size (unat sz)" and spec: "realloc_blocks t (unat (kheap_end s)) L (a, n) R = (c, hi', bs')"
  shows "\<exists>k. t \<le> k \<and> handed_out bs' = insert (c + 16, k - 16) (handed_out (L @ R)) \<and> (\<forall>r \<in> handed_out (L @ R). fst r \<noteq> c + 16)"
proof -
  let ?hi = "unat (kheap_end s)"
  have til: "tiled (unat (kheap_begin s)) (L @ (a, n, True) # R) ?hi" using inv by (simp add: heap_inv_def)
  have gone': "(a + 16, j) \<notin> handed_out (L @ R)" for j
    using open_distinct [OF til] by (fastforce simp: handed_out_def)
  then have far: "\<forall>r \<in> handed_out (L @ R). fst r \<noteq> a + 16" by (metis prod.collapse)
  consider (shrink) "t \<le> n" | (grow) "n < t" "t \<le> n + grow_room R" | (move) "n + grow_room R < t" by linarith
  then show ?thesis
  proof cases
    case shrink
    then show ?thesis using spec far handed_out_carve [of t n L a R] by (auto simp: realloc_blocks_def)
  next
    case grow
    then obtain b k R' where "R = (b, k, False) # R'" by (auto simp: grow_room_def split: list.splits bool.splits)
    then have "handed_out (L @ tl R) = handed_out (L @ R)" by (auto simp: handed_out_def)
    then show ?thesis using spec far grow handed_out_carve [of t "n + grow_room R" L a "tl R"] by (auto simp: realloc_blocks_def)
  next
    case move
    obtain bs1 where b1: "alloc_blocks t ?hi (L @ (a, n, True) # R) = (c, hi', bs1)" "bs' = free_at a bs1"
      using spec move by (auto simp: realloc_blocks_def split: prod.splits)
    obtain k where k: "t \<le> k" "handed_out bs1 = insert (c + 16, k - 16) (handed_out (L @ (a, n, True) # R))"
      using handed_out_alloc [OF b1(1)] by blast
    have t16: "16 \<le> t" using block_size_bounds(1) [of "unat sz"] t_def by simp
    obtain j where j: "t \<le> j" "(a, n, True) \<in> set bs1"
      and apart: "\<And>b i. (b, i, True) \<in> set (L @ (a, n, True) # R) \<Longrightarrow> b + i \<le> c \<or> c + j \<le> b"
      using alloc_blocks_shape [OF til b1(1) t16] by fastforce
    have cb: "b \<noteq> c" if "(b, i, True) \<in> set (L @ (a, n, True) # R)" for b i
      using apart [OF that] j(1) t16 tiled_member [OF til that] by auto
    have ca: "c \<noteq> a" using cb [of a n] by auto
    have far': "\<forall>r \<in> handed_out (L @ R). fst r \<noteq> c + 16" using cb by (fastforce simp: handed_out_def)
    obtain s1 where "heap_inv s1 bs1" using kmalloc_refines [OF inv sv b1(1) [unfolded t_def]] by blast
    then have til1: "tiled (unat (kheap_begin s1)) bs1 (unat (kheap_end s1))" by (simp add: heap_inv_def)
    note old = j(2)
    obtain L1 R1 where bs1: "bs1 = L1 @ (a, n, True) # R1" "free_at a bs1 = release L1 (a, n) R1"
      using free_at_split_ex [OF til1 old] by blast
    have gone: "(a + 16, j) \<notin> handed_out (L1 @ R1)" for j
      using open_distinct [OF til1 [unfolded bs1(1)]] by (fastforce simp: handed_out_def)
    have "insert (a + 16, n - 16) (handed_out (L1 @ R1)) = insert (c + 16, k - 16) (insert (a + 16, n - 16) (handed_out (L @ R)))"
      using k(2) unfolding bs1(1) by (simp add: handed_out_append)
    then have eq: "insert (a + 16, n - 16) (handed_out (L1 @ R1)) = insert (a + 16, n - 16) (insert (c + 16, k - 16) (handed_out (L @ R)))"
      by (simp add: insert_commute)
    have "(a + 16, n - 16) \<notin> insert (c + 16, k - 16) (handed_out (L @ R))" using ca gone' by simp
    from insert_ident [OF gone this] eq have "handed_out (L1 @ R1) = insert (c + 16, k - 16) (handed_out (L @ R))" by simp
    then have "handed_out bs' = insert (c + 16, k - 16) (handed_out (L @ R))" using b1(2) bs1(2) by (simp add: handed_out_release)
    then show ?thesis using k(1) far' by blast
  qed
qed

lemma krealloc_handed_out:
  assumes inv: "heap_inv s bs" and p: "(p, n) \<in> handed_out bs" and sz: "0 < sz" and sv: "serviceable s bs sz"
  shows "\<exists>q k s' bs'. krealloc_unsafe s (of_nat p) sz = Inr (of_nat q, s') \<and> heap_inv s' bs' \<and>
     handed_out bs' = insert (q, k) (handed_out bs - {(p, n)}) \<and> unat sz \<le> k \<and>
     (\<forall>r \<in> handed_out bs - {(p, n)}. region_kept r (mem s) (mem s') \<and> fst r \<noteq> q)"
proof -
  have til: "tiled (unat (kheap_begin s)) bs (unat (kheap_end s))" using inv by (simp add: heap_inv_def)
  have p': "16 \<le> p" "(p - 16, n + 16, True) \<in> set bs" using handed_out_mem [OF til] p by auto
  then obtain L R where bs: "bs = L @ (p - 16, n + 16, True) # R" by (auto simp: in_set_conv_decomp)
  note inv' = inv [unfolded bs] and sv' = sv [unfolded bs]
  obtain c hi' bs' where spec: "realloc_blocks (block_size (unat sz)) (unat (kheap_end s)) L (p - 16, n + 16) R = (c, hi', bs')"
    by (metis prod_cases3)
  obtain s' where k: "krealloc_unsafe s (of_nat (p - 16 + 16)) sz = Inr (of_nat (c + 16), s')" "heap_inv s' bs'"
    "live_kept (L @ R) (mem s) (mem s')"
    using krealloc_refines [OF inv' sz sv' spec] by blast
  obtain j where j: "block_size (unat sz) \<le> j" "handed_out bs' = insert (c + 16, j - 16) (handed_out (L @ R))"
    "\<forall>r \<in> handed_out (L @ R). fst r \<noteq> c + 16"
    using handed_out_realloc [OF inv' sv' refl spec] by blast
  have "(p, n) \<notin> handed_out (L @ R)"
    using open_distinct [OF til [unfolded bs]] p'(1) by (fastforce simp: handed_out_def)
  then have rest: "handed_out (L @ R) = handed_out bs - {(p, n)}" using p'(1) unfolding bs by (auto simp: handed_out_append)
  have "unat sz \<le> j - 16" using j(1) block_size_bounds(3) [of "unat sz"] by simp
  then show ?thesis using k p'(1) j(2,3) live_kept_regions [OF k(3)] unfolding rest [symmetric]
    by (intro exI [of _ "c + 16"] exI [of _ "j - 16"] exI [of _ s'] exI [of _ bs']) auto
qed

definition poke :: "km_state \<Rightarrow> u32 \<Rightarrow> u8 \<Rightarrow> km_state" where
  "poke s x v = s\<lparr>mem := (mem s)(x := v)\<rparr>"

lemma poke_handed_out:
  assumes "heap_inv s bs" "(p, n) \<in> handed_out bs" "p \<le> unat x" "unat x < p + n"
  shows "heap_inv (poke s x v) bs"
proof -
  obtain a k where a: "(a, k, True) \<in> set bs" "p = a + 16" "n = k - 16" using assms(2) by (auto simp: handed_out_def)
  have "same_outside (payload a k) (mem s) ((mem s)(x := v))"
    using a assms(3,4) by (intro payload_cover inv_bounds [OF assms(1) a(1)]) auto
  then show ?thesis using payload_write [OF assms(1) a(1)] by (simp add: poke_def)
qed

interpretation kfull: full_allocator heap_inv handed_out serviceable kmalloc_unsafe kfree_unsafe mem
  kcalloc_unsafe krealloc_unsafe poke
  by unfold_locales
    (erule (1) kcalloc_handed_out, erule (3) krealloc_handed_out, simp add: poke_handed_out, simp add: poke_def)

section \<open>Memory outside the heap\<close>

lemma kmalloc_outside:
  assumes "heap_inv s bs" "serviceable s bs sz" "kmalloc_unsafe s sz = Inr (p, s')"
  shows "outside_kept s s'"
  using kmalloc_refines [OF assms(1,2)] assms(3)
  by (cases "alloc_blocks (block_size (unat sz)) (unat (kheap_end s)) bs") auto

lemma kcalloc_outside:
  assumes "heap_inv s bs" "serviceable s bs (m * e)" "kcalloc_unsafe s m e = Inr (p, s')"
  shows "outside_kept s s'"
  using kcalloc_refines [OF assms(1,2)] assms(3)
  by (cases "alloc_blocks (block_size (unat (m * e))) (unat (kheap_end s)) bs") auto

lemma handed_out_split:
  assumes "heap_inv s bs" "(p, n) \<in> handed_out bs"
  obtains L a R where "bs = L @ (a, n + 16, True) # R" "p = a + 16"
proof -
  have "tiled (unat (kheap_begin s)) bs (unat (kheap_end s))" using assms(1) by (simp add: heap_inv_def)
  then have p: "16 \<le> p" "(p - 16, n + 16, True) \<in> set bs" using handed_out_mem assms(2) by auto
  then obtain L R where "bs = L @ (p - 16, n + 16, True) # R" by (auto simp: in_set_conv_decomp)
  then show ?thesis using that [of L "p - 16" R] p(1) by simp
qed

lemma kfree_live_outside:
  assumes "heap_inv s bs" "(p, n) \<in> handed_out bs" "kfree_unsafe s (of_nat p) = Inr s'"
  shows "outside_kept s s'"
proof -
  obtain L a R where "bs = L @ (a, n + 16, True) # R" "p = a + 16" by (rule handed_out_split [OF assms(1,2)])
  then show ?thesis using kfree_outside [of s L a "n + 16" R s'] assms by simp
qed

lemma krealloc_live_outside:
  assumes "heap_inv s bs" "(p, n) \<in> handed_out bs" "0 < sz" "serviceable s bs sz"
    "krealloc_unsafe s (of_nat p) sz = Inr (q, s')"
  shows "outside_kept s s'"
proof -
  obtain L a R where b: "bs = L @ (a, n + 16, True) # R" "p = a + 16" by (rule handed_out_split [OF assms(1,2)])
  show ?thesis
    using krealloc_refines [of s L a "n + 16" R sz] assms b
    by (cases "realloc_blocks (block_size (unat sz)) (unat (kheap_end s)) L (a, n + 16) R") auto
qed

lemma poke_outside:
  assumes "heap_inv s bs" "(p, n) \<in> handed_out bs" "p \<le> unat x" "unat x < p + n"
  shows "outside_kept s (poke s x v)"
proof -
  obtain a k where a: "(a, k, True) \<in> set bs" "p = a + 16" "n = k - 16" using assms(2) by (auto simp: handed_out_def)
  have "same_outside (payload a k) (mem s) ((mem s)(x := v))"
    using a assms(3,4) by (intro payload_cover inv_bounds [OF assms(1) a(1)]) auto
  then show ?thesis using payload_outside [OF assms(1) a(1)] by (simp add: poke_def)
qed

section \<open>Runs of clients\<close>

text \<open>
  The calls clients make, pointers included as they pass them, and writing one byte through a
  pointer they hold. A client follows the rules when it frees, reallocates and writes only what it
  was handed out and asks for sizes the heap can serve; \<open>heap_layout\<close> says what each call does to
  the layout.
\<close>

datatype heap_op = OpMalloc u32 | OpCalloc u32 u32 | OpFree u32 | OpRealloc u32 u32 | OpWrite u32 u8

fun heap_exec :: "km_state \<Rightarrow> heap_op \<Rightarrow> km_state outcome" where
  "heap_exec s (OpMalloc sz) = andthen (kmalloc_unsafe s sz) (\<lambda>(_, s'). Inr s')"
| "heap_exec s (OpCalloc n e) = andthen (kcalloc_unsafe s n e) (\<lambda>(_, s'). Inr s')"
| "heap_exec s (OpFree p) = kfree_unsafe s p"
| "heap_exec s (OpRealloc p sz) = andthen (krealloc_unsafe s p sz) (\<lambda>(_, s'). Inr s')"
| "heap_exec s (OpWrite x v) = Inr (s\<lparr>mem := (mem s)(x := v)\<rparr>)"

definition holds :: "block list \<Rightarrow> u32 \<Rightarrow> bool" where
  "holds bs p \<longleftrightarrow> (\<exists>(a, n, al) \<in> set bs. al \<and> unat p = a + 16)"

fun client_ok :: "km_state \<Rightarrow> block list \<Rightarrow> heap_op \<Rightarrow> bool" where
  "client_ok s bs (OpMalloc sz) \<longleftrightarrow> serviceable s bs sz"
| "client_ok s bs (OpCalloc n e) \<longleftrightarrow> serviceable s bs (n * e)"
| "client_ok s bs (OpFree p) \<longleftrightarrow> holds bs p"
| "client_ok s bs (OpRealloc p sz) \<longleftrightarrow> holds bs p \<and> 0 < sz \<and> serviceable s bs sz"
| "client_ok s bs (OpWrite x v) \<longleftrightarrow> (\<exists>(a, n, al) \<in> set bs. al \<and> a + 16 \<le> unat x \<and> unat x < a + n)"

definition realloc_at :: "nat \<Rightarrow> nat \<Rightarrow> nat \<Rightarrow> block list \<Rightarrow> nat \<times> nat \<times> block list" where
  "realloc_at t hi a bs = (case dropWhile (\<lambda>b. fst b \<noteq> a) bs of
       [] \<Rightarrow> (a, hi, bs) | (_, n, _) # R \<Rightarrow> realloc_blocks t hi (takeWhile (\<lambda>b. fst b \<noteq> a) bs) (a, n) R)"

fun heap_layout :: "nat \<Rightarrow> block list \<Rightarrow> heap_op \<Rightarrow> block list" where
  "heap_layout hi bs (OpMalloc sz) = snd (snd (alloc_blocks (block_size (unat sz)) hi bs))"
| "heap_layout hi bs (OpCalloc n e) = snd (snd (alloc_blocks (block_size (unat (n * e))) hi bs))"
| "heap_layout hi bs (OpFree p) = free_at (unat p - 16) bs"
| "heap_layout hi bs (OpRealloc p sz) = snd (snd (realloc_at (block_size (unat sz)) hi (unat p - 16) bs))"
| "heap_layout hi bs (OpWrite x v) = bs"

inductive client_run :: "km_state \<Rightarrow> block list \<Rightarrow> km_state \<Rightarrow> block list \<Rightarrow> bool" for s0 bs0 where
  start: "client_run s0 bs0 s0 bs0"
| call: "client_run s0 bs0 s bs \<Longrightarrow> client_ok s bs op \<Longrightarrow> heap_exec s op = Inr s' \<Longrightarrow>
    client_run s0 bs0 s' (heap_layout (unat (kheap_end s)) bs op)"

lemma holds_split:
  assumes inv: "heap_inv s bs" and "holds bs p"
  shows "\<exists>L a n R. bs = L @ (a, n, True) # R \<and> p = of_nat (a + 16) \<and> unat p - 16 = a \<and>
     takeWhile (\<lambda>b. fst b \<noteq> a) bs = L \<and> dropWhile (\<lambda>b. fst b \<noteq> a) bs = (a, n, True) # R"
proof -
  obtain a n where a: "(a, n, True) \<in> set bs" "unat p = a + 16" using assms(2) by (auto simp: holds_def)
  obtain L R where bs: "bs = L @ (a, n, True) # R" using a(1) by (auto simp: in_set_conv_decomp)
  have til: "tiled (unat (kheap_begin s)) (L @ (a, n, True) # R) (unat (kheap_end s))"
    using inv bs by (simp add: heap_inv_def)
  have ne: "fst x \<noteq> a" if "x \<in> set L" for x
    using open_distinct [OF til, of "fst x" "fst (snd x)" "snd (snd x)"] that by simp
  have "p = of_nat (a + 16)" using a(2) by (metis word_unat_eq_iff unat32_bound unat_of_nat32)
  then show ?thesis using bs ne a(2) by (intro exI [of _ L] exI [of _ a] exI [of _ n] exI [of _ R]) simp
qed

theorem client_call_ok:
  assumes inv: "heap_inv s bs" and ok: "client_ok s bs op"
  shows "\<exists>s'. heap_exec s op = Inr s' \<and> heap_inv s' (heap_layout (unat (kheap_end s)) bs op)"
proof (cases op)
  case (OpMalloc sz)
  then show ?thesis
    using kmalloc_refines [OF inv, of sz] ok by (cases "alloc_blocks (block_size (unat sz)) (unat (kheap_end s)) bs") auto
next
  case (OpCalloc n e)
  then show ?thesis
    using kcalloc_refines [OF inv, of n e] ok
    by (cases "alloc_blocks (block_size (unat (n * e))) (unat (kheap_end s)) bs") auto
next
  case (OpFree p)
  then obtain L a n R where h: "bs = L @ (a, n, True) # R" "p = of_nat (a + 16)" "unat p - 16 = a"
    "free_at (unat p - 16) bs = release L (a, n) R"
    using holds_split [OF inv, of p] ok by (auto simp: free_at_def)
  then show ?thesis using kfree_refines [of s L a n R] inv OpFree by auto
next
  case (OpRealloc p sz)
  then obtain L a n R where h: "bs = L @ (a, n, True) # R" "p = of_nat (a + 16)"
    "realloc_at (block_size (unat sz)) (unat (kheap_end s)) (unat p - 16) bs =
       realloc_blocks (block_size (unat sz)) (unat (kheap_end s)) L (a, n) R"
    using holds_split [OF inv, of p] ok by (auto simp: realloc_at_def)
  then show ?thesis
    using krealloc_refines [of s L a n R sz] inv ok OpRealloc
    by (cases "realloc_blocks (block_size (unat sz)) (unat (kheap_end s)) L (a, n) R") auto
next
  case (OpWrite x v)
  then obtain a n where a: "(a, n, True) \<in> set bs" "a + 16 \<le> unat x" "unat x < a + n" using ok by auto
  have "same_outside (payload a n) (mem s) ((mem s)(x := v))"
    using a by (intro payload_cover inv_bounds [OF inv a(1)]) auto
  then show ?thesis using payload_write [OF inv a(1)] OpWrite by auto
qed

lemma client_run_inv:
  "client_run s0 bs0 s bs \<Longrightarrow> heap_inv s0 bs0 \<Longrightarrow> heap_inv s bs"
proof (induction rule: client_run.induct)
  case (call s bs op s')
  then show ?case using client_call_ok [of s bs op] by auto
qed simp

end
