(* ===== verification/KmallocInit.thy ===== *)
theory KmallocInit
  imports KmallocHeap
begin

text \<open>
  Setting up the heap: the scan of the boot loader's memory map finds the first available region
  that holds the end of the kernel image, and the heap then starts as one free block of four pages
  right behind the image.
\<close>

section \<open>The memory map\<close>

text \<open>The entries (start, length, type; the low words of the 64-bit fields) laid out from \<open>p\<close> on.\<close>

fun mmap_at :: "memory \<Rightarrow> u32 \<Rightarrow> (u32 \<times> u32 \<times> u32) list \<Rightarrow> u32 \<Rightarrow> bool" where
  "mmap_at m p [] limit \<longleftrightarrow> p = limit"
| "mmap_at m p ((st, ln, ty) # es) limit \<longleftrightarrow> p < limit \<and> load32 m (p + 4) = st \<and>
     load32 m (p + 12) = ln \<and> load32 m (p + 20) = ty \<and> mmap_at m (p + load32 m p + 4) es limit"

fun holds_kernel :: "u32 \<Rightarrow> u32 \<times> u32 \<times> u32 \<Rightarrow> bool" where
  "holds_kernel kernel_end (st, ln, ty) \<longleftrightarrow> ty = 1 \<and> st \<le> kernel_end \<and> kernel_end < st + ln"

lemma mmap_scan_finds:
  "mmap_at m p es limit \<Longrightarrow> mmap_scan m kernel_end limit p =
     Some (map_option (\<lambda>(st, ln, ty). st + ln) (find (holds_kernel kernel_end) es))"
proof (induction m p es limit rule: mmap_at.induct)
  case (1 m p limit)
  then show ?case by (subst mmap_scan.simps) simp
next
  case (2 m p st ln ty es limit)
  then show ?case by (subst mmap_scan.simps) (auto simp: Let_def)
qed

definition boot_map :: "memory \<Rightarrow> u32 \<Rightarrow> (u32 \<times> u32 \<times> u32) list \<Rightarrow> bool" where
  "boot_map m mbinfo es \<longleftrightarrow> load32 m mbinfo AND 0x40 \<noteq> 0 \<and>
     mmap_at m (load32 m (mbinfo + 48)) es (load32 m (mbinfo + 48) + load32 m (mbinfo + 44))"

lemma read_multibootinfo_found:
  assumes "boot_map (mem s) mbinfo es" "find (holds_kernel kernel_end) es = Some (st, ln, ty)"
  shows "internal_read_multibootinfo s mbinfo kernel_end = Inr (s\<lparr>kheap_max_end := st + ln\<rparr>)"
  using assms mmap_scan_finds
  by (auto simp: boot_map_def internal_read_multibootinfo_def Let_def kernel_assert_def settle_def)

lemma read_multibootinfo_missing:
  assumes "boot_map (mem s) mbinfo es" "find (holds_kernel kernel_end) es = None"
  shows "internal_read_multibootinfo s mbinfo kernel_end =
     Inl (Panic ''kmalloc_init(): failed to find valid memory block'')"
  using assms mmap_scan_finds
  by (auto simp: boot_map_def internal_read_multibootinfo_def Let_def kernel_assert_def settle_def kernel_panic_def)

section \<open>The first block\<close>

lemma init_extend_insert:
  assumes inv: "heap_inv s []" and fl: "unat (kheap_end s) + 16384 \<le> unat (kheap_max_end s)"
  defines "b \<equiv> unat (kheap_end s)"
  shows "\<exists>s'. andthen (km_extend s KMALLOC_HEAP_INIT_SIZE) (\<lambda>(block, s3). km_insert s3 block) = Inr s' \<and>
     heap_inv s' [(b, 16384, False)] \<and> kheap_max_end s' = kheap_max_end s \<and> kmalloc_inited s' = kmalloc_inited s"
proof -
  have ru: "round_up 4096 16384 = 16384" by (simp add: round_up_def)
  let ?s1 = "\<lambda>m'. s\<lparr>kheap_end := of_nat (b + 16384), mem := m'\<rparr>"
  obtain m' where e: "km_extend s (of_nat 16384) = Inr (of_nat b, ?s1 m')"
    "heap_open (?s1 m') [] (b, 16384) []" "\<not> km_isalloc m' (of_nat b)"
    using extend_open [OF inv, of 16384] fl by (auto simp: ru b_def)
  obtain m2 p2 where i: "km_insert (?s1 m') (of_nat b) = Inr (?s1 m'\<lparr>mem := m2, free_list := p2\<rparr>)"
    "heap_inv (?s1 m'\<lparr>mem := m2, free_list := p2\<rparr>) [(b, 16384, False)]"
    using open_insert [OF e(2)] e(3) by auto
  then show ?thesis using e(1) by auto
qed

lemma init_heap:
  assumes boot: "boot_map (mem s) mbinfo es" "find (holds_kernel kernel_end) es = Some (st, ln, ty)"
    and fresh: "\<not> kmalloc_inited s" "free_list s = 0"
    and room: "0 < kernel_end" "round_up 4096 (unat kernel_end) + 16384 \<le> unat (st + ln)"
  shows "\<exists>s'. kmalloc_init_heap s False mbinfo kernel_end = Inr s' \<and> kmalloc_inited s' \<and>
     kheap_max_end s' = st + ln \<and> heap_inv s' [(round_up 4096 (unat kernel_end), 16384, False)]"
proof -
  let ?k = "round_up 4096 (unat kernel_end)"
  let ?s2 = "s\<lparr>kmalloc_inited := True, kheap_max_end := st + ln, kheap_begin := of_nat ?k, kheap_end := of_nat ?k\<rparr>"
  have k: "unat kernel_end \<le> ?k" "4096 dvd ?k" "?k < 4294967296" "?k + 16384 \<le> unat (st + ln)"
    using round_up_ge [of 4096 "unat kernel_end"] round_up_dvd room(2) unat32_bound [of "st + ln"]
    by (auto simp del: unat32_bound)
  have "unat kernel_end + 4095 < 4294967296"
    using k(1,4) unat32_bound [of "st + ln"] by linarith
  then have al: "KMALLOC_ALIGN kernel_end KMALLOC_PAGESIZE = of_nat ?k"
    using align_refines [of 4096 "unat kernel_end"] by simp
  have uk: "unat (of_nat ?k :: u32) = ?k" using k(3) by (rule unat_of_nat32)
  have "0 < ?k" using room(1) k(1) by (simp add: word_gt_0_no word_less_nat_alt)
  then have "heap_inv ?s2 []"
    using uk k fresh by (simp add: heap_inv_def region_ok_def word_le_nat_alt)
  then obtain s' where "andthen (km_extend ?s2 KMALLOC_HEAP_INIT_SIZE) (\<lambda>(block, s3). km_insert s3 block) = Inr s'"
    "heap_inv s' [(?k, 16384, False)]" "kheap_max_end s' = st + ln" "kmalloc_inited s'"
    using init_extend_insert [of ?s2] k uk by auto
  moreover have "kmalloc_init_heap s False mbinfo kernel_end =
      andthen (km_extend ?s2 KMALLOC_HEAP_INIT_SIZE) (\<lambda>(block, s3). km_insert s3 block)"
    using al read_multibootinfo_found [of "s\<lparr>kmalloc_inited := True\<rparr>" mbinfo es kernel_end st ln ty] boot fresh
    by (simp add: kmalloc_init_heap_def kernel_assert_def Let_def)
  ultimately show ?thesis by metis
qed

end
