(* ===== verification/KmallocProps.thy ===== *)
theory KmallocProps
  imports KmallocClient KmallocInit
begin

text \<open>
  The theorems about the kernel heap, each with a concrete heap on which it applies: a heap of one
  free block behind a kernel that ends at \<open>0x200000\<close>, and the same heap after a request for 100 bytes.
\<close>

section \<open>Concrete heaps\<close>

definition boot_mem :: memory where
  "boot_mem = store32 (store32 (\<lambda>_. 0) 0x200000 0x4000) 0x200008 KMALLOC_MAGIC"

definition heap0 :: km_state where
  "heap0 = \<lparr>mem = boot_mem, kheap_begin = 0x200000, kheap_end = 0x204000, kheap_max_end = 0x300000,
     enable_debug_print = False,
     kmalloc_stats = \<lparr>allocation_cnt = 0, allocation_bytes = 0, free_cnt = 0, free_bytes = 0\<rparr>,
     free_list = 0x200000, kmalloc_inited = True\<rparr>"

definition used_mem :: memory where
  "used_mem = store32 (store32 (store32 (store32 (\<lambda>_. 0) 0x200000 0x81) 0x200008 KMALLOC_MAGIC)
      0x200080 0x3F80) 0x200088 KMALLOC_MAGIC"

definition heap1 :: km_state where
  "heap1 = heap0\<lparr>mem := used_mem, free_list := 0x200080\<rparr>"

abbreviation blocks0 :: "block list" where "blocks0 \<equiv> [(0x200000, 0x4000, False)]"
abbreviation blocks1 :: "block list" where
  "blocks1 \<equiv> [(0x200000, 0x80, True), (0x200080, 0x3F80, False)]"

lemmas heap_eval = heap_inv_def region_ok_def hdr_ok_def km_getsize_def km_isalloc_def
  km_checkmagic_def km_metadata_def km_next_def header_def
lemmas size_eval = serviceable_def block_size_def round_up_def alloc_blocks_def carve_def

lemma boot_mem_words:
  "load32 boot_mem 0x200000 = 0x4000" "load32 boot_mem 0x200004 = 0"
  "load32 boot_mem 0x200008 = KMALLOC_MAGIC"
  by code_simp+

lemma used_mem_words:
  "load32 used_mem 0x200000 = 0x81" "load32 used_mem 0x200008 = KMALLOC_MAGIC"
  "load32 used_mem 0x200080 = 0x3F80" "load32 used_mem 0x200084 = 0" "load32 used_mem 0x200088 = KMALLOC_MAGIC"
  by code_simp+

lemma heap0_inv: "heap_inv heap0 blocks0"
  by (simp add: heap_eval heap0_def boot_mem_words)

lemma heap1_inv: "heap_inv heap1 blocks1"
  by (simp add: heap_eval heap1_def heap0_def used_mem_words)

lemma heap0_serves: "serviceable heap0 blocks0 100"
  by (simp add: size_eval heap0_def)

lemma heap1_serves: "serviceable heap1 blocks1 200"
  by (simp add: size_eval heap1_def heap0_def)

section \<open>Allocation\<close>

text \<open>C1. Every request that fits is answered: \<open>_kmalloc_unsafe\<close> returns a 16-byte aligned pointer to a
  fresh block that has room for the request, overlaps no block handed out before, and leaves the
  heap well formed with all live blocks and their bytes as they were.\<close>

theorem kmalloc_allocates:
  assumes "heap_inv s bs" "serviceable s bs sz"
  shows "\<exists>a n s' bs'. kmalloc_unsafe s sz = Inr (of_nat (a + 16), s') \<and> heap_inv s' bs' \<and>
     (a, n, True) \<in> set bs' \<and> unat sz + 16 \<le> n \<and> 16 dvd a \<and> 0 < a \<and> a + n < 4294967296 \<and>
     (\<forall>b k. (b, k, True) \<in> set bs \<longrightarrow> (b, k, True) \<in> set bs' \<and> (b + k \<le> a \<or> a + n \<le> b)) \<and>
     live_kept bs (mem s) (mem s')"
proof -
  let ?t = "block_size (unat sz)"
  obtain a hi' bs' where spec: "alloc_blocks ?t (unat (kheap_end s)) bs = (a, hi', bs')"
    by (metis prod_cases3)
  obtain s' where k: "kmalloc_unsafe s sz = Inr (of_nat (a + 16), s')" "heap_inv s' bs'"
    "live_kept bs (mem s) (mem s')"
    using kmalloc_refines [OF assms spec] by blast
  obtain n where n: "?t \<le> n" "(a, n, True) \<in> set bs'"
    "\<forall>b k. (b, k, True) \<in> set bs \<longrightarrow> (b, k, True) \<in> set bs' \<and> (b + k \<le> a \<or> a + n \<le> b)"
    using alloc_blocks_shape [OF _ spec block_size_bounds(1)] assms(1) unfolding heap_inv_def by fastforce
  then show ?thesis
    using k inv_bounds [OF k(2) n(2)] block_size_bounds(3) [of "unat sz"]
    by (intro exI [of _ a] exI [of _ n] exI [of _ s'] exI [of _ bs']) (auto simp: header_def)
qed

theorem kmalloc_allocates_witness:
  "\<exists>a n s' bs'. kmalloc_unsafe heap0 100 = Inr (of_nat (a + 16), s') \<and> heap_inv s' bs' \<and>
     (a, n, True) \<in> set bs' \<and> 116 \<le> n"
  using kmalloc_allocates [OF heap0_inv heap0_serves] by auto

text \<open>C16. The allocator refines its specification: it takes the first block of the layout that is
  large enough, cut down to the request, and otherwise extends the heap by whole pages.\<close>

theorem kmalloc_refinement:
  assumes "heap_inv s bs" "serviceable s bs sz"
    and "alloc_blocks (block_size (unat sz)) (unat (kheap_end s)) bs = (a, hi', bs')"
  shows "\<exists>s'. kmalloc_unsafe s sz = Inr (of_nat (a + 16), s') \<and> heap_inv s' bs' \<and>
     unat (kheap_end s') = hi' \<and> kheap_max_end s' = kheap_max_end s"
  using kmalloc_refines [OF assms] by blast

theorem kmalloc_refinement_witness:
  "\<exists>s'. kmalloc_unsafe heap0 100 = Inr (0x200010, s') \<and> heap_inv s' blocks1 \<and> unat (kheap_end s') = 0x204000"
proof -
  have "alloc_blocks (block_size (unat (100 :: u32))) (unat (kheap_end heap0)) blocks0 =
      (0x200000, 0x204000, blocks1)"
    by (simp add: size_eval heap0_def)
  then show ?thesis using kmalloc_refinement [OF heap0_inv heap0_serves] by fastforce
qed



text \<open>C32. A request close to \<open>2^32\<close> bytes is not refused: rounding it up to whole pages wraps around
  to zero, the heap is extended by nothing, and the caller gets a pointer behind the end of the heap.\<close>

theorem kmalloc_size_wraps:
  assumes "heap_inv s bs" "\<forall>(b, k) \<in> set (frees bs). k < 0xFFFFF010"
  shows "\<exists>s'. kmalloc_unsafe s 0xFFFFF000 = Inr (kheap_end s + 16, s') \<and> kheap_end s' = kheap_end s \<and>
     km_getsize (mem s') (kheap_end s) = 0"
proof -
  let ?m = "km_initblock (mem s) (kheap_end s) 0"
  have req: "request_size 0xFFFFF000 = 0xFFFFF010" by code_simp
  have al: "KMALLOC_ALIGN 0xFFFFF010 KMALLOC_PAGESIZE = 0" by code_simp
  have "kheap_end s \<le> kheap_max_end s" "0 < unat (kheap_end s)" "4096 dvd unat (kheap_end s)"
    using assms(1) tiled_le [of "unat (kheap_begin s)" bs "unat (kheap_end s)"]
    by (auto simp: heap_inv_def region_ok_def)
  then have ext: "km_extend s 0xFFFFF010 = Inr (kheap_end s, s\<lparr>mem := ?m\<rparr>)" "kheap_end s \<noteq> 0"
    and hd: "header (unat (kheap_end s))"
    using dvd_trans [of 16 4096 "unat (kheap_end s)"] by (auto simp: km_extend_def al not_less header_def Let_def)
  have "km_find s (of_nat 0xFFFFF010) = km_extend s (of_nat 0xFFFFF010)"
    using km_find_miss [of s "frees bs" "0xFFFFF010"] assms by (simp add: heap_inv_def)
  then have find: "km_find s 0xFFFFF010 = Inr (kheap_end s, s\<lparr>mem := ?m\<rparr>)" using ext by simp
  have sz: "km_getsize ?m (kheap_end s) = 0" "km_getsize (km_setalloc ?m (kheap_end s)) (kheap_end s) = 0"
    using initblock_fields(1) [OF hd hd, of 0 "mem s"] setalloc_fields(1) [OF hd hd, of ?m] by simp_all
  have "km_split (s\<lparr>mem := ?m\<rparr>) (kheap_end s) 0xFFFFF010 = Inr (kheap_end s, s\<lparr>mem := ?m\<rparr>)"
    using sz by (simp add: km_split_def)
  then show ?thesis using find sz ext(2) by (simp add: kmalloc_unsafe_def req Let_def)
qed

theorem kmalloc_size_wraps_witness:
  "\<exists>s'. kmalloc_unsafe heap0 0xFFFFF000 = Inr (0x204010, s') \<and> kheap_end s' = 0x204000"
proof -
  have "kheap_end heap0 = 0x204000" by (simp add: heap0_def)
  then show ?thesis using kmalloc_size_wraps [OF heap0_inv] by fastforce
qed


text \<open>C18. \<open>_kcalloc_unsafe\<close> returns a fresh block whose \<open>nelems * elemsize\<close> bytes are all zero, and
  keeps the layout of the specification and every live byte.\<close>

theorem kcalloc_zeroes:
  assumes "heap_inv s bs" "serviceable s bs (nelems * elemsize)"
  shows "\<exists>a s' bs' hi'. alloc_blocks (block_size (unat (nelems * elemsize))) (unat (kheap_end s)) bs = (a, hi', bs') \<and>
     kcalloc_unsafe s nelems elemsize = Inr (of_nat (a + 16), s') \<and> heap_inv s' bs' \<and>
     live_kept bs (mem s) (mem s') \<and> (\<forall>i < nelems * elemsize. mem s' (of_nat (a + 16) + i) = 0)"
proof -
  obtain a hi' bs' where "alloc_blocks (block_size (unat (nelems * elemsize))) (unat (kheap_end s)) bs = (a, hi', bs')"
    by (metis prod_cases3)
  then show ?thesis using kcalloc_refines [OF assms] by blast
qed

theorem kcalloc_zeroes_witness:
  "\<exists>a s'. kcalloc_unsafe heap0 25 4 = Inr (of_nat (a + 16), s') \<and>
     (\<forall>i < 100. mem s' (of_nat (a + 16) + i) = 0)"
  using kcalloc_zeroes [of heap0 blocks0 25 4] heap0_inv heap0_serves by force

section \<open>Release\<close>

text \<open>C4. \<open>_kfree_unsafe\<close> of a live block frees it and joins it with the free blocks next to it, so
  that no two free blocks touch; the other live blocks keep every byte, and the counters grow by
  one release of the block's size.\<close>

theorem kfree_releases:
  assumes "heap_inv s (L @ (a, n, True) # R)"
  shows "\<exists>s'. kfree_unsafe s (of_nat (a + 16)) = Inr s' \<and> heap_inv s' (release L (a, n) R) \<and>
     live_kept (L @ R) (mem s) (mem s') \<and>
     free_cnt (kmalloc_stats s') = free_cnt (kmalloc_stats s) + 1 \<and>
     free_bytes (kmalloc_stats s') = free_bytes (kmalloc_stats s) + of_nat n"
  using kfree_refines [OF assms] kfree_live [OF assms] by auto

theorem kfree_releases_witness:
  "\<exists>s'. kfree_unsafe heap1 (of_nat (0x200000 + 16)) = Inr s' \<and> heap_inv s' blocks0"
  using kfree_releases [of heap1 "[]" "0x200000" "0x80" "[(0x200080, 0x3F80, False)]"] heap1_inv by auto

text \<open>Freeing a block twice in a row is caught: the second call panics.\<close>

theorem kfree_twice_panics:
  assumes "heap_inv s (L @ (a, n, True) # R)" "kfree_unsafe s (of_nat (a + 16)) = Inr s'"
  shows "kfree_unsafe s' (of_nat (a + 16)) = Inl (Panic ''kfree() - Unallocated memory.'')"
  using kfree_twice [OF assms] .

theorem kfree_twice_panics_witness:
  "\<exists>s'. kfree_unsafe heap1 0x200010 = Inr s' \<and>
     kfree_unsafe s' 0x200010 = Inl (Panic ''kfree() - Unallocated memory.'')"
proof -
  have inv: "heap_inv heap1 ([] @ (0x200000, 0x80, True) # [(0x200080, 0x3F80, False)])"
    using heap1_inv by simp
  obtain s' where "kfree_unsafe heap1 (of_nat (0x200000 + 16)) = Inr s'"
    using kfree_refines [OF inv] by blast
  then show ?thesis using kfree_twice_panics [OF inv] by auto
qed

lemma release_alone:
  "coalesced (L @ (a, n, False) # R) \<Longrightarrow> release L (a, n) R = L @ (a, n, False) # R"
proof (induction L "(a, n)" R rule: release.induct)
  case (1 R)
  then show ?case by (cases R) (auto split: if_splits)
next
  case (2 c k cl R)
  then show ?case by (cases R) (auto split: if_splits)
next
  case (3 y z L R)
  then show ?case using coalesced_Cons by auto
qed

lemma release_carved:
  assumes "coalesced (L @ (a, n, False) # R)" "t \<le> n" "carve (a, n) t R = (a, n', True) # R'"
  shows "release L (a, n') R' = L @ (a, n, False) # R"
proof (cases "n < t + 16")
  case True
  then show ?thesis using assms release_alone by (auto simp: carve_def)
next
  case False
  have R: "absorb_next (a + t, n - t) R = (a + t, n - t, False) # R"
    using coalesced_append [OF assms(1)] by (cases R) auto
  then have n': "n' = t" "R' = (a + t, n - t, False) # R" using assms(3) False by (auto simp: carve_def)
  have "absorb_next (a, t) ((a + t, n - t, False) # R) = absorb_next (a, n) R"
    using coalesced_append [OF assms(1)] assms(2) by (cases R) auto
  then have "release L (a, t) ((a + t, n - t, False) # R) = release L (a, n) R"
    by (induction L rule: coalesced.induct) auto
  then show ?thesis using n' release_alone [OF assms(1)] by simp
qed

text \<open>C17. Round trip: a request served from a free block and given back at once leaves exactly the
  layout from before.\<close>

theorem kmalloc_kfree_roundtrip:
  assumes "heap_inv s bs" "unat sz + 31 < 4294967296" "first_fit (block_size (unat sz)) bs \<noteq> None"
  shows "\<exists>p s1 s2. kmalloc_unsafe s sz = Inr (p, s1) \<and> kfree_unsafe s1 p = Inr s2 \<and> heap_inv s2 bs"
proof -
  obtain L a n R where f: "first_fit (block_size (unat sz)) bs = Some (L, (a, n), R)"
    using assms(3) by auto
  obtain s1 n' R' where k: "kmalloc_unsafe s sz = Inr (of_nat (a + 16), s1)"
    "carve (a, n) (block_size (unat sz)) R = (a, n', True) # R'" "heap_inv s1 (L @ (a, n', True) # R')"
    using kmalloc_fit [OF assms(1,2) f] by blast
  have "bs = L @ (a, n, False) # R" "block_size (unat sz) \<le> n" using first_fit_Some [OF f] by auto
  then have "release L (a, n') R' = bs" using release_carved [OF _ _ k(2)] assms(1) by (simp add: heap_inv_def)
  then show ?thesis using k(1) kfree_refines [OF k(3)] by auto
qed

theorem kmalloc_kfree_roundtrip_witness:
  "\<exists>p s1 s2. kmalloc_unsafe heap0 100 = Inr (p, s1) \<and> kfree_unsafe s1 p = Inr s2 \<and> heap_inv s2 blocks0"
  by (rule kmalloc_kfree_roundtrip [OF heap0_inv]) (simp_all add: block_size_def round_up_def)

section \<open>Reallocation\<close>

text \<open>C3. \<open>_krealloc_unsafe\<close> shrinks in place, grows into the next block or moves, as its
  specification says; the caller's data is kept up to the smaller of the old and the new size, and
  the other live blocks and the memory outside the heap keep every byte.\<close>

theorem krealloc_keeps_data:
  assumes "heap_inv s (L @ (a, n, True) # R)" "0 < sz" "serviceable s (L @ (a, n, True) # R) sz"
    and "realloc_blocks (block_size (unat sz)) (unat (kheap_end s)) L (a, n) R = (c, hi', bs')"
  shows "\<exists>s'. krealloc_unsafe s (of_nat (a + 16)) sz = Inr (of_nat (c + 16), s') \<and>
     heap_inv s' bs' \<and> unat (kheap_end s') = hi' \<and> live_kept (L @ R) (mem s) (mem s') \<and> outside_kept s s' \<and>
     (\<forall>i < sz. unat i < n - 16 \<longrightarrow> mem s' (of_nat (c + 16) + i) = mem s (of_nat (a + 16) + i))"
  using krealloc_refines [OF assms] .

theorem krealloc_keeps_data_witness:
  "\<exists>s'. krealloc_unsafe heap1 0x200010 200 = Inr (0x200010, s') \<and>
     heap_inv s' [(0x200000, 0xE0, True), (0x2000E0, 0x3F20, False)]"
proof -
  have inv: "heap_inv heap1 ([] @ (0x200000, 0x80, True) # [(0x200080, 0x3F80, False)])"
    using heap1_inv by simp
  have "realloc_blocks (block_size (unat (200 :: u32))) (unat (kheap_end heap1)) [] (0x200000, 0x80) [(0x200080, 0x3F80, False)]
      = (0x200000, 0x204000, [(0x200000, 0xE0, True), (0x2000E0, 0x3F20, False)])"
    by (simp add: realloc_blocks_def grow_room_def size_eval heap1_def heap0_def)
  then show ?thesis
    using krealloc_keeps_data [OF inv, of 200] heap1_serves by fastforce
qed

section \<open>Clients\<close>

text \<open>C2. Clients that free, reallocate and write only what they were handed out can call the
  allocator in any order: in every state they reach the heap is well formed, and no call panics,
  dereferences null or runs forever.\<close>

theorem client_calls_never_fail:
  assumes "heap_inv s0 bs0" "client_run s0 bs0 s bs" "client_ok s bs op"
  shows "heap_inv s bs \<and> (\<exists>s'. heap_exec s op = Inr s' \<and> heap_inv s' (heap_layout (unat (kheap_end s)) bs op))"
  using client_run_inv [OF assms(2,1)] client_call_ok [OF _ assms(3)] by blast

theorem client_calls_never_fail_witness:
  "\<exists>s' s''. heap_exec heap1 (OpWrite 0x200010 7) = Inr s' \<and> heap_exec s' (OpFree 0x200010) = Inr s''"
proof -
  let ?w = "OpWrite 0x200010 7" and ?s = "heap1\<lparr>mem := (mem heap1)(0x200010 := 7)\<rparr>"
  have ok: "client_ok heap1 blocks1 ?w" by simp
  have e: "heap_exec heap1 ?w = Inr ?s" by simp
  have "client_run heap1 blocks1 ?s blocks1"
    using client_run.call [OF client_run.start ok e] by simp
  moreover have "client_ok ?s blocks1 (OpFree 0x200010)" by (simp add: holds_def)
  ultimately show ?thesis using client_calls_never_fail [OF heap1_inv] e by blast
qed

text \<open>A request followed by giving the block back never fails and leaves every other live block
  in place with its bytes unchanged, whichever way the request was served.\<close>

theorem kmalloc_then_kfree_live:
  assumes "heap_inv s bs" "serviceable s bs sz"
  shows "\<exists>p s1 s2 bs2. kmalloc_unsafe s sz = Inr (p, s1) \<and> kfree_unsafe s1 p = Inr s2 \<and>
     heap_inv s2 bs2 \<and> handed_out bs2 = handed_out bs \<and>
     (\<forall>r \<in> handed_out bs. region_kept r (mem s) (mem s2))"
  using kheap.alloc_then_free [OF assms] .

theorem kmalloc_then_kfree_live_witness:
  "\<exists>p s1 s2. kmalloc_unsafe heap1 200 = Inr (p, s1) \<and> kfree_unsafe s1 p = Inr s2 \<and>
     region_kept (0x200010, 0x70) (mem heap1) (mem s2)"
proof -
  have "(0x200010, 0x70) \<in> handed_out blocks1" by (auto simp: handed_out_def)
  then show ?thesis using kmalloc_then_kfree_live [OF heap1_inv heap1_serves] by blast
qed

section \<open>Initialisation\<close>

definition boot_info :: memory where
  "boot_info = store32 (store32 (store32 (store32 (store32 (store32 (store32 (\<lambda>_. 0) 0x1000 0x40)
     0x102C 24) 0x1030 0x2000) 0x2000 20) 0x2004 0x100000) 0x200C 0x700000) 0x2014 1"

definition booted :: km_state where
  "booted = heap0\<lparr>mem := boot_info, kmalloc_inited := False, free_list := 0, kheap_begin := 0,
     kheap_end := 0, kheap_max_end := 0\<rparr>"

lemma boot_info_words:
  "load32 boot_info 0x1000 = 0x40" "load32 boot_info 0x102C = 24" "load32 boot_info 0x1030 = 0x2000"
  "load32 boot_info 0x2000 = 20" "load32 boot_info 0x2004 = 0x100000" "load32 boot_info 0x200C = 0x700000"
  "load32 boot_info 0x2014 = 1"
  by code_simp+

text \<open>\<open>kmalloc_init\<close> finds the available region that holds the end of the kernel image and sets
  up a well-formed heap of one free block of 16 KiB on the first page boundary behind it.\<close>

theorem kmalloc_init_establishes:
  assumes "boot_map (mem s) mbinfo es" "find (holds_kernel kernel_end) es = Some (st, ln, ty)"
    and "\<not> kmalloc_inited s" "free_list s = 0" "0 < kernel_end"
    and "round_up 4096 (unat kernel_end) + 16384 \<le> unat (st + ln)"
  shows "\<exists>s'. kmalloc_init_heap s False mbinfo kernel_end = Inr s' \<and> kmalloc_inited s' \<and>
     kheap_max_end s' = st + ln \<and> heap_inv s' [(round_up 4096 (unat kernel_end), 16384, False)]"
  using init_heap [OF assms] .

theorem kmalloc_init_establishes_witness:
  "\<exists>s'. kmalloc_init_heap booted False 0x1000 0x1FF123 = Inr s' \<and> heap_inv s' blocks0"
proof -
  have "boot_map (mem booted) 0x1000 [(0x100000, 0x700000, 1)]"
    by (simp add: boot_map_def booted_def boot_info_words)
  then show ?thesis
    using kmalloc_init_establishes [of booted "0x1000" "[(0x100000, 0x700000, 1)]" "0x1FF123" "0x100000" "0x700000" 1]
    by (simp add: booted_def round_up_def) blast
qed

end
