(* ===== verification/LibcString.thy ===== *)
theory LibcString
  imports Memory
begin

text \<open>
  The kernel's C library, \<^verbatim>\<open>libc/src/string.c\<close>, on byte memory. Loops count in 32-bit words as the C
  code does; \<^verbatim>\<open>strlen\<close> runs forever when no byte of the whole memory is zero, so it lives in the
  option domain. The theorems say what each function does to every byte of memory: \<^verbatim>\<open>memmove\<close>
  behaves as if it copied through a temporary buffer, \<^verbatim>\<open>memcmp\<close> orders byte strings, and the string
  functions act on null-terminated strings as on lists.
\<close>

section \<open>The functions\<close>

partial_function (option) strlen_from :: "memory \<Rightarrow> u32 \<Rightarrow> u32 \<Rightarrow> u32 option" where
  "strlen_from m str len = (if m (str + len) \<noteq> 0 then strlen_from m str (len + 1) else Some len)"

definition strlen :: "memory \<Rightarrow> u32 \<Rightarrow> u32 outcome" where
  "strlen m str = settle (strlen_from m str 0)"

definition mempcpy :: "memory \<Rightarrow> u32 \<Rightarrow> u32 \<Rightarrow> u32 \<Rightarrow> u32 \<times> memory" where
  "mempcpy m dst src n = (dst + n, copy_up m dst src n 0)"

definition stpcpy :: "memory \<Rightarrow> u32 \<Rightarrow> u32 \<Rightarrow> (u32 \<times> memory) outcome" where
  "stpcpy m dst src =
     andthen (strlen m src) (\<lambda>n. case mempcpy m dst src n of (p, m') \<Rightarrow> Inr (p, m'(p := 0)))"

definition strcpy :: "memory \<Rightarrow> u32 \<Rightarrow> u32 \<Rightarrow> (u32 \<times> memory) outcome" where
  "strcpy m dst src = andthen (stpcpy m dst src) (\<lambda>(_, m'). Inr (dst, m'))"

definition strcat :: "memory \<Rightarrow> u32 \<Rightarrow> u32 \<Rightarrow> (u32 \<times> memory) outcome" where
  "strcat m dst src =
     andthen (strlen m dst) (\<lambda>n. andthen (stpcpy m (dst + n) src) (\<lambda>(_, m'). Inr (dst, m')))"

definition memcpy :: "memory \<Rightarrow> u32 \<Rightarrow> u32 \<Rightarrow> u32 \<Rightarrow> u32 \<times> memory" where
  "memcpy m dst src n = (dst, snd (mempcpy m dst src n))"

definition memmove :: "memory \<Rightarrow> u32 \<Rightarrow> u32 \<Rightarrow> u32 \<Rightarrow> u32 \<times> memory" where
  "memmove m dst src n = (dst, if dst < src then copy_up m dst src n 0 else copy_down m dst src n)"

text \<open>The second argument of \<^verbatim>\<open>memset\<close> is an \<^verbatim>\<open>int\<close>; its low byte is stored.\<close>

definition memset :: "memory \<Rightarrow> u32 \<Rightarrow> u32 \<Rightarrow> u32 \<Rightarrow> u32 \<times> memory" where
  "memset m buf val n = (buf, fill_up m buf (ucast val) n 0)"

function memcmp_from :: "memory \<Rightarrow> u32 \<Rightarrow> u32 \<Rightarrow> u32 \<Rightarrow> u32 \<Rightarrow> int" where
  "memcmp_from m s1 s2 n i =
     (if i < n then
        if m (s1 + i) \<noteq> m (s2 + i) then uint (m (s1 + i)) - uint (m (s2 + i))
        else memcmp_from m s1 s2 n (i + 1)
      else 0)"
  by pat_completeness auto
termination
  by (relation "measure (\<lambda>(m, s1, s2, n, i). unat n - unat i)") (auto simp: word_Suc_measure)

declare memcmp_from.simps [simp del] strlen_from.simps [code]

definition memcmp :: "memory \<Rightarrow> u32 \<Rightarrow> u32 \<Rightarrow> u32 \<Rightarrow> int" where
  "memcmp m s1 s2 n = memcmp_from m s1 s2 n 0"

section \<open>Buffers and strings\<close>

definition bytes_at :: "memory \<Rightarrow> u32 \<Rightarrow> nat \<Rightarrow> u8 list" where
  "bytes_at m p n = map (\<lambda>i. m (p + of_nat i)) [0..<n]"

definition cstring :: "memory \<Rightarrow> u32 \<Rightarrow> u8 list \<Rightarrow> bool" where
  "cstring m p xs \<longleftrightarrow> length xs < 4294967296 \<and> bytes_at m p (length xs) = xs \<and> 0 \<notin> set xs \<and>
     m (p + of_nat (length xs)) = 0"

lemma bytes_at_nth [simp]: "i < n \<Longrightarrow> bytes_at m p n ! i = m (p + of_nat i)"
  by (simp add: bytes_at_def)

lemma length_bytes_at [simp]: "length (bytes_at m p n) = n"
  by (simp add: bytes_at_def)

lemma bytes_at_add: "bytes_at m p (i + j) = bytes_at m p i @ bytes_at m (p + of_nat i) j"
  by (rule nth_equalityI) (auto simp: nth_append add.assoc)

lemma cstring_nth: "cstring m p xs \<Longrightarrow> i < length xs \<Longrightarrow> m (p + of_nat i) = xs ! i \<and> xs ! i \<noteq> 0"
  unfolding cstring_def using bytes_at_nth [of i "length xs" m p] nth_mem [of i xs] by auto

lemma strlen_from_finds:
  assumes "cstring m p xs" "i \<le> length xs"
  shows "strlen_from m p (of_nat i) = Some (of_nat (length xs))"
  using assms(2)
proof (induction rule: inc_induct)
  case base
  then show ?case using assms(1) by (subst strlen_from.simps) (simp add: cstring_def)
next
  case (step k)
  then have "m (p + of_nat k) \<noteq> 0" using cstring_nth [OF assms(1), of k] by simp
  then show ?case using step.IH by (subst strlen_from.simps) (simp add: add.commute)
qed

lemma strlen_cstring: "cstring m p xs \<Longrightarrow> strlen m p = Inr (of_nat (length xs))"
  using strlen_from_finds [of m p xs 0] by (simp add: strlen_def)

section \<open>Copying\<close>

text \<open>Two buffers of \<open>n\<close> bytes that do not wrap around the end of the address space.\<close>

definition fits_memory :: "u32 \<Rightarrow> u32 \<Rightarrow> bool" where
  "fits_memory p n \<longleftrightarrow> unat p + unat n \<le> 4294967296"

lemma fits_offset: "fits_memory p n \<Longrightarrow> i < n \<Longrightarrow> unat (p + i) = unat p + unat i"
  by (intro unat32_plus) (simp add: fits_memory_def word_less_nat_alt)

lemma memmove_bytes:
  assumes "fits_memory dst n" "fits_memory src n"
  shows "snd (memmove m dst src n) x = (if x - dst < n then m (src + (x - dst)) else m x)"
proof (cases "dst < src")
  case True
  have "dst + j \<noteq> src + k" if "j < k" "k < n" for j k
  proof
    assume "dst + j = src + k"
    then have "unat dst + unat j = unat src + unat k"
      using fits_offset [OF assms(1), of j] fits_offset [OF assms(2), of k] that by (metis less_trans)
    then show False using True that(1) by (simp add: word_less_nat_alt)
  qed
  then show ?thesis using True copy_up_apply [of 0 n dst src m x] by (simp add: memmove_def)
next
  case False
  have "dst + k \<noteq> src + j" if "j < k" "k < n" for j k
  proof
    assume "dst + k = src + j"
    then have "unat dst + unat k = unat src + unat j"
      using fits_offset [OF assms(1), of k] fits_offset [OF assms(2), of j] that by (metis less_trans)
    then show False using False that(1) by (simp add: word_less_nat_alt not_less word_le_nat_alt)
  qed
  then show ?thesis using False copy_down_apply [of n dst src m x] by (simp add: memmove_def)
qed

definition disjoint_buffers :: "u32 \<Rightarrow> u32 \<Rightarrow> u32 \<Rightarrow> bool" where
  "disjoint_buffers dst src n \<longleftrightarrow> (\<forall>j < n. \<forall>k < n. dst + j \<noteq> src + k)"

lemma mempcpy_bytes:
  assumes "disjoint_buffers dst src n"
  shows "mempcpy m dst src n = (dst + n, \<lambda>x. if x - dst < n then m (src + (x - dst)) else m x)"
proof -
  have "copy_up m dst src n 0 x = (if x - dst < n then m (src + (x - dst)) else m x)" for x
    using copy_up_apply [of 0 n dst src m x] assms less_trans
    by (fastforce simp: disjoint_buffers_def)
  then show ?thesis by (auto simp: mempcpy_def)
qed

lemma memset_bytes: "snd (memset m buf val n) x = (if x - buf < n then ucast val else m x)"
  by (simp add: memset_def fill_up_apply)

section \<open>Strings\<close>

lemma stpcpy_string:
  assumes s: "cstring m src xs"
    and d: "disjoint_buffers dst src (of_nat (length xs))"
  shows "\<exists>m'. stpcpy m dst src = Inr (dst + of_nat (length xs), m') \<and> cstring m' dst xs \<and>
     (\<forall>x. \<not> x - dst \<le> of_nat (length xs) \<longrightarrow> m' x = m x)"
proof -
  let ?n = "of_nat (length xs) :: u32"
  let ?m' = "(\<lambda>x. if x - dst < ?n then m (src + (x - dst)) else m x)(dst + ?n := 0)"
  have len: "length xs < 4294967296" "unat ?n = length xs"
    using s by (auto simp: cstring_def unat_of_nat32)
  have lt: "(of_nat i :: u32) < ?n" if "i < length xs" for i
    using that len by (intro of_nat32_less [THEN iffD2]) auto
  have "?m' (dst + of_nat i) = xs ! i" if "i < length xs" for i
    using lt [OF that] cstring_nth [OF s that] by auto
  then have "bytes_at ?m' dst (length xs) = xs"
    by (intro nth_equalityI) auto
  then have "cstring ?m' dst xs" using s by (simp add: cstring_def)
  moreover have "?m' x = m x" if "\<not> x - dst \<le> ?n" for x
    using that by auto
  moreover have "stpcpy m dst src = Inr (dst + ?n, ?m')"
    using strlen_cstring [OF s] mempcpy_bytes [OF d, of m] by (simp add: stpcpy_def)
  ultimately show ?thesis by blast
qed

lemma cstring_append:
  assumes "length xs + length ys < 4294967296" "bytes_at m p (length xs) = xs" "0 \<notin> set xs"
    and "cstring m (p + of_nat (length xs)) ys"
  shows "cstring m p (xs @ ys)"
  using assms by (simp add: cstring_def bytes_at_add add.assoc)

lemma strcat_string:
  assumes d: "cstring m dst xs" and s: "cstring m src ys"
    and len: "length xs + length ys < 4294967296"
    and dis: "disjoint_buffers (dst + of_nat (length xs)) src (of_nat (length ys))"
  shows "\<exists>m'. strcat m dst src = Inr (dst, m') \<and> cstring m' dst (xs @ ys)"
proof -
  let ?e = "dst + of_nat (length xs) :: u32"
  obtain m' where m': "stpcpy m ?e src = Inr (?e + of_nat (length ys), m')" "cstring m' ?e ys"
    "\<forall>x. \<not> x - ?e \<le> of_nat (length ys) \<longrightarrow> m' x = m x"
    using stpcpy_string [OF s dis] by blast
  have "m' (dst + of_nat i) = m (dst + of_nat i)" if i: "i < length xs" for i
  proof -
    have "unat (of_nat i - of_nat (length xs) :: u32) = 4294967296 - (length xs - i)"
      using i len by (simp add: unat_sub_if' unat_of_nat32)
    moreover have "unat (of_nat (length ys) :: u32) = length ys" using len by (simp add: unat_of_nat32)
    ultimately have "\<not> (dst + of_nat i - ?e) \<le> (of_nat (length ys) :: u32)"
      using len i by (simp add: word_le_nat_alt)
    then show ?thesis using m'(3) by blast
  qed
  then have "bytes_at m' dst (length xs) = bytes_at m dst (length xs)"
    by (intro nth_equalityI) auto
  then have "cstring m' dst (xs @ ys)"
    using d m'(2) len by (intro cstring_append) (auto simp: cstring_def)
  then show ?thesis using m'(1) strlen_cstring [OF d] by (simp add: strcat_def)
qed

section \<open>Comparison\<close>

fun compare_bytes :: "u8 list \<Rightarrow> u8 list \<Rightarrow> int" where
  "compare_bytes (x # xs) (y # ys) = (if x = y then compare_bytes xs ys else uint x - uint y)"
| "compare_bytes _ _ = 0"

lemma compare_bytes_zero: "length xs = length ys \<Longrightarrow> compare_bytes xs ys = 0 \<longleftrightarrow> xs = ys"
  by (induction xs ys rule: compare_bytes.induct) (auto simp: word_uint_eq_iff)

lemma compare_bytes_sym: "compare_bytes ys xs = - compare_bytes xs ys"
  by (induction xs ys rule: compare_bytes.induct) auto

lemma compare_bytes_less:
  "length xs = length ys \<Longrightarrow> compare_bytes xs ys < 0 \<longleftrightarrow>
     (\<exists>us x y vs ws. xs = us @ x # vs \<and> ys = us @ y # ws \<and> x < y)"
proof (induction xs ys rule: compare_bytes.induct)
  case (1 x xs y ys)
  show ?case
  proof (cases "x = y")
    case True
    then have IH: "compare_bytes xs ys < 0 \<longleftrightarrow>
        (\<exists>us x y vs ws. xs = us @ x # vs \<and> ys = us @ y # ws \<and> x < y)"
      using "1.IH" "1.prems" by simp
    show ?thesis
    proof
      assume "compare_bytes (x # xs) (y # ys) < 0"
      then obtain us a b vs ws where "xs = us @ a # vs" "ys = us @ b # ws" "a < b"
        using True IH by auto
      then show "\<exists>us a b vs ws. x # xs = us @ a # vs \<and> y # ys = us @ b # ws \<and> a < b"
        using True by (intro exI [of _ "x # us"] exI [of _ a] exI [of _ b] exI [of _ vs] exI [of _ ws]) simp
    next
      assume "\<exists>us a b vs ws. x # xs = us @ a # vs \<and> y # ys = us @ b # ws \<and> a < b"
      then obtain us a b vs ws where u: "x # xs = us @ a # vs" "y # ys = us @ b # ws" "a < b" by blast
      then have "xs = tl us @ a # vs" "ys = tl us @ b # ws" using True by (cases us; auto)+
      then show "compare_bytes (x # xs) (y # ys) < 0" using True IH u(3) by auto
    qed
  next
    case False
    then have "(\<exists>us a b vs ws. x # xs = us @ a # vs \<and> y # ys = us @ b # ws \<and> a < b) \<longleftrightarrow> x < y"
      by (metis Cons_eq_append_conv list.inject append_Nil)
    then show ?thesis using False by (simp add: word_less_def)
  qed
qed auto

lemma memcmp_from_compare:
  "unat i \<le> unat n \<Longrightarrow> memcmp_from m s1 s2 n i =
     compare_bytes (bytes_at m (s1 + i) (unat n - unat i)) (bytes_at m (s2 + i) (unat n - unat i))"
proof (induction m s1 s2 n i rule: memcmp_from.induct)
  case (1 m s1 s2 n i)
  show ?case
  proof (cases "i < n")
    case True
    then have u: "unat (i + 1) = unat i + 1" "unat (i + 1) \<le> unat n" "unat n - unat i = Suc (unat n - unat (i + 1))"
      using unat32_Suc [OF True] by (auto simp: word_less_nat_alt)
    have "bytes_at m (s + i) (Suc k) = m (s + i) # bytes_at m (s + (i + 1)) k" for s k
      using bytes_at_add [of m "s + i" 1 k] by (simp add: bytes_at_def add.assoc)
    then show ?thesis
      using True u(3) "1.IH" [OF True _ u(2)] by (subst memcmp_from.simps) simp
  next
    case False
    then show ?thesis
      using "1.prems" by (subst memcmp_from.simps) (auto simp: word_less_nat_alt bytes_at_def)
  qed
qed

lemma memcmp_compare:
  "memcmp m s1 s2 n = compare_bytes (bytes_at m s1 (unat n)) (bytes_at m s2 (unat n))"
  using memcmp_from_compare [of 0 n m s1 s2] by (simp add: memcmp_def)


section \<open>What callers rely on\<close>

text \<open>C38. \<^verbatim>\<open>memmove\<close> behaves as if a temporary buffer were used: afterwards the destination holds the
  bytes the source held before, even when the two overlap, and every other byte is unchanged.\<close>

theorem memmove_as_if_buffered:
  assumes "fits_memory dst n" "fits_memory src n"
  shows "bytes_at (snd (memmove m dst src n)) dst (unat n) = bytes_at m src (unat n) \<and>
     (\<forall>x. \<not> x - dst < n \<longrightarrow> snd (memmove m dst src n) x = m x) \<and> fst (memmove m dst src n) = dst"
proof -
  have "snd (memmove m dst src n) (dst + of_nat i) = m (src + of_nat i)" if "i < unat n" for i
  proof -
    have "i < 4294967296" using that unat32_bound [of n] by linarith
    then have "(of_nat i :: u32) < n" using that by (simp add: word_less_nat_alt unat_of_nat32)
    then show ?thesis using memmove_bytes [OF assms] by simp
  qed
  then have "bytes_at (snd (memmove m dst src n)) dst (unat n) = bytes_at m src (unat n)"
    by (intro nth_equalityI) auto
  then show ?thesis using memmove_bytes [OF assms] by (simp add: memmove_def)
qed

theorem memmove_as_if_buffered_witness:
  "bytes_at (snd (memmove ucast 2 1 3)) 2 3 = [1, 2, 3]"
proof -
  have "bytes_at ucast 1 3 = [1, 2, 3 :: u8]" by code_simp
  then show ?thesis
    using memmove_as_if_buffered [of 2 3 1 ucast] by (simp add: fits_memory_def)
qed

text \<open>\<^verbatim>\<open>memcmp\<close> is zero exactly on equal buffers, negative exactly when the first differing byte
  (as an unsigned char) is smaller in the first buffer, and swapping the buffers flips the sign.\<close>

theorem memcmp_orders_bytes:
  "(memcmp m s1 s2 n = 0 \<longleftrightarrow> bytes_at m s1 (unat n) = bytes_at m s2 (unat n)) \<and>
   (memcmp m s1 s2 n < 0 \<longleftrightarrow> (\<exists>us x y vs ws. bytes_at m s1 (unat n) = us @ x # vs \<and>
      bytes_at m s2 (unat n) = us @ y # ws \<and> x < y)) \<and>
   memcmp m s2 s1 n = - memcmp m s1 s2 n"
  unfolding memcmp_compare
  by (simp add: compare_bytes_zero compare_bytes_less compare_bytes_sym [of "bytes_at m s2 (unat n)"])

text \<open>\<^verbatim>\<open>strcat\<close> appends the source string to the destination string and returns the destination;
  the result is null terminated and \<^verbatim>\<open>strlen\<close> of it is the sum of the lengths.\<close>

theorem strcat_appends:
  assumes "cstring m dst xs" "cstring m src ys" "length xs + length ys < 4294967296"
    and "disjoint_buffers (dst + of_nat (length xs)) src (of_nat (length ys))"
  shows "\<exists>m'. strcat m dst src = Inr (dst, m') \<and> cstring m' dst (xs @ ys) \<and>
     strlen m' dst = Inr (of_nat (length xs + length ys))"
  using strcat_string [OF assms] strlen_cstring by fastforce

theorem strcat_appends_witness:
  "\<exists>m'. strcat ((\<lambda>_. 0)(100 := 65, 200 := 66)) 100 200 = Inr (100, m') \<and> cstring m' 100 [65, 66]"
proof -
  let ?m = "(\<lambda>_. 0)(100 := 65, 200 := 66) :: memory"
  have "cstring ?m 100 [65]" "cstring ?m 200 [66]" by (simp_all add: cstring_def bytes_at_def)
  moreover have "disjoint_buffers (100 + of_nat (length [65 :: u8])) 200 (of_nat (length [66 :: u8]))"
    by (simp add: disjoint_buffers_def)
  ultimately show ?thesis using strcat_appends [of ?m 100 "[65]" 200 "[66]"] by fastforce
qed

end
