(* ===== verification/IoFormat.thy ===== *)
theory IoFormat
  imports LibcString "HOL-Library.Signed_Division"
begin

text \<open>
  The printing routines of \<^verbatim>\<open>src/io/io.c\<close>: strings, signed and unsigned decimal, hexadecimal, booleans
  and the \<^verbatim>\<open>printf\<close> interpreter. Each takes the routine that outputs one character as a parameter, as
  the C code does; it is modelled as a function on the state of the device. Variadic arguments are
  a list of 32-bit words, read in order. Each printer is shown to output exactly the text of its
  specification, which reads back as the value printed.
\<close>

section \<open>The routines\<close>

partial_function (option) io_writestr :: "(u8 \<Rightarrow> 's \<Rightarrow> 's) \<Rightarrow> memory \<Rightarrow> u32 \<Rightarrow> 's \<Rightarrow> 's option" where
  "io_writestr output_char m str s =
     (if m str \<noteq> 0 then io_writestr output_char m (str + 1) (output_char (m str) s) else Some s)"

text \<open>
  The two loops of \<^verbatim>\<open>io_writeint\<close> that fill \<^verbatim>\<open>digits\<close> from index \<open>msnz\<close> on; the value is that of the C
  \<^verbatim>\<open>int32_t\<close>, and \<^verbatim>\<open>/\<close> and \<^verbatim>\<open>%\<close> round towards zero.
\<close>

function pos_digits :: "nat \<Rightarrow> int \<Rightarrow> u8 list" where
  "pos_digits msnz d =
     (if msnz < 10 \<and> d \<noteq> 0 then (48 + of_int (d smod 10)) # pos_digits (msnz + 1) (d sdiv 10) else [])"
  by pat_completeness auto
termination by (relation "measure (\<lambda>(msnz, d). 10 - msnz)") auto

function neg_digits :: "nat \<Rightarrow> int \<Rightarrow> u8 list" where
  "neg_digits msnz d =
     (if msnz < 10 \<and> d \<noteq> 0 then (48 + of_int (- (d smod 10))) # neg_digits (msnz + 1) (d sdiv 10) else [])"
  by pat_completeness auto
termination by (relation "measure (\<lambda>(msnz, d). 10 - msnz)") auto

text \<open>The loop that outputs \<^verbatim>\<open>digits[i - 1]\<close> for \<^verbatim>\<open>i\<close> from \<^verbatim>\<open>msnz\<close> down to 1.\<close>

definition write_digits :: "(u8 \<Rightarrow> 's \<Rightarrow> 's) \<Rightarrow> u8 list \<Rightarrow> 's \<Rightarrow> 's" where
  "write_digits output_char digits s = fold output_char (rev digits) s"

definition io_writeint :: "(u8 \<Rightarrow> 's \<Rightarrow> 's) \<Rightarrow> u32 \<Rightarrow> 's \<Rightarrow> 's" where
  "io_writeint output_char w s =
     (let d = sint w in
      if d = 0 then output_char 48 s
      else if d > 0 then write_digits output_char (pos_digits 0 d) s
      else write_digits output_char (neg_digits 0 d) (output_char 45 s))"

function uint_digits :: "nat \<Rightarrow> u32 \<Rightarrow> u8 list" where
  "uint_digits msnz d =
     (if msnz < 10 \<and> d \<noteq> 0 then (48 + ucast (d mod 10)) # uint_digits (msnz + 1) (d div 10) else [])"
  by pat_completeness auto
termination by (relation "measure (\<lambda>(msnz, d). 10 - msnz)") auto

definition io_writeuint :: "(u8 \<Rightarrow> 's \<Rightarrow> 's) \<Rightarrow> u32 \<Rightarrow> 's \<Rightarrow> 's" where
  "io_writeuint output_char d s =
     (if d = 0 then output_char 48 s else write_digits output_char (uint_digits 0 d) s)"

function hex_digits :: "nat \<Rightarrow> u32 \<Rightarrow> u8 \<Rightarrow> u8 list" where
  "hex_digits msnz d base =
     (if msnz < 8 \<and> d \<noteq> 0 then
        (let nib = d mod 16 in if nib < 10 then 48 + ucast nib else base + ucast (nib - 10))
          # hex_digits (msnz + 1) (drop_bit 4 d) base
      else [])"
  by pat_completeness auto
termination by (relation "measure (\<lambda>(msnz, d, base). 8 - msnz)") auto

definition internal_io_writeinthex :: "(u8 \<Rightarrow> 's \<Rightarrow> 's) \<Rightarrow> u32 \<Rightarrow> u8 \<Rightarrow> 's \<Rightarrow> 's" where
  "internal_io_writeinthex output_char d base s =
     (let s1 = output_char (of_char CHR ''x'' - of_char CHR ''a'' + base) (output_char 48 s) in
      if d = 0 then output_char 48 s1 else write_digits output_char (hex_digits 0 d base) s1)"

definition io_writeptr :: "(u8 \<Rightarrow> 's \<Rightarrow> 's) \<Rightarrow> u32 \<Rightarrow> 's \<Rightarrow> 's" where
  "io_writeptr output_char ptr s = internal_io_writeinthex output_char ptr (of_char CHR ''a'') s"

text \<open>The two string literals of \<^verbatim>\<open>io_writebool\<close> are written out as characters.\<close>

definition literal :: "string \<Rightarrow> u8 list" where
  "literal str = map of_char str"

definition io_writebool :: "(u8 \<Rightarrow> 's \<Rightarrow> 's) \<Rightarrow> bool \<Rightarrow> 's \<Rightarrow> 's" where
  "io_writebool output_char b s =
     (if b then fold output_char (literal ''true'') s else fold output_char (literal ''false'') s)"

definition va_arg :: "u32 list \<Rightarrow> (u32 \<times> u32 list) outcome" where
  "va_arg params = (case params of [] \<Rightarrow> Inl NoVarArg | p # ps \<Rightarrow> Inr (p, ps))"

text \<open>One conversion: the \<^verbatim>\<open>switch\<close> of \<^verbatim>\<open>io_printf\<close>.\<close>

definition printf_conv ::
  "(u8 \<Rightarrow> 's \<Rightarrow> 's) \<Rightarrow> memory \<Rightarrow> u8 \<Rightarrow> u32 list \<Rightarrow> 's \<Rightarrow> ('s \<times> u32 list) outcome" where
  "printf_conv output_char m c params s =
     (if c = of_char CHR ''s'' then
        andthen (va_arg params) (\<lambda>(p, ps). andthen (settle (io_writestr output_char m p s)) (\<lambda>s'. Inr (s', ps)))
      else if c = of_char CHR ''c'' then
        andthen (va_arg params) (\<lambda>(p, ps). Inr (output_char (ucast p) s, ps))
      else if c = of_char CHR ''u'' then
        andthen (va_arg params) (\<lambda>(p, ps). Inr (io_writeuint output_char p s, ps))
      else if c = of_char CHR ''i'' \<or> c = of_char CHR ''d'' then
        andthen (va_arg params) (\<lambda>(p, ps). Inr (io_writeint output_char p s, ps))
      else if c = of_char CHR ''b'' then
        andthen (va_arg params) (\<lambda>(p, ps). Inr (io_writebool output_char (p \<noteq> 0) s, ps))
      else if c = of_char CHR ''p'' then
        andthen (va_arg params) (\<lambda>(p, ps). Inr (io_writeptr output_char p s, ps))
      else if c = of_char CHR ''x'' \<or> c = of_char CHR ''X'' then
        (let base = (if c = of_char CHR ''x'' then of_char CHR ''a'' else of_char CHR ''A'') in
         andthen (va_arg params) (\<lambda>(p, ps). Inr (internal_io_writeinthex output_char p base s, ps)))
      else if c = of_char CHR ''%'' then Inr (output_char (of_char CHR ''%'') s, params)
      else Inr (output_char c (output_char (of_char CHR ''%'') s), params))"

function printf_from ::
  "(u8 \<Rightarrow> 's \<Rightarrow> 's) \<Rightarrow> memory \<Rightarrow> u32 \<Rightarrow> u32 \<Rightarrow> u32 \<Rightarrow> u32 list \<Rightarrow> 's \<Rightarrow> 's outcome" where
  "printf_from output_char m format len i params s =
     (if i < len then
        if m (format + i) \<noteq> of_char CHR ''%'' \<or> len \<le> i + 1 then
          printf_from output_char m format len (i + 1) params (output_char (m (format + i)) s)
        else
          (case printf_conv output_char m (m (format + (i + 1))) params s of
             Inl e \<Rightarrow> Inl e
           | Inr (s', ps) \<Rightarrow> printf_from output_char m format len (i + 1 + 1) ps s')
      else Inr s)"
  by pat_completeness auto
termination
proof (relation "measure (\<lambda>(output_char, m, format, len, i, params, s). unat len - unat i)", goal_cases)
  case (3 output_char m format len i params s y s' ps)
  then have "i + 1 < len" by auto
  then have "unat len - unat (i + 1 + 1) < unat len - unat i"
    using word_Suc_measure [of i len] word_Suc_measure [of "i + 1" len] 3 by linarith
  then show ?case by simp
qed (auto simp: word_Suc_measure)

definition io_printf :: "(u8 \<Rightarrow> 's \<Rightarrow> 's) \<Rightarrow> memory \<Rightarrow> u32 \<Rightarrow> u32 list \<Rightarrow> 's \<Rightarrow> 's outcome" where
  "io_printf output_char m format params s =
     andthen (strlen m format) (\<lambda>len. printf_from output_char m format len 0 params s)"

declare pos_digits.simps [simp del] neg_digits.simps [simp del] uint_digits.simps [simp del]
  hex_digits.simps [simp del] printf_from.simps [simp del] io_writestr.simps [code]

section \<open>Text of numbers\<close>

fun dec_text :: "nat \<Rightarrow> u8 list" where
  "dec_text n = (if n < 10 then [48 + of_nat n] else dec_text (n div 10) @ [48 + of_nat (n mod 10)])"

definition int_text :: "int \<Rightarrow> u8 list" where
  "int_text d = (if d < 0 then 45 # dec_text (nat (- d)) else dec_text (nat d))"

declare dec_text.simps [simp del]

definition read_dec :: "u8 list \<Rightarrow> nat" where
  "read_dec xs = foldl (\<lambda>acc c. acc * 10 + unat (c - 48)) 0 xs"

definition read_int :: "u8 list \<Rightarrow> int" where
  "read_int xs = (if xs \<noteq> [] \<and> hd xs = 45 then - int (read_dec (tl xs)) else int (read_dec xs))"

lemma unat_digit: "n < 10 \<Longrightarrow> unat (48 + of_nat n - 48 :: u8) = n"
  by (simp add: unat_of_nat take_bit_nat_eq_self)

lemma read_dec_text: "read_dec (dec_text n) = n"
proof (induction n rule: dec_text.induct)
  case (1 n)
  show ?case
  proof (cases "n < 10")
    case True
    then show ?thesis using unat_digit [OF True] by (subst dec_text.simps) (simp add: read_dec_def)
  next
    case False
    then show ?thesis
      using 1 unat_digit [of "n mod 10"] by (subst dec_text.simps) (simp add: read_dec_def)
  qed
qed

lemma dec_text_head: "\<exists>k xs. k < 10 \<and> dec_text n = (48 + of_nat k) # xs"
proof (induction n rule: dec_text.induct)
  case (1 n)
  then show ?case by (cases "n < 10"; subst dec_text.simps) auto
qed

lemma digit_not_minus: "k < 10 \<Longrightarrow> (48 + of_nat k :: u8) \<noteq> 45"
proof
  assume "k < 10" "(48 + of_nat k :: u8) = 45"
  then have "unat (of_nat k :: u8) = unat (45 - 48 :: u8)" by (metis add_diff_cancel_left')
  then show False using \<open>k < 10\<close> by (simp add: unat_of_nat take_bit_nat_eq_self)
qed

lemma read_int_text: "read_int (int_text d) = d"
proof (cases "d < 0")
  case True
  then show ?thesis by (simp add: int_text_def read_int_def read_dec_text)
next
  case False
  obtain k xs where k: "k < 10" "dec_text (nat d) = (48 + of_nat k) # xs" using dec_text_head by blast
  then have "hd (dec_text (nat d)) \<noteq> 45" using digit_not_minus by simp
  then show ?thesis using False by (simp add: int_text_def read_int_def read_dec_text)
qed


section \<open>The digit buffers are large enough\<close>

lemma sdiv_nonneg: "0 \<le> d \<Longrightarrow> d sdiv 10 = d div 10 \<and> d smod 10 = d mod (10 :: int)"
  by (cases "d = 0") (simp_all add: signed_divide_int_def signed_modulo_int_def sgn_if minus_div_mult_eq_mod)

lemma sdiv_neg: "d < 0 \<Longrightarrow> d sdiv 10 = - ((- d) div 10) \<and> d smod 10 = - ((- d) mod (10 :: int))"
  by (simp add: signed_divide_int_def signed_modulo_int_def sgn_if minus_div_mult_eq_mod)

lemma dec_text_snoc:
  "0 < n \<Longrightarrow> dec_text n = (if n div 10 = 0 then [] else dec_text (n div 10)) @ [48 + of_nat (n mod 10)]"
  by (subst dec_text.simps) auto

lemma pos_digits_text:
  "0 < d \<Longrightarrow> d < 10 ^ (10 - msnz) \<Longrightarrow> rev (pos_digits msnz d) = dec_text (nat d)"
proof (induction msnz d rule: pos_digits.induct)
  case (1 msnz d)
  have m: "msnz < 10" using "1.prems" by (cases "msnz < 10") auto
  have q: "d sdiv 10 = d div 10" "d smod 10 = d mod 10" using sdiv_nonneg "1.prems" by auto
  have n: "nat (d div 10) = nat d div 10" "nat (d mod 10) = nat d mod 10" "0 < nat d"
    using "1.prems" by (simp_all add: nat_div_distrib nat_mod_distrib)
  have digit: "(of_int (d mod 10) :: u8) = of_nat (nat d mod 10)"
    using "1.prems" n(2) by (metis of_nat_nat pos_mod_sign zero_less_numeral of_int_of_nat_eq)
  have "(10 :: int) ^ (10 - msnz) = 10 * 10 ^ (10 - (msnz + 1))"
    using m by (simp add: Suc_diff_Suc flip: power_Suc)
  then have "d div 10 < 10 ^ (10 - (msnz + 1))" using "1.prems" by linarith
  then have IH: "0 < d div 10 \<Longrightarrow> rev (pos_digits (msnz + 1) (d div 10)) = dec_text (nat d div 10)"
    using "1.IH" m "1.prems" q n by auto
  have z: "d div 10 = 0 \<longleftrightarrow> nat d div 10 = 0" "0 \<le> d div 10" using n "1.prems" by (auto simp: pos_imp_zdiv_nonneg_iff)
  have "rev (pos_digits (msnz + 1) (d div 10)) = (if nat d div 10 = 0 then [] else dec_text (nat d div 10))"
    using IH z by (cases "d div 10 = 0") (auto simp: pos_digits.simps [of _ 0])
  then show ?case
    using m "1.prems" q digit dec_text_snoc [OF n(3)] by (subst pos_digits.simps) simp
qed

lemma neg_digits_pos: "d < 0 \<Longrightarrow> neg_digits msnz d = pos_digits msnz (- d)"
proof (induction msnz d rule: neg_digits.induct)
  case (1 msnz d)
  have q: "d sdiv 10 = - ((- d) div 10)" "d smod 10 = - ((- d) mod 10)"
    "(- d) sdiv 10 = (- d) div 10" "(- d) smod 10 = (- d) mod 10"
    using sdiv_neg [of d] sdiv_nonneg [of "- d"] "1.prems" by auto
  have nn: "0 \<le> (- d) div 10" using "1.prems" by (simp add: pos_imp_zdiv_nonneg_iff)
  have "neg_digits (msnz + 1) (d sdiv 10) = pos_digits (msnz + 1) ((- d) div 10)" if "msnz < 10"
  proof (cases "(- d) div 10 = 0")
    case True
    then show ?thesis using q by (simp add: neg_digits.simps [of _ 0] pos_digits.simps [of _ 0])
  next
    case False
    then have "d sdiv 10 < 0" using q nn by linarith
    then show ?thesis using "1.IH" [of] that "1.prems" q by simp
  qed
  then show ?case using q "1.prems" by (simp add: neg_digits.simps [of msnz d] pos_digits.simps [of msnz "- d"])
qed

lemma io_writeint_text: "io_writeint output_char w s = fold output_char (int_text (sint w)) s"
proof -
  have b: "- 2147483648 \<le> sint w" "sint w < 2147483648"
    using sint_greater_eq [of w] sint_less [of w] by simp_all
  consider "sint w = 0" | "0 < sint w" | "sint w < 0" by linarith
  then show ?thesis
  proof cases
    case 1
    then show ?thesis by (simp add: io_writeint_def int_text_def dec_text.simps [of 0])
  next
    case 2
    then show ?thesis
      using pos_digits_text [of "sint w" 0] b by (simp add: io_writeint_def int_text_def write_digits_def)
  next
    case 3
    then show ?thesis
      using pos_digits_text [of "- sint w" 0] neg_digits_pos [OF 3, of 0] b
      by (simp add: io_writeint_def int_text_def write_digits_def)
  qed
qed

lemma uint_digits_text:
  "0 < unat d \<Longrightarrow> unat d < 10 ^ (10 - msnz) \<Longrightarrow> rev (uint_digits msnz d) = dec_text (unat d)"
proof (induction msnz d rule: uint_digits.induct)
  case (1 msnz d)
  have m: "msnz < 10" using "1.prems" by (cases "msnz < 10") auto
  have dn: "d \<noteq> 0" using "1.prems" by auto
  have u: "unat (d div 10) = unat d div 10" "unat (d mod 10) = unat d mod 10"
    by (simp_all add: unat_div_distrib unat_mod_distrib)
  have digit: "(ucast (d mod 10) :: u8) = of_nat (unat d mod 10)"
    using u(2) by (metis of_nat_unat)
  have "(10 :: nat) ^ (10 - msnz) = 10 * 10 ^ (10 - (msnz + 1))"
    using m by (simp add: Suc_diff_Suc flip: power_Suc)
  then have "unat d div 10 < 10 ^ (10 - (msnz + 1))" using "1.prems" by linarith
  then have IH: "0 < unat d div 10 \<Longrightarrow> rev (uint_digits (msnz + 1) (d div 10)) = dec_text (unat d div 10)"
    using "1.IH" m dn u by auto
  have "rev (uint_digits (msnz + 1) (d div 10)) = (if unat d div 10 = 0 then [] else dec_text (unat d div 10))"
  proof (cases "unat d div 10 = 0")
    case True
    then have "d div 10 = 0" using u(1) by (metis unat_eq_zero)
    then show ?thesis using True by (simp add: uint_digits.simps [of _ 0])
  qed (use IH in simp)
  then show ?case
    using m dn "1.prems" digit dec_text_snoc [of "unat d"] by (subst uint_digits.simps) simp
qed

lemma io_writeuint_text: "io_writeuint output_char w s = fold output_char (dec_text (unat w)) s"
proof (cases "w = 0")
  case True
  then show ?thesis by (simp add: io_writeuint_def dec_text.simps [of 0])
next
  case False
  then have "rev (uint_digits 0 w) = dec_text (unat w)"
    using uint_digits_text [of w 0] unat32_bound [of w] by (simp add: unat_gt_0)
  then show ?thesis using False by (simp add: io_writeuint_def write_digits_def)
qed


section \<open>Hexadecimal\<close>

definition hex_digit :: "u8 \<Rightarrow> nat \<Rightarrow> u8" where
  "hex_digit base k = (if k < 10 then 48 + of_nat k else base + of_nat (k - 10))"

fun hex_text :: "u8 \<Rightarrow> nat \<Rightarrow> u8 list" where
  "hex_text base n =
     (if n < 16 then [hex_digit base n] else hex_text base (n div 16) @ [hex_digit base (n mod 16)])"

declare hex_text.simps [simp del]

definition read_hex :: "u8 \<Rightarrow> u8 list \<Rightarrow> nat" where
  "read_hex base xs =
     foldl (\<lambda>acc c. acc * 16 + (if c < 58 then unat (c - 48) else unat (c - base) + 10)) 0 xs"

lemma hex_digit_value:
  assumes "k < 16" "base = 65 \<or> base = 97"
  shows "(if hex_digit base k < 58 then unat (hex_digit base k - 48) else unat (hex_digit base k - base) + 10) = k"
proof -
  have "list_all (\<lambda>k. list_all (\<lambda>base. (if hex_digit base k < 58 then unat (hex_digit base k - 48)
      else unat (hex_digit base k - base) + 10) = k) [65, 97]) [0..<16]"
    by code_simp
  then have all: "\<forall>k \<in> {0..<16}. \<forall>base \<in> {65, 97}. (if hex_digit base k < 58 then unat (hex_digit base k - 48)
      else unat (hex_digit base k - base) + 10) = k"
    unfolding list_all_iff set_upt by simp
  show ?thesis using bspec [OF bspec [OF all, of k], of base] assms by simp
qed

lemma read_hex_text: "base = 65 \<or> base = 97 \<Longrightarrow> read_hex base (hex_text base n) = n"
proof (induction base n rule: hex_text.induct)
  case (1 base n)
  show ?case
  proof (cases "n < 16")
    case True
    then show ?thesis
      using hex_digit_value [of n base] "1.prems" by (subst hex_text.simps) (simp add: read_hex_def)
  next
    case False
    then show ?thesis
      using 1 hex_digit_value [of "n mod 16" base] by (subst hex_text.simps) (simp add: read_hex_def)
  qed
qed

lemma hex_text_snoc:
  "0 < n \<Longrightarrow> hex_text base n = (if n div 16 = 0 then [] else hex_text base (n div 16)) @ [hex_digit base (n mod 16)]"
  by (subst hex_text.simps) auto

lemma hex_digits_text:
  "0 < unat d \<Longrightarrow> unat d < 16 ^ (8 - msnz) \<Longrightarrow> rev (hex_digits msnz d base) = hex_text base (unat d)"
proof (induction msnz d base rule: hex_digits.induct)
  case (1 msnz d base)
  have m: "msnz < 8" using "1.prems" by (cases "msnz < 8") auto
  have dn: "d \<noteq> 0" using "1.prems" by auto
  have u: "unat (drop_bit 4 d) = unat d div 16" "unat (d mod 16) = unat d mod 16"
    by (simp_all add: drop_bit_eq_div unat_div_distrib unat_mod_distrib)
  have digit: "(let nib = d mod 16 in if nib < 10 then 48 + ucast nib else base + ucast (nib - 10)) =
      hex_digit base (unat d mod 16)"
  proof (cases "unat d mod 16 < 10")
    case True
    have "(ucast (d mod 16) :: u8) = of_nat (unat d mod 16)" using u(2) by (metis of_nat_unat)
    then show ?thesis using True u(2) by (simp add: hex_digit_def Let_def word_less_nat_alt)
  next
    case False
    then have "unat (d mod 16 - 10) = unat d mod 16 - 10" using u(2) by (subst unat_sub) (auto simp: word_le_nat_alt)
    then have "(ucast (d mod 16 - 10) :: u8) = of_nat (unat d mod 16 - 10)" by (metis of_nat_unat)
    then show ?thesis using False u(2) by (simp add: hex_digit_def Let_def word_less_nat_alt)
  qed
  have "(16 :: nat) ^ (8 - msnz) = 16 * 16 ^ (8 - (msnz + 1))"
    using m by (simp add: Suc_diff_Suc flip: power_Suc)
  then have "unat d div 16 < 16 ^ (8 - (msnz + 1))" using "1.prems" by linarith
  then have IH: "0 < unat d div 16 \<Longrightarrow> rev (hex_digits (msnz + 1) (drop_bit 4 d) base) = hex_text base (unat d div 16)"
    using "1.IH" m dn u by auto
  have "rev (hex_digits (msnz + 1) (drop_bit 4 d) base) = (if unat d div 16 = 0 then [] else hex_text base (unat d div 16))"
  proof (cases "unat d div 16 = 0")
    case True
    then have "drop_bit 4 d = 0" using u(1) by (metis unat_eq_zero)
    then show ?thesis using True by (simp add: hex_digits.simps [of _ 0])
  qed (use IH in simp)
  then show ?case
    using m dn "1.prems" digit hex_text_snoc [of "unat d"] by (subst hex_digits.simps) simp
qed

lemma io_writeinthex_text:
  "internal_io_writeinthex output_char w base s =
     fold output_char (48 # (23 + base) # hex_text base (unat w)) s"
proof (cases "w = 0")
  case True
  then show ?thesis
    by (simp add: internal_io_writeinthex_def hex_text.simps [of _ 0] hex_digit_def)
next
  case False
  then have "rev (hex_digits 0 w base) = hex_text base (unat w)"
    using hex_digits_text [of w 0 base] unat32_bound [of w] by (simp add: unat_gt_0)
  then show ?thesis using False by (simp add: internal_io_writeinthex_def write_digits_def)
qed


section \<open>Formatted printing\<close>

text \<open>
  The specification of \<^verbatim>\<open>io_printf\<close> on lists: an argument is a string or a word; \<open>fmt_text\<close> is the text
  printed for a format, undefined when arguments are missing or a string stands where a number is
  printed.
\<close>

datatype printf_arg = Str "u8 list" | Val u32

definition passes :: "memory \<Rightarrow> printf_arg \<Rightarrow> u32 \<Rightarrow> bool" where
  "passes m a p = (case a of Str xs \<Rightarrow> cstring m p xs | Val w \<Rightarrow> p = w)"

fun value_text :: "u8 \<Rightarrow> u32 \<Rightarrow> u8 list" where
  "value_text c w =
     (if c = of_char CHR ''c'' then [ucast w]
      else if c = of_char CHR ''u'' then dec_text (unat w)
      else if c = of_char CHR ''i'' \<or> c = of_char CHR ''d'' then int_text (sint w)
      else if c = of_char CHR ''b'' then literal (if w \<noteq> 0 then ''true'' else ''false'')
      else if c = of_char CHR ''X'' then literal ''0X'' @ hex_text (of_char CHR ''A'') (unat w)
      else literal ''0x'' @ hex_text (of_char CHR ''a'') (unat w))"

definition takes_value :: "u8 \<Rightarrow> bool" where
  "takes_value c \<longleftrightarrow> c \<in> set (literal ''cuidbpxX'')"

definition conv_text :: "u8 \<Rightarrow> printf_arg list \<Rightarrow> (u8 list \<times> printf_arg list) option" where
  "conv_text c args =
     (if c = of_char CHR ''s'' then (case args of Str xs # r \<Rightarrow> Some (xs, r) | _ \<Rightarrow> None)
      else if takes_value c then (case args of Val w # r \<Rightarrow> Some (value_text c w, r) | _ \<Rightarrow> None)
      else if c = of_char CHR ''%'' then Some (literal ''%'', args)
      else Some (literal ''%'' @ [c], args))"

fun fmt_text :: "u8 list \<Rightarrow> printf_arg list \<Rightarrow> u8 list option" where
  "fmt_text [] args = Some []"
| "fmt_text [c] args = Some [c]"
| "fmt_text (c # c' # cs) args =
     (if c \<noteq> of_char CHR ''%'' then map_option ((#) c) (fmt_text (c' # cs) args)
      else case conv_text c' args of None \<Rightarrow> None | Some (t, r) \<Rightarrow> map_option ((@) t) (fmt_text cs r))"

lemma io_writestr_text: "cstring m p xs \<Longrightarrow> io_writestr output_char m p s = Some (fold output_char xs s)"
proof (induction xs arbitrary: p s)
  case Nil
  then show ?case by (subst io_writestr.simps) (simp add: cstring_def)
next
  case (Cons x xs)
  have x: "m p = x" "x \<noteq> 0" using cstring_nth [OF Cons.prems, of 0] by auto
  have "bytes_at m p (Suc (length xs)) = m p # bytes_at m (p + 1) (length xs)"
    using bytes_at_add [of m p 1 "length xs"] by (simp add: bytes_at_def)
  then have "cstring m (p + 1) xs" using Cons.prems by (simp add: cstring_def add.assoc)
  then show ?case using Cons.IH x by (subst io_writestr.simps) simp
qed

lemma printf_conv_text:
  assumes "conv_text c args = Some (t, r)" "list_all2 (passes m) args params"
  shows "\<exists>ps. printf_conv output_char m c params s = Inr (fold output_char t s, ps) \<and> list_all2 (passes m) r ps"
proof (cases "c = of_char CHR ''s''")
  case True
  obtain p ps where p: "args = Str t # r" "params = p # ps" "cstring m p t" "list_all2 (passes m) r ps"
    using assms True by (auto simp: conv_text_def passes_def list_all2_Cons1 split: list.splits printf_arg.splits)
  then show ?thesis using True by (simp add: printf_conv_def va_arg_def io_writestr_text [OF p(3)])
next
  case ns: False
  show ?thesis
  proof (cases "takes_value c")
    case True
    obtain w ps where p: "args = Val w # r" "params = w # ps" "t = value_text c w" "list_all2 (passes m) r ps"
      using assms True ns by (auto simp: conv_text_def passes_def list_all2_Cons1 split: list.splits printf_arg.splits)
    show ?thesis
      using True p ns
      by (auto simp: printf_conv_def va_arg_def takes_value_def literal_def io_writeuint_text io_writeint_text
          io_writebool_def io_writeptr_def io_writeinthex_text Let_def)
  next
    case False
    then show ?thesis
      using assms ns by (auto simp: conv_text_def printf_conv_def takes_value_def literal_def Let_def split: if_splits)
  qed
qed

lemma printf_from_text:
  assumes str: "cstring m format xs"
  shows "drop i xs = cs \<Longrightarrow> i \<le> length xs \<Longrightarrow> fmt_text cs args = Some t \<Longrightarrow> list_all2 (passes m) args params \<Longrightarrow>
    printf_from output_char m format (of_nat (length xs)) (of_nat i) params s = Inr (fold output_char t s)"
proof (induction cs args arbitrary: i params s t rule: fmt_text.induct)
  case (1 args)
  then show ?case by (simp add: printf_from.simps)
next
  case (2 c args)
  have len: "length xs < 4294967296" using str by (simp add: cstring_def)
  have "length (drop i xs) = 1" using "2.prems"(1) by simp
  then have "i < length xs" "Suc i = length xs" by auto
  moreover have "m (format + of_nat i) = c"
    using 2 cstring_nth [OF str \<open>i < length xs\<close>] by (metis nth_via_drop)
  ultimately have "of_nat i < (of_nat (length xs) :: u32)" "(of_nat i + 1 :: u32) = of_nat (length xs)"
    using len by (auto simp: of_nat32_less add.commute simp flip: of_nat_Suc)
  moreover have "t = [c]" using "2.prems"(3) by simp
  ultimately show ?case
    using \<open>m (format + of_nat i) = c\<close> by (simp add: printf_from.simps [of _ _ _ _ "of_nat i"] printf_from.simps [of _ _ _ _ "of_nat (length xs)"])
next
  case (3 c c' cs args)
  have len: "length xs < 4294967296" using str by (simp add: cstring_def)
  have "length (drop i xs) = length cs + 2" using "3.prems"(1) by simp
  then have l: "i + 1 < length xs" by auto
  have d: "drop (i + 1) xs = c' # cs" "drop (i + 2) xs = cs" "xs ! i = c" "xs ! (i + 1) = c'"
    using "3.prems"(1) by (metis drop_drop drop0 drop_Suc_Cons add.commute One_nat_def numeral_2_eq_2 nth_via_drop)+
  have m: "m (format + of_nat i) = c" "m (format + (of_nat i + 1)) = c'"
    using cstring_nth [OF str, of i] cstring_nth [OF str, of "i + 1"] l d by (auto simp: add.commute)
  have lt: "of_nat i < (of_nat (length xs) :: u32)" "\<not> (of_nat (length xs) :: u32) \<le> of_nat i + 1"
    using l len of_nat32_less [of i "length xs"] of_nat32_less [of "i + 1" "length xs"] by (auto simp: not_le add.commute)
  have two: "1 + (1 + of_nat i) = (2 + of_nat i :: u32)" by simp
  show ?case
  proof (cases "c = of_char CHR ''%''")
    case False
    then obtain t' where t': "fmt_text (c' # cs) args = Some t'" "t = c # t'" using "3.prems" by auto
    show ?thesis
      using "3.IH"(1) [OF False d(1) _ t'(1) "3.prems"(4)] l lt m False t'(2)
      by (simp add: printf_from.simps [of _ _ _ _ "of_nat i"] add.commute [of _ 1])
  next
    case True
    then obtain t1 r t2 where t: "conv_text c' args = Some (t1, r)" "fmt_text cs r = Some t2" "t = t1 @ t2"
      using "3.prems" by (auto split: option.splits)
    obtain ps where ps: "printf_conv output_char m c' params s = Inr (fold output_char t1 s, ps)"
      "list_all2 (passes m) r ps"
      using printf_conv_text [OF t(1) "3.prems"(4), of output_char s] by (elim exE conjE)
    have "printf_from output_char m format (of_nat (length xs)) (of_nat (i + 2)) ps (fold output_char t1 s) =
        Inr (fold output_char t2 (fold output_char t1 s))"
      using "3.IH"(2) [of "(t1, r)" t1 r "i + 2" t2 ps] True t ps(2) d l by simp
    then show ?thesis
      using lt m True t(3) ps(1) two
      by (simp add: printf_from.simps [of _ _ _ _ "of_nat i"] add.commute [of _ 1])
  qed
qed


lemma io_printf_text:
  assumes "cstring m format cs" "fmt_text cs args = Some t" "list_all2 (passes m) args params"
  shows "io_printf output_char m format params s = Inr (fold output_char t s)"
  using printf_from_text [OF assms(1), of 0 cs args t params output_char s] assms strlen_cstring [OF assms(1)]
  by (simp add: io_printf_def)

lemma fmt_text_plain: "of_char CHR ''%'' \<notin> set cs \<Longrightarrow> fmt_text cs args = Some cs"
  by (induction cs args rule: fmt_text.induct) auto

section \<open>What the kernel relies on\<close>

text \<open>C37. \<^verbatim>\<open>io_writeint\<close> prints every 32-bit integer, \<^verbatim>\<open>INT_MIN\<close> included, in full: the characters it
  outputs, in order, read back as the value. The ten-character buffer is always large enough.\<close>

theorem io_writeint_roundtrip:
  "\<exists>t. io_writeint output_char w s = fold output_char t s \<and> read_int t = sint w"
  using io_writeint_text read_int_text by metis

text \<open>Hexadecimal output reads back as the value printed, in lower and in upper case, behind the
  prefix \<^verbatim>\<open>0x\<close> or \<^verbatim>\<open>0X\<close>; the eight-character buffer is always large enough.\<close>

theorem io_writehex_roundtrip:
  assumes "base = of_char CHR ''a'' \<or> base = of_char CHR ''A''"
  shows "\<exists>t. internal_io_writeinthex output_char w base s = fold output_char (48 # (base + 23) # t) s \<and>
     read_hex base t = unat w"
  using assms io_writeinthex_text [of output_char w base s] read_hex_text [of base "unat w"]
  by (auto simp: add.commute)

theorem io_writehex_roundtrip_witness:
  "\<exists>t. internal_io_writeinthex (\<lambda>c s. s @ [c]) 0xBEEF 97 [] = fold (\<lambda>c s. s @ [c]) (48 # 120 # t) [] \<and>
     read_hex 97 t = 0xBEEF"
  using io_writehex_roundtrip [of 97 "\<lambda>c s. s @ [c]" "0xBEEF" "[]"] by simp

text \<open>C36. \<^verbatim>\<open>io_printf\<close> returns for every null-terminated format whose arguments are there, and outputs
  exactly the text of the specification: the format with each conversion replaced by its argument,
  in order.\<close>

theorem io_printf_prints:
  assumes "cstring m format cs" "fmt_text cs args = Some t" "list_all2 (passes m) args params"
  shows "io_printf output_char m format params s = Inr (fold output_char t s)"
  using io_printf_text [OF assms] .

definition sample_mem :: memory where
  "sample_mem = (\<lambda>_. 0)(100 := of_char CHR ''n'', 101 := of_char CHR ''='', 102 := of_char CHR ''%'', 103 := of_char CHR ''d'')"

theorem io_printf_prints_witness:
  "io_printf (\<lambda>c s. s @ [c]) sample_mem 100 [- 7] [] = Inr (literal ''n=-7'')"
proof -
  have "cstring sample_mem 100 (literal ''n=%d'')"
    by (simp add: cstring_def literal_def bytes_at_def sample_mem_def)
  moreover have "fmt_text (literal ''n=%d'') [Val (- 7)] = Some (literal ''n=-7'')" by code_simp
  ultimately show ?thesis
    using io_printf_prints [of sample_mem 100 "literal ''n=%d''" "[Val (- 7)]" "literal ''n=-7''" "[- 7]" "\<lambda>c s. s @ [c]" "[]"]
    by (simp add: passes_def literal_def)
qed

end
