(* ===== verification/Machine.thy ===== *)
theory Machine
  imports IoFormat
begin

text \<open>
  The machine the drivers run on: the \<^verbatim>\<open>EFLAGS\<close> register (\<^verbatim>\<open>kernel/eflags.h\<close>), the port input and
  output primitives of \<^verbatim>\<open>io/io.h\<close>, the interrupt flag operations of \<^verbatim>\<open>io/interrupt.h\<close> and the serial
  port routines of \<^verbatim>\<open>io/io.c\<close> that take no lock. What devices answer is not known to the kernel: a
  read from a port returns whatever the device parameter says for the ports' history, so every
  theorem holds for all hardware, or names what it assumes of it.
\<close>

section \<open>Ports\<close>

datatype io_event = OutB u16 u8 | InB u16 u8 | OutW u16 u16 | InW u16 u16 | OutL u16 u32 | InL u16 u32

type_synonym device = "io_event list \<Rightarrow> u16 \<Rightarrow> u8"

record machine =
  io_trace :: "io_event list"
  eflags :: u32

definition io_outb :: "u16 \<Rightarrow> u8 \<Rightarrow> machine \<Rightarrow> machine" where
  "io_outb port_addr val s = s\<lparr>io_trace := io_trace s @ [OutB port_addr val]\<rparr>"

definition io_inb :: "device \<Rightarrow> u16 \<Rightarrow> machine \<Rightarrow> u8 \<times> machine" where
  "io_inb dev port_addr s =
     (let ret = dev (io_trace s) port_addr in (ret, s\<lparr>io_trace := io_trace s @ [InB port_addr ret]\<rparr>))"

text \<open>The wider transfers; a device answers them with the width that is asked for.\<close>

definition io_outw :: "u16 \<Rightarrow> u16 \<Rightarrow> machine \<Rightarrow> machine" where
  "io_outw port_addr val s = s\<lparr>io_trace := io_trace s @ [OutW port_addr val]\<rparr>"

definition io_outl :: "u16 \<Rightarrow> u32 \<Rightarrow> machine \<Rightarrow> machine" where
  "io_outl port_addr val s = s\<lparr>io_trace := io_trace s @ [OutL port_addr val]\<rparr>"

definition io_inw :: "(io_event list \<Rightarrow> u16 \<Rightarrow> u16) \<Rightarrow> u16 \<Rightarrow> machine \<Rightarrow> u16 \<times> machine" where
  "io_inw dev port_addr s =
     (let ret = dev (io_trace s) port_addr in (ret, s\<lparr>io_trace := io_trace s @ [InW port_addr ret]\<rparr>))"

definition io_inl :: "(io_event list \<Rightarrow> u16 \<Rightarrow> u32) \<Rightarrow> u16 \<Rightarrow> machine \<Rightarrow> u32 \<times> machine" where
  "io_inl dev port_addr s =
     (let ret = dev (io_trace s) port_addr in (ret, s\<lparr>io_trace := io_trace s @ [InL port_addr ret]\<rparr>))"

definition io_wait :: "machine \<Rightarrow> machine" where
  "io_wait s = io_outb 0x80 0 s"

text \<open>The last byte written to a port as a byte.\<close>

definition last_out :: "io_event list \<Rightarrow> u16 \<Rightarrow> u8" where
  "last_out tr p = fold (\<lambda>e acc. case e of OutB q v \<Rightarrow> if q = p then v else acc | _ \<Rightarrow> acc) tr 0"

lemma last_out_snoc [simp]:
  "last_out (tr @ [OutB q v]) p = (if q = p then v else last_out tr p)"
  "last_out (tr @ [InB q v]) p = last_out tr p"
  by (simp_all add: last_out_def)

lemma io_outb_frame [simp]: "eflags (io_outb p v s) = eflags s" "io_trace (io_outb p v s) = io_trace s @ [OutB p v]"
  by (simp_all add: io_outb_def)

lemma io_inb_result [simp]:
  "fst (io_inb dev p s) = dev (io_trace s) p" "eflags (snd (io_inb dev p s)) = eflags s"
  "io_trace (snd (io_inb dev p s)) = io_trace s @ [InB p (dev (io_trace s) p)]"
  by (simp_all add: io_inb_def Let_def)

section \<open>EFLAGS\<close>

abbreviation EFLAGS_IF :: u32 where "EFLAGS_IF \<equiv> 0x200"
abbreviation EFLAGS_IF_BIT :: nat where "EFLAGS_IF_BIT \<equiv> 9"
abbreviation EFLAGS_DEFAULT :: u32 where "EFLAGS_DEFAULT \<equiv> 0x202"

definition eflags_get :: "machine \<Rightarrow> u32" where
  "eflags_get s = eflags s"

definition eflags_checkflag :: "u32 \<Rightarrow> machine \<Rightarrow> u32" where
  "eflags_checkflag msk s = eflags_get s AND msk"

definition eflags_set :: "u32 \<Rightarrow> machine \<Rightarrow> machine" where
  "eflags_set v s = s\<lparr>eflags := v\<rparr>"

definition eflags_setbit :: "nat \<Rightarrow> bool \<Rightarrow> machine \<Rightarrow> machine" where
  "eflags_setbit b val s = eflags_set ((eflags_get s AND NOT (push_bit b 1)) OR push_bit b (of_bool val)) s"

definition eflags_clearbit :: "nat \<Rightarrow> machine \<Rightarrow> machine" where
  "eflags_clearbit b s = eflags_set (eflags_get s AND NOT (push_bit b 1)) s"

definition eflags_setflag :: "nat \<Rightarrow> nat \<Rightarrow> u32 \<Rightarrow> machine \<Rightarrow> machine" where
  "eflags_setflag lsb width val s =
     eflags_set ((eflags_get s AND NOT (push_bit lsb (push_bit width 1 - 1))) OR push_bit lsb val) s"

lemma eflags_setbit_bit:
  "b < 32 \<Longrightarrow> bit (eflags (eflags_setbit b val s)) n = (if n = b then val else bit (eflags s) n)"
  by (cases val) (auto simp: eflags_setbit_def eflags_set_def eflags_get_def bit_simps dest: bit_imp_le_length)

lemma eflags_setflag_field:
  assumes "lsb + width \<le> 32" "\<And>n. bit val n \<Longrightarrow> n < width"
  shows "bit (eflags (eflags_setflag lsb width val s)) n =
     (if lsb \<le> n \<and> n < lsb + width then bit val (n - lsb) else bit (eflags s) n)"
proof -
  have "push_bit width 1 - 1 = (mask width :: u32)"
    using assms(1) by (simp add: mask_eq_exp_minus_1 push_bit_of_1)
  then show ?thesis
    using assms(1) assms(2) [of "n - lsb"] by (auto simp: eflags_setflag_def eflags_set_def eflags_get_def bit_simps dest: bit_imp_le_length)
qed

section \<open>The interrupt flag\<close>

definition sti :: "machine \<Rightarrow> machine" where
  "sti s = s\<lparr>eflags := eflags s OR EFLAGS_IF\<rparr>"

definition cli :: "machine \<Rightarrow> machine" where
  "cli s = s\<lparr>eflags := eflags s AND NOT EFLAGS_IF\<rparr>"

definition interrupt_is_enabled :: "machine \<Rightarrow> bool" where
  "interrupt_is_enabled s \<longleftrightarrow> eflags_checkflag EFLAGS_IF s \<noteq> 0"

definition interrupt_restore :: "bool \<Rightarrow> machine \<Rightarrow> machine" where
  "interrupt_restore enabled s = (if enabled then sti s else cli s)"

definition interrupt_enable :: "machine \<Rightarrow> bool \<times> machine" where
  "interrupt_enable s = (interrupt_is_enabled s, sti s)"

definition interrupt_disable :: "machine \<Rightarrow> bool \<times> machine" where
  "interrupt_disable s = (interrupt_is_enabled s, cli s)"

lemma bit_IF [simp]: "bit (512 :: int) n \<longleftrightarrow> n = 9"
proof -
  have "(512 :: int) = 2 ^ 9" by simp
  then show ?thesis by (simp only: bit_exp_iff) auto
qed

lemma bit_not_IF: "bit (- 513 :: int) n \<longleftrightarrow> n \<noteq> 9"
proof -
  have "(- 513 :: int) = NOT 512" by simp
  then show ?thesis by (simp only: bit_not_iff) auto
qed

lemma interrupt_is_enabled_bit: "interrupt_is_enabled s \<longleftrightarrow> bit (eflags s) 9"
  unfolding interrupt_is_enabled_def eflags_checkflag_def eflags_get_def
  by (simp add: bit_iff_and_push_bit_not_eq_0)

lemma sti_enabled [simp]: "interrupt_is_enabled (sti s)" "io_trace (sti s) = io_trace s"
  by (simp_all add: interrupt_is_enabled_bit sti_def bit_or_iff)

lemma cli_disabled [simp]: "\<not> interrupt_is_enabled (cli s)" "io_trace (cli s) = io_trace s"
  by (simp_all add: interrupt_is_enabled_bit cli_def bit_and_iff)

text \<open>Disabling interrupts and restoring what was there before leaves \<^verbatim>\<open>EFLAGS\<close> as it was.\<close>

lemma restore_after_cli:
  assumes "eflags s' = eflags (cli s)"
  shows "eflags (interrupt_restore (interrupt_is_enabled s) s') = eflags s"
proof (rule bit_word_eqI)
  fix n assume "n < LENGTH(32)"
  then show "bit (eflags (interrupt_restore (interrupt_is_enabled s) s')) n = bit (eflags s) n"
    using assms by (auto simp: interrupt_restore_def sti_def cli_def interrupt_is_enabled_bit bit_or_iff bit_and_iff bit_not_IF)
qed

section \<open>Serial ports\<close>

datatype COMPort = COMPort_1 | COMPort_2 | COMPort_3 | COMPort_4 | COMPort_5 | COMPort_6 | COMPort_7 | COMPort_8

primrec COMPortToAddr :: "COMPort \<Rightarrow> u16" where
  "COMPortToAddr COMPort_1 = 0x3F8" | "COMPortToAddr COMPort_2 = 0x2F8" | "COMPortToAddr COMPort_3 = 0x3E8"
| "COMPortToAddr COMPort_4 = 0x2E8" | "COMPortToAddr COMPort_5 = 0x5F8" | "COMPortToAddr COMPort_6 = 0x4F8"
| "COMPortToAddr COMPort_7 = 0x5E8" | "COMPortToAddr COMPort_8 = 0x4E8"

primrec com_index :: "COMPort \<Rightarrow> u32" where
  "com_index COMPort_1 = 0" | "com_index COMPort_2 = 1" | "com_index COMPort_3 = 2" | "com_index COMPort_4 = 3"
| "com_index COMPort_5 = 4" | "com_index COMPort_6 = 5" | "com_index COMPort_7 = 6" | "com_index COMPort_8 = 7"

datatype COMDataBits = COMDataBits_5 | COMDataBits_6 | COMDataBits_7 | COMDataBits_8
datatype COMStopBits = COMStopBits_1 | COMStopBits_1_5 | COMStopBits_2
datatype COMParityBits = COMParityBits_NONE | COMParityBits_ODD | COMParityBits_EVEN | COMParityBits_MARK | COMParityBits_SPACE

primrec databits_code :: "COMDataBits \<Rightarrow> u8" where
  "databits_code COMDataBits_5 = 0" | "databits_code COMDataBits_6 = 1" | "databits_code COMDataBits_7 = 2"
| "databits_code COMDataBits_8 = 3"

primrec stopbits_code :: "COMStopBits \<Rightarrow> u8" where
  "stopbits_code COMStopBits_1 = 0" | "stopbits_code COMStopBits_1_5 = 1" | "stopbits_code COMStopBits_2 = 1"

primrec paritybits_code :: "COMParityBits \<Rightarrow> u8" where
  "paritybits_code COMParityBits_NONE = 0" | "paritybits_code COMParityBits_ODD = 1"
| "paritybits_code COMParityBits_EVEN = 3" | "paritybits_code COMParityBits_MARK = 5"
| "paritybits_code COMParityBits_SPACE = 7"

definition io_serial_outb :: "COMPort \<Rightarrow> u8 \<Rightarrow> machine \<Rightarrow> machine" where
  "io_serial_outb port val s = io_outb (COMPortToAddr port) val s"

text \<open>The table of output functions, one per port, made by the macro \<^verbatim>\<open>IO_COMN_OUTB\<close>.\<close>

primrec io_outb_map :: "COMPort \<Rightarrow> u8 \<Rightarrow> machine \<Rightarrow> machine" where
  "io_outb_map COMPort_1 = (\<lambda>c. io_serial_outb COMPort_1 c)"
| "io_outb_map COMPort_2 = (\<lambda>c. io_serial_outb COMPort_2 c)"
| "io_outb_map COMPort_3 = (\<lambda>c. io_serial_outb COMPort_3 c)"
| "io_outb_map COMPort_4 = (\<lambda>c. io_serial_outb COMPort_4 c)"
| "io_outb_map COMPort_5 = (\<lambda>c. io_serial_outb COMPort_5 c)"
| "io_outb_map COMPort_6 = (\<lambda>c. io_serial_outb COMPort_6 c)"
| "io_outb_map COMPort_7 = (\<lambda>c. io_serial_outb COMPort_7 c)"
| "io_outb_map COMPort_8 = (\<lambda>c. io_serial_outb COMPort_8 c)"

lemma io_outb_map_is_outb [simp]: "io_outb_map port = io_serial_outb port"
  by (cases port) simp_all

definition io_serial_inb :: "device \<Rightarrow> COMPort \<Rightarrow> machine \<Rightarrow> u8 \<times> machine" where
  "io_serial_inb dev port s = io_inb dev (COMPortToAddr port) s"

definition internal_io_outb :: "COMPort \<Rightarrow> u16 \<Rightarrow> u8 \<Rightarrow> machine \<Rightarrow> machine" where
  "internal_io_outb port offset val s = io_outb (COMPortToAddr port + offset) val s"

definition internal_io_inb :: "device \<Rightarrow> COMPort \<Rightarrow> u16 \<Rightarrow> machine \<Rightarrow> u8 \<times> machine" where
  "internal_io_inb dev port offset s = io_inb dev (COMPortToAddr port + offset) s"

text \<open>
  \<^verbatim>\<open>unsafe_printf\<close> with a literal format: the characters of the formatted text go to the first serial
  port one by one (\<open>fmt_text\<close> is what \<^verbatim>\<open>io_printf\<close> prints).
\<close>

definition io_serial_unsafe_printf :: "COMPort \<Rightarrow> string \<Rightarrow> printf_arg list \<Rightarrow> machine \<Rightarrow> machine" where
  "io_serial_unsafe_printf port format args s =
     (case fmt_text (literal format) args of None \<Rightarrow> s | Some t \<Rightarrow> fold (io_serial_outb port) t s)"

definition unsafe_printf :: "string \<Rightarrow> printf_arg list \<Rightarrow> machine \<Rightarrow> machine" where
  "unsafe_printf format args s = io_serial_unsafe_printf COMPort_1 format args s"

definition line_control :: "COMDataBits \<Rightarrow> COMStopBits \<Rightarrow> COMParityBits \<Rightarrow> u8" where
  "line_control databits stopbits paritybits =
     (databits_code databits AND 3) OR push_bit 2 (stopbits_code stopbits AND 1) OR push_bit 3 (paritybits_code paritybits AND 7)"

text \<open>The registers \<^verbatim>\<open>io_serial_init\<close> programs; it goes on to initialise the lock of the port.\<close>

definition io_serial_init_regs ::
  "COMPort \<Rightarrow> u16 \<Rightarrow> COMDataBits \<Rightarrow> COMStopBits \<Rightarrow> COMParityBits \<Rightarrow> machine \<Rightarrow> machine" where
  "io_serial_init_regs port divisor databits stopbits paritybits s =
     (let s1 = internal_io_outb port 3 0 s;
          s2 = internal_io_outb port 1 0 s1;
          s3 = internal_io_outb port 3 0x80 s2;
          s4 = internal_io_outb port 0 (ucast (divisor AND 0xFF)) s3;
          s5 = internal_io_outb port 1 (ucast (drop_bit 8 divisor AND 0xFF)) s4;
          s6 = internal_io_outb port 3 (line_control databits stopbits paritybits) s5
      in internal_io_outb port 2 0xC7 s6)"

definition io_serial_data_ready :: "device \<Rightarrow> COMPort \<Rightarrow> machine \<Rightarrow> bool \<times> machine" where
  "io_serial_data_ready dev port s =
     (case internal_io_inb dev port 5 s of (v, s') \<Rightarrow> (v AND 1 \<noteq> 0, s'))"

definition io_serial_set_loopback :: "device \<Rightarrow> COMPort \<Rightarrow> bool \<Rightarrow> machine \<Rightarrow> machine" where
  "io_serial_set_loopback dev port loopback s =
     (case internal_io_inb dev port 4 s of (modem_control, s') \<Rightarrow>
        internal_io_outb port 4 ((modem_control AND 0xEF) OR push_bit 4 (of_bool loopback)) s')"

lemma unsafe_printf_is_io_printf:
  assumes "cstring m f (literal format)" "fmt_text (literal format) args = Some t" "list_all2 (passes m) args params"
  shows "io_printf (io_serial_outb port) m f params s = Inr (io_serial_unsafe_printf port format args s)"
  using io_printf_text [OF assms] assms(2) by (simp add: io_serial_unsafe_printf_def)

lemma line_control_decode:
  "line_control d st p AND 3 = databits_code d" "drop_bit 2 (line_control d st p) AND 1 = stopbits_code st"
  "drop_bit 3 (line_control d st p) = paritybits_code p"
  by (cases d; cases st; cases p; simp add: line_control_def)+

lemma putc_trace: "io_trace (fold (io_serial_outb port) t s) = io_trace s @ map (OutB (COMPortToAddr port)) t \<and>
   eflags (fold (io_serial_outb port) t s) = eflags s"
  by (induction t arbitrary: s) (auto simp: io_serial_outb_def)

lemma unsafe_printf_frame:
  "eflags (unsafe_printf f args s) = eflags s"
  "\<exists>t. io_trace (unsafe_printf f args s) = io_trace s @ map (OutB 0x3F8) t"
  using putc_trace [of COMPort_1 _ s]
  by (auto simp: unsafe_printf_def io_serial_unsafe_printf_def split: option.splits intro: exI [of _ "[]"])

end
