(* ===== verification/Gdt.thy ===== *)
theory Gdt
  imports Machine
begin

text \<open>
  The global descriptor table of \<^verbatim>\<open>src/mem/gdt.c\<close>: access bytes and flags are packed from their fields,
  a segment descriptor is packed into two 32-bit words in the processor's scattered format, and
  \<^verbatim>\<open>gdt_init\<close> fills the six entries and loads \<^verbatim>\<open>GDTR\<close> and the task register. Unpacking as the processor
  does it is the specification: it recovers every field.
\<close>

section \<open>Enumerations\<close>

datatype TableIndex = TableIndex_GDT | TableIndex_LDT
datatype Segment = SegmentNull | SegmentKernelCode | SegmentKernelData | SegmentUserCode | SegmentUserData
  | SegmentTaskState
datatype SegmentPrivilege = SegmentPrivilege_Ring0 | SegmentPrivilege_Ring1 | SegmentPrivilege_Ring2
  | SegmentPrivilege_Ring3
datatype SegmentDC = SegmentDC_DirectionUp | SegmentDC_DirectionDown | SegmentDC_ConformStrict
  | SegmentDC_ConformLoose
datatype SegmentRW = SegmentRW_ReadDisable | SegmentRW_ReadEnable | SegmentRW_WriteDisable | SegmentRW_WriteEnable
datatype SystemSegmentType = SystemSegmentType_16bit_Available | SystemSegmentType_LDT
  | SystemSegmentType_16bit_Busy | SystemSegmentType_32bit_Available | SystemSegmentType_32bit_Busy
datatype SegmentGranularityFlag = SegmentGranularityFlag_Byte | SegmentGranularityFlag_Page
datatype SegmentSizeFlag = SegmentSizeFlag_16bit | SegmentSizeFlag_32bit | SegmentSizeFlag_64bit

primrec table_code :: "TableIndex \<Rightarrow> u16" where
  "table_code TableIndex_GDT = 0" | "table_code TableIndex_LDT = 1"

primrec segment_code :: "Segment \<Rightarrow> u16" where
  "segment_code SegmentNull = 0" | "segment_code SegmentKernelCode = 1" | "segment_code SegmentKernelData = 2"
| "segment_code SegmentUserCode = 3" | "segment_code SegmentUserData = 4" | "segment_code SegmentTaskState = 5"

primrec privilege_code :: "SegmentPrivilege \<Rightarrow> u8" where
  "privilege_code SegmentPrivilege_Ring0 = 0" | "privilege_code SegmentPrivilege_Ring1 = 1"
| "privilege_code SegmentPrivilege_Ring2 = 2" | "privilege_code SegmentPrivilege_Ring3 = 3"

primrec dc_code :: "SegmentDC \<Rightarrow> u8" where
  "dc_code SegmentDC_DirectionUp = 0" | "dc_code SegmentDC_DirectionDown = 1"
| "dc_code SegmentDC_ConformStrict = 0" | "dc_code SegmentDC_ConformLoose = 0"

primrec rw_code :: "SegmentRW \<Rightarrow> u8" where
  "rw_code SegmentRW_ReadDisable = 0" | "rw_code SegmentRW_ReadEnable = 1"
| "rw_code SegmentRW_WriteDisable = 0" | "rw_code SegmentRW_WriteEnable = 1"

primrec systype_code :: "SystemSegmentType \<Rightarrow> u8" where
  "systype_code SystemSegmentType_16bit_Available = 1" | "systype_code SystemSegmentType_LDT = 2"
| "systype_code SystemSegmentType_16bit_Busy = 3" | "systype_code SystemSegmentType_32bit_Available = 9"
| "systype_code SystemSegmentType_32bit_Busy = 11"

primrec granularity_code :: "SegmentGranularityFlag \<Rightarrow> u8" where
  "granularity_code SegmentGranularityFlag_Byte = 0" | "granularity_code SegmentGranularityFlag_Page = 1"

section \<open>State and operations\<close>

record SegmentDescriptor =
  base :: u32
  limit :: u32
  access :: u8
  flags :: u8

type_synonym GDTEntry = "u32 \<times> u32"

record gdt_state = machine +
  gdt :: "GDTEntry list"
  gdt_inited :: bool
  gdtr :: "u16 \<times> u32"
  task_register :: u16

definition gdt_initseg_access ::
  "bool \<Rightarrow> SegmentPrivilege \<Rightarrow> bool \<Rightarrow> SegmentDC \<Rightarrow> SegmentRW \<Rightarrow> bool \<Rightarrow> u8" where
  "gdt_initseg_access present dpl executable dc rw accessed =
     push_bit 7 (of_bool present) OR push_bit 5 (privilege_code dpl) OR push_bit 4 1 OR
     push_bit 3 (of_bool executable) OR push_bit 2 (dc_code dc) OR push_bit 1 (rw_code rw) OR of_bool accessed"

definition gdt_init_flags :: "SegmentGranularityFlag \<Rightarrow> SegmentSizeFlag \<Rightarrow> u8" where
  "gdt_init_flags g sz =
     (let db = (case sz of SegmentSizeFlag_64bit \<Rightarrow> False | SegmentSizeFlag_32bit \<Rightarrow> True | SegmentSizeFlag_16bit \<Rightarrow> False);
          l = (sz = SegmentSizeFlag_64bit)
      in push_bit 3 (granularity_code g) OR push_bit 2 (of_bool db) OR push_bit 1 (of_bool l))"

definition gdt_initsyseg_access :: "bool \<Rightarrow> SegmentPrivilege \<Rightarrow> SystemSegmentType \<Rightarrow> u8" where
  "gdt_initsyseg_access present dpl ty =
     push_bit 7 (of_bool present) OR push_bit 5 (privilege_code dpl) OR systype_code ty"

definition gdt_insert :: "SegmentDescriptor \<Rightarrow> GDTEntry" where
  "gdt_insert seg =
     ((limit seg AND 0xFFFF) OR push_bit 16 (base seg AND 0xFFFF),
      (drop_bit 16 (base seg) AND 0xFF) OR push_bit 8 (ucast (access seg) AND 0xFF) OR (limit seg AND 0xF0000) OR
      push_bit 20 (ucast (flags seg) AND 0xF) OR (base seg AND 0xFF000000))"

definition segselector_init :: "Segment \<Rightarrow> TableIndex \<Rightarrow> SegmentPrivilege \<Rightarrow> u16" where
  "segselector_init seg ti privilege =
     (ucast (privilege_code privilege) AND 3) OR push_bit 2 (table_code ti AND 1) OR push_bit 3 (segment_code seg)"

definition flat_segment :: "u8 \<Rightarrow> SegmentDescriptor" where
  "flat_segment acc = \<lparr>base = 0, limit = 0xFFFFF, access = acc,
     flags = gdt_init_flags SegmentGranularityFlag_Page SegmentSizeFlag_32bit\<rparr>"

text \<open>
  \<^verbatim>\<open>gdt_init\<close>; the addresses of the table and of the task state segment are parameters, the size of the
  latter (104 bytes) is that of its struct. Loading the two registers is what the assembly routines
  \<^verbatim>\<open>gdtr_init\<close> and \<^verbatim>\<open>tss_flush\<close> do.
\<close>

definition gdt_init :: "u32 \<Rightarrow> u32 \<Rightarrow> gdt_state \<Rightarrow> gdt_state outcome" where
  "gdt_init gdt_addr tss_addr s =
     andthen (kernel_assert (\<not> gdt_inited s) ''gdt_init() - Already initialized.'') (\<lambda>_.
     let table =
           [(0, 0),
            gdt_insert (flat_segment (gdt_initseg_access True SegmentPrivilege_Ring0 True SegmentDC_ConformStrict SegmentRW_ReadEnable False)),
            gdt_insert (flat_segment (gdt_initseg_access True SegmentPrivilege_Ring0 False SegmentDC_DirectionUp SegmentRW_WriteEnable False)),
            gdt_insert (flat_segment (gdt_initseg_access True SegmentPrivilege_Ring3 True SegmentDC_ConformLoose SegmentRW_ReadEnable False)),
            gdt_insert (flat_segment (gdt_initseg_access True SegmentPrivilege_Ring3 False SegmentDC_DirectionUp SegmentRW_WriteEnable False)),
            gdt_insert \<lparr>base = tss_addr, limit = 104 - 1,
              access = gdt_initsyseg_access True SegmentPrivilege_Ring0 SystemSegmentType_32bit_Available,
              flags = gdt_init_flags SegmentGranularityFlag_Page SegmentSizeFlag_32bit\<rparr>];
         s1 = s\<lparr>gdt_inited := True, gdt := table, gdtr := (6 * 8 - 1, gdt_addr),
                task_register := segselector_init SegmentTaskState TableIndex_GDT SegmentPrivilege_Ring0\<rparr>;
         out = unsafe_printf ''Initialized GDT\<newline>'' [] (machine.truncate s1)
     in Inr (s1\<lparr>io_trace := io_trace out\<rparr>))"

section \<open>What the processor reads\<close>

definition seg_base :: "GDTEntry \<Rightarrow> u32" where
  "seg_base e = (case e of (d0, d1) \<Rightarrow>
     drop_bit 16 d0 OR push_bit 16 (take_bit 8 d1) OR push_bit 24 (drop_bit 24 d1))"

definition seg_limit :: "GDTEntry \<Rightarrow> u32" where
  "seg_limit e = (case e of (d0, d1) \<Rightarrow> take_bit 16 d0 OR push_bit 16 (take_bit 4 (drop_bit 16 d1)))"

definition seg_access :: "GDTEntry \<Rightarrow> u8" where
  "seg_access e = (case e of (d0, d1) \<Rightarrow> ucast (drop_bit 8 d1))"

definition seg_flags :: "GDTEntry \<Rightarrow> u8" where
  "seg_flags e = (case e of (d0, d1) \<Rightarrow> ucast (take_bit 4 (drop_bit 20 d1)))"

lemma field_masks:
  "(0xFFFF :: u32) = mask 16" "(0xFF :: u32) = mask 8" "(0xF :: u32) = mask 4"
  "(0xF0000 :: u32) = push_bit 16 (mask 4)" "(0xFF000000 :: u32) = push_bit 24 (mask 8)"
  by code_simp+

lemma bit_packed0:
  "bit (fst (gdt_insert d)) n \<longleftrightarrow> (if n < 16 then bit (limit d) n else n < 32 \<and> bit (base d) (n - 16))"
  unfolding gdt_insert_def field_masks fst_conv
  by (cases "n < 16"; cases "n < 32"; simp add: bit_simps; linarith?)

lemma bit_packed1:
  "bit (snd (gdt_insert d)) n \<longleftrightarrow>
     (if n < 8 then bit (base d) (n + 16) else if n < 16 then bit (access d) (n - 8)
      else if n < 20 then bit (limit d) n else if n < 24 then bit (flags d) (n - 20)
      else n < 32 \<and> bit (base d) n)"
proof -
  consider "n < 8" | "8 \<le> n" "n < 16" | "16 \<le> n" "n < 20" | "20 \<le> n" "n < 24" | "24 \<le> n" "n < 32" | "32 \<le> n"
    by linarith
  then show ?thesis
    unfolding gdt_insert_def field_masks snd_conv
    by cases (auto simp: bit_simps less_diff_conv2 add.commute)
qed

lemma seg_fields:
  "seg_base (gdt_insert d) = base d" "seg_limit (gdt_insert d) = take_bit 20 (limit d)"
  "seg_access (gdt_insert d) = access d" "seg_flags (gdt_insert d) = take_bit 4 (flags d)"
proof -
  show "seg_base (gdt_insert d) = base d"
  proof (rule bit_word_eqI)
    fix n assume "n < LENGTH(32)"
    then consider "n < 16" | "16 \<le> n" "n < 24" | "24 \<le> n" "n < 32" by fastforce
    then show "bit (seg_base (gdt_insert d)) n = bit (base d) n"
      by cases (auto simp: seg_base_def case_prod_unfold bit_simps bit_packed0 bit_packed1 less_diff_conv2)
  qed
  show "seg_limit (gdt_insert d) = take_bit 20 (limit d)"
  proof (rule bit_word_eqI)
    fix n assume "n < LENGTH(32)"
    then consider "n < 16" | "16 \<le> n" "n < 20" | "20 \<le> n" "n < 32" by fastforce
    then show "bit (seg_limit (gdt_insert d)) n = bit (take_bit 20 (limit d)) n"
      by cases (auto simp: seg_limit_def case_prod_unfold bit_simps bit_packed0 bit_packed1 less_diff_conv2)
  qed
  show "seg_access (gdt_insert d) = access d" "seg_flags (gdt_insert d) = take_bit 4 (flags d)"
    by (rule bit_word_eqI; auto simp: seg_access_def seg_flags_def case_prod_unfold bit_simps bit_packed1)+
qed


section \<open>What the table says\<close>

text \<open>A packed descriptor read back the way the processor does gives every field of the segment:
  base and access byte in full, the low 20 bits of the limit and the low four flag bits.\<close>

theorem gdt_insert_decodes:
  "seg_base (gdt_insert d) = base d \<and> seg_limit (gdt_insert d) = take_bit 20 (limit d) \<and>
   seg_access (gdt_insert d) = access d \<and> seg_flags (gdt_insert d) = take_bit 4 (flags d)"
  by (simp add: seg_fields)

lemma access_values:
  "gdt_initseg_access True SegmentPrivilege_Ring0 True SegmentDC_ConformStrict SegmentRW_ReadEnable False = 0x9A"
  "gdt_initseg_access True SegmentPrivilege_Ring0 False SegmentDC_DirectionUp SegmentRW_WriteEnable False = 0x92"
  "gdt_initseg_access True SegmentPrivilege_Ring3 True SegmentDC_ConformLoose SegmentRW_ReadEnable False = 0xFA"
  "gdt_initseg_access True SegmentPrivilege_Ring3 False SegmentDC_DirectionUp SegmentRW_WriteEnable False = 0xF2"
  "gdt_initsyseg_access True SegmentPrivilege_Ring0 SystemSegmentType_32bit_Available = 0x89"
  "gdt_init_flags SegmentGranularityFlag_Page SegmentSizeFlag_32bit = 0xC"
  "segselector_init SegmentTaskState TableIndex_GDT SegmentPrivilege_Ring0 = 0x28"
  by code_simp+

lemma access_fields:
  "bit (gdt_initseg_access p d x c r a) 7 = p" "take_bit 2 (drop_bit 5 (gdt_initseg_access p d x c r a)) = privilege_code d"
  "bit (gdt_initseg_access p d x c r a) 4" "bit (gdt_initseg_access p d x c r a) 3 = x"
  "bit (gdt_initseg_access p d x c r a) 0 = a"
  by (cases p; cases d; cases x; cases c; cases r; cases a; simp add: gdt_initseg_access_def)+

lemma selector_fields:
  "drop_bit 3 (segselector_init g t p) = segment_code g" "take_bit 1 (drop_bit 2 (segselector_init g t p)) = table_code t"
  "take_bit 2 (segselector_init g t p) = ucast (privilege_code p)"
  by (cases g; cases t; cases p; simp add: segselector_init_def)+

lemma gdt_init_ok:
  assumes "\<not> gdt_inited s"
  shows "\<exists>s'. gdt_init gdt_addr tss_addr s = Inr s' \<and> length (gdt s') = 6 \<and> gdt s' ! 0 = (0, 0) \<and>
     (\<forall>i \<in> {1, 2, 3, 4}. seg_base (gdt s' ! i) = 0 \<and> seg_limit (gdt s' ! i) = 0xFFFFF \<and> seg_flags (gdt s' ! i) = 0xC) \<and>
     map seg_access (tl (gdt s')) = [0x9A, 0x92, 0xFA, 0xF2, 0x89] \<and>
     seg_base (gdt s' ! 5) = tss_addr \<and> seg_limit (gdt s' ! 5) = 103 \<and>
     gdtr s' = (47, gdt_addr) \<and> task_register s' = 0x28 \<and>
     gdt_init gdt_addr tss_addr s' = Inl (Panic ''gdt_init() - Already initialized.'')"
proof -
  have t: "take_bit 20 (0xFFFFF :: u32) = 0xFFFFF" "take_bit 20 (103 :: u32) = 103" "take_bit 4 (0xC :: u8) = 0xC"
    by code_simp+
  show ?thesis
    using assms by (auto simp: gdt_init_def Let_def flat_segment_def seg_fields access_values t)
qed

text \<open>C40. \<^verbatim>\<open>gdt_init\<close> runs once: it leaves a table of a null descriptor, flat 4 GiB code and data segments
  for ring 0 and ring 3, and a ring 0 task state segment at the given address, with \<^verbatim>\<open>GDTR\<close> covering
  exactly the table and the task register selecting the sixth entry; a second call panics.\<close>

theorem gdt_init_segments:
  assumes "\<not> gdt_inited s"
  shows "\<exists>s'. gdt_init gdt_addr tss_addr s = Inr s' \<and> length (gdt s') = 6 \<and> gdt s' ! 0 = (0, 0) \<and>
     (\<forall>i \<in> {1, 2, 3, 4}. seg_base (gdt s' ! i) = 0 \<and> seg_limit (gdt s' ! i) = 0xFFFFF \<and> seg_flags (gdt s' ! i) = 0xC) \<and>
     map seg_access (tl (gdt s')) = [0x9A, 0x92, 0xFA, 0xF2, 0x89] \<and>
     seg_base (gdt s' ! 5) = tss_addr \<and> seg_limit (gdt s' ! 5) = 103 \<and>
     gdtr s' = (47, gdt_addr) \<and> task_register s' = 0x28 \<and>
     gdt_init gdt_addr tss_addr s' = Inl (Panic ''gdt_init() - Already initialized.'')"
  by (rule gdt_init_ok [OF assms])

theorem gdt_init_segments_witness:
  "\<exists>s'. gdt_init 0x100000 0x101000 \<lparr>io_trace = [], eflags = 2, gdt = [], gdt_inited = False, gdtr = (0, 0), task_register = 0\<rparr>
     = Inr s' \<and> seg_base (gdt s' ! 5) = 0x101000"
  using gdt_init_segments [of "\<lparr>io_trace = [], eflags = 2, gdt = [], gdt_inited = False, gdtr = (0, 0), task_register = 0\<rparr>"]
  by fastforce

text \<open>The two conformity settings of a code segment are the same value, so asking for the loose one,
  as the user code segment does, has no effect.\<close>

lemma conform_loose_ignored:
  "gdt_initseg_access p d True SegmentDC_ConformLoose r a = gdt_initseg_access p d True SegmentDC_ConformStrict r a"
  by (simp add: gdt_initseg_access_def)

end
