(* ===== verification/Interrupt.thy ===== *)
theory Interrupt
  imports Gdt
begin

text \<open>
  Interrupts, \<^verbatim>\<open>src/io/interrupt.c\<close>: the two 8259 interrupt controllers are programmed through ports
  (initialisation, masks, end of interrupt, in-service register), gates are packed into the
  interrupt descriptor table, and \<^verbatim>\<open>interrupt_handler\<close> dispatches on the vector. The controllers are
  devices: what they answer is the device parameter.
\<close>

section \<open>The interrupt controllers\<close>

abbreviation PIC1_COMMAND :: u16 where "PIC1_COMMAND \<equiv> 0x20"
abbreviation PIC1_DATA :: u16 where "PIC1_DATA \<equiv> 0x21"
abbreviation PIC2_COMMAND :: u16 where "PIC2_COMMAND \<equiv> 0xA0"
abbreviation PIC2_DATA :: u16 where "PIC2_DATA \<equiv> 0xA1"
abbreviation PIC1_OFFSET :: u8 where "PIC1_OFFSET \<equiv> 0x20"
abbreviation PIC2_OFFSET :: u8 where "PIC2_OFFSET \<equiv> 0x28"
abbreviation ICW1_ICW4 :: u8 where "ICW1_ICW4 \<equiv> 0x01"
abbreviation ICW1_TAG :: u8 where "ICW1_TAG \<equiv> 0x10"
abbreviation ICW4_8086 :: u8 where "ICW4_8086 \<equiv> 0x01"
abbreviation OCW2_TAG :: u8 where "OCW2_TAG \<equiv> 0x00"
abbreviation OCW2_EOI :: u8 where "OCW2_EOI \<equiv> 0x20 OR OCW2_TAG"
abbreviation OCW3_TAG :: u8 where "OCW3_TAG \<equiv> 0x08"
abbreviation OCW3_RIS :: u8 where "OCW3_RIS \<equiv> 0x01 OR OCW3_TAG"
abbreviation OCW3_RR :: u8 where "OCW3_RR \<equiv> 0x02 OR OCW3_TAG"
abbreviation OCW3_READ_IRR :: u8 where "OCW3_READ_IRR \<equiv> OCW3_RR"
abbreviation OCW3_READ_ISR :: u8 where "OCW3_READ_ISR \<equiv> OCW3_RIS OR OCW3_RR"
abbreviation IRQ_CASCADE :: u8 where "IRQ_CASCADE \<equiv> 2"
abbreviation IRQ_SPURIOUS_MASTER :: u8 where "IRQ_SPURIOUS_MASTER \<equiv> 7"
abbreviation IRQ_SPURIOUS_SLAVE :: u8 where "IRQ_SPURIOUS_SLAVE \<equiv> 15"

text \<open>The C operator that combines the two reads leaves their order open; the model reads the master
  first.\<close>

definition pic_read :: "device \<Rightarrow> u8 \<Rightarrow> machine \<Rightarrow> u16 \<times> machine" where
  "pic_read dev ocw3 s =
     (let s1 = io_outb PIC1_COMMAND ocw3 s;
          s2 = io_outb PIC2_COMMAND ocw3 s1
      in case io_inb dev PIC1_COMMAND s2 of (hi, s3) \<Rightarrow>
         case io_inb dev PIC2_COMMAND s3 of (lo, s4) \<Rightarrow>
           (push_bit 8 (ucast hi) OR ucast lo, s4))"

definition pic_read_irr :: "device \<Rightarrow> machine \<Rightarrow> u16 \<times> machine" where
  "pic_read_irr dev s = pic_read dev OCW3_READ_IRR s"

definition pic_read_isr :: "device \<Rightarrow> machine \<Rightarrow> u16 \<times> machine" where
  "pic_read_isr dev s = pic_read dev (OCW3_RR OR OCW3_READ_ISR) s"

definition pic_eoi :: "u8 \<Rightarrow> machine \<Rightarrow> machine" where
  "pic_eoi irq s =
     (let s1 = (if 8 \<le> irq then io_outb PIC2_COMMAND OCW2_EOI s else s) in io_outb PIC1_COMMAND OCW2_EOI s1)"

definition pic_check_spurious :: "device \<Rightarrow> u8 \<Rightarrow> machine \<Rightarrow> bool \<times> machine" where
  "pic_check_spurious dev irq s =
     (if irq = IRQ_SPURIOUS_MASTER \<or> irq = IRQ_SPURIOUS_SLAVE then
        (case pic_read_isr dev s of (isr, s1) \<Rightarrow>
           if isr AND push_bit (unat irq) 1 = 0 then
             (let s2 = unsafe_printf ''Spurious IRQ %u\<newline>'' [Val (ucast irq)] s1
              in (True, if irq = IRQ_SPURIOUS_SLAVE then io_outb PIC1_COMMAND OCW2_EOI s2 else s2))
           else (False, s1))
      else (False, s))"

definition pic_remap :: "u8 \<Rightarrow> u8 \<Rightarrow> machine \<Rightarrow> machine" where
  "pic_remap offset1 offset2 s =
     (let s1 = io_outb PIC1_COMMAND (ICW1_TAG OR ICW1_ICW4) s;
          s2 = io_outb PIC2_COMMAND (ICW1_TAG OR ICW1_ICW4) (io_wait s1);
          s3 = io_outb PIC1_DATA offset1 (io_wait s2);
          s4 = io_outb PIC2_DATA offset2 (io_wait s3);
          s5 = io_outb PIC1_DATA (push_bit (unat IRQ_CASCADE) 1) (io_wait s4);
          s6 = io_outb PIC2_DATA IRQ_CASCADE (io_wait s5);
          s7 = io_outb PIC1_DATA ICW4_8086 (io_wait s6);
          s8 = io_outb PIC2_DATA ICW4_8086 (io_wait s7);
          s9 = io_outb PIC1_DATA 0xFE s8
      in io_outb PIC2_DATA 0xFF s9)"

definition irq_port :: "u8 \<Rightarrow> u16" where
  "irq_port irqline = (if irqline < 8 then PIC1_DATA else PIC2_DATA)"

definition irq_set_mask :: "device \<Rightarrow> u8 \<Rightarrow> machine \<Rightarrow> machine" where
  "irq_set_mask dev irqline s =
     (case interrupt_disable s of (interrupt, s1) \<Rightarrow>
        let port = irq_port irqline in
        case io_inb dev port s1 of (v, s2) \<Rightarrow>
          interrupt_restore interrupt (io_outb port (v OR push_bit (unat (irqline AND 7)) 1) s2))"

definition irq_clear_mask :: "device \<Rightarrow> u8 \<Rightarrow> machine \<Rightarrow> machine" where
  "irq_clear_mask dev irqline s =
     (case interrupt_disable s of (interrupt, s1) \<Rightarrow>
        let port = irq_port irqline in
        case io_inb dev port s1 of (v, s2) \<Rightarrow>
          interrupt_restore interrupt (io_outb port (v AND NOT (push_bit (unat (irqline AND 7)) 1)) s2))"

section \<open>Dispatch\<close>

text \<open>The structure as the assembly wrapper builds it on the stack, from the lowest address up.\<close>

record InterruptFrame =
  frame_edi :: u32
  frame_esi :: u32
  frame_ebp :: u32
  frame_esp :: u32
  frame_ebx :: u32
  frame_edx :: u32
  frame_ecx :: u32
  frame_eax :: u32
  intno :: u32
  errcode :: u32
  frame_eip :: u32
  frame_cs :: u32
  frame_eflags :: u32
  frame_oldesp :: u32
  frame_oldss :: u32

definition irq_handler :: "device \<Rightarrow> InterruptFrame \<Rightarrow> machine \<Rightarrow> machine outcome" where
  "irq_handler dev frame s =
     (let irq = ucast (intno frame - ucast PIC1_OFFSET) :: u8 in
      if irq = 0 then
        kernel_panic ''interrupt_handler() received IRQ0, interrupt should be directed to irq0_handler()''
      else
        case pic_check_spurious dev irq s of (spurious, s1) \<Rightarrow>
          if \<not> spurious then Inr (pic_eoi irq s1) else Inr s1)"

definition interrupt_handler :: "device \<Rightarrow> InterruptFrame \<Rightarrow> machine \<Rightarrow> machine outcome" where
  "interrupt_handler dev frame s =
     (let s1 = unsafe_printf ''Interrupt %x (err: %x)\<newline>'' [Val (intno frame), Val (errcode frame)] s in
      if intno frame = 0xFF then kernel_panic ''INT_ERR''
      else if 0x20 \<le> intno frame \<and> intno frame \<le> 0x2F then irq_handler dev frame s1
      else kernel_panic ''Invalid Interrupt Number %u\<newline>'')"

section \<open>The descriptor table\<close>

datatype InterruptPrivilege = InterruptPrivilege_Ring0 | InterruptPrivilege_Ring1 | InterruptPrivilege_Ring2
  | InterruptPrivilege_Ring3
datatype InterruptType = InterruptType_Task | InterruptType_16bit_Interrupt | InterruptType_16bit_Trap
  | InterruptType_32bit_Interrupt | InterruptType_32bit_Trap

primrec intpriv_code :: "InterruptPrivilege \<Rightarrow> u32" where
  "intpriv_code InterruptPrivilege_Ring0 = 0" | "intpriv_code InterruptPrivilege_Ring1 = 1"
| "intpriv_code InterruptPrivilege_Ring2 = 2" | "intpriv_code InterruptPrivilege_Ring3 = 3"

primrec inttype_code :: "InterruptType \<Rightarrow> u32" where
  "inttype_code InterruptType_Task = 5" | "inttype_code InterruptType_16bit_Interrupt = 6"
| "inttype_code InterruptType_16bit_Trap = 7" | "inttype_code InterruptType_32bit_Interrupt = 14"
| "inttype_code InterruptType_32bit_Trap = 15"

type_synonym GateDescriptor = "u32 \<times> u32"

definition fill_entry :: "u32 \<Rightarrow> u16 \<Rightarrow> InterruptType \<Rightarrow> InterruptPrivilege \<Rightarrow> bool \<Rightarrow> GateDescriptor" where
  "fill_entry offset segment_selector ty privilege present =
     ((offset AND 0xFFFF) OR push_bit 16 (ucast segment_selector),
      push_bit 8 (inttype_code ty AND 15) OR push_bit 13 (intpriv_code privilege AND 3) OR
      push_bit 15 (of_bool present) OR (offset AND 0xFFFF0000))"

definition fill_interrupt :: "u32 \<Rightarrow> GateDescriptor" where
  "fill_interrupt offset =
     fill_entry offset (segselector_init SegmentKernelCode TableIndex_GDT SegmentPrivilege_Ring0)
       InterruptType_32bit_Interrupt InterruptPrivilege_Ring0 True"

text \<open>
  The vectors that get a handler of their own, with its mnemonic. The handlers are assembly routines;
  their addresses are given by a function of the mnemonic.
\<close>

definition isr_table :: "(nat \<times> string) list" where
  "isr_table =
     [(0x00, ''DE''), (0x01, ''DB''), (0x02, ''NMI''), (0x03, ''BP''), (0x04, ''OF''), (0x05, ''BR''),
      (0x06, ''UD''), (0x07, ''NM''), (0x08, ''DF''), (0x09, ''MP''), (0x0A, ''TS''), (0x0B, ''NP''),
      (0x0C, ''SS''), (0x0D, ''GP''), (0x0E, ''PF''), (0x10, ''MF''), (0x11, ''AC''), (0x12, ''MC''),
      (0x13, ''XM''), (0x14, ''VE''), (0x15, ''CP''), (0x1C, ''HV''), (0x1D, ''VC''), (0x1E, ''SX''),
      (0x20, ''IRQ0''), (0x21, ''IRQ1''), (0x22, ''IRQ2''), (0x23, ''IRQ3''), (0x24, ''IRQ4''),
      (0x25, ''IRQ5''), (0x26, ''IRQ6''), (0x27, ''IRQ7''), (0x28, ''IRQ8''), (0x29, ''IRQ9''),
      (0x2A, ''IRQ10''), (0x2B, ''IRQ11''), (0x2C, ''IRQ12''), (0x2D, ''IRQ13''), (0x2E, ''IRQ14''),
      (0x2F, ''IRQ15'')]"

record idt_state = machine +
  idt :: "GateDescriptor list"
  idt_inited :: bool
  idtr :: "u16 \<times> u32"

definition idt_init :: "(string \<Rightarrow> u32) \<Rightarrow> u32 \<Rightarrow> idt_state \<Rightarrow> idt_state outcome" where
  "idt_init isr idt_addr s =
     andthen (kernel_assert (\<not> idt_inited s) ''Already initialized IDT'') (\<lambda>_.
     let t0 = map (\<lambda>i. fill_interrupt (isr ''ERR'')) [0..<256];
         t1 = fold (\<lambda>(i, name) t. t[i := fill_interrupt (isr name)]) isr_table t0;
         t2 = t1[0x80 := fill_entry (isr ''SYS'') (segselector_init SegmentKernelCode TableIndex_GDT SegmentPrivilege_Ring0)
                InterruptType_32bit_Interrupt InterruptPrivilege_Ring3 True];
         s1 = s\<lparr>idt_inited := True, idt := t2, idtr := (256 * 8 - 1, idt_addr)\<rparr>;
         hw = unsafe_printf ''Initialized IDT\<newline>'' [] (pic_remap PIC1_OFFSET PIC2_OFFSET (machine.truncate s1))
     in Inr (s1\<lparr>io_trace := io_trace hw\<rparr>))"

section \<open>Masks\<close>

text \<open>
  A controller's data port reads back the mask last written to it. This is how the 8259 answers once it
  is initialised.
\<close>

definition reads_back_masks :: "device \<Rightarrow> bool" where
  "reads_back_masks dev \<longleftrightarrow> (\<forall>tr. dev tr PIC1_DATA = last_out tr PIC1_DATA \<and> dev tr PIC2_DATA = last_out tr PIC2_DATA)"

definition masked :: "machine \<Rightarrow> u8 \<Rightarrow> bool" where
  "masked s irqline \<longleftrightarrow> bit (last_out (io_trace s) (irq_port irqline)) (unat (irqline AND 7))"

lemma irq_port_cases: "irq_port i = PIC1_DATA \<or> irq_port i = PIC2_DATA"
  by (simp add: irq_port_def)

lemma restore_trace [simp]: "io_trace (interrupt_restore b s) = io_trace s"
  by (simp add: interrupt_restore_def)

lemma mask_read: "reads_back_masks dev \<Longrightarrow> dev tr (irq_port i) = last_out tr (irq_port i)"
  using irq_port_cases [of i] by (auto simp: reads_back_masks_def)

lemma irq_set_mask_trace:
  assumes "reads_back_masks dev"
  shows "last_out (io_trace (irq_set_mask dev i s)) p =
     (if p = irq_port i then last_out (io_trace s) p OR push_bit (unat (i AND 7)) 1 else last_out (io_trace s) p)"
  using mask_read [OF assms]
  by (simp add: irq_set_mask_def interrupt_disable_def Let_def case_prod_unfold last_out_def)

lemma irq_clear_mask_trace:
  assumes "reads_back_masks dev"
  shows "last_out (io_trace (irq_clear_mask dev i s)) p =
     (if p = irq_port i then last_out (io_trace s) p AND NOT (push_bit (unat (i AND 7)) 1) else last_out (io_trace s) p)"
  using mask_read [OF assms]
  by (simp add: irq_clear_mask_def interrupt_disable_def Let_def case_prod_unfold last_out_def)

lemma irq_mask_eflags:
  "eflags (irq_set_mask dev i s) = eflags s" "eflags (irq_clear_mask dev i s) = eflags s"
  using restore_after_cli [of _ s]
  by (simp_all add: irq_set_mask_def irq_clear_mask_def interrupt_disable_def Let_def case_prod_unfold)


lemma same_line:
  assumes "irqline < 16" "j < 16"
  shows "irq_port irqline = irq_port j \<and> unat (irqline AND 7) = unat (j AND 7) \<longleftrightarrow> irqline = (j :: u8)"
proof -
  have "list_all (\<lambda>a. list_all (\<lambda>b. irq_port a = irq_port b \<and> unat (a AND 7) = unat (b AND 7) \<longrightarrow> a = b)
      (map of_nat [0..<16])) (map of_nat [0..<16])"
    by code_simp
  moreover have "x \<in> set (map of_nat [0..<16])" if "x < 16" for x :: u8
  proof -
    have "x = of_nat (unat x)" "unat x < 16" using that by (simp_all add: word_less_nat_alt)
    then show ?thesis by (metis atLeastLessThan_iff image_eqI set_map set_upt zero_le)
  qed
  ultimately show ?thesis using assms unfolding list_all_iff by blast
qed

lemma bit_of_line: "unat (i AND 7 :: u8) < 8"
proof -
  have "i AND 7 \<le> (7 :: u8)" by (rule word_and_le1)
  then show ?thesis by (simp add: word_le_nat_alt)
qed

lemma irq_set_mask_exact:
  assumes "reads_back_masks dev" "irqline < 16" "j < 16"
  shows "masked (irq_set_mask dev irqline s) j = (j = irqline \<or> masked s j)"
proof -
  have "irq_port j = irq_port irqline \<Longrightarrow> unat (j AND 7) = unat (irqline AND 7) \<longleftrightarrow> j = irqline"
    using same_line [OF assms(3,2)] by auto
  then show ?thesis
    using assms(1) bit_of_line [of j] bit_of_line [of irqline]
    by (auto simp: masked_def irq_set_mask_trace bit_simps)
qed

lemma irq_clear_mask_exact:
  assumes "reads_back_masks dev" "irqline < 16" "j < 16"
  shows "masked (irq_clear_mask dev irqline s) j = (j \<noteq> irqline \<and> masked s j)"
proof -
  have "irq_port j = irq_port irqline \<Longrightarrow> unat (j AND 7) = unat (irqline AND 7) \<longleftrightarrow> j = irqline"
    using same_line [OF assms(3,2)] by auto
  then show ?thesis
    using assms(1) bit_of_line [of j] bit_of_line [of irqline]
    by (auto simp: masked_def irq_clear_mask_trace bit_simps)
qed

text \<open>Masking an interrupt line makes exactly that line masked: no other line of either controller
  changes, and the interrupt flag of the processor is as before. Unmasking it is the reverse.\<close>

theorem irq_masks_exact:
  assumes "reads_back_masks dev" "irqline < 16" "j < 16"
  shows "masked (irq_set_mask dev irqline s) j = (j = irqline \<or> masked s j) \<and>
     masked (irq_clear_mask dev irqline s) j = (j \<noteq> irqline \<and> masked s j) \<and>
     eflags (irq_set_mask dev irqline s) = eflags s \<and> eflags (irq_clear_mask dev irqline s) = eflags s"
  by (simp add: irq_set_mask_exact [OF assms] irq_clear_mask_exact [OF assms] irq_mask_eflags)

theorem irq_masks_exact_witness:
  "masked (irq_set_mask last_out 12 \<lparr>io_trace = [], eflags = 0x202\<rparr>) 12 \<and>
   \<not> masked (irq_clear_mask last_out 12 \<lparr>io_trace = [OutB PIC2_DATA 0xFF], eflags = 0x202\<rparr>) 12"
  using irq_masks_exact [of last_out 12 12] by (simp add: reads_back_masks_def)

section \<open>End of interrupt\<close>

abbreviation frame_for :: "u32 \<Rightarrow> InterruptFrame" where
  "frame_for n \<equiv> \<lparr>frame_edi = 0, frame_esi = 0, frame_ebp = 0, frame_esp = 0, frame_ebx = 0, frame_edx = 0, frame_ecx = 0, frame_eax = 0,
     intno = n, errcode = 0, frame_eip = 0, frame_cs = 8, frame_eflags = 2, frame_oldesp = 0, frame_oldss = 0\<rparr>"

text \<open>The handler of a hardware interrupt that the controllers report as in service acknowledges it:
  lines of the slave controller at both controllers, those of the master at the master only.
  Here the vector is one of
  IRQ 1 to 15 that cannot be spurious.\<close>

theorem interrupt_handler_acknowledges:
  assumes "0x21 \<le> intno frame" "intno frame \<le> 0x2F" "intno frame \<noteq> 0x27" "intno frame \<noteq> 0x2F"
  shows "\<exists>s' t. interrupt_handler dev frame s = Inr s' \<and> eflags s' = eflags s \<and>
     io_trace s' = io_trace s @ map (OutB 0x3F8) t @
       (if 0x28 \<le> intno frame then [OutB PIC2_COMMAND OCW2_EOI] else []) @ [OutB PIC1_COMMAND OCW2_EOI]"
proof -
  let ?irq = "ucast (intno frame - 0x20) :: u8"
  have r: "0x21 \<le> unat (intno frame)" "unat (intno frame) \<le> 0x2F" using assms by (simp_all add: word_le_nat_alt)
  have "unat (intno frame - 0x20) = unat (intno frame) - 0x20" using r by (subst unat_sub) (simp_all add: word_le_nat_alt)
  moreover have "unat ?irq = unat (intno frame - 0x20) mod 256" by (simp add: unsigned_ucast_eq take_bit_eq_mod)
  ultimately have u: "unat ?irq = unat (intno frame) - 0x20" using r by simp
  have n: "?irq \<noteq> 0" "?irq \<noteq> 7" "?irq \<noteq> 15"
    using u r assms(3,4) by (auto simp: word_unat_eq_iff)
  have ge: "8 \<le> ?irq \<longleftrightarrow> 0x28 \<le> intno frame" using u r by (simp add: word_le_nat_alt) arith
  obtain t where t: "io_trace (unsafe_printf ''Interrupt %x (err: %x)\<newline>'' [Val (intno frame), Val (errcode frame)] s) =
      io_trace s @ map (OutB 0x3F8) t"
    using unsafe_printf_frame(2) by blast
  have "interrupt_handler dev frame s =
      Inr (pic_eoi ?irq (unsafe_printf ''Interrupt %x (err: %x)\<newline>'' [Val (intno frame), Val (errcode frame)] s))"
  proof -
    have "intno frame \<noteq> 0xFF" "0x20 \<le> intno frame" using r by (auto simp: word_unat_eq_iff word_le_nat_alt)
    then show ?thesis
      using n assms(2) by (simp add: interrupt_handler_def irq_handler_def pic_check_spurious_def Let_def)
  qed
  then show ?thesis
    using ge t unsafe_printf_frame(1) by (auto simp: pic_eoi_def Let_def)
qed

theorem interrupt_handler_acknowledges_witness:
  "\<exists>s' t. interrupt_handler (\<lambda>_ _. 0) (frame_for 0x2C) \<lparr>io_trace = [], eflags = 2\<rparr> = Inr s' \<and>
     io_trace s' = map (OutB 0x3F8) t @ [OutB PIC2_COMMAND OCW2_EOI, OutB PIC1_COMMAND OCW2_EOI]"
  using interrupt_handler_acknowledges [of "frame_for 0x2C" "\<lambda>_ _. 0" "\<lparr>io_trace = [], eflags = 2\<rparr>"]
  by auto

text \<open>Every vector that is not a hardware interrupt line stops the kernel, and so does the timer's
  line, which has a handler of its own.\<close>

theorem interrupt_handler_panics:
  assumes "intno frame \<le> 0x20 \<or> 0x2F < intno frame"
  shows "\<exists>msg. interrupt_handler dev frame s = Inl (Panic msg)"
proof (cases "intno frame = 0x20")
  case True
  then show ?thesis by (simp add: interrupt_handler_def irq_handler_def Let_def kernel_panic_def)
next
  case False
  then have "\<not> (0x20 \<le> intno frame \<and> intno frame \<le> 0x2F)" using assms by auto
  then show ?thesis by (auto simp: interrupt_handler_def Let_def kernel_panic_def)
qed

theorem interrupt_handler_panics_witness:
  "\<exists>msg. interrupt_handler (\<lambda>_ _. 0) (frame_for 0x80) \<lparr>io_trace = [], eflags = 2\<rparr> = Inl (Panic msg)"
  by (rule interrupt_handler_panics) simp


section \<open>Spurious interrupts\<close>

text \<open>C35. The check for spurious interrupts looks at the wrong controller: the in-service bits of the
  master are put into the upper byte, so IRQ 7 is judged by bit 7 of the slave and IRQ 15 by bit 7
  of the master. A genuine IRQ 7 is taken for spurious whenever the slave's bit is clear.\<close>

theorem spurious_check_swapped:
  assumes "\<forall>tr. dev tr PIC1_COMMAND = master \<and> dev tr PIC2_COMMAND = slave"
  shows "fst (pic_check_spurious dev 7 s) = (\<not> bit slave 7) \<and> fst (pic_check_spurious dev 15 s) = (\<not> bit master 7)"
proof -
  let ?isr = "push_bit 8 (ucast master) OR ucast slave :: u16"
  have r: "fst (pic_read_isr dev s) = ?isr" for s
    using assms by (simp add: pic_read_isr_def pic_read_def Let_def case_prod_unfold)
  have "\<not> bit slave 15" using bit_imp_le_length [of slave 15] by auto
  then have "bit ?isr 7 = bit slave 7" "bit ?isr 15 = bit master 7" by (simp_all add: bit_simps)
  moreover have "?isr AND 128 = 0 \<longleftrightarrow> \<not> bit ?isr 7" "?isr AND 32768 = 0 \<longleftrightarrow> \<not> bit ?isr 15"
    by (simp_all add: bit_iff_and_push_bit_not_eq_0)
  ultimately show ?thesis
    using r by (simp add: pic_check_spurious_def case_prod_unfold)
qed

theorem spurious_check_swapped_witness:
  "fst (pic_check_spurious (\<lambda>tr p. if p = PIC1_COMMAND then 0x80 else 0) 7 \<lparr>io_trace = [], eflags = 2\<rparr>)"
  using spurious_check_swapped [of "\<lambda>tr p. if p = PIC1_COMMAND then 0x80 else 0" "0x80" 0 "\<lparr>io_trace = [], eflags = 2\<rparr>"]
  by simp

section \<open>Gates\<close>

definition gate_offset :: "GateDescriptor \<Rightarrow> u32" where
  "gate_offset g = (case g of (d0, d1) \<Rightarrow> take_bit 16 d0 OR push_bit 16 (drop_bit 16 d1))"

definition gate_selector :: "GateDescriptor \<Rightarrow> u16" where
  "gate_selector g = (case g of (d0, d1) \<Rightarrow> ucast (drop_bit 16 d0))"

definition gate_type :: "GateDescriptor \<Rightarrow> u32" where
  "gate_type g = (case g of (d0, d1) \<Rightarrow> take_bit 4 (drop_bit 8 d1))"

definition gate_dpl :: "GateDescriptor \<Rightarrow> u32" where
  "gate_dpl g = (case g of (d0, d1) \<Rightarrow> take_bit 2 (drop_bit 13 d1))"

definition gate_present :: "GateDescriptor \<Rightarrow> bool" where
  "gate_present g = (case g of (d0, d1) \<Rightarrow> bit d1 15)"

lemma gate_masks: "(0xFFFF :: u32) = mask 16" "(0xFFFF0000 :: u32) = push_bit 16 (mask 16)"
  "(15 :: u32) = mask 4" "(3 :: u32) = mask 2"
  by code_simp+

lemma bit_gate0:
  "bit (fst (fill_entry off sel ty pl pr)) n \<longleftrightarrow> (if n < 16 then bit off n else n < 32 \<and> bit sel (n - 16))"
  unfolding fill_entry_def gate_masks fst_conv
  by (cases "n < 16"; cases "n < 32"; simp add: bit_simps; linarith?)

lemma bit_gate1:
  "bit (snd (fill_entry off sel ty pl pr)) n \<longleftrightarrow>
     (if n < 8 then False else if n < 12 then bit (inttype_code ty) (n - 8) else if n < 13 then False
      else if n < 15 then bit (intpriv_code pl) (n - 13) else if n = 15 then pr else n < 32 \<and> bit off n)"
proof -
  consider "n < 8" | "8 \<le> n" "n < 12" | "n = 12" | "13 \<le> n" "n < 15" | "n = 15" | "16 \<le> n" "n < 32" | "32 \<le> n"
    by linarith
  then show ?thesis
    unfolding fill_entry_def gate_masks snd_conv
    by cases (auto simp: bit_simps less_diff_conv2)
qed

lemma code_bounds: "bit (inttype_code ty) n \<Longrightarrow> n < 4" "bit (intpriv_code pl) n \<Longrightarrow> n < 2"
proof -
  have "take_bit 4 (inttype_code ty) = inttype_code ty" "take_bit 2 (intpriv_code pl) = intpriv_code pl"
    by (cases ty; simp) (cases pl; simp)
  then show "bit (inttype_code ty) n \<Longrightarrow> n < 4" "bit (intpriv_code pl) n \<Longrightarrow> n < 2"
    by (metis bit_take_bit_iff)+
qed

lemma gate_fields:
  "gate_offset (fill_entry off sel ty pl pr) = off" "gate_selector (fill_entry off sel ty pl pr) = sel"
  "gate_type (fill_entry off sel ty pl pr) = inttype_code ty" "gate_dpl (fill_entry off sel ty pl pr) = intpriv_code pl"
  "gate_present (fill_entry off sel ty pl pr) = pr"
  by (rule bit_word_eqI; auto simp: gate_offset_def gate_selector_def gate_type_def gate_dpl_def case_prod_unfold
      bit_simps bit_gate0 bit_gate1 dest: code_bounds)+
   (simp add: gate_present_def case_prod_unfold bit_gate1)

text \<open>A gate read back the way the processor does has the handler address, the selector, the type,
  the privilege level and the present bit it was filled with.\<close>

theorem fill_entry_decodes:
  "gate_offset (fill_entry off sel ty pl pr) = off \<and> gate_selector (fill_entry off sel ty pl pr) = sel \<and>
   gate_type (fill_entry off sel ty pl pr) = inttype_code ty \<and> gate_dpl (fill_entry off sel ty pl pr) = intpriv_code pl \<and>
   gate_present (fill_entry off sel ty pl pr) = pr"
  by (simp add: gate_fields)

section \<open>A programmed controller\<close>

text \<open>
  How an 8259 takes what is written to it: a command with the initialisation bit starts the sequence, in which the
  data port expects the vector offset, the cascade word unless bit 1 of the command says that the controller
  is alone, and a mode word if bit 0 announces one. Outside the sequence the data port takes the mask.
\<close>

datatype icw = ICW2 | ICW3 | ICW4

record controller =
  expected :: "icw list"
  vector_offset :: u8
  cascade :: u8
  mode_word :: u8
  line_mask :: u8

definition pic_command :: "u8 \<Rightarrow> controller \<Rightarrow> controller" where
  "pic_command v c =
     (if bit v 4
      then c\<lparr>expected := ICW2 # (if bit v 1 then [] else [ICW3]) @ (if bit v 0 then [ICW4] else []), mode_word := 0, line_mask := 0\<rparr>
      else c)"

definition pic_data :: "u8 \<Rightarrow> controller \<Rightarrow> controller" where
  "pic_data v c = (case expected c of
     [] \<Rightarrow> c\<lparr>line_mask := v\<rparr>
   | ICW2 # ws \<Rightarrow> c\<lparr>expected := ws, vector_offset := v AND NOT 7\<rparr>
   | ICW3 # ws \<Rightarrow> c\<lparr>expected := ws, cascade := v\<rparr>
   | ICW4 # ws \<Rightarrow> c\<lparr>expected := ws, mode_word := v\<rparr>)"

definition pic_event :: "u16 \<Rightarrow> u16 \<Rightarrow> io_event \<Rightarrow> controller \<Rightarrow> controller" where
  "pic_event command data e c = (case e of
     OutB p v \<Rightarrow> if p = command then pic_command v c else if p = data then pic_data v c else c
   | _ \<Rightarrow> c)"

text \<open>The state of the controller behind two ports after a trace, from any state before.\<close>

definition pic_after :: "u16 \<Rightarrow> u16 \<Rightarrow> controller \<Rightarrow> io_event list \<Rightarrow> controller" where
  "pic_after command data c tr = fold (pic_event command data) tr c"

lemma pic_after_append: "pic_after cmd data c (tr @ tr') = pic_after cmd data (pic_after cmd data c tr) tr'"
  by (simp add: pic_after_def)

lemma pic_after_serial: "pic_after cmd data c (map (OutB p) t) = c" if "p \<noteq> cmd" "p \<noteq> data"
  using that by (induction t arbitrary: c) (simp_all add: pic_after_def pic_event_def)

lemma remap_controllers:
  "pic_after PIC1_COMMAND PIC1_DATA c (io_trace (pic_remap o1 o2 s)) =
     \<lparr>expected = [], vector_offset = o1 AND NOT 7, cascade = 4, mode_word = ICW4_8086, line_mask = 0xFE\<rparr>"
  "pic_after PIC2_COMMAND PIC2_DATA c (io_trace (pic_remap o1 o2 s)) =
     \<lparr>expected = [], vector_offset = o2 AND NOT 7, cascade = IRQ_CASCADE, mode_word = ICW4_8086, line_mask = 0xFF\<rparr>"
  by (simp_all add: pic_remap_def Let_def io_wait_def pic_after_append)
     (simp_all add: pic_after_def pic_event_def pic_command_def pic_data_def)

section \<open>The whole table\<close>

definition vector_name :: "nat \<Rightarrow> string" where
  "vector_name i = (if i = 0x80 then ''SYS'' else case map_of isr_table i of Some n \<Rightarrow> n | None \<Rightarrow> ''ERR'')"

lemma fold_update_nth:
  "distinct (map fst ps) \<Longrightarrow> i < length t \<Longrightarrow>
     fold (\<lambda>(i, name) t. t[i := f name]) ps t ! i = (case map_of ps i of Some n \<Rightarrow> f n | None \<Rightarrow> t ! i) \<and>
     length (fold (\<lambda>(i, name) t. t[i := f name]) ps t) = length t"
proof (induction ps arbitrary: t)
  case (Cons p ps)
  obtain j n where p: "p = (j, n)" by (cases p)
  have "map_of ps j = None" using Cons.prems p by (simp add: map_of_eq_None_iff)
  then show ?case using Cons.IH [of "t[j := f n]"] Cons.prems p by (auto simp: nth_list_update split: option.splits)
qed simp

lemma remap_masks:
  "last_out (io_trace (pic_remap o1 o2 s)) PIC1_DATA = 0xFE" "last_out (io_trace (pic_remap o1 o2 s)) PIC2_DATA = 0xFF"
  by (simp_all add: pic_remap_def Let_def last_out_def)

lemma idt_init_ok:
  assumes "\<not> idt_inited s"
  shows "\<exists>s'. idt_init isr addr s = Inr s' \<and> length (idt s') = 256 \<and> idtr s' = (2047, addr) \<and>
     (\<forall>i < 256. gate_present (idt s' ! i) \<and> gate_type (idt s' ! i) = 14 \<and> gate_selector (idt s' ! i) = 8 \<and>
        gate_offset (idt s' ! i) = isr (vector_name i) \<and> gate_dpl (idt s' ! i) = (if i = 0x80 then 3 else 0)) \<and>
     last_out (io_trace s') PIC1_DATA = 0xFE \<and> last_out (io_trace s') PIC2_DATA = 0xFF \<and>
     (\<forall>c. pic_after PIC1_COMMAND PIC1_DATA c (io_trace s') =
        \<lparr>expected = [], vector_offset = 0x20, cascade = 4, mode_word = 1, line_mask = 0xFE\<rparr>) \<and>
     (\<forall>c. pic_after PIC2_COMMAND PIC2_DATA c (io_trace s') =
        \<lparr>expected = [], vector_offset = 0x28, cascade = 2, mode_word = 1, line_mask = 0xFF\<rparr>)"
proof -
  let ?t0 = "map (\<lambda>i. fill_interrupt (isr ''ERR'')) [0..<256]"
  let ?t1 = "fold (\<lambda>(i, name) t. t[i := fill_interrupt (isr name)]) isr_table ?t0"
  let ?sys = "fill_entry (isr ''SYS'') (segselector_init SegmentKernelCode TableIndex_GDT SegmentPrivilege_Ring0)
                InterruptType_32bit_Interrupt InterruptPrivilege_Ring3 True"
  have d: "distinct (map fst isr_table)" by code_simp
  have len: "length ?t1 = 256" using fold_update_nth [OF d, of 0 ?t0 "\<lambda>n. fill_interrupt (isr n)"] by simp
  have t1: "?t1 ! i = (case map_of isr_table i of Some n \<Rightarrow> fill_interrupt (isr n) | None \<Rightarrow> fill_interrupt (isr ''ERR''))" if "i < 256" for i
    using fold_update_nth [OF d, of i ?t0 "\<lambda>n. fill_interrupt (isr n)"] that by (simp split: option.splits)
  have sel: "segselector_init SegmentKernelCode TableIndex_GDT SegmentPrivilege_Ring0 = 8" by code_simp
  have gate: "gate_present (?t1[0x80 := ?sys] ! i) \<and> gate_type (?t1[0x80 := ?sys] ! i) = 14 \<and>
      gate_selector (?t1[0x80 := ?sys] ! i) = 8 \<and> gate_offset (?t1[0x80 := ?sys] ! i) = isr (vector_name i) \<and>
      gate_dpl (?t1[0x80 := ?sys] ! i) = (if i = 0x80 then 3 else 0)" if "i < 256" for i
    using that t1 [OF that] len sel
    by (auto simp: vector_name_def fill_interrupt_def gate_fields nth_list_update split: option.splits)
  let ?s1 = "s\<lparr>idt_inited := True, idt := ?t1[0x80 := ?sys], idtr := (256 * 8 - 1, addr)\<rparr>"
  let ?hw = "unsafe_printf ''Initialized IDT\<newline>'' [] (pic_remap PIC1_OFFSET PIC2_OFFSET (machine.truncate ?s1))"
  obtain t where "io_trace ?hw = io_trace (pic_remap PIC1_OFFSET PIC2_OFFSET (machine.truncate ?s1)) @ map (OutB 0x3F8) t"
    using unsafe_printf_frame(2) by blast
  moreover have "last_out (tr @ map (OutB 0x3F8) t) p = last_out tr p" if "p \<noteq> 0x3F8" for tr p
    using that by (induction t rule: rev_induct) (auto simp: last_out_def)
  moreover have "pic_after PIC1_COMMAND PIC1_DATA c (map (OutB 0x3F8) t) = c" "pic_after PIC2_COMMAND PIC2_DATA c (map (OutB 0x3F8) t) = c" for c
    by (simp_all add: pic_after_serial)
  ultimately have "last_out (io_trace ?hw) PIC1_DATA = 0xFE" "last_out (io_trace ?hw) PIC2_DATA = 0xFF"
    "pic_after PIC1_COMMAND PIC1_DATA c (io_trace ?hw) =
       \<lparr>expected = [], vector_offset = 0x20, cascade = 4, mode_word = 1, line_mask = 0xFE\<rparr>"
    "pic_after PIC2_COMMAND PIC2_DATA c (io_trace ?hw) =
       \<lparr>expected = [], vector_offset = 0x28, cascade = 2, mode_word = 1, line_mask = 0xFF\<rparr>" for c
    using remap_masks [of PIC1_OFFSET PIC2_OFFSET "machine.truncate ?s1"]
    by (simp_all only: pic_after_append remap_controllers) simp_all
  moreover have "idt_init isr addr s = Inr (?s1\<lparr>io_trace := io_trace ?hw\<rparr>)"
    using assms by (simp add: idt_init_def Let_def)
  ultimately show ?thesis using gate len by simp
qed

text \<open>C34. \<^verbatim>\<open>idt_init\<close> runs once and leaves no vector undefined: each of the 256 gates is present, a 32-bit
  interrupt gate into the kernel code segment that leads to the handler of its vector, callable from
  ring 0 only, except the system call gate, which ring 3 may use. Whatever state the two interrupt controllers were in,
  they end up initialised: the master raises its lines at the vectors from \<^verbatim>\<open>0x20\<close>, the slave from \<^verbatim>\<open>0x28\<close>, where the
  gates of the hardware interrupts are, the slave is known to hang on line 2, both are in 8086 mode, and only the
  timer line is unmasked.\<close>

theorem idt_init_complete:
  assumes "\<not> idt_inited s"
  shows "\<exists>s'. idt_init isr addr s = Inr s' \<and> length (idt s') = 256 \<and> idtr s' = (2047, addr) \<and>
     (\<forall>i < 256. gate_present (idt s' ! i) \<and> gate_type (idt s' ! i) = 14 \<and> gate_selector (idt s' ! i) = 8 \<and>
        gate_offset (idt s' ! i) = isr (vector_name i) \<and> gate_dpl (idt s' ! i) = (if i = 0x80 then 3 else 0)) \<and>
     last_out (io_trace s') PIC1_DATA = 0xFE \<and> last_out (io_trace s') PIC2_DATA = 0xFF \<and>
     (\<forall>c. pic_after PIC1_COMMAND PIC1_DATA c (io_trace s') =
        \<lparr>expected = [], vector_offset = 0x20, cascade = 4, mode_word = 1, line_mask = 0xFE\<rparr>) \<and>
     (\<forall>c. pic_after PIC2_COMMAND PIC2_DATA c (io_trace s') =
        \<lparr>expected = [], vector_offset = 0x28, cascade = 2, mode_word = 1, line_mask = 0xFF\<rparr>)"
  by (rule idt_init_ok [OF assms])

theorem idt_init_complete_witness:
  "\<exists>s'. idt_init (\<lambda>_. 0x1234) 0x5000 \<lparr>io_trace = [], eflags = 2, idt = [], idt_inited = False, idtr = (0, 0)\<rparr> = Inr s' \<and>
     gate_offset (idt s' ! 14) = 0x1234 \<and> (\<forall>c. vector_offset (pic_after PIC2_COMMAND PIC2_DATA c (io_trace s')) = 0x28)"
  using idt_init_complete [of "\<lparr>io_trace = [], eflags = 2, idt = [], idt_inited = False, idtr = (0, 0)\<rparr>" "\<lambda>_. 0x1234" "0x5000"]
  by fastforce

text \<open>After the remapping the cascade line of the master is masked, while the comment in the code says
  that it is the one unmasked.\<close>

lemma cascade_stays_masked:
  "bit (last_out (io_trace (pic_remap o1 o2 s)) PIC1_DATA) 2 \<and> \<not> bit (last_out (io_trace (pic_remap o1 o2 s)) PIC1_DATA) 0"
  by (simp add: remap_masks)

end
