(* ===== verification/Timer.thy ===== *)
theory Timer
  imports Interrupt
begin

text \<open>
  The interval timer driver, \<^verbatim>\<open>src/io/timer.c\<close> and \<^verbatim>\<open>io/timer.h\<close>: command words, programming the reload
  value of channel 0 low byte first, reading the count back, and the conversions between ticks and
  milliseconds in 32-bit arithmetic.
\<close>

section \<open>Operations\<close>

datatype Command = Command_Channel0 | Command_Channel1 | Command_Channel2 | Command_ReadBack
datatype AccessMode = AccessMode_LatchCount | AccessMode_LoByte | AccessMode_HiByte | AccessMode_BothBytes
datatype OperatingMode = OperatingMode_Mode0 | OperatingMode_Mode1 | OperatingMode_Mode2 | OperatingMode_Mode3
  | OperatingMode_Mode4 | OperatingMode_Mode5 | OperatingMode_Mode6 | OperatingMode_Mode7
datatype EncodingMode = EncodingMode_Binary | EncodingMode_BCD

primrec command_code :: "Command \<Rightarrow> u8" where
  "command_code Command_Channel0 = 0" | "command_code Command_Channel1 = 1"
| "command_code Command_Channel2 = 2" | "command_code Command_ReadBack = 3"

primrec access_code :: "AccessMode \<Rightarrow> u8" where
  "access_code AccessMode_LatchCount = 0" | "access_code AccessMode_LoByte = 1"
| "access_code AccessMode_HiByte = 2" | "access_code AccessMode_BothBytes = 3"

primrec mode_code :: "OperatingMode \<Rightarrow> u8" where
  "mode_code OperatingMode_Mode0 = 0" | "mode_code OperatingMode_Mode1 = 1" | "mode_code OperatingMode_Mode2 = 2"
| "mode_code OperatingMode_Mode3 = 3" | "mode_code OperatingMode_Mode4 = 4" | "mode_code OperatingMode_Mode5 = 5"
| "mode_code OperatingMode_Mode6 = 6" | "mode_code OperatingMode_Mode7 = 7"

primrec encoding_code :: "EncodingMode \<Rightarrow> u8" where
  "encoding_code EncodingMode_Binary = 0" | "encoding_code EncodingMode_BCD = 1"

abbreviation CHANNEL0_DATA_PORT :: u16 where "CHANNEL0_DATA_PORT \<equiv> 0x40"
abbreviation COMMAND_PORT :: u16 where "COMMAND_PORT \<equiv> 0x43"
abbreviation TIMER_FREQ_HZ :: u32 where "TIMER_FREQ_HZ \<equiv> 1000"
abbreviation PIT_CLOCK_HZ :: u32 where "PIT_CLOCK_HZ \<equiv> 1193182"

definition command_init :: "Command \<Rightarrow> AccessMode \<Rightarrow> OperatingMode \<Rightarrow> EncodingMode \<Rightarrow> u8" where
  "command_init channel acc mode encoding =
     push_bit 6 (command_code channel) OR push_bit 4 (access_code acc) OR push_bit 1 (mode_code mode) OR encoding_code encoding"

text \<open>The command and the two writes to the data port that load a reload value.\<close>

definition load_reload :: "u16 \<Rightarrow> machine \<Rightarrow> machine" where
  "load_reload v s =
     (let s1 = io_outb COMMAND_PORT (command_init Command_Channel0 AccessMode_BothBytes OperatingMode_Mode3 EncodingMode_Binary) s;
          s2 = io_outb CHANNEL0_DATA_PORT (ucast (v AND 0xFF)) s1
      in io_outb CHANNEL0_DATA_PORT (ucast (drop_bit 8 v AND 0xFF)) s2)"

definition timer_init :: "device \<Rightarrow> machine \<Rightarrow> machine" where
  "timer_init dev s =
     (case interrupt_disable s of (interrupt, s1) \<Rightarrow>
        let divisor = ucast (PIT_CLOCK_HZ div TIMER_FREQ_HZ) :: u16;
            s2 = load_reload divisor s1;
            s3 = irq_clear_mask dev 0 s2;
            s4 = unsafe_printf ''Initialized timer\<newline>'' [] s3
        in interrupt_restore interrupt s4)"

definition timer_read_count :: "device \<Rightarrow> machine \<Rightarrow> u32 \<times> machine" where
  "timer_read_count dev s =
     (case interrupt_disable s of (interrupt, s1) \<Rightarrow>
        let s2 = io_outb COMMAND_PORT (command_init Command_Channel0 AccessMode_LatchCount OperatingMode_Mode0 EncodingMode_Binary) s1 in
        case io_inb dev CHANNEL0_DATA_PORT s2 of (lo, s3) \<Rightarrow>
        case io_inb dev CHANNEL0_DATA_PORT s3 of (hi, s4) \<Rightarrow>
          (ucast lo OR push_bit 8 (ucast hi), interrupt_restore interrupt s4))"

definition timer_set_reload :: "u16 \<Rightarrow> machine \<Rightarrow> machine" where
  "timer_set_reload reload_value s =
     (case interrupt_disable s of (interrupt, s1) \<Rightarrow> interrupt_restore interrupt (load_reload reload_value s1))"

definition timer_ticks_to_ms :: "u32 \<Rightarrow> u32" where
  "timer_ticks_to_ms ticks = (ticks * 1000) div TIMER_FREQ_HZ"

definition timer_ms_to_ticks :: "u32 \<Rightarrow> u32" where
  "timer_ms_to_ticks ms = (ms * TIMER_FREQ_HZ) div 1000"

section \<open>Programming the timer\<close>

lemma command_fields:
  "drop_bit 6 (command_init c a m e) = command_code c" "take_bit 2 (drop_bit 4 (command_init c a m e)) = access_code a"
  "take_bit 3 (drop_bit 1 (command_init c a m e)) = mode_code m" "take_bit 1 (command_init c a m e) = encoding_code e"
  by (cases c; cases a; cases m; cases e; simp add: command_init_def)+

lemma byte_parts: "(ucast (v AND 0xFF) :: u8) = ucast v" "(ucast (drop_bit 8 v AND 0xFF) :: u8) = ucast (drop_bit 8 (v :: u16))"
proof -
  have "(0xFF :: u16) = mask 8" by code_simp
  moreover have "(ucast (w AND mask 8) :: u8) = ucast w" for w :: u16
    by (rule bit_word_eqI) (auto simp: bit_simps)
  ultimately show "(ucast (v AND 0xFF) :: u8) = ucast v" "(ucast (drop_bit 8 v AND 0xFF) :: u8) = ucast (drop_bit 8 v)"
    by (simp_all only:)
qed

lemma byte_join: "(ucast (ucast v :: u8) OR push_bit 8 (ucast (ucast (drop_bit 8 v) :: u8)) :: u16) = v"
proof (rule bit_word_eqI)
  fix n assume n: "n < LENGTH(16)"
  show "bit (ucast (ucast v :: u8) OR push_bit 8 (ucast (ucast (drop_bit 8 v) :: u8)) :: u16) n = bit v n"
    using n by (cases "n < 8") (auto simp: bit_simps)
qed

lemma load_reload_trace:
  "io_trace (load_reload v s) = io_trace s @ [OutB COMMAND_PORT 0x36, OutB CHANNEL0_DATA_PORT (ucast v), OutB CHANNEL0_DATA_PORT (ucast (drop_bit 8 v))]"
  "eflags (load_reload v s) = eflags s"
proof -
  have "command_init Command_Channel0 AccessMode_BothBytes OperatingMode_Mode3 EncodingMode_Binary = 0x36" by code_simp
  then show "io_trace (load_reload v s) = io_trace s @ [OutB COMMAND_PORT 0x36, OutB CHANNEL0_DATA_PORT (ucast v), OutB CHANNEL0_DATA_PORT (ucast (drop_bit 8 v))]"
    by (simp add: load_reload_def Let_def byte_parts)
qed (simp add: load_reload_def Let_def)

text \<open>\<^verbatim>\<open>timer_set_reload\<close> sends the mode command and then the two bytes of the value, low byte first,
  from which the timer puts the value together again; the interrupt flag is as before.\<close>

theorem timer_set_reload_programs:
  "\<exists>lo hi. io_trace (timer_set_reload v s) =
     io_trace s @ [OutB COMMAND_PORT 0x36, OutB CHANNEL0_DATA_PORT lo, OutB CHANNEL0_DATA_PORT hi] \<and>
     (ucast lo OR push_bit 8 (ucast hi) :: u16) = v \<and> eflags (timer_set_reload v s) = eflags s"
  using byte_join [of v] restore_after_cli [of "load_reload v (cli s)" s]
  by (auto simp: timer_set_reload_def interrupt_disable_def load_reload_trace)

text \<open>\<^verbatim>\<open>timer_init\<close> loads the divisor 1193, which gives one thousand interrupts per second, unmasks the
  timer's line without touching the others, and leaves the interrupt flag as it was.\<close>

theorem timer_init_starts:
  assumes "reads_back_masks dev" "j < 16"
  shows "masked (timer_init dev s) j = (j \<noteq> 0 \<and> masked s j) \<and> eflags (timer_init dev s) = eflags s \<and>
     1193182 div 1193 = (1000 :: nat) \<and>
     take 3 (drop (length (io_trace s)) (io_trace (timer_init dev s))) =
       [OutB COMMAND_PORT 0x36, OutB CHANNEL0_DATA_PORT (ucast (1193 :: u16)), OutB CHANNEL0_DATA_PORT (ucast (drop_bit 8 (1193 :: u16)))]"
proof -
  let ?s2 = "load_reload 1193 (cli s)"
  let ?s3 = "irq_clear_mask dev 0 ?s2"
  obtain t where t: "io_trace (unsafe_printf ''Initialized timer\<newline>'' [] ?s3) = io_trace ?s3 @ map (OutB 0x3F8) t"
    using unsafe_printf_frame(2) by blast
  have init: "timer_init dev s = interrupt_restore (interrupt_is_enabled s) (unsafe_printf ''Initialized timer\<newline>'' [] ?s3)"
    by (simp add: timer_init_def interrupt_disable_def Let_def)
  have lo: "last_out (tr @ map (OutB 0x3F8) t) p = last_out tr p" if "p \<noteq> 0x3F8" for tr p
    using that by (induction t rule: rev_induct) (auto simp: last_out_def)
  have port: "irq_port i \<noteq> 0x3F8" "irq_port i \<noteq> 0x43" "irq_port i \<noteq> 0x40" for i by (simp_all add: irq_port_def)
  have "masked (timer_init dev s) j = masked ?s3 j"
    using t lo [OF port(1)] by (simp add: masked_def init)
  also have "\<dots> = (j \<noteq> 0 \<and> masked ?s2 j)" using irq_clear_mask_exact [OF assms(1) _ assms(2)] by simp
  also have "masked ?s2 j = masked s j"
    using port [of j] by (simp add: masked_def load_reload_trace last_out_def)
  finally have m: "masked (timer_init dev s) j = (j \<noteq> 0 \<and> masked s j)" .
  have "eflags (unsafe_printf ''Initialized timer\<newline>'' [] ?s3) = eflags (cli s)"
    by (simp add: unsafe_printf_frame irq_mask_eflags load_reload_trace)
  then have "eflags (timer_init dev s) = eflags s" unfolding init by (rule restore_after_cli)
  moreover have "\<exists>r. io_trace ?s3 = io_trace ?s2 @ r"
    by (simp add: irq_clear_mask_def interrupt_disable_def Let_def case_prod_unfold)
  then obtain r where "io_trace (timer_init dev s) = io_trace ?s2 @ r @ map (OutB 0x3F8) t" using t by (auto simp: init)
  ultimately show ?thesis using m by (simp add: load_reload_trace)
qed

theorem timer_init_starts_witness:
  "\<not> masked (timer_init last_out \<lparr>io_trace = [OutB PIC1_DATA 0xFF], eflags = 2\<rparr>) 0"
  using timer_init_starts [of last_out 0] by (simp add: reads_back_masks_def)

section \<open>Ticks and milliseconds\<close>

lemma times_1000_div:
  "unat ((x * 1000) div (1000 :: u32)) = (unat x * 1000) mod 4294967296 div 1000"
  by (simp add: unat_div_distrib unat_word_ariths)

text \<open>The conversion from milliseconds to ticks is exact up to 4294967 ms (about 71 minutes); for every
  longer time the multiplication wraps around and the result is too small.\<close>

theorem timer_ms_to_ticks_exact:
  "timer_ms_to_ticks ms = ms \<longleftrightarrow> unat ms \<le> 4294967"
proof
  assume "timer_ms_to_ticks ms = ms"
  then have "unat ms = (unat ms * 1000) mod 4294967296 div 1000" using times_1000_div [of ms] by (simp add: timer_ms_to_ticks_def)
  also have "\<dots> \<le> 4294967295 div 1000" by (intro div_le_mono) (simp add: less_Suc_eq_le [symmetric])
  finally show "unat ms \<le> 4294967" by simp
next
  assume "unat ms \<le> 4294967"
  then have "unat (timer_ms_to_ticks ms) = unat ms" using times_1000_div [of ms] by (simp add: timer_ms_to_ticks_def)
  then show "timer_ms_to_ticks ms = ms" by (simp add: word_unat_eq_iff)
qed

end
