(* ===== verification/Terminal.thy ===== *)
theory Terminal
  imports IoFormat
begin

text \<open>
  The VGA text terminal of \<^verbatim>\<open>src/io/terminal.c\<close>: 25 rows of 80 cells, a cursor that wraps at the end of
  a row and from the last row to the first. The video memory is a function from cell indices to
  16-bit entries; it is separate from the memory that holds strings. The theorems say that the
  cursor never leaves the screen, that no cell outside the 2000 of the screen is ever written, and
  what a printed text looks like on it.
\<close>

section \<open>State and operations\<close>

datatype VGAColor = VGA_COLOR_BLACK | VGA_COLOR_BLUE | VGA_COLOR_GREEN | VGA_COLOR_CYAN | VGA_COLOR_RED
  | VGA_COLOR_MAGENTA | VGA_COLOR_BROWN | VGA_COLOR_LIGHT_GREY | VGA_COLOR_DARK_GREY | VGA_COLOR_LIGHT_BLUE
  | VGA_COLOR_LIGHT_GREEN | VGA_COLOR_LIGHT_CYAN | VGA_COLOR_LIGHT_RED | VGA_COLOR_LIGHT_MAGENTA
  | VGA_COLOR_LIGHT_BROWN | VGA_COLOR_WHITE

primrec vga_code :: "VGAColor \<Rightarrow> u8" where
  "vga_code VGA_COLOR_BLACK = 0" | "vga_code VGA_COLOR_BLUE = 1" | "vga_code VGA_COLOR_GREEN = 2"
| "vga_code VGA_COLOR_CYAN = 3" | "vga_code VGA_COLOR_RED = 4" | "vga_code VGA_COLOR_MAGENTA = 5"
| "vga_code VGA_COLOR_BROWN = 6" | "vga_code VGA_COLOR_LIGHT_GREY = 7" | "vga_code VGA_COLOR_DARK_GREY = 8"
| "vga_code VGA_COLOR_LIGHT_BLUE = 9" | "vga_code VGA_COLOR_LIGHT_GREEN = 10"
| "vga_code VGA_COLOR_LIGHT_CYAN = 11" | "vga_code VGA_COLOR_LIGHT_RED = 12"
| "vga_code VGA_COLOR_LIGHT_MAGENTA = 13" | "vga_code VGA_COLOR_LIGHT_BROWN = 14"
| "vga_code VGA_COLOR_WHITE = 15"

record terminal =
  terminal_row :: u32
  terminal_column :: u32
  terminal_color :: u8
  terminal_buffer :: "u32 \<Rightarrow> u16"

abbreviation VGA_WIDTH :: u32 where "VGA_WIDTH \<equiv> 80"
abbreviation VGA_HEIGHT :: u32 where "VGA_HEIGHT \<equiv> 25"

definition vga_entry_color :: "VGAColor \<Rightarrow> VGAColor \<Rightarrow> u8" where
  "vga_entry_color fg bg = vga_code fg OR push_bit 4 (vga_code bg)"

definition vga_entry :: "u8 \<Rightarrow> u8 \<Rightarrow> u16" where
  "vga_entry uc color = ucast uc OR push_bit 8 (ucast color)"

definition terminal_init :: "terminal \<Rightarrow> terminal" where
  "terminal_init t =
     (let color = vga_entry_color VGA_COLOR_LIGHT_GREY VGA_COLOR_BLACK;
          t1 = t\<lparr>terminal_row := 0, terminal_column := 0, terminal_color := color\<rparr>
      in fold (\<lambda>y. fold (\<lambda>x t. t\<lparr>terminal_buffer := (terminal_buffer t)
           (of_nat y * VGA_WIDTH + of_nat x := vga_entry (of_char CHR '' '') (terminal_color t))\<rparr>) [0..<80]) [0..<25] t1)"

definition terminal_setcolor :: "u8 \<Rightarrow> terminal \<Rightarrow> terminal" where
  "terminal_setcolor color t = t\<lparr>terminal_color := color\<rparr>"

definition terminal_putentryat :: "u8 \<Rightarrow> u8 \<Rightarrow> u32 \<Rightarrow> u32 \<Rightarrow> terminal \<Rightarrow> terminal" where
  "terminal_putentryat c color x y t =
     t\<lparr>terminal_buffer := (terminal_buffer t)(y * VGA_WIDTH + x := vga_entry c color)\<rparr>"

text \<open>The increment of the row, with its wrap to the first row, that both branches share.\<close>

definition next_row :: "terminal \<Rightarrow> terminal" where
  "next_row t = (let row = terminal_row t + 1 in t\<lparr>terminal_row := if row = VGA_HEIGHT then 0 else row\<rparr>)"

definition terminal_putchar :: "u8 \<Rightarrow> terminal \<Rightarrow> terminal" where
  "terminal_putchar c t =
     (if c = 10 then next_row (t\<lparr>terminal_column := 0\<rparr>)
      else
        let t1 = terminal_putentryat c (terminal_color t) (terminal_column t) (terminal_row t) t;
            t2 = t1\<lparr>terminal_column := terminal_column t1 + 1\<rparr>
        in if terminal_column t2 = VGA_WIDTH then next_row (t2\<lparr>terminal_column := 0\<rparr>) else t2)"

function terminal_write_from :: "memory \<Rightarrow> u32 \<Rightarrow> u32 \<Rightarrow> u32 \<Rightarrow> terminal \<Rightarrow> terminal" where
  "terminal_write_from m data sz i t =
     (if i < sz then terminal_write_from m data sz (i + 1) (terminal_putchar (m (data + i)) t) else t)"
  by pat_completeness auto
termination
  by (relation "measure (\<lambda>(m, data, sz, i, t). unat sz - unat i)") (auto simp: word_Suc_measure)

declare terminal_write_from.simps [simp del]

definition terminal_write :: "memory \<Rightarrow> u32 \<Rightarrow> u32 \<Rightarrow> terminal \<Rightarrow> terminal" where
  "terminal_write m data sz t = terminal_write_from m data sz 0 t"

definition terminal_writestr :: "memory \<Rightarrow> u32 \<Rightarrow> terminal \<Rightarrow> terminal outcome" where
  "terminal_writestr m data t = andthen (strlen m data) (\<lambda>n. Inr (terminal_write m data n t))"

definition terminal_writeint :: "u32 \<Rightarrow> terminal \<Rightarrow> terminal" where
  "terminal_writeint d t = io_writeint terminal_putchar d t"

definition terminal_writebool :: "bool \<Rightarrow> terminal \<Rightarrow> terminal" where
  "terminal_writebool b t = io_writebool terminal_putchar b t"

definition terminal_printf :: "memory \<Rightarrow> u32 \<Rightarrow> u32 list \<Rightarrow> terminal \<Rightarrow> terminal outcome" where
  "terminal_printf m format params t = io_printf terminal_putchar m format params t"

section \<open>The cursor\<close>

definition on_screen :: "terminal \<Rightarrow> bool" where
  "on_screen t \<longleftrightarrow> terminal_row t < VGA_HEIGHT \<and> terminal_column t < VGA_WIDTH"

definition cursor :: "terminal \<Rightarrow> nat" where
  "cursor t = unat (terminal_row t) * 80 + unat (terminal_column t)"

lemma cursor_bound: "on_screen t \<Longrightarrow> cursor t < 2000"
  by (simp add: on_screen_def cursor_def word_less_nat_alt)

lemma cell_index:
  "on_screen t \<Longrightarrow> terminal_row t * VGA_WIDTH + terminal_column t = of_nat (cursor t)"
  by (simp add: cursor_def)

lemma inc_below: "(x :: u32) < 4294967295 \<Longrightarrow> unat (x + 1) = unat x + 1"
  by (rule unat32_Suc [of _ 4294967295])

lemma next_row_screen:
  assumes "terminal_row t < VGA_HEIGHT"
  shows "terminal_row (next_row t) < VGA_HEIGHT"
    and "unat (terminal_row (next_row t)) = (unat (terminal_row t) + 1) mod 25"
    and "terminal_column (next_row t) = terminal_column t" "terminal_buffer (next_row t) = terminal_buffer t"
    and "terminal_color (next_row t) = terminal_color t"
proof -
  have r: "unat (terminal_row t) < 25" "unat (terminal_row t + 1) = unat (terminal_row t) + 1"
    using assms inc_below [of "terminal_row t"] by (auto simp: word_less_nat_alt)
  have e: "terminal_row t + 1 = 25 \<longleftrightarrow> unat (terminal_row t) + 1 = 25"
    unfolding r(2) [symmetric] by (simp add: word_unat_eq_iff)
  show "unat (terminal_row (next_row t)) = (unat (terminal_row t) + 1) mod 25"
    using r e by (auto simp: next_row_def Let_def)
  then show "terminal_row (next_row t) < VGA_HEIGHT" by (simp add: word_less_nat_alt)
qed (simp_all add: next_row_def Let_def)


lemma putchar_char:
  assumes t: "on_screen t" and c: "c \<noteq> 10"
  shows "on_screen (terminal_putchar c t)" "cursor (terminal_putchar c t) = (cursor t + 1) mod 2000"
    and "terminal_buffer (terminal_putchar c t) =
      (terminal_buffer t)(of_nat (cursor t) := vga_entry c (terminal_color t))"
    and "terminal_color (terminal_putchar c t) = terminal_color t"
proof -
  let ?t1 = "terminal_putentryat c (terminal_color t) (terminal_column t) (terminal_row t) t"
  have b: "terminal_buffer ?t1 = (terminal_buffer t)(of_nat (cursor t) := vga_entry c (terminal_color t))"
    using cell_index [OF t] by (simp add: terminal_putentryat_def)
  have f: "terminal_row ?t1 = terminal_row t" "terminal_column ?t1 = terminal_column t" "terminal_color ?t1 = terminal_color t"
    by (simp_all add: terminal_putentryat_def)
  have u: "unat (terminal_column t) < 80" "unat (terminal_row t) < 25"
    "unat (terminal_column t + 1) = unat (terminal_column t) + 1"
    using t inc_below [of "terminal_column t"] by (auto simp: on_screen_def word_less_nat_alt)
  have e: "terminal_column t + 1 = 80 \<longleftrightarrow> unat (terminal_column t) = 79"
    using u(3) by (simp add: word_unat_eq_iff)
  have "on_screen (terminal_putchar c t) \<and> cursor (terminal_putchar c t) = (cursor t + 1) mod 2000 \<and>
    terminal_buffer (terminal_putchar c t) = terminal_buffer ?t1 \<and> terminal_color (terminal_putchar c t) = terminal_color t"
  proof (cases "terminal_column t + 1 = VGA_WIDTH")
    case True
    let ?t2 = "?t1\<lparr>terminal_column := 0\<rparr>"
    have "terminal_putchar c t = next_row ?t2" using True c f by (simp add: terminal_putchar_def Let_def)
    moreover have "((unat (terminal_row t) + 1) mod 25) * 80 = (80 + unat (terminal_row t) * 80) mod 2000"
      using mult_mod_right [of 80 "unat (terminal_row t) + 1" 25] by (simp add: algebra_simps)
    ultimately show ?thesis
      using next_row_screen [of ?t2] u f e True t by (simp add: on_screen_def cursor_def)
  next
    case False
    then have "terminal_putchar c t = ?t1\<lparr>terminal_column := terminal_column t + 1\<rparr>"
      using c f by (simp add: terminal_putchar_def Let_def)
    then show ?thesis using u f e False by (simp add: on_screen_def cursor_def word_less_nat_alt)
  qed
  then show "on_screen (terminal_putchar c t)" "cursor (terminal_putchar c t) = (cursor t + 1) mod 2000"
    "terminal_buffer (terminal_putchar c t) = (terminal_buffer t)(of_nat (cursor t) := vga_entry c (terminal_color t))"
    "terminal_color (terminal_putchar c t) = terminal_color t"
    using b by auto
qed

lemma putchar_newline:
  assumes "on_screen t"
  shows "on_screen (terminal_putchar 10 t)" "terminal_buffer (terminal_putchar 10 t) = terminal_buffer t"
    and "cursor (terminal_putchar 10 t) = ((unat (terminal_row t) + 1) mod 25) * 80"
    and "terminal_color (terminal_putchar 10 t) = terminal_color t"
  using assms next_row_screen [of "t\<lparr>terminal_column := 0\<rparr>"]
  by (simp_all add: terminal_putchar_def on_screen_def cursor_def)

text \<open>No operation writes outside the screen.\<close>

definition screen_only :: "terminal \<Rightarrow> terminal \<Rightarrow> bool" where
  "screen_only t t' \<longleftrightarrow> (\<forall>x. 2000 \<le> x \<longrightarrow> terminal_buffer t' x = terminal_buffer t x)"

lemma putchar_safe:
  assumes "on_screen t"
  shows "on_screen (terminal_putchar c t) \<and> screen_only t (terminal_putchar c t)"
proof (cases "c = 10")
  case True
  then show ?thesis using putchar_newline [OF assms] by (simp add: screen_only_def)
next
  case False
  have "(of_nat (cursor t) :: u32) < 2000"
    using cursor_bound [OF assms] of_nat32_less [of "cursor t" 2000] by simp
  then show ?thesis using putchar_char [OF assms False] by (auto simp: screen_only_def)
qed

lemma text_safe: "on_screen t \<Longrightarrow> on_screen (fold terminal_putchar xs t) \<and> screen_only t (fold terminal_putchar xs t)"
proof (induction xs arbitrary: t)
  case Nil
  then show ?case by (simp add: screen_only_def)
next
  case (Cons c xs)
  then show ?case using putchar_safe [OF Cons.prems, of c] by (auto simp: screen_only_def)
qed

lemma terminal_write_from_text:
  assumes "cstring m data xs"
  shows "i \<le> length xs \<Longrightarrow> terminal_write_from m data (of_nat (length xs)) (of_nat i) t =
    fold terminal_putchar (drop i xs) t"
proof (induction "length xs - i" arbitrary: i t)
  case 0
  then show ?case by (simp add: terminal_write_from.simps)
next
  case (Suc k)
  have l: "i < length xs" "length xs < 4294967296" using Suc assms by (auto simp: cstring_def)
  then have "(of_nat i :: u32) < of_nat (length xs)" by (intro of_nat32_less [THEN iffD2]) auto
  moreover have "drop i xs = m (data + of_nat i) # drop (Suc i) xs"
    using l(1) cstring_nth [OF assms l(1)] by (simp add: Cons_nth_drop_Suc)
  moreover have "terminal_write_from m data (of_nat (length xs)) (of_nat (Suc i)) t' = fold terminal_putchar (drop (Suc i) xs) t'" for t'
    using Suc l by (intro Suc.hyps(1)) auto
  ultimately show ?case by (simp add: terminal_write_from.simps [of _ _ _ "of_nat i"] add.commute [of _ 1])
qed

section \<open>What is on the screen\<close>

text \<open>C39. The cursor never leaves the screen and no printing routine ever writes a cell outside the 80
  by 25 cells of video memory, whatever it prints.\<close>

theorem terminal_stays_on_screen:
  assumes "on_screen t" "cstring m format cs" "fmt_text cs args = Some xs" "list_all2 (passes m) args params"
  shows "\<exists>t'. terminal_printf m format params t = Inr t' \<and> on_screen t' \<and>
     (\<forall>x. 2000 \<le> x \<longrightarrow> terminal_buffer t' x = terminal_buffer t x)"
  using text_safe [OF assms(1), of xs] io_printf_text [OF assms(2-4), of terminal_putchar t]
  by (auto simp: terminal_printf_def screen_only_def)


definition blank_screen :: terminal where
  "blank_screen = \<lparr>terminal_row = 24, terminal_column = 79, terminal_color = 7, terminal_buffer = (\<lambda>_. 0)\<rparr>"

theorem terminal_stays_on_screen_witness:
  "\<exists>t'. terminal_printf sample_mem 100 [- 7] blank_screen = Inr t' \<and> on_screen t'"
proof -
  have "cstring sample_mem 100 (literal ''n=%d'')"
    by (simp add: cstring_def literal_def bytes_at_def sample_mem_def)
  moreover have "fmt_text (literal ''n=%d'') [Val (- 7)] = Some (literal ''n=-7'')" by code_simp
  moreover have "list_all2 (passes sample_mem) [Val (- 7)] [- 7]" by (simp add: passes_def)
  moreover have "on_screen blank_screen" by (simp add: on_screen_def blank_screen_def)
  ultimately show ?thesis using terminal_stays_on_screen by blast
qed

lemma text_cells:
  assumes "on_screen t" "10 \<notin> set xs" "length xs \<le> 2000"
  shows "cursor (fold terminal_putchar xs t) = (cursor t + length xs) mod 2000 \<and>
     terminal_color (fold terminal_putchar xs t) = terminal_color t \<and>
     (\<forall>i < length xs. terminal_buffer (fold terminal_putchar xs t) (of_nat ((cursor t + i) mod 2000)) =
       vga_entry (xs ! i) (terminal_color t))"
  using assms(2,3)
proof (induction xs rule: rev_induct)
  case Nil
  then show ?case using cursor_bound [OF assms(1)] by simp
next
  case (snoc c xs)
  let ?t = "fold terminal_putchar xs t"
  have IH: "cursor ?t = (cursor t + length xs) mod 2000" "terminal_color ?t = terminal_color t"
    "\<And>i. i < length xs \<Longrightarrow> terminal_buffer ?t (of_nat ((cursor t + i) mod 2000)) = vga_entry (xs ! i) (terminal_color t)"
    using snoc by auto
  have on: "on_screen ?t" using text_safe [OF assms(1)] by blast
  note p = putchar_char [OF on, of c]
  have ne: "(of_nat ((cursor t + i) mod 2000) :: u32) \<noteq> of_nat (cursor ?t)" if "i < length xs" for i
  proof -
    have "(cursor t + i) mod 2000 \<noteq> (cursor t + length xs) mod 2000"
    proof
      assume "(cursor t + i) mod 2000 = (cursor t + length xs) mod 2000"
      then have "2000 dvd (cursor t + length xs) - (cursor t + i)"
        using that mod_eq_dvd_iff_nat [of "cursor t + i" "cursor t + length xs" 2000] by simp
      then show False using that snoc.prems by (auto dest: dvd_imp_le)
    qed
    then show ?thesis using IH(1) cursor_bound [OF on]
      by (subst of_nat32_eq) (auto intro: less_trans [of _ 2000])
  qed
  have "terminal_buffer (terminal_putchar c ?t) (of_nat ((cursor t + i) mod 2000)) =
      vga_entry ((xs @ [c]) ! i) (terminal_color t)" if "i < length (xs @ [c])" for i
  proof (cases "i < length xs")
    case True
    then show ?thesis using p(3) snoc.prems IH(3) ne [OF True] by (simp add: nth_append)
  next
    case False
    then have "i = length xs" using that by simp
    then show ?thesis using p(3) snoc.prems IH(1,2) by simp
  qed
  moreover have "cursor (terminal_putchar c ?t) = (cursor t + length (xs @ [c])) mod 2000"
    using p(2) snoc.prems IH(1) by (simp add: mod_Suc_eq)
  ultimately show ?case using p(4) snoc.prems IH(2) by simp
qed

text \<open>A string without line breaks appears on the screen from the cursor on, one character per
  cell in the current colour, wrapping at the ends of rows and from the last row to the first, and
  the cursor ends up behind it.\<close>

theorem terminal_writestr_shows:
  assumes "on_screen t" "cstring m str xs" "10 \<notin> set xs" "length xs \<le> 2000"
  shows "\<exists>t'. terminal_writestr m str t = Inr t' \<and> cursor t' = (cursor t + length xs) mod 2000 \<and>
     (\<forall>i < length xs. terminal_buffer t' (of_nat ((cursor t + i) mod 2000)) = vga_entry (xs ! i) (terminal_color t))"
proof -
  have "terminal_writestr m str t = Inr (fold terminal_putchar xs t)"
    using strlen_cstring [OF assms(2)] terminal_write_from_text [OF assms(2), of 0 t]
    by (simp add: terminal_writestr_def terminal_write_def)
  then show ?thesis using text_cells [OF assms(1,3,4)] by simp
qed

theorem terminal_writestr_shows_witness:
  "\<exists>t'. terminal_writestr sample_mem 100 blank_screen = Inr t' \<and> cursor t' = 3 \<and>
     terminal_buffer t' 1999 = vga_entry 110 7"
proof -
  have str: "cstring sample_mem 100 (literal ''n=%d'')"
    by (simp add: cstring_def literal_def bytes_at_def sample_mem_def)
  have on: "on_screen blank_screen" by (simp add: on_screen_def blank_screen_def)
  have l: "length (literal ''n=%d'') = 4" "10 \<notin> set (literal ''n=%d'')" by (simp_all add: literal_def)
  obtain t' where t': "terminal_writestr sample_mem 100 blank_screen = Inr t'"
    "cursor t' = (cursor blank_screen + 4) mod 2000"
    "\<forall>i < 4. terminal_buffer t' (of_nat ((cursor blank_screen + i) mod 2000)) =
       vga_entry (literal ''n=%d'' ! i) (terminal_color blank_screen)"
    using terminal_writestr_shows [OF on str l(2)] unfolding l(1) by auto
  have "terminal_buffer t' 1999 = vga_entry 110 7"
    using t'(3) [rule_format, of 0] by (simp add: cursor_def blank_screen_def literal_def)
  then show ?thesis using t'(1,2) by (simp add: cursor_def blank_screen_def)
qed

text \<open>The parameter of \<^verbatim>\<open>terminal_writeint\<close> is unsigned, but it is printed as a signed integer.\<close>

lemma terminal_writeint_signed:
  "terminal_writeint 0xFFFFFFFF t = fold terminal_putchar (literal ''-1'') t"
proof -
  have "int_text (sint (0xFFFFFFFF :: u32)) = literal ''-1''" by code_simp
  then show ?thesis by (simp add: terminal_writeint_def io_writeint_text)
qed

end
