(* ===== verification/ThreadList.thy ===== *)
theory ThreadList
  imports Prelude
begin

text \<open>
  The linked lists of the thread system: the doubly linked lists of \<^verbatim>\<open>src/kernel/thread.c\<close>, which add
  and remove at any place, and the wait queues of \<^verbatim>\<open>src/kernel/synch.c\<close>, which append at the tail and
  take from the head. Nodes live in a store indexed by address. Both are shown to implement plain
  lists; the wait queues provide the interface \<open>fifo\<close> on which the synchronisation primitives rest.
\<close>

section \<open>Nodes\<close>

record tlistnode =
  thread :: u32
  nxt :: u32
  prev :: u32

type_synonym nodes = "u32 \<Rightarrow> tlistnode"

definition set_nxt :: "nodes \<Rightarrow> u32 \<Rightarrow> u32 \<Rightarrow> nodes" where
  "set_nxt ns p v = ns(p := (ns p)\<lparr>nxt := v\<rparr>)"

definition set_prev :: "nodes \<Rightarrow> u32 \<Rightarrow> u32 \<Rightarrow> nodes" where
  "set_prev ns p v = ns(p := (ns p)\<lparr>prev := v\<rparr>)"

definition thread_listnode_init :: "nodes \<Rightarrow> u32 \<Rightarrow> u32 \<Rightarrow> nodes" where
  "thread_listnode_init ns node t = ns(node := \<lparr>thread = t, nxt = 0, prev = 0\<rparr>)"

definition thread_list_add :: "u32 \<Rightarrow> nodes \<Rightarrow> u32 \<Rightarrow> u32 \<times> nodes" where
  "thread_list_add head ns node =
     (let ns1 = (if head \<noteq> 0 then set_prev ns head node else ns)
      in (node, set_prev (set_nxt ns1 node head) node 0))"

definition thread_list_remove :: "u32 \<Rightarrow> nodes \<Rightarrow> u32 \<Rightarrow> (u32 \<times> nodes) outcome" where
  "thread_list_remove head ns node =
     andthen
       (if prev (ns node) = 0 then
          andthen (kernel_assert (head = node)
            ''thread_list_remove(): Expected thread without prev pointer to be head of list'') (\<lambda>_.
          let head1 = nxt (ns node)
          in Inr (head1, if head1 \<noteq> 0 then set_prev ns head1 0 else ns))
        else Inr (head, set_nxt ns (prev (ns node)) (nxt (ns node))))
       (\<lambda>(head1, ns1).
          let ns2 = (if nxt (ns1 node) \<noteq> 0 then set_prev ns1 (nxt (ns1 node)) (prev (ns1 node)) else ns1)
          in Inr (head1, set_prev (set_nxt ns2 node 0) node 0))"

text \<open>A wait queue: the pointers to the first and the last node, and the store.\<close>

record wqueue =
  wait_queue_head :: u32
  wait_queue_tail :: u32

definition wait_queue_append :: "wqueue \<Rightarrow> nodes \<Rightarrow> u32 \<Rightarrow> wqueue \<times> nodes" where
  "wait_queue_append q ns node =
     (if wait_queue_head q = 0 then
        (q\<lparr>wait_queue_head := node, wait_queue_tail := node\<rparr>, set_prev (set_nxt ns node 0) node 0)
      else
        let ns1 = set_nxt ns (wait_queue_tail q) node;
            ns2 = set_prev (set_nxt ns1 node 0) node (wait_queue_tail q)
        in (q\<lparr>wait_queue_tail := node\<rparr>, ns2))"

definition wait_queue_popfront :: "wqueue \<Rightarrow> nodes \<Rightarrow> (u32 \<times> wqueue \<times> nodes) outcome" where
  "wait_queue_popfront q ns =
     andthen (kernel_assert (wait_queue_head q \<noteq> 0) ''wait_queue_popfront(): Expected nonempty lists'') (\<lambda>_.
     andthen (kernel_assert (prev (ns (wait_queue_head q)) = 0)
       ''wait_queue_popfront(): Expected head to have no previous node'') (\<lambda>_.
     let unblocked = wait_queue_head q;
         head1 = nxt (ns unblocked);
         (q1, ns1) = (if head1 = 0 then (q\<lparr>wait_queue_head := head1, wait_queue_tail := 0\<rparr>, ns)
                      else (q\<lparr>wait_queue_head := head1\<rparr>, set_prev ns head1 0));
         ns2 = set_nxt ns1 unblocked 0
     in Inr (thread (ns2 unblocked), q1, ns2)))"

lemma node_updates [simp]:
  "nxt (set_nxt ns p v q) = (if q = p then v else nxt (ns q))" "prev (set_nxt ns p v q) = prev (ns q)"
  "thread (set_nxt ns p v q) = thread (ns q)"
  "prev (set_prev ns p v q) = (if q = p then v else prev (ns q))" "nxt (set_prev ns p v q) = nxt (ns q)"
  "thread (set_prev ns p v q) = thread (ns q)"
  by (auto simp: set_nxt_def set_prev_def)

lemma node_updates_other: "q \<noteq> p \<Longrightarrow> set_nxt ns p v q = ns q" "q \<noteq> p \<Longrightarrow> set_prev ns p v q = ns q"
  by (simp_all add: set_nxt_def set_prev_def)

section \<open>Doubly linked lists\<close>

text \<open>\<open>dll ns b p xs\<close>: from \<open>p\<close> the nodes \<open>xs\<close> are linked forwards and backwards, the first of them back
  to \<open>b\<close>.\<close>

fun dll :: "nodes \<Rightarrow> u32 \<Rightarrow> u32 \<Rightarrow> u32 list \<Rightarrow> bool" where
  "dll ns b p [] \<longleftrightarrow> p = 0"
| "dll ns b p (x # xs) \<longleftrightarrow> p = x \<and> x \<noteq> 0 \<and> prev (ns x) = b \<and> dll ns x (nxt (ns x)) xs"

definition same_links :: "u32 set \<Rightarrow> nodes \<Rightarrow> nodes \<Rightarrow> bool" where
  "same_links A ns ns' \<longleftrightarrow> (\<forall>x. x \<notin> A \<longrightarrow> ns' x = ns x) \<and> (\<forall>x. thread (ns' x) = thread (ns x))"

lemma same_linksD: "same_links A ns ns' \<Longrightarrow> x \<notin> A \<Longrightarrow> ns' x = ns x"
  "same_links A ns ns' \<Longrightarrow> thread (ns' x) = thread (ns x)"
  by (simp_all add: same_links_def)

lemma same_links_refl [simp]: "same_links A ns ns"
  by (simp add: same_links_def)

lemma same_links_trans: "same_links A ns ns' \<Longrightarrow> same_links B ns' ns'' \<Longrightarrow> same_links (A \<union> B) ns ns''"
  by (simp add: same_links_def)

lemma same_links_mono: "same_links A ns ns' \<Longrightarrow> A \<subseteq> B \<Longrightarrow> same_links B ns ns'"
  by (auto simp: same_links_def)

lemma same_links_upd:
  "same_links A ns ns' \<Longrightarrow> p \<in> A \<Longrightarrow> same_links A ns (set_nxt ns' p v)"
  "same_links A ns ns' \<Longrightarrow> p \<in> A \<Longrightarrow> same_links A ns (set_prev ns' p v)"
  by (auto simp: same_links_def set_nxt_def set_prev_def)

lemma dll_cong: "(\<And>x. x \<in> set xs \<Longrightarrow> nxt (ns' x) = nxt (ns x) \<and> prev (ns' x) = prev (ns x)) \<Longrightarrow>
    dll ns' b p xs = dll ns b p xs"
  by (induction xs arbitrary: b p) auto

lemma dll_frame: "same_links A ns ns' \<Longrightarrow> A \<inter> set xs = {} \<Longrightarrow> dll ns' b p xs = dll ns b p xs"
  by (rule dll_cong) (auto simp: same_links_def)

lemma dll_chain: "dll ns b p xs \<Longrightarrow> chain (\<lambda>x. nxt (ns x)) p xs"
  by (induction xs arbitrary: b p) auto

lemma dll_distinct: "dll ns b p xs \<Longrightarrow> distinct xs"
  by (rule chain_distinct [OF dll_chain])

lemma dll_nonzero: "dll ns b p xs \<Longrightarrow> x \<in> set xs \<Longrightarrow> x \<noteq> 0"
  by (rule chain_nonzero [OF dll_chain])

lemma dll_unique: "dll ns b p xs \<Longrightarrow> dll ns c p ys \<Longrightarrow> xs = ys"
  by (meson chain_functional dll_chain)

lemma dll_null [simp]: "dll ns b 0 xs \<longleftrightarrow> xs = []"
  by (cases xs) auto

lemma dll_head: "dll ns b p xs \<Longrightarrow> p = (if xs = [] then 0 else hd xs)"
  by (cases xs) auto



lemma dll_neighbours:
  assumes "dll ns b p (xs @ n # ys)"
  shows "prev (ns n) = (if xs = [] then b else last xs)" "nxt (ns n) = (if ys = [] then 0 else hd ys)"
    "n \<noteq> 0" "p = (if xs = [] then n else hd xs)"
proof -
  have "prev (ns n) = (if xs = [] then b else last xs) \<and> nxt (ns n) = (if ys = [] then 0 else hd ys) \<and> n \<noteq> 0"
    using assms
  proof (induction xs arbitrary: b p)
    case Nil
    then show ?case using dll_head [of ns n "nxt (ns n)" ys] by simp
  next
    case (Cons x xs)
    then show ?case using Cons.IH [of x "nxt (ns x)"] by simp
  qed
  then show "prev (ns n) = (if xs = [] then b else last xs)" "nxt (ns n) = (if ys = [] then 0 else hd ys)" "n \<noteq> 0"
    by auto
  show "p = (if xs = [] then n else hd xs)" using assms by (cases xs) auto
qed

lemma dll_unlink:
  assumes "dll ns b p (xs @ n # ys)" "distinct (xs @ n # ys)"
    and "\<And>x. x \<in> set xs \<Longrightarrow> prev (ns' x) = prev (ns x) \<and> nxt (ns' x) = (if x = last xs then nxt (ns n) else nxt (ns x))"
    and "\<And>y. y \<in> set ys \<Longrightarrow> nxt (ns' y) = nxt (ns y) \<and> prev (ns' y) = (if y = hd ys then prev (ns n) else prev (ns y))"
  shows "dll ns' b (if xs = [] then nxt (ns n) else p) (xs @ ys)"
  using assms
proof (induction xs arbitrary: b p)
  case Nil
  show ?case
  proof (cases ys)
    case (Cons y zs)
    have "dll ns' y (nxt (ns' y)) zs = dll ns y (nxt (ns y)) zs"
    proof -
      have "nxt (ns' y) = nxt (ns y)" using Nil.prems Cons by auto
      moreover have "nxt (ns' z) = nxt (ns z) \<and> prev (ns' z) = prev (ns z)" if "z \<in> set zs" for z
        using Nil.prems(2,4) Cons that by auto
      ultimately show ?thesis using dll_cong [of zs ns' ns y "nxt (ns y)"] by simp
    qed
    then show ?thesis using Nil.prems Cons by auto
  qed (use Nil.prems in auto)
next
  case (Cons x xs)
  have IH: "dll ns' x (if xs = [] then nxt (ns n) else nxt (ns x)) (xs @ ys)"
    using Cons.prems by (intro Cons.IH) (auto split: if_splits)
  have "prev (ns' x) = b" "nxt (ns' x) = (if xs = [] then nxt (ns n) else nxt (ns x))"
    using Cons.prems by (auto split: if_splits)
  then show ?case using IH Cons.prems(1) by simp
qed

lemma list_add_refines:
  assumes "dll ns 0 head xs" "node \<noteq> 0" "node \<notin> set xs"
  shows "\<exists>ns'. thread_list_add head ns node = (node, ns') \<and> dll ns' 0 node (node # xs) \<and>
     same_links (insert node (set xs)) ns ns'"
proof -
  let ?ns1 = "if head \<noteq> 0 then set_prev ns head node else ns"
  let ?ns' = "set_prev (set_nxt ?ns1 node head) node 0"
  have "dll ?ns' node head xs"
  proof (cases xs)
    case (Cons x ys)
    then have "head = x" "x \<noteq> 0" "node \<noteq> x" "x \<notin> set ys" using assms dll_distinct [OF assms(1)] by auto
    moreover have "dll ?ns' x (nxt (ns x)) ys = dll ns x (nxt (ns x)) ys"
      using assms(3) Cons calculation by (intro dll_cong) auto
    ultimately show ?thesis using assms(1) Cons by auto
  qed (use assms(1) in auto)
  moreover have "same_links (insert node (set xs)) ns ?ns'"
  proof -
    have "head \<noteq> 0 \<Longrightarrow> head \<in> set xs" using dll_head [OF assms(1)] by (cases xs) auto
    then show ?thesis by (auto intro!: same_links_upd)
  qed
  ultimately show ?thesis
    using assms(2) by (intro exI [of _ ?ns']) (simp add: thread_list_add_def Let_def)
qed

lemma list_remove_refines:
  assumes d: "dll ns 0 head (xs @ n # ys)"
  shows "\<exists>head' ns'. thread_list_remove head ns n = Inr (head', ns') \<and> dll ns' 0 head' (xs @ ys) \<and>
     nxt (ns' n) = 0 \<and> prev (ns' n) = 0 \<and> same_links (set (xs @ n # ys)) ns ns'"
proof -
  note nb = dll_neighbours [OF d] and dist = dll_distinct [OF d]
  have nz: "\<And>x. x \<in> set (xs @ n # ys) \<Longrightarrow> x \<noteq> 0" using dll_nonzero [OF d] by blast
  have dj: "set xs \<inter> set ys = {}" "n \<notin> set xs" "n \<notin> set ys" using dist by auto
  let ?ns1 = "if xs = [] then (if ys \<noteq> [] then set_prev ns (hd ys) 0 else ns) else set_nxt ns (last xs) (nxt (ns n))"
  let ?ns2 = "if ys \<noteq> [] then set_prev ?ns1 (hd ys) (prev (ns n)) else ?ns1"
  let ?ns' = "set_prev (set_nxt ?ns2 n 0) n 0"
  let ?head' = "if xs = [] then nxt (ns n) else head"
  have lx: "xs \<noteq> [] \<Longrightarrow> last xs \<in> set xs \<and> last xs \<notin> set ys \<and> last xs \<noteq> n \<and> last xs \<noteq> 0"
    using dj nz last_in_set [of xs] by (metis Un_iff disjoint_iff list.set_intros(2) set_append)
  have hy: "ys \<noteq> [] \<Longrightarrow> hd ys \<in> set ys \<and> hd ys \<notin> set xs \<and> hd ys \<noteq> n \<and> hd ys \<noteq> 0"
    using dj nz hd_in_set [of ys] by (metis Un_iff disjoint_iff list.set_intros(2) set_append)
  have "thread_list_remove head ns n = Inr (?head', ?ns')"
    using nb lx hy by (auto simp: thread_list_remove_def Let_def)
  moreover have "dll ?ns' 0 ?head' (xs @ ys)"
  proof (rule dll_unlink [OF d dist])
    show "prev (?ns' x) = prev (ns x) \<and> nxt (?ns' x) = (if x = last xs then nxt (ns n) else nxt (ns x))" if "x \<in> set xs" for x
      using that dist hy by auto
    show "nxt (?ns' y) = nxt (ns y) \<and> prev (?ns' y) = (if y = hd ys then prev (ns n) else prev (ns y))" if "y \<in> set ys" for y
      using that dist lx nb by auto
  qed
  moreover have "same_links (set (xs @ n # ys)) ns ?ns'"
    using lx hy by (auto intro!: same_links_upd)
  ultimately show ?thesis by (intro exI [of _ ?head'] exI [of _ ?ns']) simp
qed

section \<open>Wait queues\<close>

definition is_queue :: "wqueue \<Rightarrow> nodes \<Rightarrow> u32 list \<Rightarrow> bool" where
  "is_queue q ns xs \<longleftrightarrow> dll ns 0 (wait_queue_head q) xs \<and>
     wait_queue_tail q = (if xs = [] then 0 else last xs)"

lemma dll_snoc:
  assumes "dll ns b p xs" "xs \<noteq> []" "n \<noteq> 0" "n \<notin> set xs"
    and "\<And>x. x \<in> set xs \<Longrightarrow> prev (ns' x) = prev (ns x) \<and> nxt (ns' x) = (if x = last xs then n else nxt (ns x))"
    and "prev (ns' n) = last xs" "nxt (ns' n) = 0"
  shows "dll ns' b p (xs @ [n])"
  using assms
proof (induction xs arbitrary: b p)
  case (Cons x xs)
  show ?case
  proof (cases "xs = []")
    case True
    then show ?thesis using Cons.prems by auto
  next
    case False
    have "x \<notin> set xs" using dll_distinct [OF Cons.prems(1)] by simp
    then have "x \<noteq> last xs" using False by auto
    then show ?thesis using Cons False by auto
  qed
qed simp

lemma append_refines:
  assumes "is_queue q ns xs" "n \<noteq> 0" "n \<notin> set xs"
  shows "\<exists>q' ns'. wait_queue_append q ns n = (q', ns') \<and> is_queue q' ns' (xs @ [n]) \<and>
     same_links (insert n (set xs)) ns ns'"
proof (cases "xs = []")
  case True
  then have "wait_queue_head q = 0" using assms(1) by (simp add: is_queue_def)
  then show ?thesis using True assms(2) by (auto simp: wait_queue_append_def is_queue_def intro!: same_links_upd)
next
  case False
  let ?t = "wait_queue_tail q"
  let ?ns' = "set_prev (set_nxt (set_nxt ns ?t n) n 0) n ?t"
  have t: "?t = last xs" "?t \<in> set xs" "?t \<noteq> n" "wait_queue_head q \<noteq> 0"
    using False assms dll_head [of ns 0 "wait_queue_head q" xs] dll_nonzero [of ns 0 "wait_queue_head q" xs]
    by (auto simp: is_queue_def)
  have "dll ?ns' 0 (wait_queue_head q) (xs @ [n])"
    using assms False t by (intro dll_snoc [of ns]) (auto simp: is_queue_def)
  moreover have "same_links (insert n (set xs)) ns ?ns'"
    using t by (auto intro!: same_links_upd)
  ultimately show ?thesis
    using t by (intro exI [of _ "q\<lparr>wait_queue_tail := n\<rparr>"] exI [of _ ?ns'])
      (simp add: wait_queue_append_def is_queue_def Let_def)
qed

lemma popfront_refines:
  assumes "is_queue q ns (n # xs)"
  shows "\<exists>q' ns'. wait_queue_popfront q ns = Inr (thread (ns n), q', ns') \<and> is_queue q' ns' xs \<and>
     nxt (ns' n) = 0 \<and> prev (ns' n) = 0 \<and> same_links (set (n # xs)) ns ns'"
proof -
  have d: "dll ns 0 n (n # xs)" "wait_queue_head q = n" "wait_queue_tail q = last (n # xs)"
    using assms by (auto simp: is_queue_def)
  have dist: "n \<notin> set xs" "distinct xs" using dll_distinct [OF d(1)] by auto
  show ?thesis
  proof (cases xs)
    case Nil
    then show ?thesis
      using d by (auto simp: wait_queue_popfront_def is_queue_def Let_def intro!: same_links_upd)
  next
    case (Cons y ys)
    let ?ns' = "set_nxt (set_prev ns y 0) n 0"
    have y: "nxt (ns n) = y" "y \<noteq> 0" "y \<noteq> n" "y \<notin> set ys" using d(1) dist Cons by auto
    have "dll ?ns' y (nxt (ns y)) ys = dll ns y (nxt (ns y)) ys"
      using dist y Cons by (intro dll_cong) auto
    then have "dll ?ns' 0 y xs" using d(1) y Cons by auto
    moreover have "same_links (set (n # xs)) ns ?ns'" using Cons by (auto intro!: same_links_upd)
    ultimately show ?thesis
      using d y Cons
      by (intro exI [of _ "q\<lparr>wait_queue_head := y\<rparr>"] exI [of _ ?ns'])
        (auto simp: wait_queue_popfront_def is_queue_def Let_def)
  qed
qed

section \<open>The interface of a first-in first-out queue\<close>

text \<open>
  What a client of the wait queues relies on. \<open>holds q s xs\<close>: in the store \<open>s\<close> the queue \<open>q\<close> consists
  of the elements \<open>xs\<close>, the oldest first; \<open>payload s x\<close> is what removing \<open>x\<close> hands out.
\<close>

datatype 'n queue_op = Append 'n | PopFront

fun queue_run :: "('q \<Rightarrow> 's \<Rightarrow> 'n \<Rightarrow> 'q \<times> 's) \<Rightarrow> ('q \<Rightarrow> 's \<Rightarrow> ('t \<times> 'q \<times> 's) outcome) \<Rightarrow>
    'n queue_op list \<Rightarrow> 'q \<Rightarrow> 's \<Rightarrow> ('t list \<times> 'q \<times> 's) outcome" where
  "queue_run app pop [] q s = Inr ([], q, s)"
| "queue_run app pop (Append n # ops) q s = (case app q s n of (q', s') \<Rightarrow> queue_run app pop ops q' s')"
| "queue_run app pop (PopFront # ops) q s =
     andthen (pop q s) (\<lambda>(t, q', s'). andthen (queue_run app pop ops q' s') (\<lambda>(ts, r). Inr (t # ts, r)))"

text \<open>The same operations on a plain list, when each is allowed: the nodes taken and what is left.\<close>

fun list_run :: "('n \<Rightarrow> bool) \<Rightarrow> 'n queue_op list \<Rightarrow> 'n list \<Rightarrow> ('n list \<times> 'n list) option" where
  "list_run usable [] xs = Some ([], xs)"
| "list_run usable (Append n # ops) xs = (if usable n \<and> n \<notin> set xs then list_run usable ops (xs @ [n]) else None)"
| "list_run usable (PopFront # ops) xs =
     (case xs of [] \<Rightarrow> None | x # ys \<Rightarrow> map_option (\<lambda>(out, r). (x # out, r)) (list_run usable ops ys))"

locale fifo =
  fixes holds :: "'q \<Rightarrow> 's \<Rightarrow> 'n list \<Rightarrow> bool"
    and usable :: "'n \<Rightarrow> bool"
    and app :: "'q \<Rightarrow> 's \<Rightarrow> 'n \<Rightarrow> 'q \<times> 's"
    and pop :: "'q \<Rightarrow> 's \<Rightarrow> ('t \<times> 'q \<times> 's) outcome"
    and payload :: "'s \<Rightarrow> 'n \<Rightarrow> 't"
  assumes app_last: "holds q s xs \<Longrightarrow> usable n \<Longrightarrow> n \<notin> set xs \<Longrightarrow>
      \<exists>q' s'. app q s n = (q', s') \<and> holds q' s' (xs @ [n]) \<and> payload s' = payload s"
    and pop_first: "holds q s (n # xs) \<Longrightarrow>
      \<exists>q' s'. pop q s = Inr (payload s n, q', s') \<and> holds q' s' xs \<and> payload s' = payload s"
begin

text \<open>Any allowed sequence of operations runs to its end and agrees with the plain list.\<close>

lemma run_refines:
  assumes "holds q s xs" "list_run usable ops xs = Some (out, ys)"
  shows "\<exists>q' s'. queue_run app pop ops q s = Inr (map (payload s) out, q', s') \<and> holds q' s' ys \<and>
     payload s' = payload s"
  using assms
proof (induction ops arbitrary: q s xs out)
  case Nil
  then show ?case by simp
next
  case (Cons opr ops)
  show ?case
  proof (cases opr)
    case (Append n)
    then have l: "usable n" "n \<notin> set xs" "list_run usable ops (xs @ [n]) = Some (out, ys)"
      using Cons.prems(2) by (auto split: if_splits)
    obtain q1 s1 where "app q s n = (q1, s1)" "holds q1 s1 (xs @ [n])" "payload s1 = payload s"
      using app_last [OF Cons.prems(1) l(1,2)] by blast
    then show ?thesis using Cons.IH [of q1 s1 "xs @ [n]" out] l(3) Append by auto
  next
    case PopFront
    then obtain x zs o1 where l: "xs = x # zs" "list_run usable ops zs = Some (o1, ys)" "out = x # o1"
      using Cons.prems(2) by (auto split: list.splits)
    obtain q1 s1 where "pop q s = Inr (payload s x, q1, s1)" "holds q1 s1 zs" "payload s1 = payload s"
      using pop_first [of q s x zs] Cons.prems(1) l(1) by blast
    then show ?thesis using Cons.IH [of q1 s1 zs o1] l PopFront by auto
  qed
qed

text \<open>Everything in the queue comes out, the oldest first, and the queue is empty then.\<close>

lemma drain:
  assumes "holds q s xs"
  shows "\<exists>q' s'. queue_run app pop (replicate (length xs) PopFront) q s = Inr (map (payload s) xs, q', s') \<and>
     holds q' s' []"
proof -
  have "list_run usable (replicate (length xs) PopFront) xs = Some (xs, [])"
    by (induction xs) auto
  then show ?thesis using run_refines [OF assms] by blast
qed

end

lemma same_links_thread: "same_links A ns ns' \<Longrightarrow> (\<lambda>x. thread (ns' x)) = (\<lambda>x. thread (ns x))"
  by (simp add: same_links_def)

interpretation wq: fifo is_queue "\<lambda>n. n \<noteq> 0" wait_queue_append wait_queue_popfront "\<lambda>ns x. thread (ns x)"
proof
  show "\<exists>q' s'. wait_queue_append q s n = (q', s') \<and> is_queue q' s' (xs @ [n]) \<and>
      (\<lambda>x. thread (s' x)) = (\<lambda>x. thread (s x))"
    if "is_queue q s xs" "n \<noteq> 0" "n \<notin> set xs" for q s xs n
    using append_refines [OF that] same_links_thread by blast
  show "\<exists>q' s'. wait_queue_popfront q s = Inr (thread (s n), q', s') \<and> is_queue q' s' xs \<and>
      (\<lambda>x. thread (s' x)) = (\<lambda>x. thread (s x))"
    if "is_queue q s (n # xs)" for q s n xs
    using popfront_refines [OF that] same_links_thread by blast
qed

section \<open>Properties\<close>

text \<open>C33. The wait queues are first-in first-out: starting from a well-linked queue, every sequence of
  \<^verbatim>\<open>wait_queue_append\<close> (of nodes not yet queued) and \<^verbatim>\<open>wait_queue_popfront\<close> (never on an empty queue)
  completes without a failed assertion, hands out the threads of exactly the nodes a plain list
  would, in the order they were appended, and leaves a well-linked queue of the rest.\<close>

theorem wait_queue_fifo:
  assumes "is_queue q ns xs" "list_run (\<lambda>n. n \<noteq> 0) ops xs = Some (out, ys)"
  shows "\<exists>q' ns'. queue_run wait_queue_append wait_queue_popfront ops q ns =
       Inr (map (\<lambda>n. thread (ns n)) out, q', ns') \<and> is_queue q' ns' ys"
  using wq.run_refines [OF assms] by blast

definition nodes0 :: nodes where
  "nodes0 = (\<lambda>p. \<lparr>thread = p - 44, nxt = 0, prev = 0\<rparr>)"

theorem wait_queue_fifo_witness:
  "\<exists>q' ns'. queue_run wait_queue_append wait_queue_popfront
       [Append 144, Append 244, PopFront, Append 344, PopFront]
       \<lparr>wait_queue_head = 0, wait_queue_tail = 0\<rparr> nodes0 = Inr ([100, 200], q', ns') \<and> is_queue q' ns' [344]"
  using wait_queue_fifo [of "\<lparr>wait_queue_head = 0, wait_queue_tail = 0\<rparr>" nodes0 "[]"
     "[Append 144, Append 244, PopFront, Append 344, PopFront]" "[144, 244]" "[344]"]
  by (simp add: is_queue_def nodes0_def)

text \<open>The lists of the scheduler: on a well-linked list \<^verbatim>\<open>thread_list_add\<close> puts a new node in front,
  and \<^verbatim>\<open>thread_list_remove\<close> takes a node out of any position without a failed assertion, joining its
  neighbours in both directions and clearing its own links; adding and then removing a node gives back the
  list there was. No node outside the list changes.\<close>

theorem thread_list_add_remove:
  assumes "dll ns 0 head xs" "node \<noteq> 0" "node \<notin> set xs" "n \<in> set xs"
  shows "\<exists>ns' head1 ns1 head2 ns2. thread_list_add head ns node = (node, ns') \<and> dll ns' 0 node (node # xs) \<and>
     thread_list_remove node ns' n = Inr (head1, ns1) \<and> dll ns1 0 head1 (node # remove1 n xs) \<and>
     nxt (ns1 n) = 0 \<and> prev (ns1 n) = 0 \<and>
     thread_list_remove node ns' node = Inr (head2, ns2) \<and> dll ns2 0 head2 xs \<and>
     same_links (insert node (set xs)) ns ns1 \<and> same_links (insert node (set xs)) ns ns2"
proof -
  obtain ns' where a: "thread_list_add head ns node = (node, ns')" "dll ns' 0 node (node # xs)"
    "same_links (insert node (set xs)) ns ns'"
    using list_add_refines [OF assms(1-3)] by blast
  obtain us vs where uv: "xs = us @ n # vs" "n \<notin> set us"
    using split_list_first [OF assms(4)] by blast
  obtain head1 ns1 where r: "thread_list_remove node ns' n = Inr (head1, ns1)" "dll ns1 0 head1 ((node # us) @ vs)"
    "nxt (ns1 n) = 0" "prev (ns1 n) = 0" "same_links (set ((node # us) @ n # vs)) ns' ns1"
    using list_remove_refines [of ns' node "node # us" n vs] a(2) uv(1) by auto
  obtain head2 ns2 where c: "thread_list_remove node ns' node = Inr (head2, ns2)" "dll ns2 0 head2 xs"
    "same_links (set (node # xs)) ns' ns2"
    using list_remove_refines [of ns' node "[]" node "xs"] a(2) by auto
  have "node # remove1 n xs = (node # us) @ vs" using uv by (simp add: remove1_append)
  moreover have "same_links (insert node (set xs)) ns ns1"
    by (rule same_links_mono [OF same_links_trans [OF a(3) r(5)]]) (use uv(1) in auto)
  moreover have "same_links (insert node (set xs)) ns ns2"
    by (rule same_links_mono [OF same_links_trans [OF a(3) c(3)]]) auto
  ultimately show ?thesis using a(1,2) r c by metis
qed

text \<open>The two-node list 144, 244 for the witness.\<close>

definition nodes2 :: nodes where
  "nodes2 = set_prev (set_nxt nodes0 144 244) 244 144"

theorem thread_list_add_remove_witness:
  "\<exists>ns' head1 ns1 head2 ns2. thread_list_add 144 nodes2 344 = (344, ns') \<and> dll ns' 0 344 [344, 144, 244] \<and>
     thread_list_remove 344 ns' 144 = Inr (head1, ns1) \<and> dll ns1 0 head1 [344, 244] \<and>
     thread_list_remove 344 ns' 344 = Inr (head2, ns2) \<and> dll ns2 0 head2 [144, 244]"
proof -
  have d: "dll nodes2 0 144 [144, 244]" by (simp add: nodes2_def nodes0_def)
  then show ?thesis using thread_list_add_remove [of nodes2 144 "[144, 244]" 344 144] by auto
qed

end
