(* ===== verification/ThreadState.thy ===== *)
theory ThreadState
  imports ThreadList Machine Kmalloc
begin

text \<open>
  The state of the thread system, shared by \<^verbatim>\<open>src/kernel/thread.c\<close>, \<^verbatim>\<open>src/kernel/synch.c\<close>,
  the interrupt handler of the timer and the locked entry points of the heap and the serial ports.
  Thread control blocks, list nodes and synchronisation objects are typed stores indexed by address;
  the nodes embedded in a thread at \<^verbatim>\<open>all_list\<close> and \<^verbatim>\<open>local_list\<close> have their own address each and their
  own store, since a node of one kind is never linked into a list of the other kind. The heap and
  the stacks are the byte memory of the allocator.
\<close>

section \<open>Threads\<close>

datatype ThreadStatus = ThreadStatus_Ready | ThreadStatus_Running | ThreadStatus_Blocked
  | ThreadStatus_Sleeping | ThreadStatus_Zombie
datatype BlockerType = BlockerType_None | BlockerType_Mutex | BlockerType_Semaphore | BlockerType_CondVar

primrec status_code :: "ThreadStatus \<Rightarrow> u32" where
  "status_code ThreadStatus_Ready = 0" | "status_code ThreadStatus_Running = 1"
| "status_code ThreadStatus_Blocked = 2" | "status_code ThreadStatus_Sleeping = 3"
| "status_code ThreadStatus_Zombie = 4"

record tcb =
  tid :: u32
  esp :: u32
  status :: ThreadStatus
  exit_code :: u32
  wakeup_ticks :: u32
  stack_base :: u32
  blocker_type :: BlockerType
  blocked_on :: u32

text \<open>The addresses \<^verbatim>\<open>&t->all_list\<close> and \<^verbatim>\<open>&t->local_list\<close>: the two nodes follow the eight words above.\<close>

definition all_node :: "u32 \<Rightarrow> u32" where
  "all_node t = t + 32"

definition local_node :: "u32 \<Rightarrow> u32" where
  "local_node t = t + 44"

abbreviation sizeof_thread_t :: u32 where "sizeof_thread_t \<equiv> 56"
abbreviation THREAD_STACK_SPACE :: u32 where "THREAD_STACK_SPACE \<equiv> 65536"

section \<open>Synchronisation objects\<close>

text \<open>
  The first member of \<^verbatim>\<open>mutex_t\<close> is its semaphore, so the semaphore of the mutex at address \<open>m\<close> is the
  one at address \<open>m\<close>. A condition variable is a wait queue.
\<close>

record semaphore =
  sem_count :: u32
  sem_queue :: wqueue

record mutex =
  holder :: u32
  recursion_count :: u32

section \<open>The kernel\<close>

text \<open>
  Addresses the linker chooses: the static idle thread and its stack, the static locks, and the code
  addresses stored in new stacks.
\<close>

record kernel_image =
  idle_thread_addr :: u32
  idle_stack :: u32
  all_threads_lock :: u32
  local_threads_lock :: u32
  free_list_lock :: u32
  serial_lock :: "COMPort \<Rightarrow> u32"
  thread_exit_addr :: u32
  cpu_idle_loop_addr :: u32

record kern =
  image :: kernel_image
  all_links :: nodes
  local_links :: nodes
  tcbs :: "u32 \<Rightarrow> tcb"
  all_threads :: u32
  ready_threads :: u32
  sleeping_threads :: u32
  zombie_threads :: u32
  current_thread :: u32
  next_tid :: u32
  threads_inited :: bool
  sems :: "u32 \<Rightarrow> semaphore"
  mutexes :: "u32 \<Rightarrow> mutex"
  condvars :: "u32 \<Rightarrow> wqueue"
  serial_locks_initialized :: "COMPort \<Rightarrow> bool"
  timer_ticks :: u32
  first_tick :: bool
  esp_reg :: u32
  heap :: km_state
  hw :: machine

abbreviation idle_thread :: "kern \<Rightarrow> u32" where
  "idle_thread s \<equiv> idle_thread_addr (image s)"

definition upd_tcb :: "u32 \<Rightarrow> (tcb \<Rightarrow> tcb) \<Rightarrow> kern \<Rightarrow> kern" where
  "upd_tcb t f s = s\<lparr>tcbs := (tcbs s)(t := f (tcbs s t))\<rparr>"

definition set_status :: "u32 \<Rightarrow> ThreadStatus \<Rightarrow> kern \<Rightarrow> kern" where
  "set_status t st = upd_tcb t (\<lambda>c. c\<lparr>status := st\<rparr>)"

definition set_blocker :: "u32 \<Rightarrow> u32 \<Rightarrow> BlockerType \<Rightarrow> kern \<Rightarrow> kern" where
  "set_blocker t obj ty = upd_tcb t (\<lambda>c. c\<lparr>blocked_on := obj, blocker_type := ty\<rparr>)"

definition irq_off :: "kern \<Rightarrow> bool \<times> kern" where
  "irq_off s = (case interrupt_disable (hw s) of (b, h) \<Rightarrow> (b, s\<lparr>hw := h\<rparr>))"

definition irq_restore :: "bool \<Rightarrow> kern \<Rightarrow> kern" where
  "irq_restore b s = s\<lparr>hw := interrupt_restore b (hw s)\<rparr>"

definition say :: "string \<Rightarrow> printf_arg list \<Rightarrow> kern \<Rightarrow> kern" where
  "say format args s = s\<lparr>hw := unsafe_printf format args (hw s)\<rparr>"

section \<open>The thread lists\<close>

text \<open>\<^verbatim>\<open>thread_list_add\<close> and \<^verbatim>\<open>thread_list_remove\<close> applied to each of the four static lists.\<close>

definition all_add :: "u32 \<Rightarrow> kern \<Rightarrow> kern" where
  "all_add t s = (case thread_list_add (all_threads s) (all_links s) (all_node t) of
     (h, ns) \<Rightarrow> s\<lparr>all_threads := h, all_links := ns\<rparr>)"

definition all_remove :: "u32 \<Rightarrow> kern \<Rightarrow> kern outcome" where
  "all_remove t s = andthen (thread_list_remove (all_threads s) (all_links s) (all_node t)) (\<lambda>(h, ns).
     Inr (s\<lparr>all_threads := h, all_links := ns\<rparr>))"

definition ready_add :: "u32 \<Rightarrow> kern \<Rightarrow> kern" where
  "ready_add t s = (case thread_list_add (ready_threads s) (local_links s) (local_node t) of
     (h, ns) \<Rightarrow> s\<lparr>ready_threads := h, local_links := ns\<rparr>)"

definition sleeping_add :: "u32 \<Rightarrow> kern \<Rightarrow> kern" where
  "sleeping_add t s = (case thread_list_add (sleeping_threads s) (local_links s) (local_node t) of
     (h, ns) \<Rightarrow> s\<lparr>sleeping_threads := h, local_links := ns\<rparr>)"

definition zombie_add :: "u32 \<Rightarrow> kern \<Rightarrow> kern" where
  "zombie_add t s = (case thread_list_add (zombie_threads s) (local_links s) (local_node t) of
     (h, ns) \<Rightarrow> s\<lparr>zombie_threads := h, local_links := ns\<rparr>)"

text \<open>The node is given by its address, as the walk over the list has it.\<close>

definition ready_remove :: "u32 \<Rightarrow> kern \<Rightarrow> kern outcome" where
  "ready_remove node s = andthen (thread_list_remove (ready_threads s) (local_links s) node) (\<lambda>(h, ns).
     Inr (s\<lparr>ready_threads := h, local_links := ns\<rparr>))"

definition sleeping_remove :: "u32 \<Rightarrow> kern \<Rightarrow> kern outcome" where
  "sleeping_remove node s = andthen (thread_list_remove (sleeping_threads s) (local_links s) node) (\<lambda>(h, ns).
     Inr (s\<lparr>sleeping_threads := h, local_links := ns\<rparr>))"

definition zombie_remove :: "u32 \<Rightarrow> kern \<Rightarrow> kern outcome" where
  "zombie_remove node s = andthen (thread_list_remove (zombie_threads s) (local_links s) node) (\<lambda>(h, ns).
     Inr (s\<lparr>zombie_threads := h, local_links := ns\<rparr>))"

definition thread_unblock :: "u32 \<Rightarrow> kern \<Rightarrow> kern outcome" where
  "thread_unblock t s =
     andthen (kernel_assert (status (tcbs s t) = ThreadStatus_Blocked)
       ''thread_unblock(): Expect thread to be blocked on entry'') (\<lambda>_.
     Inr (ready_add t (set_blocker t 0 BlockerType_None (set_status t ThreadStatus_Ready s))))"

end
