(* ===== verification/Synch.thy ===== *)
theory Synch
  imports ThreadState
begin

text \<open>
  The synchronisation primitives of \<^verbatim>\<open>src/kernel/synch.c\<close>. A primitive can give up the processor in the
  middle (\<^verbatim>\<open>thread_yield\<close>, the interrupt \<^verbatim>\<open>0x20\<close>) and continues when its thread runs again, in whatever
  state the kernel is in then. Routines are therefore resumptions: they return a value, fail, or
  yield with the rest of their work as a function of the later state.
\<close>

section \<open>Resumptions\<close>

datatype ('s, 'a) act = Return 'a 's | Yield 's "'s \<Rightarrow> ('s, 'a) act" | Stop kerror

type_synonym 'a routine = "(kern, 'a) act"

primrec bind_act :: "('s, 'a) act \<Rightarrow> ('a \<Rightarrow> 's \<Rightarrow> ('s, 'b) act) \<Rightarrow> ('s, 'b) act" where
  "bind_act (Return x s) f = f x s"
| "bind_act (Yield s k) f = Yield s (\<lambda>s'. bind_act (k s') f)"
| "bind_act (Stop e) f = Stop e"

definition lift :: "('a \<times> 's) outcome \<Rightarrow> ('s, 'a) act" where
  "lift r = (case r of Inl e \<Rightarrow> Stop e | Inr (x, s) \<Rightarrow> Return x s)"

definition lift_unit :: "'s outcome \<Rightarrow> ('s, unit) act" where
  "lift_unit r = (case r of Inl e \<Rightarrow> Stop e | Inr s \<Rightarrow> Return () s)"

lemma lift_simps [simp]: "lift (Inl e) = Stop e" "lift (Inr (x, s)) = Return x s"
  "lift_unit (Inl e) = Stop e" "lift_unit (Inr s) = Return () s"
  by (simp_all add: lift_def lift_unit_def)

lemma bind_act_assoc: "bind_act (bind_act a f) g = bind_act a (\<lambda>x s. bind_act (f x s) g)"
  by (induction a) auto

lemma bind_act_Return [simp]: "bind_act a Return = a"
  by (induction a) auto

definition thread_yield :: "kern \<Rightarrow> unit routine" where
  "thread_yield s = Yield s (\<lambda>s'. Return () s')"

section \<open>Semaphores\<close>

definition upd_sem :: "u32 \<Rightarrow> (semaphore \<Rightarrow> semaphore) \<Rightarrow> kern \<Rightarrow> kern" where
  "upd_sem a f s = s\<lparr>sems := (sems s)(a := f (sems s a))\<rparr>"

definition semaphore_init :: "u32 \<Rightarrow> u32 \<Rightarrow> kern \<Rightarrow> kern" where
  "semaphore_init sem initial_count =
     upd_sem sem (\<lambda>_. \<lparr>sem_count = initial_count, sem_queue = \<lparr>wait_queue_head = 0, wait_queue_tail = 0\<rparr>\<rparr>)"

text \<open>The current thread joins the queue of a semaphore; the first thread leaves it.\<close>

definition sem_append :: "u32 \<Rightarrow> u32 \<Rightarrow> kern \<Rightarrow> kern" where
  "sem_append sem t s =
     (case wait_queue_append (sem_queue (sems s sem)) (local_links s) (local_node t) of (q, ns) \<Rightarrow>
        upd_sem sem (\<lambda>c. c\<lparr>sem_queue := q\<rparr>) (s\<lparr>local_links := ns\<rparr>))"

definition sem_pop :: "u32 \<Rightarrow> kern \<Rightarrow> (u32 \<times> kern) outcome" where
  "sem_pop sem s =
     andthen (wait_queue_popfront (sem_queue (sems s sem)) (local_links s)) (\<lambda>(t, q, ns).
       Inr (t, upd_sem sem (\<lambda>c. c\<lparr>sem_queue := q\<rparr>) (s\<lparr>local_links := ns\<rparr>)))"

definition semaphore_down :: "u32 \<Rightarrow> kern \<Rightarrow> unit routine" where
  "semaphore_down sem s =
     (if current_thread s = 0 then
        Stop (Panic ''semaphore_down(): current thread is NULL, probably called before thread initialization'')
      else
        case irq_off s of (interrupts, s1) \<Rightarrow>
        let s2 = upd_sem sem (\<lambda>c. c\<lparr>sem_count := sem_count c - 1\<rparr>) s1;
            cur = current_thread s2
        in if sint (sem_count (sems s2 sem)) < 0 then
             let s3 = set_status cur ThreadStatus_Blocked s2;
                 s4 = (if blocker_type (tcbs s3 cur) = BlockerType_None
                       then set_blocker cur sem BlockerType_Semaphore s3 else s3);
                 s5 = sem_append sem cur s4
             in bind_act (thread_yield s5) (\<lambda>_ s6. Return () (irq_restore interrupts s6))
           else Return () (irq_restore interrupts s2))"

definition semaphore_try_down :: "u32 \<Rightarrow> kern \<Rightarrow> (bool \<times> kern) outcome" where
  "semaphore_try_down sem s =
     andthen (kernel_assert (current_thread s \<noteq> 0)
       ''semaphore_try_down(): current thread is NULL, probably called before thread initialization'') (\<lambda>_.
     case irq_off s of (interrupts, s1) \<Rightarrow>
       if sint (sem_count (sems s1 sem)) > 0
       then Inr (True, irq_restore interrupts (upd_sem sem (\<lambda>c. c\<lparr>sem_count := sem_count c - 1\<rparr>) s1))
       else Inr (False, irq_restore interrupts s1))"

definition semaphore_up :: "u32 \<Rightarrow> kern \<Rightarrow> kern outcome" where
  "semaphore_up sem s =
     andthen (kernel_assert (current_thread s \<noteq> 0)
       ''semaphore_up(): current thread is NULL, probably called before thread initialization'') (\<lambda>_.
     case irq_off s of (interrupts, s1) \<Rightarrow>
     let s2 = upd_sem sem (\<lambda>c. c\<lparr>sem_count := sem_count c + 1\<rparr>) s1
     in andthen
          (if wait_queue_head (sem_queue (sems s2 sem)) \<noteq> 0
           then andthen (sem_pop sem s2) (\<lambda>(wake_thread, s3). thread_unblock wake_thread s3)
           else Inr s2)
          (\<lambda>s4. Inr (irq_restore interrupts s4)))"

section \<open>Mutexes\<close>

definition upd_mutex :: "u32 \<Rightarrow> (mutex \<Rightarrow> mutex) \<Rightarrow> kern \<Rightarrow> kern" where
  "upd_mutex m f s = s\<lparr>mutexes := (mutexes s)(m := f (mutexes s m))\<rparr>"

definition mutex_init :: "u32 \<Rightarrow> kern \<Rightarrow> kern" where
  "mutex_init m s = upd_mutex m (\<lambda>_. \<lparr>holder = 0, recursion_count = 0\<rparr>) (semaphore_init m 1 s)"

definition mutex_acquire :: "u32 \<Rightarrow> kern \<Rightarrow> unit routine" where
  "mutex_acquire m s =
     (if current_thread s = 0 then
        Stop (Panic ''mutex_acquire(): current thread is NULL, probably called before thread initialization'')
      else
        case irq_off s of (interrupts, s1) \<Rightarrow>
        if holder (mutexes s1 m) = current_thread s1 then
          Return () (irq_restore interrupts
            (upd_mutex m (\<lambda>c. c\<lparr>recursion_count := recursion_count c + 1\<rparr>) s1))
        else
          let s2 = set_blocker (current_thread s1) m BlockerType_Mutex s1
          in bind_act (semaphore_down m s2) (\<lambda>_ s3.
               Return () (irq_restore interrupts
                 (upd_mutex m (\<lambda>_. \<lparr>holder = current_thread s3, recursion_count = 1\<rparr>) s3))))"

definition mutex_try_acquire :: "u32 \<Rightarrow> kern \<Rightarrow> (bool \<times> kern) outcome" where
  "mutex_try_acquire m s =
     andthen (kernel_assert (current_thread s \<noteq> 0)
       ''mutex_try_acquire(): current thread is NULL, probably called before thread initialization'') (\<lambda>_.
     if holder (mutexes s m) = current_thread s then
       Inr (True, upd_mutex m (\<lambda>c. c\<lparr>recursion_count := recursion_count c + 1\<rparr>) s)
     else
       andthen (semaphore_try_down m s) (\<lambda>(success, s1).
         if success
         then Inr (True, upd_mutex m (\<lambda>_. \<lparr>holder = current_thread s1, recursion_count = 1\<rparr>) s1)
         else Inr (False, s1)))"

definition mutex_release :: "u32 \<Rightarrow> kern \<Rightarrow> kern outcome" where
  "mutex_release m s =
     andthen (kernel_assert (current_thread s \<noteq> 0)
       ''mutex_release(): current thread is NULL, probably called before thread initialization'') (\<lambda>_.
     case irq_off s of (interrupts, s1) \<Rightarrow>
     andthen (kernel_assert (holder (mutexes s1 m) = current_thread s1)
       ''mutex_release(): Owner thread must release the lock'') (\<lambda>_.
     let s2 = upd_mutex m (\<lambda>c. c\<lparr>recursion_count := recursion_count c - 1\<rparr>) s1
     in andthen (kernel_assert (recursion_count (mutexes s2 m) \<noteq> 0xFFFFFFFF) ''mutex_release(): Overflow'') (\<lambda>_.
        andthen
          (if recursion_count (mutexes s2 m) = 0
           then semaphore_up m (upd_mutex m (\<lambda>c. c\<lparr>holder := 0\<rparr>) s2)
           else Inr s2)
          (\<lambda>s3. Inr (irq_restore interrupts s3)))))"

section \<open>Condition variables\<close>

definition upd_cond :: "u32 \<Rightarrow> wqueue \<Rightarrow> kern \<Rightarrow> kern" where
  "upd_cond c q s = s\<lparr>condvars := (condvars s)(c := q)\<rparr>"

definition condvar_init :: "u32 \<Rightarrow> kern \<Rightarrow> kern" where
  "condvar_init c = upd_cond c \<lparr>wait_queue_head = 0, wait_queue_tail = 0\<rparr>"

definition cond_append :: "u32 \<Rightarrow> u32 \<Rightarrow> kern \<Rightarrow> kern" where
  "cond_append c t s =
     (case wait_queue_append (condvars s c) (local_links s) (local_node t) of (q, ns) \<Rightarrow>
        upd_cond c q (s\<lparr>local_links := ns\<rparr>))"

definition cond_pop :: "u32 \<Rightarrow> kern \<Rightarrow> (u32 \<times> kern) outcome" where
  "cond_pop c s =
     andthen (wait_queue_popfront (condvars s c) (local_links s)) (\<lambda>(t, q, ns).
       Inr (t, upd_cond c q (s\<lparr>local_links := ns\<rparr>)))"

definition condvar_wait :: "u32 \<Rightarrow> u32 \<Rightarrow> kern \<Rightarrow> unit routine" where
  "condvar_wait c m s =
     (if current_thread s = 0 then
        Stop (Panic ''condvar_wait(): current thread is NULL, probably called before thread initialization'')
      else
        case irq_off s of (interrupts, s1) \<Rightarrow>
        let cur = current_thread s1;
            s2 = set_blocker cur c BlockerType_CondVar (set_status cur ThreadStatus_Blocked s1);
            s3 = cond_append c cur s2
        in bind_act (lift_unit (mutex_release m s3)) (\<lambda>_ s4.
           bind_act (thread_yield s4) (\<lambda>_ s5.
           mutex_acquire m (irq_restore interrupts s5))))"

definition condvar_signal :: "u32 \<Rightarrow> kern \<Rightarrow> kern outcome" where
  "condvar_signal c s =
     andthen (kernel_assert (current_thread s \<noteq> 0)
       ''condvar_signal(): current thread is NULL, probably called before thread initialization'') (\<lambda>_.
     case irq_off s of (interrupts, s1) \<Rightarrow>
     andthen
       (if wait_queue_head (condvars s1 c) \<noteq> 0
        then andthen (cond_pop c s1) (\<lambda>(wake_thread, s2). thread_unblock wake_thread s2)
        else Inr s1)
       (\<lambda>s3. Inr (irq_restore interrupts s3)))"

partial_function (option) broadcast_from :: "u32 \<Rightarrow> kern \<Rightarrow> kern outcome option" where
  "broadcast_from c s =
     (if wait_queue_head (condvars s c) \<noteq> 0 then
        let r = andthen (cond_pop c s) (\<lambda>(wake_thread, s1). thread_unblock wake_thread s1)
        in if isl r then Some r else broadcast_from c (projr r)
      else Some (Inr s))"

definition condvar_broadcast :: "u32 \<Rightarrow> kern \<Rightarrow> kern outcome" where
  "condvar_broadcast c s =
     andthen (kernel_assert (current_thread s \<noteq> 0)
       ''condvar_broadcast(): current thread is NULL, probably called before thread initialization'') (\<lambda>_.
     case irq_off s of (interrupts, s1) \<Rightarrow>
     andthen (settle_loop (broadcast_from c s1)) (\<lambda>s2. Inr (irq_restore interrupts s2)))"

end
