(* ===== verification/Locked.thy ===== *)
theory Locked
  imports Synch
begin

text \<open>
  The entry points that take a lock: the allocator functions of \<^verbatim>\<open>mem/kmalloc.h\<close> around the heap routines,
  and the serial port functions of \<^verbatim>\<open>src/io/io.c\<close>. A call blocks while another thread holds the lock.
\<close>

section \<open>The heap\<close>

definition with_heap :: "('a \<times> km_state) outcome \<Rightarrow> kern \<Rightarrow> 'a routine" where
  "with_heap r s = (case r of Inl e \<Rightarrow> Stop e | Inr (x, h) \<Rightarrow> Return x (s\<lparr>heap := h\<rparr>))"

definition kmalloc :: "u32 \<Rightarrow> kern \<Rightarrow> u32 routine" where
  "kmalloc sz s =
     (let lock = free_list_lock (image s)
      in bind_act (mutex_acquire lock (say ''ALLOCATING\<newline>'' [] s)) (\<lambda>_ s1.
         bind_act (with_heap (kmalloc_unsafe (heap s1) sz) s1) (\<lambda>ptr s2.
         bind_act (lift_unit (mutex_release lock s2)) (\<lambda>_ s3. Return ptr s3))))"

definition kcalloc :: "u32 \<Rightarrow> u32 \<Rightarrow> kern \<Rightarrow> u32 routine" where
  "kcalloc nelems elemsize s =
     (let lock = free_list_lock (image s)
      in bind_act (mutex_acquire lock (say ''CALLOCATING\<newline>'' [] s)) (\<lambda>_ s1.
         bind_act (with_heap (kcalloc_unsafe (heap s1) nelems elemsize) s1) (\<lambda>ptr s2.
         bind_act (lift_unit (mutex_release lock s2)) (\<lambda>_ s3. Return ptr s3))))"

definition krealloc :: "u32 \<Rightarrow> u32 \<Rightarrow> kern \<Rightarrow> u32 routine" where
  "krealloc ptr sz s =
     (let lock = free_list_lock (image s)
      in bind_act (mutex_acquire lock s) (\<lambda>_ s1.
         bind_act (with_heap (krealloc_unsafe (heap s1) ptr sz) s1) (\<lambda>new_ptr s2.
         bind_act (lift_unit (mutex_release lock s2)) (\<lambda>_ s3. Return new_ptr s3))))"

definition kfree :: "u32 \<Rightarrow> kern \<Rightarrow> unit routine" where
  "kfree ptr s =
     (let lock = free_list_lock (image s)
      in bind_act (mutex_acquire lock s) (\<lambda>_ s1.
         bind_act (with_heap (andthen (kfree_unsafe (heap s1) ptr) (\<lambda>h. Inr ((), h))) s1) (\<lambda>_ s2.
         lift_unit (mutex_release lock s2))))"

section \<open>Serial ports\<close>

definition io_serial_init ::
  "COMPort \<Rightarrow> u16 \<Rightarrow> COMDataBits \<Rightarrow> COMStopBits \<Rightarrow> COMParityBits \<Rightarrow> kern \<Rightarrow> kern" where
  "io_serial_init port divisor databits stopbits paritybits s =
     (let s1 = s\<lparr>hw := io_serial_init_regs port divisor databits stopbits paritybits (hw s)\<rparr>;
          s2 = mutex_init (serial_lock (image s1) port) s1;
          s3 = s2\<lparr>serial_locks_initialized := (serial_locks_initialized s2)(port := True)\<rparr>
      in say ''Initialized COM%u port\<newline>'' [Val (com_index port)] s3)"

text \<open>What the four printing functions share: the port's lock around a change of the machine.\<close>

definition with_port :: "COMPort \<Rightarrow> string \<Rightarrow> (kern \<Rightarrow> machine outcome) \<Rightarrow> kern \<Rightarrow> unit routine" where
  "with_port port msg output s =
     (if \<not> serial_locks_initialized s port then Stop (Panic msg)
      else
        let lock = serial_lock (image s) port
        in bind_act (mutex_acquire lock s) (\<lambda>_ s1.
           bind_act (lift_unit (andthen (output s1) (\<lambda>h. Inr (s1\<lparr>hw := h\<rparr>)))) (\<lambda>_ s2.
           lift_unit (mutex_release lock s2))))"

definition io_serial_outstr :: "COMPort \<Rightarrow> u32 \<Rightarrow> kern \<Rightarrow> unit routine" where
  "io_serial_outstr port str =
     with_port port ''io_serial_outstr(): Serial locks are not initialized''
       (\<lambda>s. settle (io_writestr (io_outb_map port) (mem (heap s)) str (hw s)))"

definition io_serial_outint :: "COMPort \<Rightarrow> u32 \<Rightarrow> kern \<Rightarrow> unit routine" where
  "io_serial_outint port d =
     with_port port ''io_serial_outint(): Serial locks are not initialized''
       (\<lambda>s. Inr (io_writeint (io_outb_map port) d (hw s)))"

definition io_serial_outbool :: "COMPort \<Rightarrow> bool \<Rightarrow> kern \<Rightarrow> unit routine" where
  "io_serial_outbool port b =
     with_port port ''io_serial_outbool(): Serial locks are not initialized''
       (\<lambda>s. Inr (io_writebool (io_outb_map port) b (hw s)))"

definition io_serial_printf :: "COMPort \<Rightarrow> string \<Rightarrow> printf_arg list \<Rightarrow> kern \<Rightarrow> unit routine" where
  "io_serial_printf port format args s =
     (if \<not> interrupt_is_enabled (hw s) then Stop (Panic ''io_serial_printf(): interrupts must be enabled'')
      else
        with_port port ''io_serial_printf(): serial locks are not initialized''
          (\<lambda>s1. Inr (io_serial_unsafe_printf port format args (hw s1))) s)"

definition printf :: "string \<Rightarrow> printf_arg list \<Rightarrow> kern \<Rightarrow> unit routine" where
  "printf = io_serial_printf COMPort_1"

text \<open>
  The waiting loop of \<^verbatim>\<open>io_serial_nextinb\<close>. The fuel bounds the number of times it gives up the processor;
  each time the timer interrupt advances \<^verbatim>\<open>timer_ticks\<close>, so \<open>0x10000\<close> is more than the loop can use.
\<close>

fun spin_until :: "nat \<Rightarrow> u32 \<Rightarrow> kern \<Rightarrow> unit routine" where
  "spin_until n end_ticks s =
     (if timer_ticks s < end_ticks then
        (case n of 0 \<Rightarrow> Stop Diverge | Suc k \<Rightarrow> bind_act (thread_yield s) (\<lambda>_ s'. spin_until k end_ticks s'))
      else Return () s)"

definition io_serial_nextinb :: "device \<Rightarrow> COMPort \<Rightarrow> kern \<Rightarrow> (u8 option) routine" where
  "io_serial_nextinb dev port s =
     (let end_ticks = timer_ticks s + 0xFFFF;
          lock = serial_lock (image s) port
      in if \<not> serial_locks_initialized s port
         then Stop (Panic ''io_serial_nextinb(): Serial locks are not initialized'')
         else
           bind_act (mutex_acquire lock s) (\<lambda>_ s1.
           bind_act (spin_until 0x10000 end_ticks s1) (\<lambda>_ s2.
           case io_serial_data_ready dev port (hw s2) of (ready, h) \<Rightarrow>
             if \<not> ready then
               bind_act (lift_unit (mutex_release lock (s2\<lparr>hw := h\<rparr>))) (\<lambda>_ s3. Return None s3)
             else
               case io_serial_inb dev port h of (data, h') \<Rightarrow>
                 bind_act (lift_unit (mutex_release lock (s2\<lparr>hw := h'\<rparr>))) (\<lambda>_ s3. Return (Some data) s3))))"

end
