(* ===== verification/Thread.thy ===== *)
theory Thread
  imports Locked Gdt
begin

text \<open>
  The scheduler and the thread operations of \<^verbatim>\<open>src/kernel/thread.c\<close>, the timer callback of
  \<^verbatim>\<open>src/io/timer.c\<close> and the interrupt handler of the timer (\<^verbatim>\<open>isr_IRQ0\<close> of
  \<^verbatim>\<open>src/io/interruptasm.s\<close>) that calls both. The scheduler runs with interrupts disabled; the one thing
  in it that could wait, the heap lock taken to free a dead thread, ends in \<open>IrqBlock\<close> when it would.
\<close>

section \<open>The scheduler\<close>

definition irq_routine :: "unit routine \<Rightarrow> kern outcome" where
  "irq_routine r = (case r of Return _ s \<Rightarrow> Inr s | Yield _ _ \<Rightarrow> Inl IrqBlock | Stop e \<Rightarrow> Inl e)"

text \<open>The body of the loop of \<^verbatim>\<open>clean_zombies\<close>.\<close>

definition clean_zombie :: "u32 \<Rightarrow> kern \<Rightarrow> kern outcome" where
  "clean_zombie t s =
     andthen (kernel_assert (status (tcbs s t) = ThreadStatus_Zombie)
       ''clean_zombies(): Expected thread in zombie list to be a zombie thread'') (\<lambda>_.
     andthen (kernel_assert (t \<noteq> idle_thread s) ''clean_zombies(): trying to deallocate the idle thread'') (\<lambda>_.
     if t \<noteq> current_thread s then
       andthen (zombie_remove (local_node t) (say ''Cleaning up Thread %u\<newline>'' [Val (tid (tcbs s t))] s)) (\<lambda>s1.
       andthen (all_remove t s1) (\<lambda>s2.
       andthen (irq_routine (kfree (stack_base (tcbs s2 t)) s2)) (\<lambda>s3.
       irq_routine (kfree t s3))))
     else Inr s))"

partial_function (option) clean_zombies_from :: "u32 \<Rightarrow> kern \<Rightarrow> kern outcome option" where
  "clean_zombies_from zombie s =
     (if zombie \<noteq> 0 then
        let t = thread (local_links s zombie);
            nx = nxt (local_links s zombie);
            r = clean_zombie t s
        in if isl r then Some r else clean_zombies_from nx (projr r)
      else Some (Inr s))"

definition clean_zombies :: "kern \<Rightarrow> kern outcome" where
  "clean_zombies s = settle_loop (clean_zombies_from (zombie_threads s) s)"

partial_function (option) last_ready :: "nodes \<Rightarrow> u32 \<Rightarrow> u32 outcome option" where
  "last_ready ns ready =
     (if nxt (ns ready) \<noteq> 0 then
        if prev (ns (nxt (ns ready))) = ready then last_ready ns (nxt (ns ready))
        else Some (Inl (Panic ''find_ready_thread(): linked list broken''))
      else Some (Inr ready))"

definition find_ready_thread :: "kern \<Rightarrow> (u32 \<times> kern) outcome" where
  "find_ready_thread s =
     andthen (clean_zombies s) (\<lambda>s1.
     if ready_threads s1 = 0 then
       Inr (if status (tcbs s1 (current_thread s1)) = ThreadStatus_Running
            then current_thread s1 else idle_thread s1, s1)
     else
       andthen (settle_loop (last_ready (local_links s1) (ready_threads s1))) (\<lambda>ready.
       andthen (ready_remove ready s1) (\<lambda>s2.
       Inr (thread (local_links s2 ready), s2))))"

text \<open>Where the thread that leaves the processor goes.\<close>

definition put_away :: "u32 \<Rightarrow> kern \<Rightarrow> kern outcome" where
  "put_away old s =
     (if old = idle_thread s then Inr (set_status old ThreadStatus_Ready s)
      else
        case status (tcbs s old) of
          ThreadStatus_Running \<Rightarrow> Inr (ready_add old (set_status old ThreadStatus_Ready s))
        | ThreadStatus_Sleeping \<Rightarrow> Inr (sleeping_add old s)
        | ThreadStatus_Zombie \<Rightarrow> Inr (zombie_add old s)
        | ThreadStatus_Blocked \<Rightarrow> Inr s
        | ThreadStatus_Ready \<Rightarrow> kernel_panic ''schedule(): TODO: thread %u (status=%u)'')"

definition schedule :: "u32 \<Rightarrow> kern \<Rightarrow> kern outcome" where
  "schedule next_thread s =
     (if current_thread s = next_thread then
        andthen (kernel_assert (status (tcbs s (current_thread s)) = ThreadStatus_Running)
          ''schedule(): Expect current thread to be running if we switch back'') (\<lambda>_. Inr s)
      else
        andthen (put_away (current_thread s) s) (\<lambda>s1.
        andthen (kernel_assert (status (tcbs s1 next_thread) = ThreadStatus_Ready)
          ''schedule(): Expected next thread (%u) to be in ready state (%u)'') (\<lambda>_.
        Inr (set_status next_thread ThreadStatus_Running (s1\<lparr>current_thread := next_thread\<rparr>)))))"

definition scheduler_next :: "kern \<Rightarrow> kern outcome" where
  "scheduler_next s = andthen (find_ready_thread s) (\<lambda>(t, s1). schedule t s1)"

section \<open>The timer interrupt\<close>

text \<open>The body of the loop of \<^verbatim>\<open>thread_timer_tick\<close>.\<close>

definition wake_if_due :: "u32 \<Rightarrow> kern \<Rightarrow> kern outcome" where
  "wake_if_due t s =
     andthen (kernel_assert (status (tcbs s t) = ThreadStatus_Sleeping)
       ''thread_timer_tick(): Expected sleeping thread to have correct status'') (\<lambda>_.
     if wakeup_ticks (tcbs s t) \<le> timer_ticks s then
       andthen (sleeping_remove (local_node t) s) (\<lambda>s1.
       Inr (ready_add t (set_status t ThreadStatus_Ready s1)))
     else Inr s)"

partial_function (option) timer_tick_from :: "u32 \<Rightarrow> kern \<Rightarrow> kern outcome option" where
  "timer_tick_from sleeping s =
     (if sleeping \<noteq> 0 then
        let t = thread (local_links s sleeping);
            nx = nxt (local_links s sleeping);
            r = wake_if_due t s
        in if isl r then Some r else timer_tick_from nx (projr r)
      else Some (Inr s))"

definition thread_timer_tick :: "kern \<Rightarrow> kern outcome" where
  "thread_timer_tick s = settle_loop (timer_tick_from (sleeping_threads s) s)"

definition timer_callback :: "kern \<Rightarrow> kern outcome" where
  "timer_callback s =
     (let s1 = (if first_tick s then say ''Timer Alive\<newline>'' [] s else s);
          s2 = s1\<lparr>timer_ticks := timer_ticks s1 + 1, first_tick := False\<rparr>
      in thread_timer_tick s2)"

text \<open>
  The handler. The processor has pushed three words and cleared the interrupt flag, the handler pushes
  eleven more; the last two instructions take the same 14 words off the stack of the thread that
  continues, which restores that thread's registers and flags.
\<close>

definition isr_IRQ0 :: "kern \<Rightarrow> kern outcome" where
  "isr_IRQ0 s =
     andthen (timer_callback (s\<lparr>hw := cli (hw s), esp_reg := esp_reg s - 56\<rparr>)) (\<lambda>s1.
     let s2 = upd_tcb (current_thread s1) (\<lambda>c. c\<lparr>esp := esp_reg s1\<rparr>) s1;
         s3 = s2\<lparr>hw := io_outb 0x20 0x20 (hw s2)\<rparr>
     in andthen (scheduler_next s3) (\<lambda>s4.
        Inr (s4\<lparr>esp_reg := esp (tcbs s4 (current_thread s4)) + 56\<rparr>)))"

section \<open>Creating and ending threads\<close>

fun push_words :: "memory \<Rightarrow> u32 \<Rightarrow> u32 list \<Rightarrow> memory \<times> u32" where
  "push_words m stack [] = (m, stack)"
| "push_words m stack (w # ws) = push_words (store32 m (stack - 4) w) (stack - 4) ws"

text \<open>The words of a new stack in the order in which they are pushed.\<close>

definition initial_frame :: "u32 \<Rightarrow> u32 \<Rightarrow> u32 \<Rightarrow> u32 list" where
  "initial_frame exit_addr entry_point arg =
     (let cs = ucast (segselector_init SegmentKernelCode TableIndex_GDT SegmentPrivilege_Ring0);
          ds = ucast (segselector_init SegmentKernelData TableIndex_GDT SegmentPrivilege_Ring0)
      in [arg, exit_addr, EFLAGS_DEFAULT, cs, entry_point, 0, 0, 0, 0, 0, 0, 0, ds, ds, ds, ds])"

definition init_nodes :: "u32 \<Rightarrow> kern \<Rightarrow> kern" where
  "init_nodes t s = s\<lparr>all_links := thread_listnode_init (all_links s) (all_node t) t,
     local_links := thread_listnode_init (local_links s) (local_node t) t\<rparr>"

definition internal_thread_init :: "u32 \<Rightarrow> u32 \<Rightarrow> u32 \<Rightarrow> u32 \<Rightarrow> u32 \<Rightarrow> kern \<Rightarrow> kern outcome" where
  "internal_thread_init entry_point arg stack_bas stackptr t s =
     andthen (kernel_assert (next_tid s \<noteq> 0) ''internal_thread_init(): detected tid overflow'') (\<lambda>_.
     case push_words (mem (heap s)) stackptr (initial_frame (thread_exit_addr (image s)) entry_point arg) of
       (m, stack) \<Rightarrow>
         let s1 = s\<lparr>heap := (heap s)\<lparr>mem := m\<rparr>, next_tid := next_tid s + 1\<rparr>;
             s2 = upd_tcb t (\<lambda>c. c\<lparr>tid := next_tid s, esp := stack, status := ThreadStatus_Ready,
                    stack_base := stack_bas, wakeup_ticks := 0, blocked_on := 0,
                    blocker_type := BlockerType_None\<rparr>) s1;
             s3 = init_nodes t s2
         in Inr (say ''Creating thread %u\<newline>'' [Val (tid (tcbs s3 t))] s3))"

text \<open>A control block in memory that \<^verbatim>\<open>kcalloc\<close> has cleared.\<close>

definition zero_tcb :: tcb where
  "zero_tcb = \<lparr>tid = 0, esp = 0, status = ThreadStatus_Ready, exit_code = 0, wakeup_ticks = 0, stack_base = 0,
     blocker_type = BlockerType_None, blocked_on = 0\<rparr>"

definition thread_main_init :: "kern \<Rightarrow> kern outcome" where
  "thread_main_init s =
     andthen (kernel_assert (\<not> threads_inited s) ''thread_main_init(): Already initialized'') (\<lambda>_.
     let s1 = mutex_init (local_threads_lock (image s)) (mutex_init (all_threads_lock (image s))
                (s\<lparr>threads_inited := True\<rparr>))
     in andthen (kcalloc_unsafe (heap s1) 1 sizeof_thread_t) (\<lambda>(main_thread, h).
        andthen (kernel_assert (main_thread \<noteq> 0) ''thread_main_init(): kcalloc() failed'') (\<lambda>_.
        let s2 = upd_tcb main_thread (\<lambda>_. zero_tcb\<lparr>tid := 0, status := ThreadStatus_Running, blocked_on := 0,
                   blocker_type := BlockerType_None, wakeup_ticks := 0\<rparr>) (s1\<lparr>heap := h\<rparr>);
            s3 = all_add main_thread (init_nodes main_thread s2);
            s4 = s3\<lparr>current_thread := main_thread\<rparr>
        in andthen (kernel_assert (tid (tcbs s4 (current_thread s4)) = 0)
             ''thread_main_init(): expect main thread to have tid 0'') (\<lambda>_.
           andthen (internal_thread_init (cpu_idle_loop_addr (image s4)) 0 (idle_stack (image s4))
             (idle_stack (image s4) + THREAD_STACK_SPACE) (idle_thread s4) s4) (\<lambda>s5.
           let s6 = all_add (idle_thread s5) s5
           in andthen (kernel_assert (tid (tcbs s6 (idle_thread s6)) = 1)
                ''thread_main_init(): expect idle thread to have tid 1'') (\<lambda>_. Inr s6))))))"

definition thread_create_arg :: "u32 \<Rightarrow> u32 \<Rightarrow> kern \<Rightarrow> u32 routine" where
  "thread_create_arg entry_point arg s =
     bind_act (kcalloc 1 THREAD_STACK_SPACE s) (\<lambda>stack_bas s1.
     bind_act (kcalloc 1 sizeof_thread_t s1) (\<lambda>t s2.
     if stack_bas = 0 \<or> t = 0 then Stop (Panic ''internal_thread_init(): kcalloc() failed'')
     else
       bind_act (lift_unit (internal_thread_init entry_point arg stack_bas (stack_bas + THREAD_STACK_SPACE) t
         (upd_tcb t (\<lambda>_. zero_tcb) s2))) (\<lambda>_ s3.
       bind_act (mutex_acquire (all_threads_lock (image s3)) s3) (\<lambda>_ s4.
       bind_act (lift_unit (mutex_release (all_threads_lock (image s4)) (all_add t s4))) (\<lambda>_ s5.
       bind_act (mutex_acquire (local_threads_lock (image s5)) s5) (\<lambda>_ s6.
       bind_act (lift_unit (mutex_release (local_threads_lock (image s6)) (ready_add t s6))) (\<lambda>_ s7.
       Return t s7)))))))"

definition thread_create :: "u32 \<Rightarrow> kern \<Rightarrow> u32 routine" where
  "thread_create entry_point = thread_create_arg entry_point 0"

text \<open>After the yield only \<^verbatim>\<open>cpu_idle_loop\<close> follows, which never returns.\<close>

definition thread_exit :: "kern \<Rightarrow> unit routine" where
  "thread_exit s =
     (case irq_off s of (_, s1) \<Rightarrow>
      if current_thread s1 = idle_thread s1 then Stop (Panic ''thread_exit: idle thread exiting'')
      else
        let s2 = say ''Thread %u exiting\<newline>'' [Val (tid (tcbs s1 (current_thread s1)))] s1
        in bind_act (thread_yield (set_status (current_thread s2) ThreadStatus_Zombie s2)) (\<lambda>_ s3. Stop Diverge))"

definition go_to_sleep :: "u32 \<Rightarrow> kern \<Rightarrow> unit routine" where
  "go_to_sleep ticks s =
     thread_yield (set_status (current_thread s) ThreadStatus_Sleeping
       (upd_tcb (current_thread s) (\<lambda>c. c\<lparr>wakeup_ticks := timer_ticks s + ticks\<rparr>) s))"

definition thread_sleep :: "u32 \<Rightarrow> kern \<Rightarrow> unit routine" where
  "thread_sleep ticks s =
     bind_act (printf ''Thread %u Sleep for %u ticks\<newline>'' [Val (tid (tcbs s (current_thread s))), Val ticks] s) (\<lambda>_ s1.
     bind_act (go_to_sleep ticks s1) (\<lambda>_ s2.
     printf ''Thread %u woke up after %u ticks\<newline>'' [Val (tid (tcbs s2 (current_thread s2))), Val ticks] s2))"

section \<open>Queries\<close>

partial_function (option) count_from :: "nodes \<Rightarrow> u32 \<Rightarrow> u32 \<Rightarrow> u32 option" where
  "count_from ns cur n = (if cur \<noteq> 0 then count_from ns (nxt (ns cur)) (n + 1) else Some n)"

definition count_locked :: "u32 \<Rightarrow> (kern \<Rightarrow> nodes) \<Rightarrow> (kern \<Rightarrow> u32) \<Rightarrow> kern \<Rightarrow> u32 routine" where
  "count_locked lock links head s =
     bind_act (mutex_acquire lock s) (\<lambda>_ s1.
     bind_act (lift (andthen (settle (count_from (links s1) (head s1) 0)) (\<lambda>n. Inr (n, s1)))) (\<lambda>n s2.
     bind_act (lift_unit (mutex_release lock s2)) (\<lambda>_ s3. Return n s3)))"

definition thread_count :: "kern \<Rightarrow> u32 routine" where
  "thread_count s = count_locked (all_threads_lock (image s)) all_links all_threads s"

definition thread_count_ready :: "kern \<Rightarrow> u32 routine" where
  "thread_count_ready s = count_locked (local_threads_lock (image s)) local_links ready_threads s"

definition thread_count_sleeping :: "kern \<Rightarrow> u32 routine" where
  "thread_count_sleeping s = count_locked (local_threads_lock (image s)) local_links sleeping_threads s"

definition thread_count_zombie :: "kern \<Rightarrow> u32 routine" where
  "thread_count_zombie s = count_locked (local_threads_lock (image s)) local_links zombie_threads s"

partial_function (option) find_tid :: "kern \<Rightarrow> u32 \<Rightarrow> u32 \<Rightarrow> u32 option" where
  "find_tid s n node =
     (if node \<noteq> 0 \<and> tid (tcbs s (thread (all_links s node))) \<noteq> n
      then find_tid s n (nxt (all_links s node)) else Some node)"

definition thread_get_by_tid :: "u32 \<Rightarrow> kern \<Rightarrow> u32 routine" where
  "thread_get_by_tid n s =
     bind_act (mutex_acquire (all_threads_lock (image s)) s) (\<lambda>_ s1.
     bind_act (lift (andthen (settle (find_tid s1 n (all_threads s1))) (\<lambda>node. Inr (node, s1)))) (\<lambda>node s2.
     bind_act (lift_unit (mutex_release (all_threads_lock (image s2)) s2)) (\<lambda>_ s3.
     if node = 0 then Stop NullDeref else Return (thread (all_links s3 node)) s3)))"

end
