(* ===== verification/ThreadLists.thy ===== *)
theory ThreadLists
  imports Thread
begin

text \<open>
  The lists of the thread system as plain lists of threads. A view names the members of the list of all
  threads and of every place a thread can be linked into: the ready, sleeping and zombie lists and
  the queues of the semaphores and condition variables. \<open>lists_ok\<close> says that the links in memory are
  those of the view and that no thread is in two places; each linking operation is shown to keep it.
\<close>

section \<open>Views\<close>

datatype waitq = SemQ u32 | CondQ u32
datatype place = P_ready | P_sleep | P_zombie | P_wait waitq

lemma place_cases [case_names ready sleep zombie sem cond]:
  assumes "p = P_ready \<Longrightarrow> P" "p = P_sleep \<Longrightarrow> P" "p = P_zombie \<Longrightarrow> P"
    "\<And>a. p = P_wait (SemQ a) \<Longrightarrow> P" "\<And>a. p = P_wait (CondQ a) \<Longrightarrow> P"
  shows P
  using assms by (metis place.exhaust waitq.exhaust)

record view =
  v_all :: "u32 list"
  v_at :: "place \<Rightarrow> u32 list"

abbreviation v_ready :: "view \<Rightarrow> u32 list" where "v_ready v \<equiv> v_at v P_ready"
abbreviation v_sleep :: "view \<Rightarrow> u32 list" where "v_sleep v \<equiv> v_at v P_sleep"
abbreviation v_zombie :: "view \<Rightarrow> u32 list" where "v_zombie v \<equiv> v_at v P_zombie"
abbreviation v_sem :: "view \<Rightarrow> u32 \<Rightarrow> u32 list" where "v_sem v a \<equiv> v_at v (P_wait (SemQ a))"
abbreviation v_cond :: "view \<Rightarrow> u32 \<Rightarrow> u32 list" where "v_cond v a \<equiv> v_at v (P_wait (CondQ a))"

definition put :: "place \<Rightarrow> u32 list \<Rightarrow> view \<Rightarrow> view" where
  "put p xs v = v\<lparr>v_at := (v_at v)(p := xs)\<rparr>"

lemma put_simps [simp]: "v_all (put p xs v) = v_all v"
  "v_at (put p xs v) p' = (if p' = p then xs else v_at v p')"
  by (simp_all add: put_def)

fun root :: "kern \<Rightarrow> place \<Rightarrow> wqueue" where
  "root s P_ready = \<lparr>wait_queue_head = ready_threads s, wait_queue_tail = 0\<rparr>"
| "root s P_sleep = \<lparr>wait_queue_head = sleeping_threads s, wait_queue_tail = 0\<rparr>"
| "root s P_zombie = \<lparr>wait_queue_head = zombie_threads s, wait_queue_tail = 0\<rparr>"
| "root s (P_wait (SemQ a)) = sem_queue (sems s a)"
| "root s (P_wait (CondQ a)) = condvars s a"

fun set_root :: "place \<Rightarrow> wqueue \<Rightarrow> kern \<Rightarrow> kern" where
  "set_root P_ready q s = s\<lparr>ready_threads := wait_queue_head q\<rparr>"
| "set_root P_sleep q s = s\<lparr>sleeping_threads := wait_queue_head q\<rparr>"
| "set_root P_zombie q s = s\<lparr>zombie_threads := wait_queue_head q\<rparr>"
| "set_root (P_wait (SemQ a)) q s = upd_sem a (\<lambda>c. c\<lparr>sem_queue := q\<rparr>) s"
| "set_root (P_wait (CondQ a)) q s = upd_cond a q s"

definition place_holds :: "place \<Rightarrow> wqueue \<Rightarrow> nodes \<Rightarrow> u32 list \<Rightarrow> bool" where
  "place_holds p q ns xs \<longleftrightarrow> dll ns 0 (wait_queue_head q) (map local_node xs) \<and>
     ((\<exists>w. p = P_wait w) \<longrightarrow> wait_queue_tail q = (if xs = [] then 0 else local_node (last xs)))"

definition node_ok :: "kern \<Rightarrow> u32 \<Rightarrow> bool" where
  "node_ok s t \<longleftrightarrow> t \<noteq> 0 \<and> all_node t \<noteq> 0 \<and> local_node t \<noteq> 0 \<and>
     thread (all_links s (all_node t)) = t \<and> thread (local_links s (local_node t)) = t"

definition lists_ok :: "kern \<Rightarrow> view \<Rightarrow> bool" where
  "lists_ok s v \<longleftrightarrow> dll (all_links s) 0 (all_threads s) (map all_node (v_all v)) \<and>
     (\<forall>p. place_holds p (root s p) (local_links s) (v_at v p)) \<and>
     (\<forall>p q. p \<noteq> q \<longrightarrow> set (v_at v p) \<inter> set (v_at v q) = {}) \<and>
     (\<forall>p. set (v_at v p) \<subseteq> set (v_all v)) \<and> (\<forall>t \<in> set (v_all v). node_ok s t)"

lemma node_inj [simp]: "local_node a = local_node b \<longleftrightarrow> a = b" "all_node a = all_node b \<longleftrightarrow> a = b"
  by (simp_all add: local_node_def all_node_def)

lemma inj_nodes [simp]: "inj local_node" "inj all_node" "inj_on local_node A" "inj_on all_node A"
  by (simp_all add: inj_def inj_on_def)

lemma lists_okD:
  assumes "lists_ok s v"
  shows lists_all: "dll (all_links s) 0 (all_threads s) (map all_node (v_all v))"
    and lists_place: "place_holds p (root s p) (local_links s) (v_at v p)"
    and lists_disjoint: "p \<noteq> q \<Longrightarrow> x \<in> set (v_at v p) \<Longrightarrow> x \<notin> set (v_at v q)"
    and lists_member: "x \<in> set (v_at v p) \<Longrightarrow> x \<in> set (v_all v)"
    and lists_node: "t \<in> set (v_all v) \<Longrightarrow> node_ok s t"
  using assms by (auto simp: lists_ok_def)

lemma lists_distinct:
  assumes "lists_ok s v"
  shows "distinct (v_all v)" "distinct (v_at v p)"
proof -
  show "distinct (v_all v)" using dll_distinct [OF lists_all [OF assms]] by (simp add: distinct_map)
  have "dll (local_links s) 0 (wait_queue_head (root s p)) (map local_node (v_at v p))"
    using lists_place [OF assms, of p] by (simp add: place_holds_def)
  then show "distinct (v_at v p)" using dll_distinct by (fastforce simp: distinct_map)
qed

lemma root_set_root:
  "place_holds p (root (set_root p q s) p) ns xs = place_holds p q ns xs"
  "p' \<noteq> p \<Longrightarrow> root (set_root p q s) p' = root s p'"
proof -
  show "place_holds p (root (set_root p q s) p) ns xs = place_holds p q ns xs"
    by (cases p rule: place_cases)
      (auto simp: place_holds_def upd_sem_def upd_cond_def)
  show "p' \<noteq> p \<Longrightarrow> root (set_root p q s) p' = root s p'"
    by (cases p rule: place_cases;
        cases p' rule: place_cases) (auto simp: upd_sem_def upd_cond_def)
qed

text \<open>What relinking a place leaves alone.\<close>

lemma set_root_frame [simp]:
  "all_links (set_root p q s) = all_links s" "local_links (set_root p q s) = local_links s"
  "tcbs (set_root p q s) = tcbs s" "all_threads (set_root p q s) = all_threads s"
  "current_thread (set_root p q s) = current_thread s" "image (set_root p q s) = image s"
  "mutexes (set_root p q s) = mutexes s" "timer_ticks (set_root p q s) = timer_ticks s"
  "hw (set_root p q s) = hw s" "heap (set_root p q s) = heap s" "esp_reg (set_root p q s) = esp_reg s"
  "sem_count (sems (set_root p q s) a) = sem_count (sems s a)" "next_tid (set_root p q s) = next_tid s"
  by (cases p rule: place_cases; simp add: upd_sem_def upd_cond_def)+

lemma relink:
  assumes ok: "lists_ok s v" and new: "place_holds p q ns xs"
    and same: "same_links (local_node ` B) (local_links s) ns"
    and apart: "\<And>p' x. p' \<noteq> p \<Longrightarrow> x \<in> set (v_at v p') \<Longrightarrow> x \<notin> B \<and> x \<notin> set xs"
    and sub: "set xs \<subseteq> set (v_all v)"
  shows "lists_ok (set_root p q (s\<lparr>local_links := ns\<rparr>)) (put p xs v)"
proof -
  let ?s = "set_root p q (s\<lparr>local_links := ns\<rparr>)"
  have other: "place_holds p' (root s p') ns (v_at v p')" if "p' \<noteq> p" for p'
  proof -
    have "local_node ` B \<inter> set (map local_node (v_at v p')) = {}" using apart [OF that] by auto
    then show ?thesis
      using lists_place [OF ok, of p'] dll_frame [OF same] unfolding place_holds_def by metis
  qed
  have rt: "root (s\<lparr>local_links := ns\<rparr>) p' = root s p'" for p'
    by (cases p' rule: place_cases) simp_all
  have "place_holds p' (root ?s p') ns (v_at (put p xs v) p')" for p'
    using other [of p'] new rt by (cases "p' = p") (simp_all add: root_set_root)
  moreover have "node_ok ?s t" if "t \<in> set (v_all v)" for t
    using lists_node [OF ok that] same_linksD(2) [OF same] by (simp add: node_ok_def)
  moreover have "set (v_at (put p xs v) p1) \<inter> set (v_at (put p xs v) p2) = {}" if "p1 \<noteq> p2" for p1 p2
    using that apart lists_disjoint [OF ok] by auto
  ultimately show ?thesis
    using ok sub by (simp add: lists_ok_def)
qed

section \<open>Changing one field at a time\<close>

lemma lists_ok_cong:
  assumes "lists_ok s v" "all_links s' = all_links s" "local_links s' = local_links s"
    "all_threads s' = all_threads s" "\<And>p. root s' p = root s p"
  shows "lists_ok s' v"
  using assms by (simp add: lists_ok_def node_ok_def)

lemma lists_ok_upd [simp]:
  "lists_ok (upd_tcb t f s) v = lists_ok s v" "lists_ok (set_status t st s) v = lists_ok s v"
  "lists_ok (set_blocker t ob ty s) v = lists_ok s v" "lists_ok (irq_restore b s) v = lists_ok s v"
  "lists_ok (snd (irq_off s)) v = lists_ok s v" "lists_ok (say fm args s) v = lists_ok s v"
  "lists_ok (s\<lparr>hw := h\<rparr>) v = lists_ok s v" "lists_ok (s\<lparr>heap := hp\<rparr>) v = lists_ok s v"
  "lists_ok (s\<lparr>current_thread := c\<rparr>) v = lists_ok s v" "lists_ok (s\<lparr>timer_ticks := tk\<rparr>) v = lists_ok s v"
  "lists_ok (s\<lparr>first_tick := ft\<rparr>) v = lists_ok s v" "lists_ok (s\<lparr>esp_reg := er\<rparr>) v = lists_ok s v"
  "lists_ok (upd_mutex m fm' s) v = lists_ok s v"
  "lists_ok (upd_sem a (\<lambda>c. c\<lparr>sem_count := g c\<rparr>) s) v = lists_ok s v"
proof -
  have *: "lists_ok s' v = lists_ok s v" if "all_links s' = all_links s" "local_links s' = local_links s"
    "all_threads s' = all_threads s" "ready_threads s' = ready_threads s" "sleeping_threads s' = sleeping_threads s"
    "zombie_threads s' = zombie_threads s" "\<And>a. sem_queue (sems s' a) = sem_queue (sems s a)"
    "condvars s' = condvars s" for s' s :: kern
  proof -
    have "root s' p = root s p" for p
      using that by (cases p rule: place_cases) simp_all
    then show ?thesis using that by (simp add: lists_ok_def node_ok_def)
  qed
  note d = upd_tcb_def set_status_def set_blocker_def irq_restore_def irq_off_def interrupt_disable_def say_def
    upd_mutex_def upd_sem_def
  show "lists_ok (upd_tcb t f s) v = lists_ok s v" by (rule *) (simp_all add: d)
  show "lists_ok (set_status t st s) v = lists_ok s v" by (rule *) (simp_all add: d)
  show "lists_ok (set_blocker t ob ty s) v = lists_ok s v" by (rule *) (simp_all add: d)
  show "lists_ok (irq_restore b s) v = lists_ok s v" by (rule *) (simp_all add: d)
  show "lists_ok (snd (irq_off s)) v = lists_ok s v" by (rule *) (simp_all add: d)
  show "lists_ok (say fm args s) v = lists_ok s v" by (rule *) (simp_all add: d)
  show "lists_ok (s\<lparr>hw := h\<rparr>) v = lists_ok s v" by (rule *) simp_all
  show "lists_ok (s\<lparr>heap := hp\<rparr>) v = lists_ok s v" by (rule *) simp_all
  show "lists_ok (s\<lparr>current_thread := c\<rparr>) v = lists_ok s v" by (rule *) simp_all
  show "lists_ok (s\<lparr>timer_ticks := tk\<rparr>) v = lists_ok s v" by (rule *) simp_all
  show "lists_ok (s\<lparr>first_tick := ft\<rparr>) v = lists_ok s v" by (rule *) simp_all
  show "lists_ok (s\<lparr>esp_reg := er\<rparr>) v = lists_ok s v" by (rule *) simp_all
  show "lists_ok (upd_mutex m fm' s) v = lists_ok s v" by (rule *) (simp_all add: d)
  show "lists_ok (upd_sem a (\<lambda>c. c\<lparr>sem_count := g c\<rparr>) s) v = lists_ok s v" by (rule *) (simp_all add: d)
qed

section \<open>Adding and removing\<close>

text \<open>The three operations on a place, of which those of the kernel are instances.\<close>

definition place_add :: "place \<Rightarrow> u32 \<Rightarrow> kern \<Rightarrow> kern" where
  "place_add p t s = (case thread_list_add (wait_queue_head (root s p)) (local_links s) (local_node t) of
     (h, ns) \<Rightarrow> set_root p \<lparr>wait_queue_head = h, wait_queue_tail = 0\<rparr> (s\<lparr>local_links := ns\<rparr>))"

definition place_remove :: "place \<Rightarrow> u32 \<Rightarrow> kern \<Rightarrow> kern outcome" where
  "place_remove p node s = andthen (thread_list_remove (wait_queue_head (root s p)) (local_links s) node) (\<lambda>(h, ns).
     Inr (set_root p \<lparr>wait_queue_head = h, wait_queue_tail = 0\<rparr> (s\<lparr>local_links := ns\<rparr>)))"

definition place_append :: "waitq \<Rightarrow> u32 \<Rightarrow> kern \<Rightarrow> kern" where
  "place_append w t s = (case wait_queue_append (root s (P_wait w)) (local_links s) (local_node t) of
     (q, ns) \<Rightarrow> set_root (P_wait w) q (s\<lparr>local_links := ns\<rparr>))"

definition place_pop :: "waitq \<Rightarrow> kern \<Rightarrow> (u32 \<times> kern) outcome" where
  "place_pop w s = andthen (wait_queue_popfront (root s (P_wait w)) (local_links s)) (\<lambda>(t, q, ns).
     Inr (t, set_root (P_wait w) q (s\<lparr>local_links := ns\<rparr>)))"

lemma place_ops:
  "ready_add = place_add P_ready" "sleeping_add = place_add P_sleep" "zombie_add = place_add P_zombie"
  "ready_remove = place_remove P_ready" "sleeping_remove = place_remove P_sleep" "zombie_remove = place_remove P_zombie"
  "sem_append a = place_append (SemQ a)" "cond_append a = place_append (CondQ a)"
  "sem_pop a = place_pop (SemQ a)" "cond_pop a = place_pop (CondQ a)"
  by (intro ext; auto simp: ready_add_def sleeping_add_def zombie_add_def place_add_def
      ready_remove_def sleeping_remove_def zombie_remove_def place_remove_def
      sem_append_def cond_append_def place_append_def sem_pop_def cond_pop_def place_pop_def split: prod.splits
      intro!: arg_cong2 [where f = andthen])+

lemma lists_nz: "lists_ok s v \<Longrightarrow> t \<in> set (v_all v) \<Longrightarrow> local_node t \<noteq> 0"
  using lists_node by (auto simp: node_ok_def)

lemma place_add_ok:
  assumes "lists_ok s v" "t \<in> set (v_all v)" "\<And>p. t \<notin> set (v_at v p)" "\<nexists>w. p = P_wait w"
  shows "\<exists>q ns. place_add p t s = set_root p q (s\<lparr>local_links := ns\<rparr>) \<and>
     lists_ok (place_add p t s) (put p (t # v_at v p) v)"
proof -
  let ?h = "wait_queue_head (root s p)" and ?xs = "map local_node (v_at v p)"
  have d: "dll (local_links s) 0 ?h ?xs" using lists_place [OF assms(1)] by (simp add: place_holds_def)
  have "local_node t \<notin> set ?xs" using assms(3) by auto
  then obtain ns where a: "thread_list_add ?h (local_links s) (local_node t) = (local_node t, ns)"
    "dll ns 0 (local_node t) (local_node t # ?xs)" "same_links (insert (local_node t) (set ?xs)) (local_links s) ns"
    using list_add_refines [OF d lists_nz [OF assms(1,2)]] by blast
  let ?q = "\<lparr>wait_queue_head = local_node t, wait_queue_tail = 0\<rparr>"
  have "lists_ok (set_root p ?q (s\<lparr>local_links := ns\<rparr>)) (put p (t # v_at v p) v)"
  proof (rule relink [OF assms(1)])
    show "place_holds p ?q ns (t # v_at v p)" using a(2) assms(4) by (simp add: place_holds_def)
    show "same_links (local_node ` (insert t (set (v_at v p)))) (local_links s) ns" using a(3) by simp
    show "set (t # v_at v p) \<subseteq> set (v_all v)" using assms(2) lists_member [OF assms(1)] by auto
  qed (use assms(3) lists_disjoint [OF assms(1)] in auto)
  then show ?thesis using a(1) by (auto simp: place_add_def)
qed

lemma place_remove_ok:
  assumes "lists_ok s v" "v_at v p = xs @ t # ys" "\<nexists>w. p = P_wait w"
  shows "\<exists>q ns. place_remove p (local_node t) s = Inr (set_root p q (s\<lparr>local_links := ns\<rparr>)) \<and>
     lists_ok (set_root p q (s\<lparr>local_links := ns\<rparr>)) (put p (xs @ ys) v) \<and> thread (ns (local_node t)) = t"
proof -
  let ?h = "wait_queue_head (root s p)"
  have d: "dll (local_links s) 0 ?h (map local_node xs @ local_node t # map local_node ys)"
    using lists_place [OF assms(1), of p] assms(2) by (simp add: place_holds_def)
  obtain h ns where r: "thread_list_remove ?h (local_links s) (local_node t) = Inr (h, ns)"
    "dll ns 0 h (map local_node xs @ map local_node ys)"
    "same_links (set (map local_node xs @ local_node t # map local_node ys)) (local_links s) ns"
    using list_remove_refines [OF d] by blast
  let ?q = "\<lparr>wait_queue_head = h, wait_queue_tail = 0\<rparr>"
  have "lists_ok (set_root p ?q (s\<lparr>local_links := ns\<rparr>)) (put p (xs @ ys) v)"
  proof (rule relink [OF assms(1)])
    show "place_holds p ?q ns (xs @ ys)" using r(2) assms(3) by (simp add: place_holds_def)
    show "same_links (local_node ` set (v_at v p)) (local_links s) ns" using r(3) assms(2) by (simp add: image_Un)
    show "set (xs @ ys) \<subseteq> set (v_all v)" using assms(2) lists_member [OF assms(1), of _ p] by auto
    show "x \<notin> set (v_at v p) \<and> x \<notin> set (xs @ ys)" if "p' \<noteq> p" "x \<in> set (v_at v p')" for p' x
      using lists_disjoint [OF assms(1) that] assms(2) by auto
  qed
  moreover have "t \<in> set (v_all v)" using lists_member [OF assms(1), of t p] assms(2) by simp
  then have "thread (ns (local_node t)) = t"
    using lists_node [OF assms(1)] same_linksD(2) [OF r(3)] by (simp add: node_ok_def)
  ultimately show ?thesis using r(1) by (auto simp: place_remove_def)
qed

lemma place_append_ok:
  assumes "lists_ok s v" "t \<in> set (v_all v)" "\<And>p. t \<notin> set (v_at v p)"
  shows "\<exists>q ns. place_append w t s = set_root (P_wait w) q (s\<lparr>local_links := ns\<rparr>) \<and>
     lists_ok (place_append w t s) (put (P_wait w) (v_at v (P_wait w) @ [t]) v)"
proof -
  let ?p = "P_wait w"
  have "is_queue (root s ?p) (local_links s) (map local_node (v_at v ?p))"
    using lists_place [OF assms(1), of ?p] by (auto simp: place_holds_def is_queue_def last_map)
  moreover have "local_node t \<notin> set (map local_node (v_at v ?p))" using assms(3) by auto
  ultimately obtain q ns where a: "wait_queue_append (root s ?p) (local_links s) (local_node t) = (q, ns)"
    "is_queue q ns (map local_node (v_at v ?p) @ [local_node t])"
    "same_links (insert (local_node t) (set (map local_node (v_at v ?p)))) (local_links s) ns"
    using append_refines [OF _ lists_nz [OF assms(1,2)]] by blast
  have "lists_ok (set_root ?p q (s\<lparr>local_links := ns\<rparr>)) (put ?p (v_at v ?p @ [t]) v)"
  proof (rule relink [OF assms(1)])
    show "place_holds ?p q ns (v_at v ?p @ [t])" using a(2) by (simp add: place_holds_def is_queue_def)
    show "same_links (local_node ` (insert t (set (v_at v ?p)))) (local_links s) ns" using a(3) by simp
    show "set (v_at v ?p @ [t]) \<subseteq> set (v_all v)" using assms(2) lists_member [OF assms(1)] by auto
  qed (use assms(3) lists_disjoint [OF assms(1)] in auto)
  then show ?thesis using a(1) by (auto simp: place_append_def)
qed

lemma place_pop_ok:
  assumes "lists_ok s v" "v_at v (P_wait w) = t # xs"
  shows "\<exists>q ns. place_pop w s = Inr (t, set_root (P_wait w) q (s\<lparr>local_links := ns\<rparr>)) \<and>
     lists_ok (set_root (P_wait w) q (s\<lparr>local_links := ns\<rparr>)) (put (P_wait w) xs v)"
proof -
  let ?p = "P_wait w"
  have "is_queue (root s ?p) (local_links s) (local_node t # map local_node xs)"
    using lists_place [OF assms(1), of ?p] assms(2) by (auto simp: place_holds_def is_queue_def last_map)
  then obtain q ns where r: "wait_queue_popfront (root s ?p) (local_links s) =
      Inr (thread (local_links s (local_node t)), q, ns)" "is_queue q ns (map local_node xs)"
    "same_links (set (local_node t # map local_node xs)) (local_links s) ns"
    using popfront_refines by blast
  have "t \<in> set (v_all v)" using lists_member [OF assms(1), of t ?p] assms(2) by simp
  then have t: "thread (local_links s (local_node t)) = t" using lists_node [OF assms(1)] by (simp add: node_ok_def)
  have "lists_ok (set_root ?p q (s\<lparr>local_links := ns\<rparr>)) (put ?p xs v)"
  proof (rule relink [OF assms(1)])
    show "place_holds ?p q ns xs" using r(2) by (auto simp: place_holds_def is_queue_def last_map)
    show "same_links (local_node ` set (v_at v ?p)) (local_links s) ns" using r(3) assms(2) by simp
    show "set xs \<subseteq> set (v_all v)" using assms(2) lists_member [OF assms(1), of _ ?p] by auto
    show "x \<notin> set (v_at v ?p) \<and> x \<notin> set xs" if "p' \<noteq> ?p" "x \<in> set (v_at v p')" for p' x
      using lists_disjoint [OF assms(1) that] assms(2) by auto
  qed
  then show ?thesis using r(1) t by (auto simp: place_pop_def)
qed

text \<open>An empty queue has a null head.\<close>

lemma root_empty: "lists_ok s v \<Longrightarrow> wait_queue_head (root s p) = 0 \<longleftrightarrow> v_at v p = []"
proof -
  assume ok: "lists_ok s v"
  then have d: "dll (local_links s) 0 (wait_queue_head (root s p)) (map local_node (v_at v p))"
    using lists_place by (simp add: place_holds_def)
  show ?thesis using dll_head [OF d] lists_nz [OF ok] lists_member [OF ok, of _ p]
    by (cases "v_at v p") auto
qed

end
