(* ===== verification/ThreadInv.thy ===== *)
theory ThreadInv
  imports ThreadLists
begin

text \<open>
  The invariant of the thread system: the links are those of a view (\<open>lists_ok\<close>), every thread is in the
  list of its status, no thread other than the running and the idle one is in no list (none is ever
  lost), and the idle thread is in none. The running thread may already be in a wait queue: it
  joins the queue before it gives up the processor.
\<close>

section \<open>The invariant\<close>

primrec place_status :: "place \<Rightarrow> ThreadStatus" where
  "place_status P_ready = ThreadStatus_Ready"
| "place_status P_sleep = ThreadStatus_Sleeping"
| "place_status P_zombie = ThreadStatus_Zombie"
| "place_status (P_wait w) = ThreadStatus_Blocked"

definition kinv :: "kern \<Rightarrow> view \<Rightarrow> bool" where
  "kinv s v \<longleftrightarrow> lists_ok s v \<and> current_thread s \<in> set (v_all v) \<and> idle_thread s \<in> set (v_all v) \<and>
     (\<forall>p. idle_thread s \<notin> set (v_at v p)) \<and>
     (\<forall>p. \<forall>t \<in> set (v_at v p). status (tcbs s t) = place_status p) \<and>
     (\<forall>t \<in> set (v_all v). t \<noteq> current_thread s \<and> t \<noteq> idle_thread s \<longrightarrow> (\<exists>p. t \<in> set (v_at v p))) \<and>
     (\<forall>p. current_thread s \<in> set (v_at v p) \<longrightarrow> (\<exists>w. p = P_wait w)) \<and>
     (status (tcbs s (current_thread s)) = ThreadStatus_Blocked \<longrightarrow>
        (\<exists>w. current_thread s \<in> set (v_at v (P_wait w)))) \<and>
     status (tcbs s (current_thread s)) \<noteq> ThreadStatus_Ready \<and>
     status (tcbs s (idle_thread s)) =
       (if current_thread s = idle_thread s then ThreadStatus_Running else ThreadStatus_Ready)"

definition running :: "kern \<Rightarrow> bool" where
  "running s \<longleftrightarrow> status (tcbs s (current_thread s)) = ThreadStatus_Running"

lemma kinvD:
  assumes "kinv s v"
  shows kinv_lists: "lists_ok s v"
    and kinv_cur: "current_thread s \<in> set (v_all v)"
    and kinv_idle: "idle_thread s \<in> set (v_all v)" "idle_thread s \<notin> set (v_at v p)"
    and kinv_status: "t \<in> set (v_at v p) \<Longrightarrow> status (tcbs s t) = place_status p"
    and kinv_placed: "t \<in> set (v_all v) \<Longrightarrow> t \<noteq> current_thread s \<Longrightarrow> t \<noteq> idle_thread s \<Longrightarrow> \<exists>p. t \<in> set (v_at v p)"
    and kinv_cur_place: "current_thread s \<in> set (v_at v p) \<Longrightarrow> \<exists>w. p = P_wait w"
    and kinv_cur_blocked: "status (tcbs s (current_thread s)) = ThreadStatus_Blocked \<Longrightarrow>
      \<exists>w. current_thread s \<in> set (v_at v (P_wait w))"
    and kinv_cur_status: "status (tcbs s (current_thread s)) \<noteq> ThreadStatus_Ready"
    and kinv_idle_status: "status (tcbs s (idle_thread s)) =
      (if current_thread s = idle_thread s then ThreadStatus_Running else ThreadStatus_Ready)"
  using assms by (auto simp: kinv_def)

lemma kinv_cur_nonnull: "kinv s v \<Longrightarrow> current_thread s \<noteq> 0"
  using lists_node [OF kinv_lists kinv_cur] by (simp add: node_ok_def)

lemma running_unplaced: "kinv s v \<Longrightarrow> running s \<Longrightarrow> current_thread s \<notin> set (v_at v p)"
  using kinv_status [of s v "current_thread s" p] by (cases p) (auto simp: running_def)

lemma upd_fields [simp]:
  "status (tcbs (set_blocker t ob ty s) x) = status (tcbs s x)"
  "current_thread (set_blocker t ob ty s) = current_thread s" "image (set_blocker t ob ty s) = image s"
  "current_thread (set_status t st s) = current_thread s" "image (set_status t st s) = image s"
  "current_thread (upd_tcb t f s) = current_thread s" "image (upd_tcb t f s) = image s"
  "tcbs (irq_restore b s) = tcbs s" "current_thread (irq_restore b s) = current_thread s"
  "image (irq_restore b s) = image s"
  "tcbs (snd (irq_off s)) = tcbs s" "current_thread (snd (irq_off s)) = current_thread s"
  "image (snd (irq_off s)) = image s"
  "tcbs (say fm args s) = tcbs s" "current_thread (say fm args s) = current_thread s" "image (say fm args s) = image s"
  "tcbs (upd_mutex m fm' s) = tcbs s" "current_thread (upd_mutex m fm' s) = current_thread s"
  "image (upd_mutex m fm' s) = image s"
  "tcbs (upd_sem a g s) = tcbs s" "current_thread (upd_sem a g s) = current_thread s" "image (upd_sem a g s) = image s"
  by (simp_all add: set_blocker_def set_status_def upd_tcb_def irq_restore_def irq_off_def
      interrupt_disable_def say_def upd_mutex_def upd_sem_def)

text \<open>The invariant looks at these fields only.\<close>

lemma kinv_cong:
  assumes "kinv s v" "lists_ok s' v" "current_thread s' = current_thread s" "image s' = image s"
    "\<And>t. t \<in> set (v_all v) \<Longrightarrow> status (tcbs s' t) = status (tcbs s t)"
  shows "kinv s' v"
  using assms lists_member [OF assms(2)] unfolding kinv_def by simp

lemma kinv_upd [simp]:
  "kinv (set_blocker t ob ty s) v = kinv s v" "kinv (irq_restore b s) v = kinv s v"
  "kinv (snd (irq_off s)) v = kinv s v" "kinv (say fm args s) v = kinv s v"
  "kinv (s\<lparr>hw := h\<rparr>) v = kinv s v" "kinv (s\<lparr>heap := hp\<rparr>) v = kinv s v"
  "kinv (s\<lparr>timer_ticks := tk\<rparr>) v = kinv s v" "kinv (s\<lparr>first_tick := ft\<rparr>) v = kinv s v"
  "kinv (s\<lparr>esp_reg := er\<rparr>) v = kinv s v" "kinv (upd_mutex m fm' s) v = kinv s v"
  "kinv (upd_sem a (\<lambda>c. c\<lparr>sem_count := g c\<rparr>) s) v = kinv s v"
  by (simp_all add: kinv_def)

text \<open>What an operation on lists and statuses keeps.\<close>

definition frame :: "kern \<Rightarrow> kern \<Rightarrow> bool" where
  "frame s s' \<longleftrightarrow> current_thread s' = current_thread s \<and> image s' = image s \<and> mutexes s' = mutexes s \<and>
     (\<forall>a. sem_count (sems s' a) = sem_count (sems s a)) \<and> timer_ticks s' = timer_ticks s \<and> hw s' = hw s \<and>
     heap s' = heap s \<and> esp_reg s' = esp_reg s \<and> next_tid s' = next_tid s"

lemma frame_refl [simp]: "frame s s" by (simp add: frame_def)

lemma frame_trans: "frame s s' \<Longrightarrow> frame s' s'' \<Longrightarrow> frame s s''" by (simp add: frame_def)

lemma frameD:
  assumes "frame s s'"
  shows "current_thread s' = current_thread s" "image s' = image s" "mutexes s' = mutexes s"
    "sem_count (sems s' a) = sem_count (sems s a)" "timer_ticks s' = timer_ticks s" "hw s' = hw s"
    "heap s' = heap s" "esp_reg s' = esp_reg s" "next_tid s' = next_tid s"
  using assms by (simp_all add: frame_def)

lemma frame_relink [simp]: "frame s (set_root p q (s\<lparr>local_links := ns\<rparr>))"
  by (simp add: frame_def)

section \<open>Waking a thread\<close>

definition wake_tcb :: "tcb \<Rightarrow> tcb" where
  "wake_tcb c = c\<lparr>status := ThreadStatus_Ready, blocked_on := 0, blocker_type := BlockerType_None\<rparr>"

definition wake_view :: "waitq \<Rightarrow> view \<Rightarrow> view" where
  "wake_view w v = (case v_at v (P_wait w) of [] \<Rightarrow> v
     | t # xs \<Rightarrow> put P_ready (t # v_ready v) (put (P_wait w) xs v))"

text \<open>A thread that leaves its place for the ready list.\<close>

lemma kinv_make_ready:
  assumes inv: "kinv s v" and q: "v_at v p = xs @ t # ys" "p \<noteq> P_ready" and ncur: "t \<noteq> current_thread s"
    and ok: "lists_ok s' (put P_ready (t # v_ready v) (put p (xs @ ys) v))" and fr: "frame s s'"
    and st: "status (tcbs s' t) = ThreadStatus_Ready" "\<And>u. u \<noteq> t \<Longrightarrow> status (tcbs s' u) = status (tcbs s u)"
  shows "kinv s' (put P_ready (t # v_ready v) (put p (xs @ ys) v))"
proof -
  let ?v = "put P_ready (t # v_ready v) (put p (xs @ ys) v)"
  note lok = kinv_lists [OF inv]
  have only: "t \<notin> set (v_at v p')" if "p' \<noteq> p" for p'
    using lists_disjoint [OF lok that [symmetric]] q by simp
  have "t \<notin> set (xs @ ys)" using lists_distinct(2) [OF lok, of p] q by auto
  then have mem: "x \<in> set (v_at ?v p') \<longleftrightarrow> (if x = t then p' = P_ready else x \<in> set (v_at v p'))" for x p'
    using only [of p'] q by auto
  have tid: "t \<noteq> idle_thread s" using kinv_idle(2) [OF inv, of p] q by auto
  have al: "v_all ?v = v_all v" by simp
  have s1: "status (tcbs s' x) = place_status p'" if "x \<in> set (v_at ?v p')" for x p'
    using that mem kinv_status [OF inv, of x p'] st by (cases "x = t") auto
  have s2: "\<exists>p'. x \<in> set (v_at ?v p')" if x: "x \<in> set (v_all v)" "x \<noteq> current_thread s" "x \<noteq> idle_thread s" for x
    using kinv_placed [OF inv x] mem by (cases "x = t") auto
  show ?thesis
    unfolding kinv_def frameD [OF fr] al
    using ok s1 s2 kinv_cur [OF inv] kinv_idle [OF inv] kinv_cur_status [OF inv] kinv_idle_status [OF inv]
      kinv_cur_place [OF inv] kinv_cur_blocked [OF inv] ncur tid st(2)
    by (simp add: mem del: put_simps(2))
qed

text \<open>Taking the first thread from a queue and unblocking it.\<close>

lemma pop_unblock:
  assumes inv: "kinv s v" and q: "v_at v (P_wait w) = t # xs" and ncur: "t \<noteq> current_thread s"
  shows "\<exists>s'. andthen (place_pop w s) (\<lambda>(t, s1). thread_unblock t s1) = Inr s' \<and>
     kinv s' (wake_view w v) \<and> frame s s' \<and> tcbs s' = (tcbs s)(t := wake_tcb (tcbs s t))"
proof -
  note ok = kinv_lists [OF inv]
  obtain q1 ns1 where p: "place_pop w s = Inr (t, set_root (P_wait w) q1 (s\<lparr>local_links := ns1\<rparr>))"
    "lists_ok (set_root (P_wait w) q1 (s\<lparr>local_links := ns1\<rparr>)) (put (P_wait w) xs v)"
    using place_pop_ok [OF ok q] by blast
  let ?s1 = "set_root (P_wait w) q1 (s\<lparr>local_links := ns1\<rparr>)" and ?v1 = "put (P_wait w) xs v"
  let ?s2 = "set_blocker t 0 BlockerType_None (set_status t ThreadStatus_Ready ?s1)"
  have tb: "status (tcbs s t) = ThreadStatus_Blocked" using kinv_status [OF inv, of t "P_wait w"] q by simp
  have ta: "t \<in> set (v_all v)" using lists_member [OF ok, of t "P_wait w"] q by simp
  have only: "t \<notin> set (v_at v p')" if "p' \<noteq> P_wait w" for p'
    using lists_disjoint [OF ok that [symmetric]] q by simp
  have "t \<notin> set xs" using lists_distinct(2) [OF ok, of "P_wait w"] q by simp
  then have un: "t \<notin> set (v_at ?v1 p')" for p' using only [of p'] by simp
  obtain q2 ns2 where a: "place_add P_ready t ?s2 = set_root P_ready q2 (?s2\<lparr>local_links := ns2\<rparr>)"
    "lists_ok (place_add P_ready t ?s2) (put P_ready (t # v_at ?v1 P_ready) ?v1)"
    using place_add_ok [of ?s2 ?v1 t P_ready] p(2) ta un by auto
  let ?s' = "place_add P_ready t ?s2"
  have tc: "tcbs ?s' = (tcbs s)(t := wake_tcb (tcbs s t))"
    using a(1) by (simp add: set_blocker_def set_status_def upd_tcb_def wake_tcb_def)
  have fr: "frame s ?s'" using a(1) by (simp add: frame_def set_blocker_def set_status_def upd_tcb_def)
  have "kinv ?s' (wake_view w v)"
    using kinv_make_ready [OF inv, of "P_wait w" "[]" t xs ?s'] q ncur a(2) fr tc by (simp add: wake_view_def wake_tcb_def)
  moreover have "andthen (place_pop w s) (\<lambda>(t, s1). thread_unblock t s1) = Inr ?s'"
    using p(1) tb by (simp add: thread_unblock_def place_ops)
  ultimately show ?thesis using fr tc by blast
qed

end
