(* ===== verification/SynchInv.thy ===== *)
theory SynchInv
  imports ThreadInv
begin

text \<open>
  What each synchronisation primitive does to the thread system, from a state that satisfies its
  invariant: who is woken, who waits where, and what is left alone. The count of a semaphore and its
  queue agree (\<open>sem_ok\<close>): a negative count is the number of threads waiting.
\<close>

section \<open>Counts\<close>

lemma sint_inc: "sint (c :: u32) < 2147483647 \<Longrightarrow> sint (c + 1) = sint c + 1"
proof -
  assume a: "sint c < 2147483647"
  have "- 2147483648 \<le> sint c" using sint_ge [of c] by simp
  then show ?thesis using a by (simp add: sint_word_ariths signed_take_bit_int_eq_self)
qed

lemma sint_dec: "- 2147483648 < sint (c :: u32) \<Longrightarrow> sint (c - 1) = sint c - 1"
proof -
  assume a: "- 2147483648 < sint c"
  have "sint c < 2147483648" using sint_lt [of c] by simp
  then show ?thesis using a by (simp add: sint_word_ariths signed_take_bit_int_eq_self)
qed

abbreviation level :: "kern \<Rightarrow> u32 \<Rightarrow> int" where
  "level s a \<equiv> sint (sem_count (sems s a))"

definition sem_ok :: "kern \<Rightarrow> view \<Rightarrow> u32 \<Rightarrow> bool" where
  "sem_ok s v a \<longleftrightarrow> int (length (v_sem v a)) = max 0 (- level s a)"

lemma sem_ok_empty: "sem_ok s v a \<Longrightarrow> v_sem v a = [] \<longleftrightarrow> 0 \<le> level s a"
  by (auto simp: sem_ok_def)

section \<open>Interrupts off and back\<close>

lemma hw_irq_off [simp]: "hw (snd (irq_off s)) = cli (hw s)" "fst (irq_off s) = interrupt_is_enabled (hw s)"
  by (simp_all add: irq_off_def interrupt_disable_def)

lemma irq_off_eq: "irq_off s = (interrupt_is_enabled (hw s), s\<lparr>hw := cli (hw s)\<rparr>)"
  by (simp add: irq_off_def interrupt_disable_def)

lemma interrupt_restore_back: "interrupt_restore (interrupt_is_enabled h) (cli h) = (h :: machine)"
proof -
  have "eflags (interrupt_restore (interrupt_is_enabled h) (cli h)) = eflags h"
    by (rule restore_after_cli) simp
  then show ?thesis by (simp add: interrupt_restore_def sti_def cli_def split: if_splits)
qed

lemma irq_restore_back: "hw s' = cli (hw s) \<Longrightarrow> irq_restore (interrupt_is_enabled (hw s)) s' = s'\<lparr>hw := hw s\<rparr>"
  by (simp add: irq_restore_def interrupt_restore_back)

lemma cli_cli [simp]: "cli (cli h) = cli (h :: machine)"
  by (simp add: cli_def)

lemma restore_False [simp]: "irq_restore False s = s\<lparr>hw := cli (hw s)\<rparr>"
  by (simp add: irq_restore_def interrupt_restore_def)

section \<open>Waking and blocking\<close>

definition wake_tcbs :: "waitq \<Rightarrow> view \<Rightarrow> (u32 \<Rightarrow> tcb) \<Rightarrow> u32 \<Rightarrow> tcb" where
  "wake_tcbs w v ts = (case v_at v (P_wait w) of [] \<Rightarrow> ts | t # _ \<Rightarrow> ts(t := wake_tcb (ts t)))"

lemma wake_first:
  assumes "kinv s v" "v_at v (P_wait w) \<noteq> [] \<Longrightarrow> hd (v_at v (P_wait w)) \<noteq> current_thread s"
  shows "\<exists>s'. (if wait_queue_head (root s (P_wait w)) \<noteq> 0
        then andthen (place_pop w s) (\<lambda>(t, s1). thread_unblock t s1) else Inr s) = Inr s' \<and>
     kinv s' (wake_view w v) \<and> frame s s' \<and> tcbs s' = wake_tcbs w v (tcbs s)"
proof (cases "v_at v (P_wait w)")
  case Nil
  then show ?thesis
    using assms(1) root_empty [OF kinv_lists [OF assms(1)], of "P_wait w"] by (simp add: wake_view_def wake_tcbs_def)
next
  case (Cons t xs)
  then have "wait_queue_head (root s (P_wait w)) \<noteq> 0"
    using root_empty [OF kinv_lists [OF assms(1)], of "P_wait w"] by simp
  then show ?thesis using pop_unblock [OF assms(1) Cons] assms(2) Cons by (simp add: wake_tcbs_def)
qed

text \<open>How the control block of a thread changes when it blocks.\<close>

definition blocks :: "tcb \<Rightarrow> tcb \<Rightarrow> bool" where
  "blocks c c' \<longleftrightarrow> status c' = ThreadStatus_Blocked \<and> tid c' = tid c \<and> esp c' = esp c \<and>
     wakeup_ticks c' = wakeup_ticks c \<and> stack_base c' = stack_base c"

definition wait_view :: "waitq \<Rightarrow> u32 \<Rightarrow> view \<Rightarrow> view" where
  "wait_view w t v = put (P_wait w) (v_at v (P_wait w) @ [t]) v"

lemma block_current:
  assumes inv: "kinv s v" and run: "running s" and nidle: "current_thread s \<noteq> idle_thread s"
    and ok: "lists_ok s0 v" and same: "current_thread s0 = current_thread s" "image s0 = image s"
    and st: "status (tcbs s0 (current_thread s)) = ThreadStatus_Blocked"
      "\<And>t. t \<noteq> current_thread s \<Longrightarrow> tcbs s0 t = tcbs s t"
  shows "kinv (place_append w (current_thread s) s0) (wait_view w (current_thread s) v) \<and>
     frame s0 (place_append w (current_thread s) s0) \<and> tcbs (place_append w (current_thread s) s0) = tcbs s0"
proof -
  let ?c = "current_thread s"
  have un: "?c \<notin> set (v_at v p)" for p by (rule running_unplaced [OF inv run])
  obtain q ns where a: "place_append w ?c s0 = set_root (P_wait w) q (s0\<lparr>local_links := ns\<rparr>)"
    "lists_ok (place_append w ?c s0) (wait_view w ?c v)"
    using place_append_ok [OF ok kinv_cur [OF inv] un, of w] by (auto simp: wait_view_def)
  have fr: "frame s0 (place_append w ?c s0)" and tc: "tcbs (place_append w ?c s0) = tcbs s0"
    using a(1) by simp_all
  have stat: "status (tcbs s0 t) = place_status p" if "t \<in> set (v_at (wait_view w ?c v) p)" for t p
  proof (cases "t = ?c")
    case True
    then have "p = P_wait w" using that un [of p] by (auto simp: wait_view_def split: if_splits)
    then show ?thesis using True st(1) by simp
  next
    case False
    then show ?thesis using that kinv_status [OF inv, of t p] st(2) by (auto simp: wait_view_def split: if_splits)
  qed
  have pl: "\<exists>p. t \<in> set (v_at (wait_view w ?c v) p)" if t: "t \<in> set (v_all v)" "t \<noteq> ?c" "t \<noteq> idle_thread s" for t
  proof -
    obtain p where "t \<in> set (v_at v p)" using kinv_placed [OF inv t] by blast
    then show ?thesis by (intro exI [of _ p]) (auto simp: wait_view_def)
  qed
  have cu: "\<exists>w'. p = P_wait w'" if "?c \<in> set (v_at (wait_view w ?c v) p)" for p
    using that un [of p] by (auto simp: wait_view_def split: if_splits)
  have cw: "?c \<in> set (v_at (wait_view w ?c v) (P_wait w))" by (simp add: wait_view_def)
  have idl: "idle_thread s \<notin> set (v_at (wait_view w ?c v) p)" for p
    using kinv_idle(2) [OF inv, of p] nidle by (auto simp: wait_view_def)
  have al: "v_all (wait_view w ?c v) = v_all v" by (simp add: wait_view_def)
  have ist: "status (tcbs s0 (idle_thread s)) = ThreadStatus_Ready"
    using kinv_idle_status [OF inv] st(2) [of "idle_thread s"] nidle by auto
  have "kinv (place_append w ?c s0) (wait_view w ?c v)"
    unfolding kinv_def frameD [OF fr] tc same al
    using a(2) kinv_cur [OF inv] kinv_idle(1) [OF inv] idl stat pl cu cw st(1) ist nidle
    by auto
  then show ?thesis using fr tc by blast
qed

section \<open>Semaphores\<close>

abbreviation set_count :: "u32 \<Rightarrow> u32 \<Rightarrow> kern \<Rightarrow> kern" where
  "set_count a n s \<equiv> upd_sem a (\<lambda>c. c\<lparr>sem_count := n\<rparr>) s"

lemma set_count_level [simp]:
  "sem_count (sems (set_count a n s) b) = (if b = a then n else sem_count (sems s b))"
  "sem_queue (sems (set_count a n s) b) = sem_queue (sems s b)" "hw (set_count a n s) = hw s"
  "heap (set_count a n s) = heap s" "mutexes (set_count a n s) = mutexes s"
  "esp_reg (set_count a n s) = esp_reg s" "next_tid (set_count a n s) = next_tid s"
  "timer_ticks (set_count a n s) = timer_ticks s" "condvars (set_count a n s) = condvars s"
  by (auto simp: upd_sem_def)

lemma upd_sem_count: "upd_sem a (\<lambda>c. c\<lparr>sem_count := f (sem_count c)\<rparr>) s = set_count a (f (sem_count (sems s a))) s"
  by (simp add: upd_sem_def)

lemma semaphore_up_wakes:
  assumes inv: "kinv s v" and ok: "sem_ok s v a" and lim: "level s a < 2147483647"
    and ncur: "v_sem v a \<noteq> [] \<Longrightarrow> hd (v_sem v a) \<noteq> current_thread s"
  shows "\<exists>s'. semaphore_up a s = Inr s' \<and> kinv s' (wake_view (SemQ a) v) \<and> sem_ok s' (wake_view (SemQ a) v) a \<and>
     frame (set_count a (sem_count (sems s a) + 1) s) s' \<and> tcbs s' = wake_tcbs (SemQ a) v (tcbs s)"
proof -
  let ?n = "sem_count (sems s a) + 1"
  let ?s2 = "set_count a ?n (s\<lparr>hw := cli (hw s)\<rparr>)"
  have "kinv ?s2 v" using inv by simp
  then obtain s3 where r: "(if wait_queue_head (root ?s2 (P_wait (SemQ a))) \<noteq> 0
      then andthen (place_pop (SemQ a) ?s2) (\<lambda>(t, s1). thread_unblock t s1) else Inr ?s2) = Inr s3"
    "kinv s3 (wake_view (SemQ a) v)" "frame ?s2 s3" "tcbs s3 = wake_tcbs (SemQ a) v (tcbs ?s2)"
    using wake_first [of ?s2 v "SemQ a"] ncur by auto
  have h: "hw s3 = cli (hw s)" using frameD(6) [OF r(3)] by simp
  let ?s' = "s3\<lparr>hw := hw s\<rparr>"
  have "semaphore_up a s = Inr ?s'"
    using r(1) kinv_cur_nonnull [OF inv] irq_restore_back [OF h]
    by (simp add: semaphore_up_def irq_off_eq upd_sem_count [of a "\<lambda>n. n + 1"] place_ops Let_def
        del: andthen_eq_Inr split: if_splits)
  moreover have fr: "frame (set_count a ?n s) ?s'" using r(3) by (simp add: frame_def)
  moreover have "sem_ok ?s' (wake_view (SemQ a) v) a"
  proof -
    have "level ?s' a = level s a + 1" using frameD(4) [OF fr, of a] sint_inc [OF lim] by simp
    then show ?thesis using ok by (auto simp: sem_ok_def wake_view_def split: list.splits)
  qed
  ultimately show ?thesis using r(2,4) by (intro exI [of _ ?s']) simp
qed

lemma semaphore_down_takes:
  assumes "kinv s v" "0 < level s a"
  shows "semaphore_down a s = Return () (set_count a (sem_count (sems s a) - 1) s)"
proof -
  let ?s2 = "set_count a (sem_count (sems s a) - 1) (s\<lparr>hw := cli (hw s)\<rparr>)"
  have "\<not> level ?s2 a < 0" using assms(2) sint_dec [of "sem_count (sems s a)"] by simp
  moreover have "irq_restore (interrupt_is_enabled (hw s)) ?s2 = set_count a (sem_count (sems s a) - 1) s"
    using irq_restore_back [of ?s2 s] by (simp add: upd_sem_def)
  ultimately show ?thesis
    using kinv_cur_nonnull [OF assms(1)]
    by (simp add: semaphore_down_def irq_off_eq upd_sem_count [of a "\<lambda>n. n - 1"] Let_def)
qed

lemma semaphore_down_waits:
  assumes inv: "kinv s v" and run: "running s" and nidle: "current_thread s \<noteq> idle_thread s"
    and ok: "sem_ok s v a" and lev: "level s a \<le> 0" "- 2147483648 < level s a"
  shows "\<exists>s'. semaphore_down a s = Yield s' (\<lambda>s1. Return () (irq_restore (interrupt_is_enabled (hw s)) s1)) \<and>
     kinv s' (wait_view (SemQ a) (current_thread s) v) \<and> sem_ok s' (wait_view (SemQ a) (current_thread s) v) a \<and>
     frame (set_count a (sem_count (sems s a) - 1) (s\<lparr>hw := cli (hw s)\<rparr>)) s' \<and>
     (\<forall>t. t \<noteq> current_thread s \<longrightarrow> tcbs s' t = tcbs s t) \<and>
     blocks (tcbs s (current_thread s)) (tcbs s' (current_thread s))"
proof -
  let ?c = "current_thread s" and ?n = "sem_count (sems s a) - 1"
  let ?s2 = "set_count a ?n (s\<lparr>hw := cli (hw s)\<rparr>)"
  let ?s3 = "set_status ?c ThreadStatus_Blocked ?s2"
  let ?s4 = "if blocker_type (tcbs ?s3 ?c) = BlockerType_None then set_blocker ?c a BlockerType_Semaphore ?s3 else ?s3"
  let ?s5 = "place_append (SemQ a) ?c ?s4"
  have n: "sint ?n = level s a - 1" using sint_dec [OF lev(2)] by simp
  have b: "kinv ?s5 (wait_view (SemQ a) ?c v) \<and> frame ?s4 ?s5 \<and> tcbs ?s5 = tcbs ?s4"
  proof (rule block_current [OF inv run nidle])
    show "lists_ok ?s4 v" using kinv_lists [OF inv] by simp
  qed (simp_all add: set_status_def set_blocker_def upd_tcb_def)
  have "semaphore_down a s = Yield ?s5 (\<lambda>s1. Return () (irq_restore (interrupt_is_enabled (hw s)) s1))"
    using kinv_cur_nonnull [OF inv] n lev(1)
    by (simp add: semaphore_down_def irq_off_eq upd_sem_count [of a "\<lambda>n. n - 1"] Let_def thread_yield_def place_ops)
  moreover have fr: "frame ?s2 ?s5"
  proof (rule frame_trans)
    show "frame ?s2 ?s4" by (simp add: frame_def set_status_def set_blocker_def upd_tcb_def)
    show "frame ?s4 ?s5" using b by blast
  qed
  moreover have "sem_ok ?s5 (wait_view (SemQ a) ?c v) a"
    using ok n lev(1) frameD(4) [OF fr, of a] by (simp add: sem_ok_def wait_view_def)
  moreover have "tcbs ?s5 t = tcbs s t" if "t \<noteq> ?c" for t
    using b that by (simp add: set_status_def set_blocker_def upd_tcb_def)
  moreover have "blocks (tcbs s ?c) (tcbs ?s5 ?c)"
    using b by (simp add: blocks_def set_status_def set_blocker_def upd_tcb_def)
  ultimately show ?thesis using b by blast
qed

lemma semaphore_try_down_takes:
  assumes "kinv s v"
  shows "semaphore_try_down a s = Inr (0 < level s a,
     if 0 < level s a then set_count a (sem_count (sems s a) - 1) s else s)"
proof -
  let ?s2 = "set_count a (sem_count (sems s a) - 1) (s\<lparr>hw := cli (hw s)\<rparr>)"
  have "irq_restore (interrupt_is_enabled (hw s)) ?s2 = set_count a (sem_count (sems s a) - 1) s"
    using irq_restore_back [of ?s2 s] by (simp add: upd_sem_def)
  then show ?thesis
    using kinv_cur_nonnull [OF assms] irq_restore_back [of "s\<lparr>hw := cli (hw s)\<rparr>" s]
    by (simp add: semaphore_try_down_def irq_off_eq upd_sem_count [of a "\<lambda>n. n - 1"])
qed

section \<open>Mutexes\<close>

lemma upd_mutex_fields [simp]:
  "mutexes (upd_mutex m f s) x = (if x = m then f (mutexes s m) else mutexes s x)" "sems (upd_mutex m f s) = sems s"
  "hw (upd_mutex m f s) = hw s" "heap (upd_mutex m f s) = heap s" "timer_ticks (upd_mutex m f s) = timer_ticks s"
  "condvars (upd_mutex m f s) = condvars s" "esp_reg (upd_mutex m f s) = esp_reg s"
  "next_tid (upd_mutex m f s) = next_tid s" "root (upd_mutex m f s) p = root s p"
  by (auto simp: upd_mutex_def) (cases p rule: place_cases; simp)

lemma set_blocker_fields [simp]:
  "mutexes (set_blocker t ob ty s) = mutexes s" "sems (set_blocker t ob ty s) = sems s"
  "hw (set_blocker t ob ty s) = hw s" "heap (set_blocker t ob ty s) = heap s"
  "timer_ticks (set_blocker t ob ty s) = timer_ticks s" "condvars (set_blocker t ob ty s) = condvars s"
  "esp_reg (set_blocker t ob ty s) = esp_reg s" "next_tid (set_blocker t ob ty s) = next_tid s"
  by (simp_all add: set_blocker_def upd_tcb_def)

lemma running_upd [simp]:
  "running (set_blocker t ob ty s) = running s" "running (s\<lparr>hw := h\<rparr>) = running s" "running (upd_mutex m f s) = running s"
  by (simp_all add: running_def)

text \<open>The part of \<^verbatim>\<open>mutex_acquire\<close> after its thread has been woken.\<close>

definition finish_acquire :: "u32 \<Rightarrow> bool \<Rightarrow> kern \<Rightarrow> kern" where
  "finish_acquire m b s = irq_restore b (upd_mutex m (\<lambda>_. \<lparr>holder = current_thread s, recursion_count = 1\<rparr>)
     (s\<lparr>hw := cli (hw s)\<rparr>))"

lemma mutex_acquire_again:
  assumes "kinv s v" "holder (mutexes s m) = current_thread s"
  shows "mutex_acquire m s = Return () (upd_mutex m (\<lambda>c. c\<lparr>recursion_count := recursion_count c + 1\<rparr>) s)"
  using kinv_cur_nonnull [OF assms(1)] assms(2)
    irq_restore_back [of "upd_mutex m (\<lambda>c. c\<lparr>recursion_count := recursion_count c + 1\<rparr>) (s\<lparr>hw := cli (hw s)\<rparr>)" s]
  by (simp add: mutex_acquire_def irq_off_eq upd_mutex_def)

lemma mutex_acquire_free:
  assumes "kinv s v" "holder (mutexes s m) \<noteq> current_thread s" "0 < level s m"
  shows "mutex_acquire m s = Return () (upd_mutex m (\<lambda>_. \<lparr>holder = current_thread s, recursion_count = 1\<rparr>)
     (set_count m (sem_count (sems s m) - 1) (set_blocker (current_thread s) m BlockerType_Mutex s)))"
proof -
  let ?c = "current_thread s"
  let ?s2 = "set_blocker ?c m BlockerType_Mutex (s\<lparr>hw := cli (hw s)\<rparr>)"
  let ?s3 = "set_count m (sem_count (sems s m) - 1) ?s2"
  let ?s4 = "upd_mutex m (\<lambda>_. \<lparr>holder = ?c, recursion_count = 1\<rparr>) ?s3"
  have d: "semaphore_down m ?s2 = Return () ?s3" using semaphore_down_takes [of ?s2 v m] assms(1,3) by simp
  have "irq_restore (interrupt_is_enabled (hw s)) ?s4 = ?s4\<lparr>hw := hw s\<rparr>" by (rule irq_restore_back) simp
  also have "\<dots> = upd_mutex m (\<lambda>_. \<lparr>holder = ?c, recursion_count = 1\<rparr>)
      (set_count m (sem_count (sems s m) - 1) (set_blocker ?c m BlockerType_Mutex s))"
    by (simp add: upd_mutex_def upd_sem_def set_blocker_def upd_tcb_def)
  finally show ?thesis
    using kinv_cur_nonnull [OF assms(1)] assms(2) d by (simp add: mutex_acquire_def irq_off_eq Let_def)
qed

lemma mutex_acquire_waits:
  assumes inv: "kinv s v" and run: "running s" and nidle: "current_thread s \<noteq> idle_thread s"
    and ok: "sem_ok s v m" and lev: "level s m \<le> 0" "- 2147483648 < level s m"
    and other: "holder (mutexes s m) \<noteq> current_thread s"
  shows "\<exists>s'. mutex_acquire m s =
       Yield s' (\<lambda>s1. Return () (finish_acquire m (interrupt_is_enabled (hw s)) s1)) \<and>
     kinv s' (wait_view (SemQ m) (current_thread s) v) \<and> sem_ok s' (wait_view (SemQ m) (current_thread s) v) m \<and>
     frame (set_count m (sem_count (sems s m) - 1) (s\<lparr>hw := cli (hw s)\<rparr>)) s' \<and>
     (\<forall>t. t \<noteq> current_thread s \<longrightarrow> tcbs s' t = tcbs s t) \<and>
     blocks (tcbs s (current_thread s)) (tcbs s' (current_thread s))"
proof -
  let ?c = "current_thread s"
  let ?s2 = "set_blocker ?c m BlockerType_Mutex (s\<lparr>hw := cli (hw s)\<rparr>)"
  obtain s' where d: "semaphore_down m ?s2 = Yield s' (\<lambda>s1. Return () (irq_restore (interrupt_is_enabled (hw ?s2)) s1))"
    "kinv s' (wait_view (SemQ m) ?c v)" "sem_ok s' (wait_view (SemQ m) ?c v) m"
    "frame (set_count m (sem_count (sems ?s2 m) - 1) (?s2\<lparr>hw := cli (hw ?s2)\<rparr>)) s'"
    "\<forall>t. t \<noteq> ?c \<longrightarrow> tcbs s' t = tcbs ?s2 t" "blocks (tcbs ?s2 ?c) (tcbs s' ?c)"
    using semaphore_down_waits [of ?s2 v m] inv run nidle ok lev by (auto simp: sem_ok_def)
  have "mutex_acquire m s = Yield s' (\<lambda>s1. Return () (finish_acquire m (interrupt_is_enabled (hw s)) s1))"
    using kinv_cur_nonnull [OF inv] other d(1) by (simp add: mutex_acquire_def irq_off_eq Let_def finish_acquire_def)
  moreover have "frame (set_count m (sem_count (sems s m) - 1) (s\<lparr>hw := cli (hw s)\<rparr>)) s'"
    using d(4) by (simp add: frame_def)
  moreover have "tcbs s' t = tcbs s t" if "t \<noteq> ?c" for t
    using d(5) that by (simp add: set_blocker_def upd_tcb_def)
  moreover have "blocks (tcbs s ?c) (tcbs s' ?c)"
    using d(6) by (simp add: blocks_def set_blocker_def upd_tcb_def)
  ultimately show ?thesis using d(2,3) by blast
qed

lemma mutex_release_nested:
  assumes "kinv s v" "holder (mutexes s m) = current_thread s" "1 < recursion_count (mutexes s m)"
  shows "mutex_release m s = Inr (upd_mutex m (\<lambda>c. c\<lparr>recursion_count := recursion_count c - 1\<rparr>) s)"
proof -
  let ?r = "recursion_count (mutexes s m)"
  let ?s2 = "upd_mutex m (\<lambda>c. c\<lparr>recursion_count := recursion_count c - 1\<rparr>) (s\<lparr>hw := cli (hw s)\<rparr>)"
  have all_ones: "(0xFFFFFFFF :: u32) = - 1" by simp
  have "?r - 1 \<noteq> 0" "?r - 1 \<noteq> 0xFFFFFFFF" using assms(3) unfolding all_ones by auto
  moreover have "irq_restore (interrupt_is_enabled (hw s)) ?s2 = ?s2\<lparr>hw := hw s\<rparr>" by (rule irq_restore_back) simp
  ultimately show ?thesis
    using kinv_cur_nonnull [OF assms(1)] assms(2) by (simp add: mutex_release_def irq_off_eq Let_def upd_mutex_def)
qed

definition free_mutex :: mutex where
  "free_mutex = \<lparr>holder = 0, recursion_count = 0\<rparr>"

lemma mutex_release_last:
  assumes inv: "kinv s v" and own: "mutexes s m = \<lparr>holder = current_thread s, recursion_count = 1\<rparr>"
    and ok: "sem_ok s v m" and lim: "level s m < 2147483647"
    and ncur: "v_sem v m \<noteq> [] \<Longrightarrow> hd (v_sem v m) \<noteq> current_thread s"
  shows "\<exists>s'. mutex_release m s = Inr s' \<and> kinv s' (wake_view (SemQ m) v) \<and> sem_ok s' (wake_view (SemQ m) v) m \<and>
     frame (set_count m (sem_count (sems s m) + 1) (upd_mutex m (\<lambda>_. free_mutex) s)) s' \<and>
     tcbs s' = wake_tcbs (SemQ m) v (tcbs s)"
proof -
  let ?s2 = "upd_mutex m (\<lambda>c. c\<lparr>holder := 0\<rparr>)
    (upd_mutex m (\<lambda>c. c\<lparr>recursion_count := recursion_count c - 1\<rparr>) (s\<lparr>hw := cli (hw s)\<rparr>))"
  obtain s3 where u: "semaphore_up m ?s2 = Inr s3" "kinv s3 (wake_view (SemQ m) v)" "sem_ok s3 (wake_view (SemQ m) v) m"
    "frame (set_count m (sem_count (sems ?s2 m) + 1) ?s2) s3" "tcbs s3 = wake_tcbs (SemQ m) v (tcbs ?s2)"
    using semaphore_up_wakes [of ?s2 v m] inv ok lim ncur by (auto simp: sem_ok_def)
  have "hw s3 = cli (hw s)" using frameD(6) [OF u(4)] by simp
  then have "irq_restore (interrupt_is_enabled (hw s)) s3 = s3\<lparr>hw := hw s\<rparr>" by (rule irq_restore_back)
  then have "mutex_release m s = Inr (s3\<lparr>hw := hw s\<rparr>)"
    using kinv_cur_nonnull [OF inv] own u(1) by (simp add: mutex_release_def irq_off_eq Let_def)
  moreover have "frame (set_count m (sem_count (sems s m) + 1) (upd_mutex m (\<lambda>_. free_mutex) s)) (s3\<lparr>hw := hw s\<rparr>)"
    using u(4) own by (simp add: frame_def upd_mutex_def free_mutex_def)
  ultimately show ?thesis using u(2,3,5) by (intro exI [of _ "s3\<lparr>hw := hw s\<rparr>"]) (simp add: sem_ok_def)
qed

lemma mutex_release_foreign:
  assumes "kinv s v" "holder (mutexes s m) \<noteq> current_thread s"
  shows "mutex_release m s = Inl (Panic ''mutex_release(): Owner thread must release the lock'')"
  using kinv_cur_nonnull [OF assms(1)] assms(2) by (simp add: mutex_release_def irq_off_eq)

lemma mutex_try_acquire_result:
  assumes "kinv s v"
  shows "mutex_try_acquire m s =
    (if holder (mutexes s m) = current_thread s
     then Inr (True, upd_mutex m (\<lambda>c. c\<lparr>recursion_count := recursion_count c + 1\<rparr>) s)
     else if 0 < level s m
     then Inr (True, upd_mutex m (\<lambda>_. \<lparr>holder = current_thread s, recursion_count = 1\<rparr>)
            (set_count m (sem_count (sems s m) - 1) s))
     else Inr (False, s))"
  using kinv_cur_nonnull [OF assms] semaphore_try_down_takes [OF assms, of m] by (simp add: mutex_try_acquire_def)

section \<open>Condition variables\<close>

lemma condvar_wait_waits:
  assumes inv: "kinv s v" and run: "running s" and nidle: "current_thread s \<noteq> idle_thread s"
    and own: "mutexes s m = \<lparr>holder = current_thread s, recursion_count = 1\<rparr>"
    and ok: "sem_ok s v m" and lim: "level s m < 2147483647"
  shows "\<exists>s'. condvar_wait c m s =
       Yield s' (\<lambda>s1. mutex_acquire m (irq_restore (interrupt_is_enabled (hw s)) s1)) \<and>
     kinv s' (wake_view (SemQ m) (wait_view (CondQ c) (current_thread s) v)) \<and>
     sem_ok s' (wake_view (SemQ m) (wait_view (CondQ c) (current_thread s) v)) m \<and>
     frame (set_count m (sem_count (sems s m) + 1) (upd_mutex m (\<lambda>_. free_mutex) (s\<lparr>hw := cli (hw s)\<rparr>))) s' \<and>
     (\<forall>t. t \<noteq> current_thread s \<longrightarrow> tcbs s' t = wake_tcbs (SemQ m) v (tcbs s) t) \<and>
     blocks (tcbs s (current_thread s)) (tcbs s' (current_thread s))"
proof -
  let ?c = "current_thread s"
  let ?s2 = "set_blocker ?c c BlockerType_CondVar (set_status ?c ThreadStatus_Blocked (s\<lparr>hw := cli (hw s)\<rparr>))"
  let ?s3 = "place_append (CondQ c) ?c ?s2" and ?v3 = "wait_view (CondQ c) ?c v"
  have b: "kinv ?s3 ?v3 \<and> frame ?s2 ?s3 \<and> tcbs ?s3 = tcbs ?s2"
  proof (rule block_current [OF inv run nidle])
    show "lists_ok ?s2 v" using kinv_lists [OF inv] by simp
  qed (simp_all add: set_status_def set_blocker_def upd_tcb_def)
  have fr2: "frame (s\<lparr>hw := cli (hw s)\<rparr>) ?s3"
    by (rule frame_trans [of _ ?s2]) (use b in \<open>simp_all add: frame_def set_status_def set_blocker_def upd_tcb_def\<close>)
  note fr = frameD [OF fr2]
  have q: "v_sem ?v3 m = v_sem v m" by (simp add: wait_view_def)
  have "?c \<notin> set (v_sem v m)" by (rule running_unplaced [OF inv run])
  then have hd: "v_sem ?v3 m \<noteq> [] \<Longrightarrow> hd (v_sem ?v3 m) \<noteq> current_thread ?s3"
    using q fr(1) hd_in_set [of "v_sem v m"] by fastforce
  have ok3: "sem_ok ?s3 ?v3 m" using ok q fr(4) by (simp add: sem_ok_def)
  obtain s4 where r: "mutex_release m ?s3 = Inr s4" "kinv s4 (wake_view (SemQ m) ?v3)"
    "sem_ok s4 (wake_view (SemQ m) ?v3) m"
    "frame (set_count m (sem_count (sems ?s3 m) + 1) (upd_mutex m (\<lambda>_. free_mutex) ?s3)) s4"
    "tcbs s4 = wake_tcbs (SemQ m) ?v3 (tcbs ?s3)"
    using mutex_release_last [of ?s3 ?v3 m] b own ok3 lim fr(1,3,4) hd by auto
  have "condvar_wait c m s = Yield s4 (\<lambda>s1. mutex_acquire m (irq_restore (interrupt_is_enabled (hw s)) s1))"
    using kinv_cur_nonnull [OF inv] r(1) by (simp add: condvar_wait_def irq_off_eq Let_def place_ops thread_yield_def)
  moreover have "frame (set_count m (sem_count (sems s m) + 1) (upd_mutex m (\<lambda>_. free_mutex) (s\<lparr>hw := cli (hw s)\<rparr>))) s4"
    using r(4) fr2 by (simp add: frame_def upd_mutex_def)
  moreover have "tcbs s4 t = wake_tcbs (SemQ m) v (tcbs s) t" if "t \<noteq> ?c" for t
    using r(5) b that q by (auto simp: wake_tcbs_def set_status_def set_blocker_def upd_tcb_def split: list.splits)
  moreover have "blocks (tcbs s ?c) (tcbs s4 ?c)"
    using r(5) b hd fr(1) by (auto simp: blocks_def wake_tcbs_def set_status_def set_blocker_def upd_tcb_def split: list.splits)
  ultimately show ?thesis using r(2,3) by blast
qed

lemma condvar_signal_wakes:
  assumes inv: "kinv s v" and run: "running s"
  shows "\<exists>s'. condvar_signal c s = Inr s' \<and> kinv s' (wake_view (CondQ c) v) \<and> frame s s' \<and>
     tcbs s' = wake_tcbs (CondQ c) v (tcbs s)"
proof -
  let ?s1 = "s\<lparr>hw := cli (hw s)\<rparr>"
  have "current_thread s \<notin> set (v_cond v c)" by (rule running_unplaced [OF inv run])
  then have "v_cond v c \<noteq> [] \<Longrightarrow> hd (v_cond v c) \<noteq> current_thread ?s1" using hd_in_set [of "v_cond v c"] by fastforce
  then obtain s2 where r: "(if wait_queue_head (root ?s1 (P_wait (CondQ c))) \<noteq> 0
      then andthen (place_pop (CondQ c) ?s1) (\<lambda>(t, s1). thread_unblock t s1) else Inr ?s1) = Inr s2"
    "kinv s2 (wake_view (CondQ c) v)" "frame ?s1 s2" "tcbs s2 = wake_tcbs (CondQ c) v (tcbs ?s1)"
    using wake_first [of ?s1 v "CondQ c"] inv by auto
  have "hw s2 = cli (hw s)" using frameD(6) [OF r(3)] by simp
  then have "irq_restore (interrupt_is_enabled (hw s)) s2 = s2\<lparr>hw := hw s\<rparr>" by (rule irq_restore_back)
  then have "condvar_signal c s = Inr (s2\<lparr>hw := hw s\<rparr>)"
    using r(1) kinv_cur_nonnull [OF inv]
    by (simp add: condvar_signal_def irq_off_eq place_ops del: andthen_eq_Inr split: if_splits)
  then show ?thesis using r(2-4) by (intro exI [of _ "s2\<lparr>hw := hw s\<rparr>"]) (simp add: frame_def)
qed

definition wake_all_view :: "u32 \<Rightarrow> view \<Rightarrow> view" where
  "wake_all_view c v = put P_ready (rev (v_cond v c) @ v_ready v) (put (P_wait (CondQ c)) [] v)"

lemma put_commute: "p \<noteq> q \<Longrightarrow> put p xs (put q ys v) = put q ys (put p xs v)"
  by (simp add: put_def fun_upd_twist)

lemma put_put [simp]: "put p xs (put p ys v) = put p xs v" "put p (v_at v p) v = v"
  by (simp_all add: put_def)

lemma broadcast_from_wakes:
  assumes "kinv s v" "running s"
  shows "\<exists>s'. broadcast_from c s = Some (Inr s') \<and> kinv s' (wake_all_view c v) \<and> frame s s' \<and>
     (\<forall>t. tcbs s' t = (if t \<in> set (v_cond v c) then wake_tcb (tcbs s t) else tcbs s t))"
  using assms
proof (induction "v_cond v c" arbitrary: s v)
  case Nil
  then have "wait_queue_head (condvars s c) = 0"
    using root_empty [OF kinv_lists [OF Nil.prems(1)], of "P_wait (CondQ c)"] by simp
  moreover have "wake_all_view c v = v" using Nil.hyps put_put(2) [of "P_wait (CondQ c)" v] by (simp add: wake_all_view_def)
  ultimately show ?case using Nil by (simp add: broadcast_from.simps)
next
  case (Cons t xs)
  note q = Cons.hyps(2) [symmetric]
  have "current_thread s \<notin> set (v_cond v c)" by (rule running_unplaced [OF Cons.prems])
  then have nc: "t \<noteq> current_thread s" "current_thread s \<notin> set xs" using q by auto
  obtain s1 where r: "andthen (place_pop (CondQ c) s) (\<lambda>(t, s1). thread_unblock t s1) = Inr s1"
    "kinv s1 (wake_view (CondQ c) v)" "frame s s1" "tcbs s1 = (tcbs s)(t := wake_tcb (tcbs s t))"
    using pop_unblock [OF Cons.prems(1) q nc(1)] by blast
  have v1: "wake_view (CondQ c) v = put P_ready (t # v_ready v) (put (P_wait (CondQ c)) xs v)"
    using q by (simp add: wake_view_def)
  have "running s1" using Cons.prems(2) r(3,4) nc(1) by (simp add: running_def frame_def)
  then obtain s' where ih: "broadcast_from c s1 = Some (Inr s')" "kinv s' (wake_all_view c (wake_view (CondQ c) v))"
    "frame s1 s'" "\<And>u. tcbs s' u = (if u \<in> set xs then wake_tcb (tcbs s1 u) else tcbs s1 u)"
    using Cons.hyps(1) [of "wake_view (CondQ c) v" s1] r(2) v1 by auto
  have "wait_queue_head (condvars s c) \<noteq> 0"
    using root_empty [OF kinv_lists [OF Cons.prems(1)], of "P_wait (CondQ c)"] q by simp
  then have "broadcast_from c s = Some (Inr s')"
    using r(1) ih(1) by (subst broadcast_from.simps) (simp add: place_ops Let_def del: andthen_eq_Inr)
  moreover have "wake_all_view c (wake_view (CondQ c) v) = wake_all_view c v"
    unfolding v1 by (simp add: wake_all_view_def q put_commute [of P_ready "P_wait (CondQ c)"])
  moreover have "t \<notin> set xs" using lists_distinct(2) [OF kinv_lists [OF Cons.prems(1)], of "P_wait (CondQ c)"] q by simp
  then have "tcbs s' u = (if u \<in> set (v_cond v c) then wake_tcb (tcbs s u) else tcbs s u)" for u
    using ih(4) [of u] r(4) q by auto
  ultimately show ?case using ih(2) frame_trans [OF r(3) ih(3)] by metis
qed

lemma condvar_broadcast_wakes:
  assumes inv: "kinv s v" and run: "running s"
  shows "\<exists>s'. condvar_broadcast c s = Inr s' \<and> kinv s' (wake_all_view c v) \<and> frame s s' \<and>
     (\<forall>t. tcbs s' t = (if t \<in> set (v_cond v c) then wake_tcb (tcbs s t) else tcbs s t))"
proof -
  let ?s1 = "s\<lparr>hw := cli (hw s)\<rparr>"
  obtain s2 where r: "broadcast_from c ?s1 = Some (Inr s2)" "kinv s2 (wake_all_view c v)" "frame ?s1 s2"
    "\<forall>t. tcbs s2 t = (if t \<in> set (v_cond v c) then wake_tcb (tcbs s t) else tcbs s t)"
    using broadcast_from_wakes [of ?s1 v c] inv run by auto
  have "hw s2 = cli (hw s)" using frameD(6) [OF r(3)] by simp
  then have "irq_restore (interrupt_is_enabled (hw s)) s2 = s2\<lparr>hw := hw s\<rparr>" by (rule irq_restore_back)
  then have "condvar_broadcast c s = Inr (s2\<lparr>hw := hw s\<rparr>)"
    using r(1) kinv_cur_nonnull [OF inv] by (simp add: condvar_broadcast_def irq_off_eq)
  then show ?thesis using r(2-4) by (intro exI [of _ "s2\<lparr>hw := hw s\<rparr>"]) (simp add: frame_def)
qed

end
