(* ===== verification/SchedInv.thy ===== *)
theory SchedInv
  imports SynchInv KmallocClient
begin

text \<open>
  The scheduler and the timer tick refine their specification on views: the tick moves exactly the
  sleepers that are due to the front of the ready list; the scheduler frees the dead threads, takes
  the thread that has been ready longest and puts the one that leaves the processor where its status
  says.
\<close>

section \<open>The timer tick\<close>

definition due :: "kern \<Rightarrow> u32 \<Rightarrow> bool" where
  "due s t \<longleftrightarrow> wakeup_ticks (tcbs s t) \<le> timer_ticks s"

definition tick_view :: "kern \<Rightarrow> view \<Rightarrow> view" where
  "tick_view s v = put P_ready (rev (filter (due s) (v_sleep v)) @ v_ready v)
     (put P_sleep (filter (\<lambda>t. \<not> due s t) (v_sleep v)) v)"

lemma place_walk:
  assumes "lists_ok s v" "v_at v p = xs @ t # ys"
  shows "thread (local_links s (local_node t)) = t"
    "nxt (local_links s (local_node t)) = (if ys = [] then 0 else local_node (hd ys))"
proof -
  have "t \<in> set (v_all v)" using lists_member [OF assms(1), of t p] assms(2) by simp
  then show "thread (local_links s (local_node t)) = t" using lists_node [OF assms(1)] by (simp add: node_ok_def)
  have "dll (local_links s) 0 (wait_queue_head (root s p)) (map local_node xs @ local_node t # map local_node ys)"
    using lists_place [OF assms(1), of p] assms(2) by (simp add: place_holds_def)
  then show "nxt (local_links s (local_node t)) = (if ys = [] then 0 else local_node (hd ys))"
    using dll_neighbours(2) by (fastforce simp: hd_map)
qed

lemma wake_if_due_ok:
  assumes inv: "kinv s v" and q: "v_sleep v = xs @ t # ys"
  shows "\<exists>s'. wake_if_due t s = Inr s' \<and> frame s s' \<and>
     kinv s' (if due s t then put P_ready (t # v_ready v) (put P_sleep (xs @ ys) v) else v) \<and>
     (\<forall>u. tcbs s' u = (if u = t \<and> due s t then (tcbs s t)\<lparr>status := ThreadStatus_Ready\<rparr> else tcbs s u))"
proof -
  note ok = kinv_lists [OF inv]
  have st: "status (tcbs s t) = ThreadStatus_Sleeping" using kinv_status [OF inv, of t P_sleep] q by simp
  have ncur: "t \<noteq> current_thread s" using kinv_cur_place [OF inv, of P_sleep] q by auto
  show ?thesis
  proof (cases "due s t")
    case False
    then show ?thesis using st inv by (simp add: wake_if_due_def due_def)
  next
    case True
    obtain q1 ns1 where r: "place_remove P_sleep (local_node t) s = Inr (set_root P_sleep q1 (s\<lparr>local_links := ns1\<rparr>))"
      "lists_ok (set_root P_sleep q1 (s\<lparr>local_links := ns1\<rparr>)) (put P_sleep (xs @ ys) v)"
      using place_remove_ok [OF ok q] by blast
    let ?s1 = "set_root P_sleep q1 (s\<lparr>local_links := ns1\<rparr>)" and ?v1 = "put P_sleep (xs @ ys) v"
    let ?s2 = "set_status t ThreadStatus_Ready ?s1"
    have ta: "t \<in> set (v_all v)" using lists_member [OF ok, of t P_sleep] q by simp
    have "t \<notin> set (xs @ ys)" using lists_distinct(2) [OF ok, of P_sleep] q by auto
    moreover have "t \<notin> set (v_at v p)" if "p \<noteq> P_sleep" for p
      using lists_disjoint [OF ok that [symmetric]] q by simp
    ultimately have un: "t \<notin> set (v_at ?v1 p)" for p by (cases "p = P_sleep") simp_all
    obtain q2 ns2 where a: "place_add P_ready t ?s2 = set_root P_ready q2 (?s2\<lparr>local_links := ns2\<rparr>)"
      "lists_ok (place_add P_ready t ?s2) (put P_ready (t # v_at ?v1 P_ready) ?v1)"
      using place_add_ok [of ?s2 ?v1 t P_ready] r(2) ta un by auto
    let ?s' = "place_add P_ready t ?s2"
    have tc: "tcbs ?s' = (tcbs s)(t := (tcbs s t)\<lparr>status := ThreadStatus_Ready\<rparr>)"
      using a(1) by (simp add: set_status_def upd_tcb_def)
    have fr: "frame s ?s'" using a(1) by (simp add: frame_def set_status_def upd_tcb_def)
    have "kinv ?s' (put P_ready (t # v_ready v) (put P_sleep (xs @ ys) v))"
      using kinv_make_ready [OF inv, of P_sleep xs t ys ?s'] q ncur a(2) fr tc by simp
    moreover have "wake_if_due t s = Inr ?s'"
      using st True r(1) by (simp add: wake_if_due_def due_def place_ops)
    ultimately show ?thesis using fr tc True by auto
  qed
qed

lemma timer_tick_from_ok:
  assumes "kinv s v" "v_sleep v = xs @ ys"
  shows "\<exists>s'. timer_tick_from (if ys = [] then 0 else local_node (hd ys)) s = Some (Inr s') \<and> frame s s' \<and>
     kinv s' (put P_ready (rev (filter (due s) ys) @ v_ready v) (put P_sleep (xs @ filter (\<lambda>t. \<not> due s t) ys) v)) \<and>
     (\<forall>u. tcbs s' u = (if u \<in> set ys \<and> due s u then (tcbs s u)\<lparr>status := ThreadStatus_Ready\<rparr> else tcbs s u))"
  using assms
proof (induction ys arbitrary: s v xs)
  case Nil
  then have "put P_ready (v_ready v) (put P_sleep xs v) = v" using put_put(2) by (metis append_Nil2)
  then show ?case using Nil by (simp add: timer_tick_from.simps)
next
  case (Cons t ys)
  note ok = kinv_lists [OF Cons.prems(1)]
  obtain s1 where w: "wake_if_due t s = Inr s1" "frame s s1"
    "kinv s1 (if due s t then put P_ready (t # v_ready v) (put P_sleep (xs @ ys) v) else v)"
    "\<forall>u. tcbs s1 u = (if u = t \<and> due s t then (tcbs s t)\<lparr>status := ThreadStatus_Ready\<rparr> else tcbs s u)"
    using wake_if_due_ok [OF Cons.prems] by blast
  have tn: "t \<notin> set ys" using lists_distinct(2) [OF ok, of P_sleep] Cons.prems(2) by simp
  have due1: "due s1 = due s" using w(4) frameD(5) [OF w(2)] by (intro ext) (simp add: due_def)
  have step: "timer_tick_from (local_node t) s = timer_tick_from (if ys = [] then 0 else local_node (hd ys)) s1"
    using place_walk [OF ok Cons.prems(2)] w(1) lists_nz [OF ok] lists_member [OF ok, of t P_sleep] Cons.prems(2)
    by (subst timer_tick_from.simps) (simp add: Let_def)
  let ?v1 = "if due s t then put P_ready (t # v_ready v) (put P_sleep (xs @ ys) v) else v"
  let ?xs1 = "if due s t then xs else xs @ [t]"
  have "v_sleep ?v1 = ?xs1 @ ys" using Cons.prems(2) by simp
  then obtain s' where ih: "timer_tick_from (if ys = [] then 0 else local_node (hd ys)) s1 = Some (Inr s')" "frame s1 s'"
    "kinv s' (put P_ready (rev (filter (due s1) ys) @ v_ready ?v1) (put P_sleep (?xs1 @ filter (\<lambda>t. \<not> due s1 t) ys) ?v1))"
    "\<forall>u. tcbs s' u = (if u \<in> set ys \<and> due s1 u then (tcbs s1 u)\<lparr>status := ThreadStatus_Ready\<rparr> else tcbs s1 u)"
    using Cons.IH [OF w(3), of ?xs1] by blast
  have "put P_ready (rev (filter (due s1) ys) @ v_ready ?v1) (put P_sleep (?xs1 @ filter (\<lambda>t. \<not> due s1 t) ys) ?v1) =
     put P_ready (rev (filter (due s) (t # ys)) @ v_ready v) (put P_sleep (xs @ filter (\<lambda>t. \<not> due s t) (t # ys)) v)"
    using due1 by (simp add: put_commute [of P_ready P_sleep])
  moreover have "tcbs s' u = (if u \<in> set (t # ys) \<and> due s u then (tcbs s u)\<lparr>status := ThreadStatus_Ready\<rparr> else tcbs s u)" for u
    using ih(4) w(4) due1 tn by auto
  ultimately show ?case using ih(1,3) step frame_trans [OF w(2) ih(2)] by auto
qed

lemma thread_timer_tick_ok:
  assumes "kinv s v"
  shows "\<exists>s'. thread_timer_tick s = Inr s' \<and> frame s s' \<and> kinv s' (tick_view s v) \<and>
     (\<forall>u. tcbs s' u = (if u \<in> set (v_sleep v) \<and> due s u then (tcbs s u)\<lparr>status := ThreadStatus_Ready\<rparr> else tcbs s u))"
proof -
  have d: "dll (local_links s) 0 (sleeping_threads s) (map local_node (v_sleep v))"
    using lists_place [OF kinv_lists [OF assms], of P_sleep] by (simp add: place_holds_def)
  have "sleeping_threads s = (if v_sleep v = [] then 0 else local_node (hd (v_sleep v)))"
    using dll_head [OF d] by (simp add: hd_map)
  then show ?thesis
    using timer_tick_from_ok [OF assms, of "[]"] unfolding thread_timer_tick_def tick_view_def by force
qed

section \<open>The last thread of the ready list\<close>

lemma last_ready_walk:
  assumes "dll ns b h xs" "xs \<noteq> []"
  shows "last_ready ns h = Some (Inr (last xs))"
  using assms
proof (induction xs arbitrary: b h)
  case (Cons x xs)
  show ?case
  proof (cases xs)
    case Nil
    then show ?thesis using Cons.prems by (subst last_ready.simps) simp
  next
    case (Cons y ys)
    then have "last_ready ns (nxt (ns x)) = Some (Inr (last xs))" "nxt (ns x) = y" "y \<noteq> 0" "prev (ns y) = x" "h = x"
      using Cons.IH [of x "nxt (ns x)"] Cons.prems by auto
    then show ?thesis using Cons by (subst last_ready.simps) simp
  qed
qed simp

end
