(* ===== verification/ZombieInv.thy ===== *)
theory ZombieInv
  imports SchedInv
begin

text \<open>
  Freeing dead threads from the timer interrupt. Each thread but the idle one owns its control block
  and its stack on the heap (\<open>heap_ok\<close>); when the heap lock is free, \<^verbatim>\<open>clean_zombies\<close> returns the memory of
  every dead thread to the heap, exactly once, and unlinks it.
\<close>

section \<open>The heap lock\<close>

definition lock_free :: "kern \<Rightarrow> u32 \<Rightarrow> bool" where
  "lock_free s m \<longleftrightarrow> mutexes s m = free_mutex \<and> sem_count (sems s m) = 1 \<and>
     wait_queue_head (sem_queue (sems s m)) = 0"

text \<open>The blocker fields of the current thread, which every acquisition overwrites.\<close>

definition touch :: "u32 \<Rightarrow> tcb \<Rightarrow> tcb" where
  "touch m c = c\<lparr>blocked_on := m, blocker_type := BlockerType_Mutex\<rparr>"

lemma upd_heap_fields [simp]: "root (s\<lparr>heap := h\<rparr>) p = root s p" "root (set_blocker t ob ty s) p = root s p"
  by (cases p rule: place_cases; simp add: set_blocker_def upd_tcb_def)+

lemma kfree_ok:
  assumes inv: "kinv s v" and free: "lock_free s (free_list_lock (image s))"
    and fr: "kfree_unsafe (heap s) p = Inr h"
  shows "\<exists>s'. kfree p s = Return () s' \<and> kinv s' v \<and> lock_free s' (free_list_lock (image s)) \<and>
     frame (s\<lparr>heap := h\<rparr>) s' \<and>
     tcbs s' = (tcbs s)(current_thread s := touch (free_list_lock (image s)) (tcbs s (current_thread s)))"
proof -
  let ?m = "free_list_lock (image s)" and ?c = "current_thread s"
  have one: "sint (1 :: u32) = 1" by simp
  have cnt: "sem_count (sems s ?m) = 1" and mf: "mutexes s ?m = free_mutex" and hd0: "wait_queue_head (sem_queue (sems s ?m)) = 0"
    using free by (simp_all add: lock_free_def)
  have mf': "(mutexes s)(?m := free_mutex) = mutexes s" using mf by (metis fun_upd_triv)
  have qe: "v_sem v ?m = []" using root_empty [OF kinv_lists [OF inv], of "P_wait (SemQ ?m)"] hd0 by simp
  let ?s1 = "upd_mutex ?m (\<lambda>_. \<lparr>holder = ?c, recursion_count = 1\<rparr>)
     (set_count ?m 0 (set_blocker ?c ?m BlockerType_Mutex s))"
  have a: "mutex_acquire ?m s = Return () ?s1"
    using mutex_acquire_free [OF inv, of ?m] mf cnt one kinv_cur_nonnull [OF inv] by (simp add: free_mutex_def)
  let ?s2 = "?s1\<lparr>heap := h\<rparr>"
  have k2: "kinv ?s2 v" using inv by simp
  obtain s3 where r: "mutex_release ?m ?s2 = Inr s3" "kinv s3 (wake_view (SemQ ?m) v)"
    "frame (set_count ?m (sem_count (sems ?s2 ?m) + 1) (upd_mutex ?m (\<lambda>_. free_mutex) ?s2)) s3"
    "tcbs s3 = wake_tcbs (SemQ ?m) v (tcbs ?s2)"
    using mutex_release_last [OF k2, of ?m] qe by (auto simp: sem_ok_def)
  have k3: "kinv s3 v" and t3: "tcbs s3 = tcbs ?s2" using r(2,4) qe by (simp_all add: wake_view_def wake_tcbs_def)
  have "kfree p s = Return () s3"
    using a fr r(1) by (simp add: kfree_def with_heap_def)
  moreover have f3: "frame (s\<lparr>heap := h\<rparr>) s3"
    using r(3) mf' cnt by (simp add: frame_def upd_mutex_def)
  moreover have "lock_free s3 ?m"
    using frameD(3,4) [OF f3] mf cnt root_empty [OF kinv_lists [OF k3], of "P_wait (SemQ ?m)"] qe
    by (simp add: lock_free_def)
  moreover have "tcbs s3 = (tcbs s)(?c := touch ?m (tcbs s ?c))"
    using t3 by (simp add: set_blocker_def upd_tcb_def touch_def)
  ultimately show ?thesis using k3 by blast
qed

section \<open>Unlinking from the list of all threads\<close>

lemma all_remove_ok:
  assumes ok: "lists_ok s v" and q: "v_all v = xs @ t # ys" and un: "\<And>p. t \<notin> set (v_at v p)"
  shows "\<exists>h ns. all_remove t s = Inr (s\<lparr>all_threads := h, all_links := ns\<rparr>) \<and>
     lists_ok (s\<lparr>all_threads := h, all_links := ns\<rparr>) (v\<lparr>v_all := xs @ ys\<rparr>)"
proof -
  have d: "dll (all_links s) 0 (all_threads s) (map all_node xs @ all_node t # map all_node ys)"
    using lists_all [OF ok] q by simp
  obtain h ns where r: "thread_list_remove (all_threads s) (all_links s) (all_node t) = Inr (h, ns)"
    "dll ns 0 h (map all_node xs @ map all_node ys)"
    "same_links (set (map all_node xs @ all_node t # map all_node ys)) (all_links s) ns"
    using list_remove_refines [OF d] by blast
  let ?s' = "s\<lparr>all_threads := h, all_links := ns\<rparr>" and ?v' = "v\<lparr>v_all := xs @ ys\<rparr>"
  have rt: "root ?s' p = root s p" for p by (cases p rule: place_cases) simp_all
  have "set (v_at v p) \<subseteq> set (xs @ ys)" for p
  proof
    fix x assume x: "x \<in> set (v_at v p)"
    then have "x \<in> set (v_all v)" "x \<noteq> t" using lists_member [OF ok] un [of p] by auto
    then show "x \<in> set (xs @ ys)" using q by auto
  qed
  moreover have "node_ok ?s' u" if "u \<in> set (xs @ ys)" for u
    using lists_node [OF ok, of u] that q same_linksD(2) [OF r(3)] by (auto simp: node_ok_def)
  ultimately have "lists_ok ?s' ?v'"
    using ok r(2) rt by (simp add: lists_ok_def)
  then show ?thesis using r(1) by (auto simp: all_remove_def)
qed

lemma kinv_drop:
  assumes inv: "kinv s v" and q: "t \<in> set (v_zombie v)"
    and ok: "lists_ok s' (put P_zombie (remove1 t (v_zombie v)) (v\<lparr>v_all := remove1 t (v_all v)\<rparr>))"
    and same: "current_thread s' = current_thread s" "image s' = image s" "\<And>u. status (tcbs s' u) = status (tcbs s u)"
  shows "kinv s' (put P_zombie (remove1 t (v_zombie v)) (v\<lparr>v_all := remove1 t (v_all v)\<rparr>))"
proof -
  let ?v = "put P_zombie (remove1 t (v_zombie v)) (v\<lparr>v_all := remove1 t (v_all v)\<rparr>)"
  note lok = kinv_lists [OF inv]
  have mem: "x \<in> set (v_at ?v p) \<longleftrightarrow> x \<in> set (v_at v p) \<and> x \<noteq> t" for x p
    using lists_distinct(2) [OF lok, of P_zombie] lists_disjoint [OF lok, of P_zombie p t] q
    by (auto simp: set_remove1_eq)
  have al: "set (v_all ?v) = set (v_all v) - {t}" using lists_distinct(1) [OF lok] by (simp add: set_remove1_eq)
  have nc: "t \<noteq> current_thread s" using kinv_cur_place [OF inv, of P_zombie] q by auto
  have ni: "t \<noteq> idle_thread s" using kinv_idle(2) [OF inv, of P_zombie] q by auto
  show ?thesis
    unfolding kinv_def al same
    using ok nc ni kinv_cur [OF inv] kinv_idle [OF inv] kinv_cur_status [OF inv] kinv_idle_status [OF inv]
      kinv_cur_place [OF inv] kinv_cur_blocked [OF inv] kinv_status [OF inv] kinv_placed [OF inv]
    by (simp add: mem del: put_simps(2))
qed

section \<open>Ownership of memory\<close>

definition owned :: "kern \<Rightarrow> u32 \<Rightarrow> u32 list" where
  "owned s t = (if stack_base (tcbs s t) = 0 then [t] else [stack_base (tcbs s t), t])"

definition owned_by :: "kern \<Rightarrow> u32 list \<Rightarrow> u32 list" where
  "owned_by s ts = concat (map (owned s) (filter (\<lambda>t. t \<noteq> idle_thread s) ts))"

definition heap_ok :: "kern \<Rightarrow> view \<Rightarrow> block list \<Rightarrow> bool" where
  "heap_ok s v g \<longleftrightarrow> heap_inv (heap s) g \<and> distinct (owned_by s (v_all v)) \<and>
     (\<forall>p \<in> set (owned_by s (v_all v)). \<exists>n. (unat p, n) \<in> handed_out g)"

lemma owned_by_append: "owned_by s (xs @ ys) = owned_by s xs @ owned_by s ys"
  by (simp add: owned_by_def)

lemma owned_by_cong:
  assumes "image s' = image s" "\<And>t. stack_base (tcbs s' t) = stack_base (tcbs s t)"
  shows "owned_by s' = owned_by s"
proof -
  have "owned s' = owned s" using assms(2) by (intro ext) (simp add: owned_def)
  then show ?thesis using assms(1) by (intro ext) (simp add: owned_by_def)
qed

text \<open>Every region that is handed out keeps its bytes, and so does memory outside the heap.\<close>

definition regions_kept :: "block list \<Rightarrow> km_state \<Rightarrow> km_state \<Rightarrow> bool" where
  "regions_kept g h h' \<longleftrightarrow> outside_kept h h' \<and> (\<forall>r \<in> handed_out g. region_kept r (mem h) (mem h'))"

lemma regions_kept_refl [simp]: "regions_kept g h h"
  by (simp add: regions_kept_def)

lemma regions_kept_trans:
  "regions_kept g h h' \<Longrightarrow> regions_kept g' h' h'' \<Longrightarrow> handed_out g' \<subseteq> handed_out g \<Longrightarrow> regions_kept g' h h''"
  by (auto simp: regions_kept_def intro: region_kept_trans outside_kept_trans)

lemma kfree_unsafe_live:
  assumes "heap_inv h g" "(unat p, n) \<in> handed_out g"
  shows "\<exists>h' g'. kfree_unsafe h p = Inr h' \<and> heap_inv h' g' \<and> handed_out g' = {r \<in> handed_out g. fst r \<noteq> unat p} \<and>
     regions_kept g' h h'"
proof -
  obtain h' g' where f: "kfree_unsafe h p = Inr h'" "heap_inv h' g'" "handed_out g' = handed_out g - {(unat p, n)}"
    "\<forall>r \<in> handed_out g'. region_kept r (mem h) (mem h')"
    using kheap.free_live [OF assms] by auto
  have "handed_out g - {(unat p, n)} = {r \<in> handed_out g. fst r \<noteq> unat p}"
  proof -
    have only: "r = (unat p, n)" if "r \<in> handed_out g" "fst r = unat p" for r
      using kheap.live_disjoint [OF assms, of "fst r" "snd r"] that by (cases r) auto
    have "fst (unat p, n) = unat p" by simp
    then show ?thesis using only by blast
  qed
  moreover have "outside_kept h h'" using kfree_live_outside [OF assms] f(1) by simp
  ultimately show ?thesis using f by (metis regions_kept_def)
qed

lemma kfree_unsafe_null: "kfree_unsafe h 0 = Inr h"
  by (simp add: kfree_unsafe_def)

text \<open>Freeing what one thread owns: its stack, if it has one, and its control block.\<close>

lemma touch_touch [simp]: "touch m (touch m c) = touch m c" "stack_base (touch m c) = stack_base c"
  "status (touch m c) = status c" "tid (touch m c) = tid c" "esp (touch m c) = esp c" "wakeup_ticks (touch m c) = wakeup_ticks c"
  by (simp_all add: touch_def)

lemma free_thread_memory:
  assumes inv: "kinv s v" and lock: "lock_free s (free_list_lock (image s))" and hp: "heap_inv (heap s) g"
    and own: "distinct (owned s t)" "\<And>p. p \<in> set (owned s t) \<Longrightarrow> \<exists>n. (unat p, n) \<in> handed_out g"
  shows "\<exists>s' g'. andthen (irq_routine (kfree (stack_base (tcbs s t)) s)) (\<lambda>s1. irq_routine (kfree t s1)) = Inr s' \<and>
     kinv s' v \<and> lock_free s' (free_list_lock (image s)) \<and> heap_inv (heap s') g' \<and>
     handed_out g' = {r \<in> handed_out g. fst r \<notin> unat ` set (owned s t)} \<and> regions_kept g' (heap s) (heap s') \<and>
     frame (s\<lparr>heap := heap s'\<rparr>) s' \<and>
     tcbs s' = (tcbs s)(current_thread s := touch (free_list_lock (image s)) (tcbs s (current_thread s)))"
proof -
  let ?b = "stack_base (tcbs s t)" and ?m = "free_list_lock (image s)" and ?c = "current_thread s"
  obtain h1 g1 where f1: "kfree_unsafe (heap s) ?b = Inr h1" "heap_inv h1 g1"
    "handed_out g1 = {r \<in> handed_out g. ?b \<noteq> 0 \<longrightarrow> fst r \<noteq> unat ?b}" "regions_kept g1 (heap s) h1"
  proof (cases "?b = 0")
    case True
    then show ?thesis using that [of "heap s" g] kfree_unsafe_null hp by simp
  next
    case False
    then obtain n where "(unat ?b, n) \<in> handed_out g" using own(2) [of ?b] by (auto simp: owned_def)
    then obtain h' g' where "kfree_unsafe (heap s) ?b = Inr h'" "heap_inv h' g'"
      "handed_out g' = {r \<in> handed_out g. fst r \<noteq> unat ?b}" "regions_kept g' (heap s) h'"
      using kfree_unsafe_live [OF hp] by blast
    then show ?thesis using that False by simp
  qed
  obtain s1 where k1: "kfree ?b s = Return () s1" "kinv s1 v" "lock_free s1 ?m" "frame (s\<lparr>heap := h1\<rparr>) s1"
    "tcbs s1 = (tcbs s)(?c := touch ?m (tcbs s ?c))"
    using kfree_ok [OF inv lock f1(1)] by blast
  note fr1 = frameD [OF k1(4), simplified]
  have "t \<in> set (owned s t)" by (simp add: owned_def)
  then obtain n where "(unat t, n) \<in> handed_out g" using own(2) by blast
  then have "(unat t, n) \<in> handed_out g1" using f1(3) own(1) word_unat_eq_iff [of t ?b] by (auto simp: owned_def split: if_splits)
  then obtain h2 g2 where f2: "kfree_unsafe h1 t = Inr h2" "heap_inv h2 g2"
    "handed_out g2 = {r \<in> handed_out g1. fst r \<noteq> unat t}" "regions_kept g2 h1 h2"
    using kfree_unsafe_live [OF f1(2)] by blast
  obtain s2 where k2: "kfree t s1 = Return () s2" "kinv s2 v" "lock_free s2 ?m" "frame (s1\<lparr>heap := h2\<rparr>) s2"
    "tcbs s2 = (tcbs s1)(?c := touch ?m (tcbs s1 ?c))"
    using kfree_ok [of s1 v t h2] k1(2,3) f2(1) fr1 by auto
  have "andthen (irq_routine (kfree ?b s)) (\<lambda>s1. irq_routine (kfree t s1)) = Inr s2"
    using k1(1) k2(1) by (simp add: irq_routine_def)
  moreover have "handed_out g2 = {r \<in> handed_out g. fst r \<notin> unat ` set (owned s t)}"
    using f1(3) f2(3) by (auto simp: owned_def)
  moreover have "frame (s\<lparr>heap := heap s2\<rparr>) s2" using k1(4) k2(4) by (simp add: frame_def)
  moreover have "heap s2 = h2" using k2(4) by (simp add: frame_def)
  moreover have "regions_kept g2 (heap s) h2"
    by (rule regions_kept_trans [OF f1(4) f2(4)]) (use f2(3) in auto)
  moreover have "tcbs s2 = (tcbs s)(?c := touch ?m (tcbs s ?c))" using k1(5) k2(5) by simp
  ultimately show ?thesis using k2(2,3) f2(2) by blast
qed

section \<open>All dead threads\<close>

text \<open>What the scheduler keeps while it cleans up: everything but the heap and the printed text.\<close>

definition sframe :: "kern \<Rightarrow> kern \<Rightarrow> bool" where
  "sframe s s' \<longleftrightarrow> frame (s\<lparr>heap := heap s', hw := hw s'\<rparr>) s' \<and> eflags (hw s') = eflags (hw s)"

lemma sframe_refl [simp]: "sframe s s" by (simp add: sframe_def frame_def)

lemma sframe_trans: "sframe s s' \<Longrightarrow> sframe s' s'' \<Longrightarrow> sframe s s''" by (simp add: sframe_def frame_def)

lemma sframeD:
  assumes "sframe s s'"
  shows "current_thread s' = current_thread s" "image s' = image s" "mutexes s' = mutexes s"
    "sem_count (sems s' a) = sem_count (sems s a)" "timer_ticks s' = timer_ticks s" "esp_reg s' = esp_reg s"
    "next_tid s' = next_tid s" "eflags (hw s') = eflags (hw s)"
  using assms by (simp_all add: sframe_def frame_def)

definition touched :: "kern \<Rightarrow> u32 \<Rightarrow> tcb" where
  "touched s = (tcbs s)(current_thread s := touch (free_list_lock (image s)) (tcbs s (current_thread s)))"

definition drop_view :: "u32 \<Rightarrow> view \<Rightarrow> view" where
  "drop_view t v = put P_zombie (remove1 t (v_zombie v)) (v\<lparr>v_all := remove1 t (v_all v)\<rparr>)"

lemma say_fields [simp]:
  "all_threads (say f args s) = all_threads s" "all_links (say f args s) = all_links s"
  "local_links (say f args s) = local_links s" "heap (say f args s) = heap s" "mutexes (say f args s) = mutexes s"
  "sems (say f args s) = sems s" "timer_ticks (say f args s) = timer_ticks s" "esp_reg (say f args s) = esp_reg s"
  "next_tid (say f args s) = next_tid s" "eflags (hw (say f args s)) = eflags (hw s)"
  "root (say f args s) p = root s p"
  by (simp_all add: say_def unsafe_printf_frame) (cases p rule: place_cases; simp)

lemma heap_ok_drop:
  assumes "heap_ok s v g" "t \<in> set (v_all v)" "t \<noteq> idle_thread s" "image s' = image s"
    "\<And>u. stack_base (tcbs s' u) = stack_base (tcbs s u)" "heap_inv (heap s') g'"
    "handed_out g' = {r \<in> handed_out g. fst r \<notin> unat ` set (owned s t)}"
  shows "heap_ok s' (drop_view t v) g'"
proof -
  obtain xs ys where q: "v_all v = xs @ t # ys" "t \<notin> set xs" using split_list_first [OF assms(2)] by blast
  then have rm: "remove1 t (v_all v) = xs @ ys" by (simp add: remove1_append)
  have all: "owned_by s (v_all v) = owned_by s xs @ owned s t @ owned_by s ys"
    using q assms(3) by (simp add: owned_by_append owned_by_def)
  have d: "distinct (owned_by s xs @ owned s t @ owned_by s ys)" using assms(1) all by (simp add: heap_ok_def)
  have "\<exists>n. (unat p, n) \<in> handed_out g'" if "p \<in> set (owned_by s xs @ owned_by s ys)" for p
  proof -
    have "p \<in> set (owned_by s (v_all v))" "p \<notin> set (owned s t)" using that d all by auto
    then obtain n where "(unat p, n) \<in> handed_out g" using assms(1) by (auto simp: heap_ok_def)
    moreover have "unat p \<notin> unat ` set (owned s t)"
      using \<open>p \<notin> set (owned s t)\<close> by (auto simp: word_unat_eq_iff [symmetric])
    ultimately show ?thesis using assms(7) by auto
  qed
  then show ?thesis
    using d assms(6) owned_by_cong [OF assms(4,5)] rm
    by (simp add: heap_ok_def drop_view_def owned_by_append) blast
qed

text \<open>A dead thread is taken out of both its lists before its memory is freed.\<close>

definition unlinked :: "u32 \<Rightarrow> wqueue \<Rightarrow> nodes \<Rightarrow> u32 \<Rightarrow> nodes \<Rightarrow> kern \<Rightarrow> kern" where
  "unlinked t q ns h ns' s = (set_root P_zombie q ((say ''Cleaning up Thread %u\<newline>'' [Val (tid (tcbs s t))] s)\<lparr>local_links := ns\<rparr>))
     \<lparr>all_threads := h, all_links := ns'\<rparr>"

lemma clean_zombie_unlinks:
  assumes inv: "kinv s v" and q: "v_zombie v = t # zs"
  shows "\<exists>q ns h ns'. clean_zombie t s = (let s2 = unlinked t q ns h ns' s in
       andthen (irq_routine (kfree (stack_base (tcbs s2 t)) s2)) (\<lambda>s3. irq_routine (kfree t s3))) \<and>
     kinv (unlinked t q ns h ns' s) (drop_view t v)"
proof -
  let ?s0 = "say ''Cleaning up Thread %u\<newline>'' [Val (tid (tcbs s t))] s"
  note ok = kinv_lists [OF inv]
  have st: "status (tcbs s t) = ThreadStatus_Zombie" using kinv_status [OF inv, of t P_zombie] q by simp
  have nc: "t \<noteq> current_thread s" using kinv_cur_place [OF inv, of P_zombie] q by auto
  have ni: "t \<noteq> idle_thread s" using kinv_idle(2) [OF inv, of P_zombie] q by auto
  have ta: "t \<in> set (v_all v)" using lists_member [OF ok, of t P_zombie] q by simp
  obtain q1 ns1 where r: "place_remove P_zombie (local_node t) ?s0 = Inr (set_root P_zombie q1 (?s0\<lparr>local_links := ns1\<rparr>))"
    "lists_ok (set_root P_zombie q1 (?s0\<lparr>local_links := ns1\<rparr>)) (put P_zombie zs v)"
    using place_remove_ok [of ?s0 v P_zombie "[]" t zs] ok q by auto
  let ?s1 = "set_root P_zombie q1 (?s0\<lparr>local_links := ns1\<rparr>)" and ?v1 = "put P_zombie zs v"
  have "t \<notin> set zs" using lists_distinct(2) [OF ok, of P_zombie] q by simp
  moreover have "t \<notin> set (v_at v p)" if "p \<noteq> P_zombie" for p using lists_disjoint [OF ok that [symmetric]] q by simp
  ultimately have un: "t \<notin> set (v_at ?v1 p)" for p by (cases "p = P_zombie") simp_all
  obtain xs ys where al: "v_all v = xs @ t # ys" "t \<notin> set xs" using split_list_first [OF ta] by blast
  then have rm: "remove1 t (v_all v) = xs @ ys" by (simp add: remove1_append)
  obtain h ns where a: "all_remove t ?s1 = Inr (?s1\<lparr>all_threads := h, all_links := ns\<rparr>)"
    "lists_ok (?s1\<lparr>all_threads := h, all_links := ns\<rparr>) (?v1\<lparr>v_all := xs @ ys\<rparr>)"
    using all_remove_ok [OF r(2) _ un, of xs ys] al by auto
  let ?s2 = "?s1\<lparr>all_threads := h, all_links := ns\<rparr>"
  have dv: "?v1\<lparr>v_all := xs @ ys\<rparr> = drop_view t v" using q rm by (simp add: drop_view_def put_def)
  have k2: "kinv ?s2 (drop_view t v)"
    using kinv_drop [OF inv, of t ?s2] q a(2) dv by (simp add: drop_view_def)
  have "clean_zombie t s = andthen (irq_routine (kfree (stack_base (tcbs ?s2 t)) ?s2)) (\<lambda>s3. irq_routine (kfree t s3))"
    using st nc ni r(1) a(1) by (simp add: clean_zombie_def place_ops del: andthen_eq_Inr)
  then show ?thesis using k2 unfolding unlinked_def Let_def by blast
qed

lemma clean_zombie_ok:
  assumes inv: "kinv s v" and hp: "heap_ok s v g" and lock: "lock_free s (free_list_lock (image s))"
    and q: "v_zombie v = t # zs"
  shows "\<exists>s' g'. clean_zombie t s = Inr s' \<and> kinv s' (drop_view t v) \<and> heap_ok s' (drop_view t v) g' \<and>
     lock_free s' (free_list_lock (image s)) \<and> sframe s s' \<and> tcbs s' = touched s \<and>
     handed_out g' = {r \<in> handed_out g. fst r \<notin> unat ` set (owned s t)} \<and> regions_kept g' (heap s) (heap s')"
proof -
  let ?m = "free_list_lock (image s)"
  have ni: "t \<noteq> idle_thread s" using kinv_idle(2) [OF inv, of P_zombie] q by auto
  have ta: "t \<in> set (v_all v)" using lists_member [OF kinv_lists [OF inv], of t P_zombie] q by simp
  obtain q1 ns1 h ns where u: "clean_zombie t s = (let s2 = unlinked t q1 ns1 h ns s in
       andthen (irq_routine (kfree (stack_base (tcbs s2 t)) s2)) (\<lambda>s3. irq_routine (kfree t s3)))"
    "kinv (unlinked t q1 ns1 h ns s) (drop_view t v)" using clean_zombie_unlinks [OF inv q] by blast
  let ?s2 = "(set_root P_zombie q1 ((say ''Cleaning up Thread %u\<newline>'' [Val (tid (tcbs s t))] s)\<lparr>local_links := ns1\<rparr>))
     \<lparr>all_threads := h, all_links := ns\<rparr>"
  note k2 = u(2) [unfolded unlinked_def]
  have ow: "owned ?s2 t = owned s t" by (simp add: owned_def)
  obtain xs ys where al: "v_all v = xs @ t # ys" using split_list [OF ta] by blast
  have sub: "set (owned s t) \<subseteq> set (owned_by s (v_all v))" "distinct (owned s t)"
    using hp ni al by (auto simp: heap_ok_def owned_by_def)
  have hg: "heap_inv (heap ?s2) g" using hp by (simp add: heap_ok_def)
  have l2: "lock_free ?s2 (free_list_lock (image ?s2))" using lock by (simp add: lock_free_def)
  have own2: "distinct (owned ?s2 t)" "\<And>p. p \<in> set (owned ?s2 t) \<Longrightarrow> \<exists>n. (unat p, n) \<in> handed_out g"
    using ow sub hp by (auto simp: heap_ok_def)
  obtain s' g' where f: "andthen (irq_routine (kfree (stack_base (tcbs ?s2 t)) ?s2)) (\<lambda>s1. irq_routine (kfree t s1)) = Inr s'"
    "kinv s' (drop_view t v)" "lock_free s' ?m" "heap_inv (heap s') g'"
    "handed_out g' = {r \<in> handed_out g. fst r \<notin> unat ` set (owned s t)}"
    "frame (?s2\<lparr>heap := heap s'\<rparr>) s'"
    "tcbs s' = (tcbs s)(current_thread s := touch ?m (tcbs s (current_thread s)))" "regions_kept g' (heap s) (heap s')"
    using free_thread_memory [OF k2 l2 hg own2] ow by auto
  have "clean_zombie t s = Inr s'"
    using f(1) unfolding u(1) unlinked_def Let_def by simp
  moreover have fr: "sframe s s'" using f(6) by (simp add: sframe_def frame_def)
  moreover have "heap_ok s' (drop_view t v) g'"
    by (rule heap_ok_drop [OF hp ta ni sframeD(2) [OF fr] _ f(4,5)]) (simp add: f(7))
  ultimately show ?thesis using f(2,3,5,7,8) by (auto simp: touched_def)
qed

definition clean_view :: "view \<Rightarrow> view" where
  "clean_view v = put P_zombie [] (v\<lparr>v_all := filter (\<lambda>t. t \<notin> set (v_zombie v)) (v_all v)\<rparr>)"

lemma clean_view_drop:
  assumes "v_zombie v = t # zs" "distinct (v_all v)"
  shows "clean_view (drop_view t v) = clean_view v"
proof -
  have "filter (\<lambda>x. x \<notin> set zs) (removeAll t xs) = filter (\<lambda>x. x \<notin> set (t # zs)) xs" for xs
    by (induction xs) auto
  then show ?thesis
    using assms by (simp add: clean_view_def drop_view_def put_def distinct_remove1_removeAll)
qed

text \<open>Without dead threads nothing is freed, so the state of the heap lock does not matter.\<close>

definition can_clean :: "kern \<Rightarrow> view \<Rightarrow> bool" where
  "can_clean s v \<longleftrightarrow> v_zombie v = [] \<or> lock_free s (free_list_lock (image s))"

lemma can_clean_free [simp]: "lock_free s (free_list_lock (image s)) \<Longrightarrow> can_clean s v"
  by (simp add: can_clean_def)

lemma clean_zombies_from_ok:
  assumes "kinv s v" "heap_ok s v g" "can_clean s v"
  shows "\<exists>s' g'. clean_zombies_from (zombie_threads s) s = Some (Inr s') \<and> kinv s' (clean_view v) \<and>
     heap_ok s' (clean_view v) g' \<and> (lock_free s (free_list_lock (image s)) \<longrightarrow> lock_free s' (free_list_lock (image s))) \<and>
     sframe s s' \<and> tcbs s' = (if v_zombie v = [] then tcbs s else touched s) \<and>
     handed_out g' = {r \<in> handed_out g. fst r \<notin> unat ` set (owned_by s (v_zombie v))} \<and>
     regions_kept g' (heap s) (heap s')"
  using assms
proof (induction "v_zombie v" arbitrary: s v g)
  case Nil
  have "zombie_threads s = 0" using root_empty [OF kinv_lists [OF Nil.prems(1)], of P_zombie] Nil.hyps by simp
  moreover have "clean_view v = v" using Nil.hyps by (simp add: clean_view_def) (metis put_put(2))
  ultimately show ?case
    using Nil by (intro exI [of _ s] exI [of _ g]) (simp add: clean_zombies_from.simps owned_by_def)
next
  case (Cons t zs)
  note q = Cons.hyps(2) [symmetric] and ok = kinv_lists [OF Cons.prems(1)]
  have lk: "lock_free s (free_list_lock (image s))" using Cons.prems(3) q by (simp add: can_clean_def)
  obtain s1 g1 where c: "clean_zombie t s = Inr s1" "kinv s1 (drop_view t v)" "heap_ok s1 (drop_view t v) g1"
    "lock_free s1 (free_list_lock (image s))" "sframe s s1" "tcbs s1 = touched s"
    "handed_out g1 = {r \<in> handed_out g. fst r \<notin> unat ` set (owned s t)}" "regions_kept g1 (heap s) (heap s1)"
    using clean_zombie_ok [OF Cons.prems(1,2) lk q] by blast
  have z1: "v_zombie (drop_view t v) = zs" using q by (simp add: drop_view_def)
  obtain s' g' where ih: "clean_zombies_from (zombie_threads s1) s1 = Some (Inr s')" "kinv s' (clean_view (drop_view t v))"
    "heap_ok s' (clean_view (drop_view t v)) g'" "lock_free s' (free_list_lock (image s))" "sframe s1 s'"
    "tcbs s' = (if zs = [] then tcbs s1 else touched s1)"
    "handed_out g' = {r \<in> handed_out g1. fst r \<notin> unat ` set (owned_by s1 zs)}" "regions_kept g' (heap s1) (heap s')"
    using Cons.hyps(1) [of "drop_view t v" s1 g1] c z1 sframeD(2) [OF c(5)] by auto
  have rk: "regions_kept g' (heap s) (heap s')"
    by (rule regions_kept_trans [OF c(8) ih(8)]) (use ih(7) in auto)
  have d: "dll (local_links s) 0 (zombie_threads s) (map local_node (t # zs))"
    using lists_place [OF ok, of P_zombie] q by (simp add: place_holds_def)
  have d1: "dll (local_links s1) 0 (zombie_threads s1) (map local_node zs)"
    using lists_place [OF kinv_lists [OF c(2)], of P_zombie] z1 by (simp add: place_holds_def)
  have "nxt (local_links s (local_node t)) = zombie_threads s1"
    using place_walk(2) [OF ok, of P_zombie "[]" t zs] q dll_head [OF d1] by (simp add: hd_map)
  then have "clean_zombies_from (zombie_threads s) s = Some (Inr s')"
    using d place_walk(1) [OF ok, of P_zombie "[]" t zs] q c(1) ih(1)
    by (subst clean_zombies_from.simps) (simp add: Let_def)
  moreover have "clean_view (drop_view t v) = clean_view v" by (rule clean_view_drop [OF q lists_distinct(1) [OF ok]])
  moreover have "touched s1 = touched s" using c(5,6) by (simp add: touched_def sframe_def frame_def)
  moreover have "owned_by s1 = owned_by s"
    by (rule owned_by_cong [OF sframeD(2) [OF c(5)]]) (simp add: c(6) touched_def)
  moreover have "t \<noteq> idle_thread s" using kinv_idle(2) [OF Cons.prems(1), of P_zombie] q by auto
  then have "owned_by s (v_zombie v) = owned s t @ owned_by s zs" using q by (simp add: owned_by_def)
  ultimately show ?case
    using ih(2-7) c(6,7) q sframe_trans [OF c(5) ih(5)] rk by (intro exI [of _ s'] exI [of _ g']) auto
qed

end
