(* ===== verification/HeapShare.thy ===== *)
theory HeapShare
  imports KmallocClient
begin

text \<open>
  A heap that several threads share. Each pointer handed out has one owner, who may free, resize and write
  it; the others keep their regions and the bytes in them, whatever the owner does.
\<close>

section \<open>Calls and owners\<close>

type_synonym owners = "u32 \<rightharpoonup> u32 \<times> u32"

text \<open>The heap routines with the pointer they return; freeing and writing return none.\<close>

fun heap_call :: "heap_op \<Rightarrow> km_state \<Rightarrow> (u32 \<times> km_state) outcome" where
  "heap_call (OpMalloc sz) h = kmalloc_unsafe h sz"
| "heap_call (OpCalloc n e) h = kcalloc_unsafe h n e"
| "heap_call (OpFree p) h = andthen (kfree_unsafe h p) (\<lambda>h'. Inr (0, h'))"
| "heap_call (OpRealloc p sz) h = krealloc_unsafe h p sz"
| "heap_call (OpWrite x b) h = Inr (0, poke h x b)"

text \<open>Enough memory above the heap for a request, whatever its free blocks look like.\<close>

definition room_for :: "km_state \<Rightarrow> u32 \<Rightarrow> bool" where
  "room_for h sz \<longleftrightarrow> unat sz + 8192 < 4294967296 \<and>
     unat (kheap_end h) + round_up 4096 (block_size (unat sz)) \<le> unat (kheap_max_end h)"

definition owned_by_thread :: "u32 \<Rightarrow> owners \<Rightarrow> u32 \<Rightarrow> bool" where
  "owned_by_thread t f p \<longleftrightarrow> (case f p of None \<Rightarrow> False | Some (u, _) \<Rightarrow> u = t)"

definition inside :: "owners \<Rightarrow> u32 \<Rightarrow> u32 \<Rightarrow> bool" where
  "inside f p x \<longleftrightarrow> (case f p of None \<Rightarrow> False | Some (_, n) \<Rightarrow> unat p \<le> unat x \<and> unat x < unat p + unat n)"

text \<open>What the thread \<open>t\<close> may do, and who owns what when it has.\<close>

fun heap_rule :: "km_state \<Rightarrow> u32 \<Rightarrow> owners \<Rightarrow> heap_op \<Rightarrow> bool" where
  "heap_rule h t f (OpMalloc sz) \<longleftrightarrow> room_for h sz"
| "heap_rule h t f (OpCalloc n e) \<longleftrightarrow> room_for h (n * e)"
| "heap_rule h t f (OpFree p) \<longleftrightarrow> owned_by_thread t f p"
| "heap_rule h t f (OpRealloc p sz) \<longleftrightarrow> owned_by_thread t f p \<and> 0 < sz \<and> room_for h sz"
| "heap_rule h t f (OpWrite x b) \<longleftrightarrow> (\<exists>p. owned_by_thread t f p \<and> inside f p x)"

fun new_owners :: "u32 \<Rightarrow> heap_op \<Rightarrow> u32 \<Rightarrow> owners \<Rightarrow> owners" where
  "new_owners t (OpMalloc sz) p f = f(p \<mapsto> (t, sz))"
| "new_owners t (OpCalloc n e) p f = f(p \<mapsto> (t, n * e))"
| "new_owners t (OpFree q) p f = f(q := None)"
| "new_owners t (OpRealloc q sz) p f = (f(q := None))(p \<mapsto> (t, sz))"
| "new_owners t (OpWrite x b) p f = f"

text \<open>The regions a call may change.\<close>

fun affects :: "owners \<Rightarrow> heap_op \<Rightarrow> u32 \<Rightarrow> bool" where
  "affects f (OpFree p) q \<longleftrightarrow> q = p"
| "affects f (OpRealloc p sz) q \<longleftrightarrow> q = p"
| "affects f (OpWrite x b) q \<longleftrightarrow> inside f q x"
| "affects f op q \<longleftrightarrow> False"

definition covers :: "(nat \<times> nat) set \<Rightarrow> owners \<Rightarrow> bool" where
  "covers R f \<longleftrightarrow> (\<forall>p t n. f p = Some (t, n) \<longrightarrow> (\<exists>k. unat n \<le> k \<and> (unat p, k) \<in> R))"

lemma coversD: "covers R f \<Longrightarrow> f p = Some (t, n) \<Longrightarrow> \<exists>k. unat n \<le> k \<and> (unat p, k) \<in> R"
  by (auto simp: covers_def)

lemma room_serviceable: "room_for h sz \<Longrightarrow> serviceable h g sz"
  using block_size_bounds(4) [of "unat sz"] by (simp add: room_for_def serviceable_def)

lemma affects_owned: "heap_rule h t f op \<Longrightarrow> affects f op q \<Longrightarrow> f q \<noteq> None"
  by (cases op) (auto simp: owned_by_thread_def inside_def split: option.splits)

section \<open>Every call is safe for every owner\<close>

text \<open>What a call keeps for the regions it does not affect, and that what it returns is new.\<close>

definition shared_step :: "owners \<Rightarrow> heap_op \<Rightarrow> block list \<Rightarrow> block list \<Rightarrow> memory \<Rightarrow> memory \<Rightarrow> owners \<Rightarrow> bool" where
  "shared_step f op g g' m m' f' \<longleftrightarrow> covers (handed_out g') f' \<and>
     (\<forall>q k. (unat q, k) \<in> handed_out g \<longrightarrow> \<not> affects f op q \<longrightarrow>
        (unat q, k) \<in> handed_out g' \<and> region_kept (unat q, k) m m') \<and>
     (\<forall>q. f' q \<noteq> None \<longrightarrow> f q = None \<longrightarrow> (\<forall>k. (unat q, k) \<notin> handed_out g)) \<and>
     (\<forall>q. f q \<noteq> None \<longrightarrow> \<not> affects f op q \<longrightarrow> f' q = f q)"

lemma shared_fresh:
  assumes inv: "heap_inv h' g'" and cov: "covers (handed_out g) f"
    and r: "handed_out g' = insert (p, n) (handed_out g)" "(p, n) \<notin> handed_out g" "unat sz \<le> n"
      "\<forall>r \<in> handed_out g. region_kept r m m'" and nop: "\<And>q. \<not> affects f op q"
  shows "shared_step f op g g' m m' (f(of_nat p \<mapsto> (t, sz)))"
proof -
  have p: "p + n < 4294967296" using kheap.live_range [OF inv, of p n] r(1) by simp
  then have up: "unat (of_nat p :: u32) = p" by (simp add: unat_of_nat32)
  have new: "(p, k) \<notin> handed_out g" for k
    using kfull.live_unique [OF inv, of p n k] r(1,2) by auto
  have "covers (handed_out g') (f(of_nat p \<mapsto> (t, sz)))"
    using coversD [OF cov] r(3) up unfolding covers_def r(1) by (metis (no_types) fun_upd_apply insertCI option.inject prod.inject)
  moreover have "q \<noteq> of_nat p" if "f q = Some (u, k)" for q u k using coversD [OF cov that] new up by auto
  ultimately show ?thesis using r(1,4) nop new up by (auto simp: shared_step_def)
qed

lemma shared_drop:
  assumes cov: "covers (handed_out g) f" and g': "handed_out g' = handed_out g - {(unat p, n)}"
    and kept: "\<forall>r \<in> handed_out g'. region_kept r m m'" and op: "\<And>q. affects f op q \<longleftrightarrow> q = p"
  shows "shared_step f op g g' m m' (f(p := None))"
proof -
  have ne: "q \<noteq> p \<Longrightarrow> unat q \<noteq> unat p" for q by (simp add: word_unat_eq_iff)
  have "covers (handed_out g') (f(p := None))"
    using coversD [OF cov] ne unfolding covers_def g' by (auto split: if_splits)
  moreover have "\<forall>q k. (unat q, k) \<in> handed_out g \<longrightarrow> q \<noteq> p \<longrightarrow> (unat q, k) \<in> handed_out g'"
    using ne unfolding g' by auto
  ultimately show ?thesis using kept op by (auto simp: shared_step_def)
qed

lemma shared_resize:
  assumes inv: "heap_inv h' g'" and cov: "covers (handed_out g) f" and own: "f p \<noteq> None"
    and g': "handed_out g' = insert (q, k) (handed_out g - {(unat p, n)})" "unat sz \<le> k"
    and kept: "\<forall>r \<in> handed_out g - {(unat p, n)}. region_kept r m m' \<and> fst r \<noteq> q"
    and op: "\<And>q. affects f op q \<longleftrightarrow> q = p"
  shows "shared_step f op g g' m m' ((f(p := None))(of_nat q \<mapsto> (t, sz)))"
proof -
  have ne: "x \<noteq> p \<Longrightarrow> unat x \<noteq> unat p" for x by (simp add: word_unat_eq_iff)
  have "q + k < 4294967296" using kheap.live_range [OF inv, of q k] g'(1) by simp
  then have uq: "unat (of_nat q :: u32) = q" by (simp add: unat_of_nat32)
  let ?f = "(f(p := None))(of_nat q \<mapsto> (t, sz))"
  have "\<exists>j. unat i \<le> j \<and> (unat x, j) \<in> handed_out g'" if x: "?f x = Some (u, i)" for x u i
  proof (cases "x = of_nat q")
    case True
    then show ?thesis using x g' uq by auto
  next
    case False
    then have "f x = Some (u, i)" "x \<noteq> p" using x by (auto split: if_splits)
    then show ?thesis using coversD [OF cov] ne unfolding g'(1) by fastforce
  qed
  then have "covers (handed_out g') ?f" by (auto simp: covers_def)
  moreover have "(unat x, j) \<in> handed_out g' \<and> region_kept (unat x, j) m m'"
    if "(unat x, j) \<in> handed_out g" "x \<noteq> p" for x j
    using that ne kept unfolding g'(1) by auto
  moreover have "(unat x, j) \<notin> handed_out g" if "?f x \<noteq> None" "f x = None" for x j
  proof -
    have "x = of_nat q" "x \<noteq> p" using that own by (auto split: if_splits)
    then have "(q, j) \<notin> handed_out g - {(unat p, n)}" "q \<noteq> unat p" using bspec [OF kept, of "(q, j)"] uq ne [of x] by auto
    then show ?thesis using \<open>x = of_nat q\<close> uq by simp
  qed
  moreover have "?f x = f x" if x: "f x \<noteq> None" "x \<noteq> p" for x
  proof -
    obtain u i where "f x = Some (u, i)" using x(1) by auto
    then have "x \<noteq> of_nat q"
      using coversD [OF cov] bspec [OF kept, of "(unat x, j)" for j] ne [OF x(2)] uq by auto
    then show ?thesis using x(2) by simp
  qed
  ultimately show ?thesis using op by (auto simp: shared_step_def)
qed

theorem heap_call_shared:
  assumes inv: "heap_inv h g" and cov: "covers (handed_out g) f" and ok: "heap_rule h t f op"
  shows "\<exists>p h' g'. heap_call op h = Inr (p, h') \<and> heap_inv h' g' \<and>
     shared_step f op g g' (mem h) (mem h') (new_owners t op p f)"
proof (cases op)
  case (OpMalloc sz)
  then have "serviceable h g sz" using ok room_serviceable by simp
  then obtain p n h' g' where k: "kmalloc_unsafe h sz = Inr (of_nat p, h')" "heap_inv h' g'"
    "handed_out g' = insert (p, n) (handed_out g)" "(p, n) \<notin> handed_out g" "unat sz \<le> n"
    "\<forall>r \<in> handed_out g. region_kept r (mem h) (mem h')"
    using kheap.alloc_fresh [OF inv] by blast
  then show ?thesis using shared_fresh [OF k(2) cov k(3-6), of op t] OpMalloc by auto
next
  case (OpCalloc m e)
  then have "serviceable h g (m * e)" using ok room_serviceable by simp
  then obtain p n h' g' where k: "kcalloc_unsafe h m e = Inr (of_nat p, h')" "heap_inv h' g'"
    "handed_out g' = insert (p, n) (handed_out g)" "(p, n) \<notin> handed_out g" "unat (m * e) \<le> n"
    "\<forall>r \<in> handed_out g. region_kept r (mem h) (mem h')"
    using kfull.zalloc_fresh [OF inv] by blast
  then show ?thesis using shared_fresh [OF k(2) cov k(3-6), of op t] OpCalloc by auto
next
  case (OpFree p)
  then obtain u n where "f p = Some (u, n)" using ok by (auto simp: owned_by_thread_def split: option.splits)
  then obtain k where k: "(unat p, k) \<in> handed_out g" using coversD [OF cov] by blast
  obtain h' g' where f: "kfree_unsafe h p = Inr h'" "heap_inv h' g'" "handed_out g' = handed_out g - {(unat p, k)}"
    "\<forall>r \<in> handed_out g'. region_kept r (mem h) (mem h')"
    using kheap.free_live [OF inv k] by auto
  then show ?thesis using shared_drop [OF cov f(3,4), of op] OpFree by auto
next
  case (OpRealloc p sz)
  then obtain u n where o: "f p = Some (u, n)" using ok by (auto simp: owned_by_thread_def split: option.splits)
  then obtain k where k: "(unat p, k) \<in> handed_out g" using coversD [OF cov] by blast
  have "serviceable h g sz" "0 < sz" using ok OpRealloc room_serviceable by simp_all
  then obtain q j h' g' where r: "krealloc_unsafe h p sz = Inr (of_nat q, h')" "heap_inv h' g'"
    "handed_out g' = insert (q, j) (handed_out g - {(unat p, k)})" "unat sz \<le> j"
    "\<forall>r \<in> handed_out g - {(unat p, k)}. region_kept r (mem h) (mem h') \<and> fst r \<noteq> q"
    using kfull.resize_live [OF inv k, of sz] by (simp only: of_nat_unat32) blast
  then show ?thesis using shared_resize [OF r(2) cov _ r(3-5), of op t] o OpRealloc by auto
next
  case (OpWrite x b)
  then obtain p u n where o: "f p = Some (u, n)" "unat p \<le> unat x" "unat x < unat p + unat n"
    using ok by (auto simp: owned_by_thread_def inside_def split: option.splits)
  then obtain k where k: "unat n \<le> k" "(unat p, k) \<in> handed_out g" using coversD [OF cov] by blast
  have x: "unat x < unat p + k" using o(3) k(1) by simp
  have "region_kept (unat q, j) (mem h) (mem (poke h x b))" if q: "(unat q, j) \<in> handed_out g" "\<not> inside f q x" for q j
  proof -
    have "q \<noteq> p" using q(2) o by (auto simp: inside_def)
    then show ?thesis using kfull.poke_elsewhere [OF inv k(2) o(2) x q(1)] by (simp add: word_unat_eq_iff)
  qed
  then have "shared_step f op g g (mem h) (mem (poke h x b)) f" using cov OpWrite by (auto simp: shared_step_def)
  then show ?thesis using kfull.poke_live [OF inv k(2) o(2) x, of b] OpWrite by auto
qed

lemma heap_call_outside:
  assumes inv: "heap_inv h g" and cov: "covers (handed_out g) f" and ok: "heap_rule h t f op"
    and run: "heap_call op h = Inr (p, h')"
  shows "outside_kept h h'"
proof -
  have live: "\<exists>n. (unat q, n) \<in> handed_out g" if "owned_by_thread t f q" for q
    using that coversD [OF cov] by (fastforce simp: owned_by_thread_def split: option.splits)
  show ?thesis
  proof (cases op)
    case (OpMalloc sz)
    then show ?thesis using kmalloc_outside [OF inv room_serviceable] ok run by simp
  next
    case (OpCalloc m e)
    then show ?thesis using kcalloc_outside [OF inv room_serviceable] ok run by simp
  next
    case (OpFree q)
    then obtain n where "(unat q, n) \<in> handed_out g" using live ok by auto
    then show ?thesis using kfree_live_outside [OF inv, of "unat q"] OpFree run by simp
  next
    case (OpRealloc q sz)
    then obtain n where "(unat q, n) \<in> handed_out g" using live ok by auto
    then show ?thesis using krealloc_live_outside [OF inv, of "unat q" n sz] OpRealloc ok run room_serviceable by simp
  next
    case (OpWrite x b)
    then obtain q u n where o: "f q = Some (u, n)" "unat q \<le> unat x" "unat x < unat q + unat n"
      using ok by (auto simp: owned_by_thread_def inside_def split: option.splits)
    then obtain k where k: "unat n \<le> k" "(unat q, k) \<in> handed_out g" using coversD [OF cov] by blast
    then show ?thesis using poke_outside [OF inv k(2), of x b] o OpWrite run by simp
  qed
qed

end
