(* ===== verification/Scheduler.thy ===== *)
theory Scheduler
  imports ZombieInv HeapShare
begin

text \<open>
  One round of the scheduler and the whole timer interrupt, against their specification on views.
\<close>

section \<open>Specification\<close>

definition pick :: "kern \<Rightarrow> view \<Rightarrow> u32" where
  "pick s v = (if v_ready v = [] then if running s then current_thread s else idle_thread s else last (v_ready v))"

definition leave_view :: "kern \<Rightarrow> view \<Rightarrow> view" where
  "leave_view s v =
     (let c = current_thread s
      in if c = idle_thread s then v
         else case status (tcbs s c) of
             ThreadStatus_Running \<Rightarrow> put P_ready (c # v_ready v) v
           | ThreadStatus_Sleeping \<Rightarrow> put P_sleep (c # v_sleep v) v
           | ThreadStatus_Zombie \<Rightarrow> put P_zombie (c # v_zombie v) v
           | _ \<Rightarrow> v)"

definition sched_view :: "kern \<Rightarrow> view \<Rightarrow> view" where
  "sched_view s v =
     (if pick s v = current_thread s then clean_view v
      else leave_view s (put P_ready (butlast (v_ready v)) (clean_view v)))"

text \<open>The part of a control block that scheduling never changes.\<close>

definition core :: "tcb \<Rightarrow> u32 \<times> u32 \<times> u32 \<times> u32" where
  "core c = (tid c, esp c, wakeup_ticks c, stack_base c)"

lemma core_upd [simp]: "core (c\<lparr>status := st\<rparr>) = core c" "core (touch m c) = core c" "core (wake_tcb c) = core c"
  by (simp_all add: core_def touch_def wake_tcb_def)

lemma set_butlast_distinct: "distinct xs \<Longrightarrow> xs \<noteq> [] \<Longrightarrow> set (butlast xs) = set xs - {last xs}"
  by (induction xs rule: rev_induct) auto

lemma clean_view_at: "v_at (clean_view v) p = (if p = P_zombie then [] else v_at v p)"
  by (simp add: clean_view_def)

lemma cur_unplaced:
  assumes "kinv s v" "status (tcbs s (current_thread s)) \<noteq> ThreadStatus_Blocked"
  shows "current_thread s \<notin> set (v_at v p)"
  using kinv_cur_place [OF assms(1), of p] kinv_status [OF assms(1), of "current_thread s" p] assms(2) by auto

section \<open>Switching\<close>

lemma put_away_ok:
  assumes inv: "kinv s v" and ok: "lists_ok s2 v2" and same: "current_thread s2 = current_thread s" "image s2 = image s"
    "\<And>t. status (tcbs s2 t) = status (tcbs s t)"
    and sub: "\<And>p. set (v_at v2 p) \<subseteq> set (v_at v p)" "v_all v2 = v_all v"
  shows "\<exists>s3. put_away (current_thread s) s2 = Inr s3 \<and> lists_ok s3 (leave_view s v2) \<and> frame s2 s3 \<and>
     (\<forall>t. t \<noteq> current_thread s \<longrightarrow> tcbs s3 t = tcbs s2 t) \<and> core (tcbs s3 (current_thread s)) = core (tcbs s2 (current_thread s)) \<and>
     status (tcbs s3 (current_thread s)) = (if running s then ThreadStatus_Ready else status (tcbs s (current_thread s)))"
proof (cases "current_thread s = idle_thread s")
  case True
  then have "running s" using kinv_idle_status [OF inv] by (simp add: running_def)
  then show ?thesis
    using True ok same by (simp add: put_away_def leave_view_def frame_def set_status_def upd_tcb_def flip: upd_tcb_def set_status_def)
      (auto simp: set_status_def upd_tcb_def)
next
  case False
  let ?c = "current_thread s"
  have add: "\<exists>q ns. place_add p ?c s2' = set_root p q (s2'\<lparr>local_links := ns\<rparr>) \<and>
      lists_ok (place_add p ?c s2') (put p (?c # v_at v2 p) v2)"
    if "lists_ok s2' v2" "status (tcbs s ?c) \<noteq> ThreadStatus_Blocked" "\<nexists>w. p = P_wait w" for s2' p
  proof -
    have "?c \<notin> set (v_at v2 p')" for p' using sub(1) [of p'] cur_unplaced [OF inv that(2)] by blast
    moreover have "?c \<in> set (v_all v2)" using kinv_cur [OF inv] sub(2) by simp
    ultimately show ?thesis using place_add_ok [OF that(1)] that(3) by blast
  qed
  show ?thesis
  proof (cases "status (tcbs s ?c)")
    case ThreadStatus_Running
    let ?s2 = "set_status ?c ThreadStatus_Ready s2"
    obtain q ns where "place_add P_ready ?c ?s2 = set_root P_ready q (?s2\<lparr>local_links := ns\<rparr>)"
      "lists_ok (place_add P_ready ?c ?s2) (put P_ready (?c # v_at v2 P_ready) v2)"
      using add [of ?s2 P_ready] ok ThreadStatus_Running by auto
    then show ?thesis using False same ThreadStatus_Running
      by (auto simp: put_away_def leave_view_def Let_def place_ops frame_def running_def set_status_def upd_tcb_def)
  next
    case ThreadStatus_Sleeping
    obtain q ns where "place_add P_sleep ?c s2 = set_root P_sleep q (s2\<lparr>local_links := ns\<rparr>)"
      "lists_ok (place_add P_sleep ?c s2) (put P_sleep (?c # v_at v2 P_sleep) v2)"
      using add [of s2 P_sleep] ok ThreadStatus_Sleeping by auto
    then show ?thesis using False same ThreadStatus_Sleeping
      by (auto simp: put_away_def leave_view_def Let_def place_ops frame_def running_def)
  next
    case ThreadStatus_Zombie
    obtain q ns where "place_add P_zombie ?c s2 = set_root P_zombie q (s2\<lparr>local_links := ns\<rparr>)"
      "lists_ok (place_add P_zombie ?c s2) (put P_zombie (?c # v_at v2 P_zombie) v2)"
      using add [of s2 P_zombie] ok ThreadStatus_Zombie by auto
    then show ?thesis using False same ThreadStatus_Zombie
      by (auto simp: put_away_def leave_view_def Let_def place_ops frame_def running_def)
  next
    case ThreadStatus_Blocked
    then show ?thesis using False same ok by (auto simp: put_away_def leave_view_def Let_def running_def)
  next
    case ThreadStatus_Ready
    then show ?thesis using kinv_cur_status [OF inv] by simp
  qed
qed

lemma leave_view_mem:
  assumes "status (tcbs s (current_thread s)) \<noteq> ThreadStatus_Ready"
  shows "x \<in> set (v_at (leave_view s v) p) \<longleftrightarrow> x \<in> set (v_at v p) \<or>
     (x = current_thread s \<and> x \<noteq> idle_thread s \<and> status (tcbs s x) \<noteq> ThreadStatus_Blocked \<and>
      p = (if running s then P_ready else if status (tcbs s x) = ThreadStatus_Sleeping then P_sleep else P_zombie))"
    "v_all (leave_view s v) = v_all v"
  using assms
  by (cases "status (tcbs s (current_thread s))"; auto simp: leave_view_def Let_def running_def)+

lemma leave_view_wait: "v_at (leave_view s v) (P_wait w) = v_at v (P_wait w)"
  by (cases "status (tcbs s (current_thread s))") (simp_all add: leave_view_def Let_def)

lemma kinv_switch:
  assumes inv: "kinv s v" and ok: "lists_ok s' (leave_view s v2)" and n: "n \<in> set (v_all v)" "n \<noteq> current_thread s"
    and v2: "v_all v2 = v_all v" "\<And>p x. x \<in> set (v_at v2 p) \<longleftrightarrow> x \<in> set (v_at v p) \<and> x \<noteq> n"
    and same: "current_thread s' = n" "image s' = image s"
    and st: "\<And>t. status (tcbs s' t) = (if t = n then ThreadStatus_Running
        else if t = current_thread s \<and> running s then ThreadStatus_Ready else status (tcbs s t))"
  shows "kinv s' (leave_view s v2)"
proof -
  let ?c = "current_thread s" and ?v = "leave_view s v2"
  note mem = leave_view_mem [OF kinv_cur_status [OF inv], where v = v2, unfolded v2]
  have nn: "n \<notin> set (v_at ?v p)" for p using n(2) by (auto simp: mem)
  have s1: "status (tcbs s' x) = place_status p" if x: "x \<in> set (v_at ?v p)" for x p
  proof (cases "x = ?c")
    case False
    then show ?thesis using x kinv_status [OF inv, of x p] n(2) by (auto simp: mem st)
  next
    case True
    show ?thesis
    proof (cases "x \<in> set (v_at v p)")
      case True
      then show ?thesis using \<open>x = ?c\<close> kinv_status [OF inv, of x p] running_unplaced [OF inv, of p] n(2) by (auto simp: st)
    next
      case False
      then show ?thesis using x \<open>x = ?c\<close> n(2) kinv_cur_status [OF inv]
        by (cases "status (tcbs s ?c)") (auto simp: mem st running_def split: if_splits)
    qed
  qed
  have s2: "\<exists>p. x \<in> set (v_at ?v p)" if x: "x \<in> set (v_all v)" "x \<noteq> n" "x \<noteq> idle_thread s" for x
  proof (cases "x = ?c")
    case False
    then show ?thesis using kinv_placed [OF inv x(1) False x(3)] x(2) by (auto simp: mem)
  next
    case True
    show ?thesis
    proof (cases "status (tcbs s ?c) = ThreadStatus_Blocked")
      case True
      then show ?thesis using kinv_cur_blocked [OF inv] \<open>x = ?c\<close> x(2) by (auto simp: mem)
    next
      case False
      then show ?thesis using \<open>x = ?c\<close> x(3) by (auto simp: mem)
    qed
  qed
  have s3: "idle_thread s \<notin> set (v_at ?v p)" for p using kinv_idle(2) [OF inv] by (auto simp: mem)
  have s4: "status (tcbs s' (idle_thread s)) = (if n = idle_thread s then ThreadStatus_Running else ThreadStatus_Ready)"
    using kinv_idle_status [OF inv] by (auto simp: st running_def)
  show ?thesis
    unfolding kinv_def same using ok n kinv_idle(1) [OF inv] s1 s2 s3 s4 nn by (auto simp: mem(2) v2 st)
qed

section \<open>One round of the scheduler\<close>

lemma find_ready_thread_ok:
  assumes inv: "kinv s v" and hp: "heap_ok s v g" and lock: "can_clean s v"
  shows "\<exists>s1 s2 g'. find_ready_thread s = Inr (pick s v, s2) \<and> kinv s1 (clean_view v) \<and> frame s1 s2 \<and>
     tcbs s2 = tcbs s1 \<and> lists_ok s2 (put P_ready (butlast (v_ready v)) (clean_view v)) \<and>
     (pick s v = current_thread s \<longrightarrow> s2 = s1) \<and>
     heap_ok s1 (clean_view v) g' \<and> (lock_free s (free_list_lock (image s)) \<longrightarrow> lock_free s1 (free_list_lock (image s))) \<and> sframe s s1 \<and>
     tcbs s1 = (if v_zombie v = [] then tcbs s else touched s) \<and>
     handed_out g' = {r \<in> handed_out g. fst r \<notin> unat ` set (owned_by s (v_zombie v))} \<and> regions_kept g' (heap s) (heap s1)"
proof -
  obtain s1 g' where c: "clean_zombies_from (zombie_threads s) s = Some (Inr s1)" "kinv s1 (clean_view v)"
    "heap_ok s1 (clean_view v) g'" "lock_free s (free_list_lock (image s)) \<longrightarrow> lock_free s1 (free_list_lock (image s))" "sframe s s1"
    "tcbs s1 = (if v_zombie v = [] then tcbs s else touched s)"
    "handed_out g' = {r \<in> handed_out g. fst r \<notin> unat ` set (owned_by s (v_zombie v))}" "regions_kept g' (heap s) (heap s1)"
    using clean_zombies_from_ok [OF inv hp lock] by blast
  note ok1 = kinv_lists [OF c(2)]
  have cz: "clean_zombies s = Inr s1" using c(1) by (simp add: clean_zombies_def)
  have rn: "running s1 = running s" using sframeD(1) [OF c(5)] c(6) by (simp add: running_def touched_def)
  have rv: "v_ready (clean_view v) = v_ready v" by (simp add: clean_view_at)
  have "\<exists>s2. find_ready_thread s = Inr (pick s v, s2) \<and> frame s1 s2 \<and> tcbs s2 = tcbs s1 \<and>
     lists_ok s2 (put P_ready (butlast (v_ready v)) (clean_view v)) \<and> (pick s v = current_thread s \<longrightarrow> s2 = s1)"
  proof (cases "v_ready v = []")
    case True
    then have "ready_threads s1 = 0" using root_empty [OF ok1, of P_ready] rv by simp
    then have "find_ready_thread s = Inr (pick s v, s1)"
      using cz True rn sframeD(1,2) [OF c(5)] by (simp add: find_ready_thread_def pick_def running_def)
    then show ?thesis using ok1 True rv put_put(2) [of P_ready "clean_view v"] by auto
  next
    case False
    then have z: "ready_threads s1 \<noteq> 0" using root_empty [OF ok1, of P_ready] rv by simp
    let ?n = "last (v_ready v)"
    have sp: "v_at (clean_view v) P_ready = butlast (v_ready v) @ ?n # []" using False rv by simp
    have d: "dll (local_links s1) 0 (ready_threads s1) (map local_node (v_ready v))"
      using lists_place [OF ok1, of P_ready] rv by (simp add: place_holds_def)
    then have lr: "last_ready (local_links s1) (ready_threads s1) = Some (Inr (local_node ?n))"
      using last_ready_walk [OF d] False by (simp add: last_map)
    obtain q ns where r: "place_remove P_ready (local_node ?n) s1 = Inr (set_root P_ready q (s1\<lparr>local_links := ns\<rparr>))"
      "lists_ok (set_root P_ready q (s1\<lparr>local_links := ns\<rparr>)) (put P_ready (butlast (v_ready v) @ []) (clean_view v))"
      "thread (ns (local_node ?n)) = ?n"
      using place_remove_ok [OF ok1 sp] by blast
    let ?s2 = "set_root P_ready q (s1\<lparr>local_links := ns\<rparr>)"
    have "find_ready_thread s = Inr (pick s v, ?s2)"
      using cz z lr r(1,3) False by (simp add: find_ready_thread_def pick_def place_ops)
    moreover have "?n \<noteq> current_thread s"
      using kinv_cur_place [OF inv, of P_ready] False last_in_set [OF False] by fastforce
    ultimately show ?thesis
      using r(2) False by (intro exI [of _ ?s2] conjI) (simp_all add: pick_def frame_def)
  qed
  then show ?thesis using c by blast
qed

lemma schedule_ok:
  assumes inv: "kinv s v" and fr: "frame s s2" and tc: "tcbs s2 = tcbs s"
    and ok: "lists_ok s2 v2" and n: "n \<in> set (v_all v)" "n \<noteq> current_thread s" "status (tcbs s n) = ThreadStatus_Ready"
    and v2: "v_all v2 = v_all v" "\<And>p x. x \<in> set (v_at v2 p) \<longleftrightarrow> x \<in> set (v_at v p) \<and> x \<noteq> n"
  shows "\<exists>s'. schedule n s2 = Inr s' \<and> kinv s' (leave_view s v2) \<and> frame (s\<lparr>current_thread := n\<rparr>) s' \<and> running s' \<and>
     (\<forall>t. core (tcbs s' t) = core (tcbs s t)) \<and>
     (\<forall>t. t \<noteq> n \<and> t \<noteq> current_thread s \<longrightarrow> tcbs s' t = tcbs s t)"
proof -
  let ?c = "current_thread s"
  obtain s3 where p: "put_away ?c s2 = Inr s3" "lists_ok s3 (leave_view s v2)" "frame s2 s3"
    "\<forall>t. t \<noteq> ?c \<longrightarrow> tcbs s3 t = tcbs s2 t" "core (tcbs s3 ?c) = core (tcbs s2 ?c)"
    "status (tcbs s3 ?c) = (if running s then ThreadStatus_Ready else status (tcbs s ?c))"
    using put_away_ok [OF inv ok frameD(1,2) [OF fr] _ _ v2(1)] tc v2(2) by auto
  let ?s' = "set_status n ThreadStatus_Running (s3\<lparr>current_thread := n\<rparr>)"
  have sn: "status (tcbs s3 n) = ThreadStatus_Ready" using p(4) n(2,3) tc by simp
  have "schedule n s2 = Inr ?s'"
    using frameD(1) [OF fr] n(2) p(1) sn by (simp add: schedule_def)
  moreover have f3: "frame s s3" by (rule frame_trans [OF fr p(3)])
  then have "frame (s\<lparr>current_thread := n\<rparr>) ?s'" by (simp add: frame_def set_status_def upd_tcb_def)
  moreover have "kinv ?s' (leave_view s v2)"
  proof (rule kinv_switch [OF inv _ n(1,2) v2])
    show "lists_ok ?s' (leave_view s v2)" using p(2) by simp
    show "status (tcbs ?s' t) = (if t = n then ThreadStatus_Running
        else if t = ?c \<and> running s then ThreadStatus_Ready else status (tcbs s t))" for t
      using p(4,6) tc by (cases "t = ?c") (simp_all add: set_status_def upd_tcb_def)
  qed (use f3 in \<open>simp_all add: set_status_def upd_tcb_def frame_def\<close>)
  moreover have "core (tcbs ?s' t) = core (tcbs s t)" for t
    using p(4,5) tc by (cases "t = ?c") (auto simp: set_status_def upd_tcb_def)
  moreover have "tcbs ?s' t = tcbs s t" if "t \<noteq> n" "t \<noteq> ?c" for t
    using that p(4) tc by (simp add: set_status_def upd_tcb_def)
  moreover have "running ?s'" by (simp add: running_def set_status_def upd_tcb_def)
  ultimately show ?thesis by blast
qed

lemma scheduler_next_ok:
  assumes inv: "kinv s v" and hp: "heap_ok s v g" and lock: "can_clean s v"
  shows "\<exists>s' g'. scheduler_next s = Inr s' \<and> kinv s' (sched_view s v) \<and> running s' \<and> current_thread s' = pick s v \<and>
     heap_ok s' (sched_view s v) g' \<and> (lock_free s (free_list_lock (image s)) \<longrightarrow> lock_free s' (free_list_lock (image s))) \<and>
     sframe (s\<lparr>current_thread := pick s v\<rparr>) s' \<and> (\<forall>t. core (tcbs s' t) = core (tcbs s t)) \<and>
     handed_out g' = {r \<in> handed_out g. fst r \<notin> unat ` set (owned_by s (v_zombie v))} \<and> regions_kept g' (heap s) (heap s')"
proof -
  let ?n = "pick s v" and ?c = "current_thread s" and ?m = "free_list_lock (image s)"
  obtain s1 s2 g' where f: "find_ready_thread s = Inr (?n, s2)" "kinv s1 (clean_view v)" "frame s1 s2" "tcbs s2 = tcbs s1"
    "lists_ok s2 (put P_ready (butlast (v_ready v)) (clean_view v))" "?n = ?c \<longrightarrow> s2 = s1"
    "heap_ok s1 (clean_view v) g'" "lock_free s ?m \<longrightarrow> lock_free s1 ?m" "sframe s s1" "tcbs s1 = (if v_zombie v = [] then tcbs s else touched s)"
    "handed_out g' = {r \<in> handed_out g. fst r \<notin> unat ` set (owned_by s (v_zombie v))}" "regions_kept g' (heap s) (heap s1)"
    using find_ready_thread_ok [OF assms] by blast
  note sf = sframeD [OF f(9)]
  have st1: "status (tcbs s1 t) = status (tcbs s t)" and co1: "core (tcbs s1 t) = core (tcbs s t)" for t
    using f(10) by (simp_all add: touched_def)
  show ?thesis
  proof (cases "?n = ?c")
    case True
    then have "running s" using kinv_idle_status [OF inv] kinv_cur_place [OF inv, of P_ready] last_in_set [of "v_ready v"]
      by (fastforce simp: pick_def running_def split: if_splits)
    then have r1: "running s1" using sf(1) st1 by (simp add: running_def)
    then have "scheduler_next s = Inr s1"
      using f(1,6) True sf(1) by (simp add: scheduler_next_def schedule_def running_def)
    then show ?thesis
      using True f(2,7,8,9,11,12) r1 co1 sf(1) by (intro exI [of _ s1] exI [of _ g']) (simp add: sched_view_def)
  next
    case False
    have ok: "lists_ok s (v)" by (rule kinv_lists [OF inv])
    let ?v2 = "put P_ready (butlast (v_ready v)) (clean_view v)"
    have nr: "v_ready v \<noteq> [] \<Longrightarrow> ?n \<in> set (v_ready v)" by (simp add: pick_def)
    have ni: "v_ready v = [] \<Longrightarrow> ?n = idle_thread s" using False by (auto simp: pick_def split: if_splits)
    have n1: "status (tcbs s1 ?n) = ThreadStatus_Ready"
      using nr ni st1 kinv_status [OF inv, of ?n P_ready] kinv_idle_status [OF inv] False by (cases "v_ready v = []") auto
    have na: "?n \<in> set (v_all (clean_view v))"
    proof (cases "v_ready v = []")
      case True
      then show ?thesis using ni kinv_idle(1) [OF f(2)] sf(2) by simp
    next
      case False
      then show ?thesis using nr lists_member [OF kinv_lists [OF f(2)], of ?n P_ready] by (simp add: clean_view_at)
    qed
    have mem: "x \<in> set (v_at ?v2 p) \<longleftrightarrow> x \<in> set (v_at (clean_view v) p) \<and> x \<noteq> ?n" for x p
    proof (cases "v_ready v = []")
      case True
      then show ?thesis using ni kinv_idle(2) [OF inv, of p] by (auto simp: clean_view_at)
    next
      case False
      have "p \<noteq> P_ready \<Longrightarrow> ?n \<notin> set (v_at v p)" using lists_disjoint [OF ok, of P_ready p ?n] nr False by auto
      moreover have "set (butlast (v_ready v)) = set (v_ready v) - {?n}"
        using lists_distinct(2) [OF ok, of P_ready] False by (simp add: pick_def set_butlast_distinct)
      ultimately show ?thesis by (auto simp: clean_view_at)
    qed
    obtain s' where s: "schedule ?n s2 = Inr s'" "kinv s' (leave_view s1 ?v2)" "frame (s1\<lparr>current_thread := ?n\<rparr>) s'"
      "running s'" "\<forall>t. core (tcbs s' t) = core (tcbs s1 t)"
      using schedule_ok [OF f(2,3,4,5) na _ n1 _ mem] False sf(1) by auto
    have lv: "leave_view s1 ?v2 = sched_view s v"
      using False st1 sf(1,2) by (simp add: leave_view_def sched_view_def Let_def)
    have al: "v_all (sched_view s v) = v_all (clean_view v)"
      using leave_view_mem(2) [OF kinv_cur_status [OF f(2)], of ?v2] lv by simp
    have "heap_ok s' (sched_view s v) g'"
    proof -
      have "owned_by s' = owned_by s1"
        by (rule owned_by_cong) (use s(3,5) in \<open>simp_all add: frame_def core_def\<close>)
      then show ?thesis using f(7) s(3) al by (simp add: heap_ok_def frame_def)
    qed
    moreover have "lock_free s' ?m" if lk: "lock_free s ?m"
    proof -
      note f8 = f(8) [rule_format, OF lk]
      have "v_sem (clean_view v) ?m = []"
        using f8 root_empty [OF kinv_lists [OF f(2)], of "P_wait (SemQ ?m)"] by (simp add: lock_free_def)
      then have "v_sem (sched_view s v) ?m = []" unfolding lv [symmetric] by (simp add: leave_view_wait)
      then show ?thesis
        using f8 s(3) root_empty [OF kinv_lists [OF s(2)], of "P_wait (SemQ ?m)"] lv by (simp add: lock_free_def frame_def)
    qed
    moreover have "sframe (s\<lparr>current_thread := ?n\<rparr>) s'" using f(9) s(3) by (simp add: sframe_def frame_def)
    ultimately show ?thesis
      using f(1,11,12) s co1 lv by (intro exI [of _ s'] exI [of _ g']) (simp add: scheduler_next_def frame_def)
  qed
qed

section \<open>The timer interrupt\<close>

text \<open>The view after the tick has woken the sleepers that are due.\<close>

definition ticked_view :: "kern \<Rightarrow> view \<Rightarrow> view" where
  "ticked_view s v = tick_view (s\<lparr>timer_ticks := timer_ticks s + 1\<rparr>) v"

lemma kinv_esp: "kinv (upd_tcb t (\<lambda>c. c\<lparr>esp := e\<rparr>) s) v = kinv s v"
proof -
  have "status (tcbs (upd_tcb t (\<lambda>c. c\<lparr>esp := e\<rparr>) s) x) = status (tcbs s x)" for x by (simp add: upd_tcb_def)
  then show ?thesis by (simp add: kinv_def)
qed

lemma timer_callback_ok:
  assumes "kinv s v"
  shows "\<exists>s'. timer_callback s = Inr s' \<and> kinv s' (ticked_view s v) \<and>
     sframe (s\<lparr>timer_ticks := timer_ticks s + 1\<rparr>) s' \<and> heap s' = heap s \<and> (\<forall>u. core (tcbs s' u) = core (tcbs s u)) \<and>
     tcbs s' (current_thread s) = tcbs s (current_thread s)"
proof -
  let ?s1 = "if first_tick s then say ''Timer Alive\<newline>'' [] s else s"
  let ?s2 = "?s1\<lparr>timer_ticks := timer_ticks ?s1 + 1, first_tick := False\<rparr>"
  have "kinv ?s2 v" using assms by simp
  then obtain s' where t: "thread_timer_tick ?s2 = Inr s'" "frame ?s2 s'" "kinv s' (tick_view ?s2 v)"
    "\<forall>u. tcbs s' u = (if u \<in> set (v_sleep v) \<and> due ?s2 u then (tcbs ?s2 u)\<lparr>status := ThreadStatus_Ready\<rparr> else tcbs ?s2 u)"
    using thread_timer_tick_ok by blast
  have "due ?s2 = due (s\<lparr>timer_ticks := timer_ticks s + 1\<rparr>)" by (intro ext) (simp add: due_def)
  then have "tick_view ?s2 v = ticked_view s v" by (simp add: tick_view_def ticked_view_def)
  moreover have "sframe (s\<lparr>timer_ticks := timer_ticks s + 1\<rparr>) s'" using t(2) by (simp add: sframe_def frame_def)
  moreover have "current_thread s \<notin> set (v_sleep v)" using kinv_cur_place [OF assms, of P_sleep] by auto
  moreover have "timer_callback s = Inr s'" using t(1) by (simp add: timer_callback_def Let_def)
  ultimately show ?thesis using t by (intro exI [of _ s']) (auto simp: frame_def)
qed

text \<open>The interrupt up to the scheduler: the sleepers are woken, the stack pointer is in the control block.\<close>

lemma irq_reaches_scheduler:
  assumes inv: "kinv s v"
  shows "\<exists>s3. isr_IRQ0 s = andthen (scheduler_next s3) (\<lambda>s4. Inr (s4\<lparr>esp_reg := esp (tcbs s4 (current_thread s4)) + 56\<rparr>)) \<and>
     kinv s3 (ticked_view s v) \<and> heap s3 = heap s \<and> status (tcbs s3 (current_thread s)) = status (tcbs s (current_thread s)) \<and>
     sframe (s\<lparr>hw := cli (hw s), esp_reg := esp_reg s - 56, timer_ticks := timer_ticks s + 1\<rparr>) s3 \<and>
     (\<forall>t. tid (tcbs s3 t) = tid (tcbs s t) \<and> stack_base (tcbs s3 t) = stack_base (tcbs s t) \<and>
        esp (tcbs s3 t) = (if t = current_thread s then esp_reg s - 56 else esp (tcbs s t)))"
proof -
  let ?c = "current_thread s" and ?s0 = "s\<lparr>hw := cli (hw s), esp_reg := esp_reg s - 56\<rparr>"
  have "kinv ?s0 v" using inv by simp
  then obtain s1 where t: "timer_callback ?s0 = Inr s1" "kinv s1 (ticked_view ?s0 v)"
    "sframe (?s0\<lparr>timer_ticks := timer_ticks ?s0 + 1\<rparr>) s1" "heap s1 = heap ?s0" "\<forall>u. core (tcbs s1 u) = core (tcbs ?s0 u)"
    "tcbs s1 (current_thread ?s0) = tcbs ?s0 (current_thread ?s0)"
    using timer_callback_ok by blast
  note f1 = sframeD [OF t(3), simplified]
  have tv: "ticked_view ?s0 v = ticked_view s v"
  proof -
    have "due (?s0\<lparr>timer_ticks := timer_ticks ?s0 + 1\<rparr>) = due (s\<lparr>timer_ticks := timer_ticks s + 1\<rparr>)"
      by (intro ext) (simp add: due_def)
    then show ?thesis by (simp add: ticked_view_def tick_view_def)
  qed
  let ?s2 = "upd_tcb ?c (\<lambda>c. c\<lparr>esp := esp_reg s1\<rparr>) s1"
  let ?s3 = "?s2\<lparr>hw := io_outb 0x20 0x20 (hw ?s2)\<rparr>"
  have "kinv ?s3 (ticked_view s v)" using t(2) tv by (simp add: kinv_esp)
  moreover have "sframe (s\<lparr>hw := cli (hw s), esp_reg := esp_reg s - 56, timer_ticks := timer_ticks s + 1\<rparr>) ?s3"
    using t(3) by (simp add: sframe_def frame_def upd_tcb_def)
  ultimately show ?thesis
    using t f1 by (intro exI [of _ ?s3]) (simp add: isr_IRQ0_def Let_def core_def upd_tcb_def)
qed

lemma isr_IRQ0_ok:
  assumes inv: "kinv s v" and hp: "heap_ok s v g" and lock: "can_clean s v"
  shows "\<exists>s' g'. isr_IRQ0 s = Inr s' \<and> kinv s' (sched_view s (ticked_view s v)) \<and> running s' \<and>
     current_thread s' = pick s (ticked_view s v) \<and> heap_ok s' (sched_view s (ticked_view s v)) g' \<and>
     (lock_free s (free_list_lock (image s)) \<longrightarrow> lock_free s' (free_list_lock (image s))) \<and> image s' = image s \<and> mutexes s' = mutexes s \<and>
     (\<forall>a. sem_count (sems s' a) = sem_count (sems s a)) \<and> timer_ticks s' = timer_ticks s + 1 \<and>
     \<not> interrupt_is_enabled (hw s') \<and>
     (\<forall>t. esp (tcbs s' t) = (if t = current_thread s then esp_reg s - 56 else esp (tcbs s t))) \<and>
     (\<forall>t. tid (tcbs s' t) = tid (tcbs s t) \<and> stack_base (tcbs s' t) = stack_base (tcbs s t)) \<and>
     esp_reg s' = esp (tcbs s' (current_thread s')) + 56 \<and>
     handed_out g' = {r \<in> handed_out g. fst r \<notin> unat ` set (owned_by s (v_zombie v))} \<and>
     regions_kept g' (heap s) (heap s')"
proof -
  let ?c = "current_thread s" and ?m = "free_list_lock (image s)" and ?v1 = "ticked_view s v"
  obtain s3 where t: "isr_IRQ0 s = andthen (scheduler_next s3) (\<lambda>s4. Inr (s4\<lparr>esp_reg := esp (tcbs s4 (current_thread s4)) + 56\<rparr>))"
    "kinv s3 ?v1" "heap s3 = heap s" "status (tcbs s3 ?c) = status (tcbs s ?c)"
    "sframe (s\<lparr>hw := cli (hw s), esp_reg := esp_reg s - 56, timer_ticks := timer_ticks s + 1\<rparr>) s3"
    "\<forall>t. tid (tcbs s3 t) = tid (tcbs s t) \<and> stack_base (tcbs s3 t) = stack_base (tcbs s t) \<and>
        esp (tcbs s3 t) = (if t = ?c then esp_reg s - 56 else esp (tcbs s t))"
    using irq_reaches_scheduler [OF inv] by blast
  note k3 = t(2) and f1 = sframeD [OF t(5), simplified]
  have fields: "heap s3 = heap s" "image s3 = image s" "mutexes s3 = mutexes s" "current_thread s3 = ?c"
    using t(3) f1 by simp_all
  have al: "v_all ?v1 = v_all v" by (simp add: ticked_view_def tick_view_def)
  have o3: "owned_by s3 = owned_by s"
    by (rule owned_by_cong [OF fields(2)]) (use t(6) in simp)
  then have h3: "heap_ok s3 ?v1 g" using hp fields(1) al by (simp add: heap_ok_def)
  have l3: "lock_free s3 ?m" if lk: "lock_free s ?m"
  proof -
    have "v_sem ?v1 ?m = []"
      using lk root_empty [OF kinv_lists [OF inv], of "P_wait (SemQ ?m)"]
      by (simp add: lock_free_def ticked_view_def tick_view_def)
    then have "wait_queue_head (sem_queue (sems s3 ?m)) = 0"
      using root_empty [OF kinv_lists [OF k3], of "P_wait (SemQ ?m)"] by simp
    then show ?thesis using lk f1(3,4) by (simp add: lock_free_def)
  qed
  have zv: "v_zombie ?v1 = v_zombie v" by (simp add: ticked_view_def tick_view_def)
  then have cc: "can_clean s3 ?v1" using lock l3 fields(2) by (auto simp: can_clean_def)
  obtain s4 g' where n: "scheduler_next s3 = Inr s4" "kinv s4 (sched_view s3 ?v1)" "running s4" "current_thread s4 = pick s3 ?v1"
    "heap_ok s4 (sched_view s3 ?v1) g'" "lock_free s ?m \<longrightarrow> lock_free s4 ?m" "sframe (s3\<lparr>current_thread := pick s3 ?v1\<rparr>) s4"
    "\<forall>t. core (tcbs s4 t) = core (tcbs s3 t)"
    "handed_out g' = {r \<in> handed_out g. fst r \<notin> unat ` set (owned_by s3 (v_zombie ?v1))}" "regions_kept g' (heap s3) (heap s4)"
    using scheduler_next_ok [OF k3 h3 cc] fields(2) l3 by (auto simp: fields(2))
  note st = t(4)
  have pk: "pick s3 ?v1 = pick s ?v1" using st fields by (simp add: pick_def running_def)
  have sv: "sched_view s3 ?v1 = sched_view s ?v1"
    using st fields pk by (simp add: sched_view_def leave_view_def Let_def)
  let ?s' = "s4\<lparr>esp_reg := esp (tcbs s4 (current_thread s4)) + 56\<rparr>"
  have "isr_IRQ0 s = Inr ?s'" using t(1) n(1) by simp
  moreover note f4 = sframeD [OF n(7)]
  have "\<not> interrupt_is_enabled (hw ?s')"
    using f4(8) f1(8) cli_disabled(1) [of "hw s"] by (simp add: interrupt_is_enabled_bit)
  moreover have "esp (tcbs ?s' t) = (if t = ?c then esp_reg s - 56 else esp (tcbs s t))" for t
    using n(8) t(6) by (simp add: core_def)
  moreover have "\<forall>t. tid (tcbs ?s' t) = tid (tcbs s t) \<and> stack_base (tcbs ?s' t) = stack_base (tcbs s t)"
    using n(8) t(6) by (simp add: core_def)
  moreover have ob: "owned_by ?s' = owned_by s4" by (rule owned_by_cong) simp_all
  then have "lock_free s ?m \<longrightarrow> lock_free ?s' ?m" "heap_ok ?s' (sched_view s ?v1) g'" "running ?s'"
    using n(3,5,6) sv by (simp_all add: lock_free_def heap_ok_def running_def)
  moreover have "mutexes ?s' = mutexes s" "image ?s' = image s" "timer_ticks ?s' = timer_ticks s + 1"
    "\<forall>a. sem_count (sems ?s' a) = sem_count (sems s a)"
    using f4 f1 fields by simp_all
  moreover have "handed_out g' = {r \<in> handed_out g. fst r \<notin> unat ` set (owned_by s (v_zombie v))}"
    "regions_kept g' (heap s) (heap ?s')"
    using n(9,10) o3 zv fields(1) by simp_all
  ultimately show ?thesis using n(2,4) pk sv by (intro exI [of _ ?s'] exI [of _ g']) simp
qed

end
