(* ===== verification/ThreadSystem.thy ===== *)
theory ThreadSystem
  imports Scheduler
begin

text \<open>
  Threads that run concurrently: the current thread calls one synchronisation primitive after another, the
  timer interrupt can strike between any two, and a primitive that yields is resumed when the
  scheduler picks its thread again. A state holds what the current thread is doing, the saved
  context of every other thread, and what the threads have observed: how often each has acquired each
  mutex, the acquisition each is waiting for, and the heap memory each has been handed out.
\<close>

section \<open>Calls and steps\<close>

datatype call = Call_down u32 | Call_up u32 | Call_acquire u32 | Call_release u32 | Call_wait u32 u32
  | Call_signal u32 | Call_broadcast u32 | Call_yield | Call_sleep u32 | Call_exit

fun perform :: "call \<Rightarrow> kern \<Rightarrow> unit routine" where
  "perform (Call_down a) s = semaphore_down a s"
| "perform (Call_up a) s = lift_unit (semaphore_up a s)"
| "perform (Call_acquire m) s = mutex_acquire m s"
| "perform (Call_release m) s = lift_unit (mutex_release m s)"
| "perform (Call_wait c m) s = condvar_wait c m s"
| "perform (Call_signal c) s = lift_unit (condvar_signal c s)"
| "perform (Call_broadcast c) s = lift_unit (condvar_broadcast c s)"
| "perform Call_yield s = thread_yield s"
| "perform (Call_sleep ticks) s = go_to_sleep ticks s"
| "perform Call_exit s = thread_exit s"

record system =
  doing :: "unit routine"
  contexts :: "u32 \<Rightarrow> u32 \<times> (kern \<Rightarrow> unit routine)"
  depth :: "u32 \<Rightarrow> u32 \<Rightarrow> nat"
  awaits :: "u32 \<Rightarrow> u32 option"
  owns :: owners

text \<open>
  What a program may call: mutexes (the set \<open>M\<close>) are used only as mutexes, a mutex is released by its
  holder, \<^verbatim>\<open>condvar_wait\<close> is called with the mutex held once, the idle thread only yields and counts do not
  overflow. The lock of the heap is used as a mutex when it is in \<open>M\<close>; then no thread may exit, because
  the timer interrupt frees dead threads without waiting for that lock.
\<close>

fun allowed :: "u32 set \<Rightarrow> kern \<Rightarrow> call \<Rightarrow> bool" where
  "allowed M s (Call_down a) \<longleftrightarrow> a \<notin> M \<and> a \<noteq> free_list_lock (image s) \<and> current_thread s \<noteq> idle_thread s"
| "allowed M s (Call_up a) \<longleftrightarrow> a \<notin> M \<and> a \<noteq> free_list_lock (image s) \<and> level s a < 2147483647"
| "allowed M s (Call_acquire m) \<longleftrightarrow> m \<in> M \<and> current_thread s \<noteq> idle_thread s \<and>
     recursion_count (mutexes s m) \<noteq> 0xFFFFFFFF"
| "allowed M s (Call_release m) \<longleftrightarrow> m \<in> M \<and> holder (mutexes s m) = current_thread s"
| "allowed M s (Call_wait c m) \<longleftrightarrow> m \<in> M \<and> current_thread s \<noteq> idle_thread s \<and>
     mutexes s m = \<lparr>holder = current_thread s, recursion_count = 1\<rparr>"
| "allowed M s (Call_signal c) \<longleftrightarrow> True"
| "allowed M s (Call_broadcast c) \<longleftrightarrow> True"
| "allowed M s Call_yield \<longleftrightarrow> True"
| "allowed M s (Call_sleep ticks) \<longleftrightarrow> current_thread s \<noteq> idle_thread s"
| "allowed M s Call_exit \<longleftrightarrow> current_thread s \<noteq> idle_thread s \<and> free_list_lock (image s) \<notin> M"

text \<open>
  The heap routines between the acquisition and the release of the heap lock; a thread also writes the
  memory it has been handed out, at any time.
\<close>

fun heap_allowed :: "kern \<Rightarrow> owners \<Rightarrow> heap_op \<Rightarrow> bool" where
  "heap_allowed s f (OpWrite a b) \<longleftrightarrow> heap_rule (heap s) (current_thread s) f (OpWrite a b)"
| "heap_allowed s f op \<longleftrightarrow> heap_rule (heap s) (current_thread s) f op \<and>
     holder (mutexes s (free_list_lock (image s))) = current_thread s"

definition heap_step :: "heap_op \<Rightarrow> kern \<Rightarrow> system \<Rightarrow> system" where
  "heap_step op s x =
     (case heap_call op (heap s) of
        Inl e \<Rightarrow> x\<lparr>doing := Stop e\<rparr>
      | Inr (p, h) \<Rightarrow> x\<lparr>doing := Return () (s\<lparr>heap := h\<rparr>), owns := new_owners (current_thread s) op p (owns x)\<rparr>)"

text \<open>The records before the call starts, and when a call of the thread \<open>t\<close> has returned.\<close>

fun note_call :: "u32 \<Rightarrow> call \<Rightarrow> system \<Rightarrow> system" where
  "note_call t (Call_acquire m) x = x\<lparr>awaits := (awaits x)(t := Some m)\<rparr>"
| "note_call t (Call_wait c m) x =
     x\<lparr>awaits := (awaits x)(t := Some m), depth := (depth x)(t := (depth x t)(m := depth x t m - 1))\<rparr>"
| "note_call t (Call_release m) x = x\<lparr>depth := (depth x)(t := (depth x t)(m := depth x t m - 1))\<rparr>"
| "note_call t c x = x"

definition note_return :: "u32 \<Rightarrow> system \<Rightarrow> system" where
  "note_return t x =
     (case doing x of
        Return _ _ \<Rightarrow> (case awaits x t of
            None \<Rightarrow> x
          | Some m \<Rightarrow> x\<lparr>depth := (depth x)(t := (depth x t)(m := depth x t m + 1)), awaits := (awaits x)(t := None)\<rparr>)
      | _ \<Rightarrow> x)"

text \<open>The interrupt: the context of the thread is saved, that of the one picked is restored.\<close>

definition switch :: "kern \<Rightarrow> (kern \<Rightarrow> unit routine) \<Rightarrow> system \<Rightarrow> system" where
  "switch s k x =
     (let ctx = (contexts x)(current_thread s := (eflags (hw s), k))
      in case isr_IRQ0 s of
           Inl e \<Rightarrow> x\<lparr>doing := Stop e\<rparr>
         | Inr s1 \<Rightarrow> (let n = current_thread s1; (fl, k1) = ctx n
                     in note_return n (x\<lparr>doing := k1 (s1\<lparr>hw := eflags_set fl (hw s1)\<rparr>), contexts := ctx\<rparr>)))"

inductive sstep :: "u32 set \<Rightarrow> system \<Rightarrow> system \<Rightarrow> bool" for M where
  call: "doing x = Return () s \<Longrightarrow> allowed M s c \<Longrightarrow>
     sstep M x (note_return (current_thread s) (note_call (current_thread s) c (x\<lparr>doing := perform c s\<rparr>)))"
| heap: "doing x = Return () s \<Longrightarrow> heap_allowed s (owns x) op \<Longrightarrow> sstep M x (heap_step op s x)"
| preempt: "doing x = Return () s \<Longrightarrow> interrupt_is_enabled (hw s) \<Longrightarrow> sstep M x (x\<lparr>doing := thread_yield s\<rparr>)"
| interrupt: "doing x = Yield s k \<Longrightarrow> sstep M x (switch s k x)"

inductive_cases sstep_elims: "sstep M x x'"

inductive reach :: "u32 set \<Rightarrow> system \<Rightarrow> system \<Rightarrow> bool" for M x0 where
  start: "reach M x0 x0"
| step: "reach M x0 x \<Longrightarrow> sstep M x x' \<Longrightarrow> reach M x0 x'"

section \<open>The rest of a primitive\<close>

datatype kind = K_plain | K_down bool | K_acquire u32 bool | K_wait u32 bool | K_dead

fun code :: "kind \<Rightarrow> kern \<Rightarrow> unit routine" where
  "code K_plain s = Return () s"
| "code (K_down b) s = Return () (irq_restore b s)"
| "code (K_acquire m b) s = Return () (finish_acquire m b s)"
| "code (K_wait m b) s = mutex_acquire m (irq_restore b s)"
| "code K_dead s = Stop Diverge"

text \<open>Threads that have been handed a mutex but have not run since.\<close>

definition heirs :: "view \<Rightarrow> (u32 \<Rightarrow> kind) \<Rightarrow> u32 \<Rightarrow> u32 set" where
  "heirs v X m = {t \<in> set (v_all v). (\<exists>b. X t = K_acquire m b) \<and> t \<notin> set (v_sem v m)}"

definition mutex_ok :: "kern \<Rightarrow> view \<Rightarrow> (u32 \<Rightarrow> kind) \<Rightarrow> (u32 \<Rightarrow> u32 \<Rightarrow> nat) \<Rightarrow> u32 \<Rightarrow> bool" where
  "mutex_ok s v X d m \<longleftrightarrow>
     (let h = holder (mutexes s m); r = recursion_count (mutexes s m)
      in level s m \<le> 1 \<and>
         (if h = 0 then r = 0 \<and> (\<forall>t. d t m = 0) else d h m = unat r \<and> r \<noteq> 0 \<and> (\<forall>t. t \<noteq> h \<longrightarrow> d t m = 0)) \<and>
         (level s m = 1 \<longrightarrow> h = 0 \<and> heirs v X m = {}) \<and>
         (level s m \<le> 0 \<longrightarrow> h \<noteq> 0 \<and> heirs v X m = {} \<or> h = 0 \<and> (\<exists>t. heirs v X m = {t})))"

fun awaits_ok :: "u32 set \<Rightarrow> kind \<Rightarrow> u32 option \<Rightarrow> (u32 \<Rightarrow> nat) \<Rightarrow> bool" where
  "awaits_ok M (K_acquire m b) p d \<longleftrightarrow> m \<in> M \<and> p = Some m"
| "awaits_ok M (K_wait m b) p d \<longleftrightarrow> m \<in> M \<and> p = Some m \<and> d m = 0"
| "awaits_ok M k p d \<longleftrightarrow> p = None"

definition kind_ok :: "u32 set \<Rightarrow> kern \<Rightarrow> view \<Rightarrow> (u32 \<Rightarrow> kind) \<Rightarrow> system \<Rightarrow> u32 \<Rightarrow> bool" where
  "kind_ok M s v X x t \<longleftrightarrow>
     (\<forall>a. t \<in> set (v_sem v a) \<longrightarrow> (\<exists>b. X t = (if a \<in> M then K_acquire a b else K_down b))) \<and>
     (\<forall>c. t \<in> set (v_cond v c) \<longrightarrow> (\<exists>m b. X t = K_wait m b)) \<and>
     (status (tcbs s t) = ThreadStatus_Zombie \<longleftrightarrow> X t = K_dead) \<and>
     awaits_ok M (X t) (awaits x t) (depth x t)"

text \<open>
  Either the heap lock belongs to the threads, and nobody dies, or it is free whenever a thread can be
  interrupted.
\<close>

definition quiet :: "u32 set \<Rightarrow> kern \<Rightarrow> view \<Rightarrow> bool" where
  "quiet M s v \<longleftrightarrow>
     (if free_list_lock (image s) \<in> M then \<forall>t \<in> set (v_all v). status (tcbs s t) \<noteq> ThreadStatus_Zombie
      else lock_free s (free_list_lock (image s)))"

definition owners_ok :: "kern \<Rightarrow> view \<Rightarrow> block list \<Rightarrow> owners \<Rightarrow> bool" where
  "owners_ok s v g f \<longleftrightarrow> covers (handed_out g) f \<and> (\<forall>p. f p \<noteq> None \<longrightarrow> p \<notin> set (owned_by s (v_all v)))"

definition good :: "u32 set \<Rightarrow> kern \<Rightarrow> view \<Rightarrow> block list \<Rightarrow> (u32 \<Rightarrow> kind) \<Rightarrow> system \<Rightarrow> bool" where
  "good M s v g X x \<longleftrightarrow> kinv s v \<and> heap_ok s v g \<and> quiet M s v \<and>
     owners_ok s v g (owns x) \<and> length (v_all v) < 2147483648 \<and> (\<forall>a. sem_ok s v a) \<and>
     X (idle_thread s) = K_plain \<and>
     (\<forall>t \<in> set (v_all v). t \<noteq> current_thread s \<longrightarrow> snd (contexts x t) = code (X t)) \<and>
     (\<forall>t \<in> set (v_all v). kind_ok M s v X x t) \<and> (\<forall>m \<in> M. mutex_ok s v X (depth x) m)"

definition system_ok :: "u32 set \<Rightarrow> system \<Rightarrow> bool" where
  "system_ok M x \<longleftrightarrow> (\<exists>v g X. case doing x of
       Return _ s \<Rightarrow> good M s v g X x \<and> running s \<and> X (current_thread s) = K_plain
     | Yield s k \<Rightarrow> good M s v g X x \<and> k = code (X (current_thread s))
     | Stop _ \<Rightarrow> False)"

lemma goodD:
  assumes "good M s v g X x"
  shows good_kinv: "kinv s v" and good_heap: "heap_ok s v g" and good_quiet: "quiet M s v"
    and good_owners: "owners_ok s v g (owns x)" and good_len: "length (v_all v) < 2147483648"
    and good_sem: "sem_ok s v a" and good_idle: "X (idle_thread s) = K_plain"
    and good_context: "t \<in> set (v_all v) \<Longrightarrow> t \<noteq> current_thread s \<Longrightarrow> snd (contexts x t) = code (X t)"
    and good_kind: "t \<in> set (v_all v) \<Longrightarrow> kind_ok M s v X x t"
    and good_mutex: "m \<in> M \<Longrightarrow> mutex_ok s v X (depth x) m"
  using assms by (auto simp: good_def)

lemma kind_ok_doing [simp]: "kind_ok M s v X (x\<lparr>doing := d\<rparr>) t = kind_ok M s v X x t"
  by (simp add: kind_ok_def)

lemma good_doing [simp]: "good M s v g X (x\<lparr>doing := d\<rparr>) = good M s v g X x"
  by (simp add: good_def)

lemma heap_ok_cong:
  assumes "heap_ok s v g" "heap s' = heap s" "image s' = image s" "\<And>t. stack_base (tcbs s' t) = stack_base (tcbs s t)"
    "v_all v' = v_all v"
  shows "heap_ok s' v' g"
  using assms owned_by_cong [of s' s] by (simp add: heap_ok_def)

lemma lock_free_cong:
  assumes "lock_free s l" "kinv s v" "kinv s' v'" "mutexes s' l = mutexes s l" "sem_count (sems s' l) = sem_count (sems s l)"
    "v_sem v' l = v_sem v l"
  shows "lock_free s' l"
  using assms root_empty [OF kinv_lists [OF assms(2)], of "P_wait (SemQ l)"]
    root_empty [OF kinv_lists [OF assms(3)], of "P_wait (SemQ l)"] by (simp add: lock_free_def)

lemma good_step:
  assumes g: "good M s v g X x" and k: "kinv s' v'"
    and eqs: "heap s' = heap s" "image s' = image s" "current_thread s' = current_thread s"
      "\<And>t. stack_base (tcbs s' t) = stack_base (tcbs s t)" "v_all v' = v_all v" "contexts x' = contexts x"
    and own: "owns x' = owns x"
    and lock: "free_list_lock (image s) \<notin> M \<Longrightarrow> mutexes s' (free_list_lock (image s)) = mutexes s (free_list_lock (image s))"
      "free_list_lock (image s) \<notin> M \<Longrightarrow>
        sem_count (sems s' (free_list_lock (image s))) = sem_count (sems s (free_list_lock (image s)))"
      "free_list_lock (image s) \<notin> M \<Longrightarrow> v_sem v' (free_list_lock (image s)) = v_sem v (free_list_lock (image s))"
    and alive: "free_list_lock (image s) \<in> M \<Longrightarrow> X' (current_thread s) \<noteq> K_dead"
    and X: "X' (idle_thread s) = K_plain" "\<And>t. t \<noteq> current_thread s \<Longrightarrow> X' t = X t"
    and new: "\<And>a. sem_ok s' v' a" "\<And>t. t \<in> set (v_all v) \<Longrightarrow> kind_ok M s' v' X' x' t"
      "\<And>m. m \<in> M \<Longrightarrow> mutex_ok s' v' X' (depth x') m"
  shows "good M s' v' g X' x'"
proof -
  have "heap_ok s' v' g" by (rule heap_ok_cong [OF good_heap [OF g] eqs(1,2,4,5)])
  moreover have "owners_ok s' v' g (owns x')"
    using good_owners [OF g] owned_by_cong [OF eqs(2,4)] eqs(5) own by (simp add: owners_ok_def)
  moreover have "quiet M s' v'"
  proof (cases "free_list_lock (image s) \<in> M")
    case False
    then have "lock_free s' (free_list_lock (image s))"
      using good_quiet [OF g] by (intro lock_free_cong [OF _ good_kinv [OF g] k lock]) (simp_all add: quiet_def)
    then show ?thesis using False eqs(2) by (simp add: quiet_def)
  next
    case True
    have "X' t \<noteq> K_dead" if t: "t \<in> set (v_all v)" for t
      using good_quiet [OF g] good_kind [OF g t] True t alive [OF True] X(2) [of t]
      by (cases "t = current_thread s") (auto simp: quiet_def kind_ok_def)
    then show ?thesis using True eqs(2,5) new(2) by (simp add: quiet_def kind_ok_def)
  qed
  ultimately show ?thesis
    using k good_len [OF g] good_context [OF g] X new eqs by (simp add: good_def)
qed

lemma good_hw [simp]: "good M (s\<lparr>hw := h\<rparr>) v g X x = good M s v g X x"
proof -
  have "owned_by (s\<lparr>hw := h\<rparr>) = owned_by s" by (rule owned_by_cong) simp_all
  then show ?thesis
    by (simp add: good_def lock_free_def sem_ok_def kind_ok_def mutex_ok_def heap_ok_def owners_ok_def quiet_def)
qed

lemma good_irq_restore [simp]: "good M (irq_restore b s) v g X x = good M s v g X x"
  by (simp add: irq_restore_def)

lemma running_irq_restore [simp]: "running (irq_restore b s) = running s"
  by (simp add: irq_restore_def)

text \<open>The number of waiting threads keeps every count away from the least integer.\<close>

lemma good_level: "good M s v g X x \<Longrightarrow> - 2147483648 < level s a"
proof -
  assume g: "good M s v g X x"
  note ok = kinv_lists [OF good_kinv [OF g]]
  have "length (v_sem v a) = card (set (v_sem v a))" using lists_distinct(2) [OF ok] by (simp add: distinct_card)
  also have "\<dots> \<le> card (set (v_all v))" using lists_member [OF ok] by (intro card_mono) auto
  also have "\<dots> \<le> length (v_all v)" by (rule card_length)
  finally show ?thesis using good_len [OF g] good_sem [OF g, of a] by (simp add: sem_ok_def)
qed

section \<open>How views and kinds change\<close>

lemma awaits_ok_mono: "awaits_ok M k p d \<Longrightarrow> (\<And>m. d m = 0 \<Longrightarrow> d' m = 0) \<Longrightarrow> awaits_ok M k p d'"
  by (cases k) auto

lemma kind_ok_mono:
  assumes "kind_ok M s v X x t" "\<And>w. t \<in> set (v_at v' (P_wait w)) \<Longrightarrow> t \<in> set (v_at v (P_wait w))"
    "status (tcbs s' t) = ThreadStatus_Zombie \<longleftrightarrow> status (tcbs s t) = ThreadStatus_Zombie"
    "X' t = X t" "awaits x' t = awaits x t" "\<And>m. depth x t m = 0 \<Longrightarrow> depth x' t m = 0"
  shows "kind_ok M s' v' X' x' t"
  using assms(1,2) awaits_ok_mono [of M "X t" "awaits x t" "depth x t" "depth x' t"] assms(6)
  unfolding kind_ok_def assms(3-5) by blast

lemma wake_view_wait: "t \<in> set (v_at (wake_view w v) (P_wait w')) \<Longrightarrow> t \<in> set (v_at v (P_wait w'))"
  by (auto simp: wake_view_def split: list.splits if_splits)

lemma wake_view_all [simp]: "v_all (wake_view w v) = v_all v" "v_all (wait_view w t v) = v_all v"
  "v_all (wake_all_view c v) = v_all v"
  by (simp_all add: wake_view_def wait_view_def wake_all_view_def split: list.splits)

lemma wake_view_other: "w' \<noteq> w \<Longrightarrow> v_at (wake_view w v) (P_wait w') = v_at v (P_wait w')"
  by (simp add: wake_view_def split: list.splits)

lemma wait_view_at: "v_at (wait_view w t v) p = (if p = P_wait w then v_at v p @ [t] else v_at v p)"
  by (simp add: wait_view_def)

lemma wake_tcbs_fields [simp]:
  "stack_base (wake_tcbs w v ts t) = stack_base (ts t)"
  by (simp add: wake_tcbs_def wake_tcb_def split: list.splits)

lemma wake_tcbs_zombie:
  assumes "kinv s v"
  shows "status (wake_tcbs w v (tcbs s) t) = ThreadStatus_Zombie \<longleftrightarrow> status (tcbs s t) = ThreadStatus_Zombie"
  using kinv_status [OF assms, of t "P_wait w"] by (auto simp: wake_tcbs_def wake_tcb_def split: list.splits)

lemma heirs_cong: "v_all v' = v_all v \<Longrightarrow> v_sem v' m = v_sem v m \<Longrightarrow>
    (\<And>t. t \<in> set (v_all v) \<Longrightarrow> (\<exists>b. X' t = K_acquire m b) = (\<exists>b. X t = K_acquire m b)) \<Longrightarrow> heirs v' X' m = heirs v X m"
  by (auto simp: heirs_def)

lemma mutex_ok_cong:
  assumes "mutex_ok s v X d m" "mutexes s' m = mutexes s m" "sem_count (sems s' m) = sem_count (sems s m)"
    "heirs v' X' m = heirs v X m" "\<And>t. d' t m = d t m"
  shows "mutex_ok s' v' X' d' m"
  using assms unfolding mutex_ok_def Let_def by simp

lemma sem_ok_cong: "sem_ok s v a \<Longrightarrow> sem_count (sems s' a) = sem_count (sems s a) \<Longrightarrow> v_sem v' a = v_sem v a \<Longrightarrow> sem_ok s' v' a"
  by (simp add: sem_ok_def)

text \<open>A thread that is in the queue of no mutex is in no heir's place.\<close>

lemma not_heir: "X t = K_plain \<Longrightarrow> t \<notin> heirs v X m"
  by (simp add: heirs_def)

end
