(* ===== verification/SystemInv.thy ===== *)
theory SystemInv
  imports ThreadSystem
begin

text \<open>
  Every call and every interrupt keeps the invariant of the concurrent system, one lemma per primitive.
\<close>

section \<open>Preliminaries\<close>

lemma note_return_none [simp]: "awaits x t = None \<Longrightarrow> note_return t x = x"
  by (simp add: note_return_def split: act.splits)

lemma note_return_yield: "note_return t (x\<lparr>doing := Yield s k\<rparr>) = x\<lparr>doing := Yield s k\<rparr>"
  by (simp add: note_return_def)

lemma doing_swap: "x\<lparr>awaits := a, doing := d\<rparr> = x\<lparr>doing := d, awaits := a\<rparr>"
  "x\<lparr>contexts := c, doing := d\<rparr> = x\<lparr>doing := d, contexts := c\<rparr>" for x :: system
  by simp_all

lemma system_ok_return:
  "doing x = Return () s \<Longrightarrow> good M s v g X x \<Longrightarrow> running s \<Longrightarrow> X (current_thread s) = K_plain \<Longrightarrow> system_ok M x"
  by (auto simp: system_ok_def)

lemma system_ok_yield:
  "doing x = Yield s k \<Longrightarrow> good M s v g X x \<Longrightarrow> k = code (X (current_thread s)) \<Longrightarrow> system_ok M x"
  unfolding system_ok_def by (intro exI [of _ v] exI [of _ g] exI [of _ X]) simp

lemma system_ok_doing:
  "good M s v g X x \<Longrightarrow> k = code (X (current_thread s)) \<Longrightarrow> system_ok M (x\<lparr>doing := Yield s k\<rparr>)"
  by (rule system_ok_yield [of _ s k M v g X]) simp_all

text \<open>The current thread between calls.\<close>

definition at_rest :: "u32 set \<Rightarrow> kern \<Rightarrow> view \<Rightarrow> block list \<Rightarrow> (u32 \<Rightarrow> kind) \<Rightarrow> system \<Rightarrow> bool" where
  "at_rest M s v g X x \<longleftrightarrow> good M s v g X x \<and> running s \<and> X (current_thread s) = K_plain"

lemma at_restD:
  assumes "at_rest M s v g X x"
  shows "good M s v g X x" "running s" "X (current_thread s) = K_plain" "kinv s v" "awaits x (current_thread s) = None"
    "current_thread s \<in> set (v_all v)" "current_thread s \<notin> set (v_at v p)"
proof -
  show g: "good M s v g X x" and r: "running s" and p: "X (current_thread s) = K_plain"
    using assms by (simp_all add: at_rest_def)
  show k: "kinv s v" by (rule good_kinv [OF g])
  show c: "current_thread s \<in> set (v_all v)" by (rule kinv_cur [OF k])
  show "awaits x (current_thread s) = None" using good_kind [OF g c] p by (simp add: kind_ok_def)
  show "current_thread s \<notin> set (v_at v p)" by (rule running_unplaced [OF k r])
qed

lemma kind_ok_cur:
  assumes "\<And>w. t \<notin> set (v_at v (P_wait w))" "X t = K_plain" "status (tcbs s t) \<noteq> ThreadStatus_Zombie" "awaits x t = None"
  shows "kind_ok M s v X x t"
  using assms by (simp add: kind_ok_def)

lemma running_set_count [simp]: "running (set_count a n s) = running s"
  by (simp add: running_def)

section \<open>Semaphores\<close>

lemma sys_down:
  assumes r: "at_rest M s v g X x" and al: "allowed M s (Call_down a)"
  shows "system_ok M (x\<lparr>doing := semaphore_down a s\<rparr>)"
proof -
  note g = at_restD(1) [OF r] and run = at_restD(2) [OF r] and k = at_restD(4) [OF r]
  have a: "a \<notin> M" "a \<noteq> free_list_lock (image s)" "current_thread s \<noteq> idle_thread s" using al by simp_all
  show ?thesis
  proof (cases "0 < level s a")
    case True
    let ?s = "set_count a (sem_count (sems s a) - 1) s"
    have "good M ?s v g X x"
    proof (rule good_step [OF g])
      show "sem_ok ?s v b" for b
        using good_sem [OF g, of b] True sint_dec [of "sem_count (sems s a)"] by (auto simp: sem_ok_def)
      show "kind_ok M ?s v X x t" if "t \<in> set (v_all v)" for t
        by (rule kind_ok_mono [OF good_kind [OF g that]]) simp_all
      show "mutex_ok ?s v X (depth x) m" if "m \<in> M" for m
        using that a(1) by (intro mutex_ok_cong [OF good_mutex [OF g that]]) auto
    qed (use k a good_idle [OF g] at_restD(3) [OF r] in auto)
    moreover have "running ?s" using run by (simp add: running_def)
    ultimately show ?thesis
      using semaphore_down_takes [OF k True] at_restD(3) [OF r] by (intro system_ok_return [of _ ?s M v g X]) simp_all
  next
    case False
    let ?c = "current_thread s" and ?b = "interrupt_is_enabled (hw s)"
    let ?X = "X(?c := K_down ?b)" and ?v = "wait_view (SemQ a) ?c v"
    have lev: "level s a \<le> 0" using False by simp
    obtain s' where d: "semaphore_down a s = Yield s' (\<lambda>s1. Return () (irq_restore ?b s1))" "kinv s' ?v" "sem_ok s' ?v a"
      "frame (set_count a (sem_count (sems s a) - 1) (s\<lparr>hw := cli (hw s)\<rparr>)) s'"
      "\<forall>t. t \<noteq> ?c \<longrightarrow> tcbs s' t = tcbs s t" "blocks (tcbs s ?c) (tcbs s' ?c)"
      using semaphore_down_waits [OF k run a(3) good_sem [OF g] lev good_level [OF g]] by blast
    note fr = frameD [OF d(4), simplified]
    have "good M s' ?v g ?X (x\<lparr>doing := semaphore_down a s\<rparr>)"
    proof (rule good_step [OF g d(2)])
      show "stack_base (tcbs s' t) = stack_base (tcbs s t)" for t using d(5,6) by (cases "t = ?c") (auto simp: blocks_def)
      show "sem_ok s' ?v b" for b
        using d(3) fr(4) [of b] good_sem [OF g, of b] by (cases "b = a") (auto simp: sem_ok_def wait_view_at)
      show "kind_ok M s' ?v ?X (x\<lparr>doing := semaphore_down a s\<rparr>) t" if t: "t \<in> set (v_all v)" for t
      proof (cases "t = ?c")
        case True
        then show ?thesis
          using at_restD(5) [OF r] at_restD(7) [OF r] d(6) a(1) by (auto simp: kind_ok_def wait_view_at blocks_def)
      next
        case False
        then show ?thesis
          using d(5) by (intro kind_ok_mono [OF good_kind [OF g t]]) (auto simp: wait_view_at split: if_splits)
      qed
      show "mutex_ok s' ?v ?X (depth (x\<lparr>doing := semaphore_down a s\<rparr>)) m" if m: "m \<in> M" for m
      proof (rule mutex_ok_cong [OF good_mutex [OF g m]])
        show "heirs ?v ?X m = heirs v X m"
          using m a(1) at_restD(3) [OF r] by (intro heirs_cong) (auto simp: wait_view_at)
      qed (use fr m a(1) in auto)
    qed (use fr a good_idle [OF g] in \<open>auto simp: wait_view_at\<close>)
    moreover have "(\<lambda>s1. Return () (irq_restore ?b s1)) = code (?X (current_thread s'))"
      using fr(1) by (intro ext) simp
    ultimately show ?thesis using d(1) by (intro system_ok_yield) simp_all
  qed
qed

lemma sys_up:
  assumes r: "at_rest M s v g X x" and al: "allowed M s (Call_up a)"
  shows "system_ok M (x\<lparr>doing := lift_unit (semaphore_up a s)\<rparr>)"
proof -
  note g = at_restD(1) [OF r] and k = at_restD(4) [OF r]
  have a: "a \<notin> M" "a \<noteq> free_list_lock (image s)" "level s a < 2147483647" using al by simp_all
  have hd: "v_sem v a \<noteq> [] \<Longrightarrow> hd (v_sem v a) \<noteq> current_thread s"
    using at_restD(7) [OF r, of "P_wait (SemQ a)"] hd_in_set [of "v_sem v a"] by fastforce
  let ?v = "wake_view (SemQ a) v"
  obtain s' where u: "semaphore_up a s = Inr s'" "kinv s' ?v" "sem_ok s' ?v a"
    "frame (set_count a (sem_count (sems s a) + 1) s) s'" "tcbs s' = wake_tcbs (SemQ a) v (tcbs s)"
    using semaphore_up_wakes [OF k good_sem [OF g] a(3) hd] by blast
  note fr = frameD [OF u(4), simplified]
  have "good M s' ?v g X x"
  proof (rule good_step [OF g u(2)])
    show "sem_ok s' ?v b" for b
      using u(3) fr(4) [of b] good_sem [OF g, of b] by (cases "b = a") (auto simp: sem_ok_def wake_view_other)
    show "kind_ok M s' ?v X x t" if t: "t \<in> set (v_all v)" for t
      by (rule kind_ok_mono [OF good_kind [OF g t]]) (use wake_view_wait wake_tcbs_zombie [OF k] u(5) in auto)
    show "mutex_ok s' ?v X (depth x) m" if m: "m \<in> M" for m
    proof (rule mutex_ok_cong [OF good_mutex [OF g m]])
      have "m \<noteq> a" using m a(1) by blast
      then show "heirs ?v X m = heirs v X m" by (intro heirs_cong) (simp_all add: wake_view_other)
    qed (use fr m a(1) in auto)
  qed (use fr u(5) a good_idle [OF g] at_restD(3) [OF r] in \<open>auto simp: wake_view_other\<close>)
  moreover have "running s'"
    using u(5) fr(1) at_restD(2) [OF r] hd by (auto simp: running_def wake_tcbs_def split: list.splits)
  ultimately show ?thesis
    using u(1) at_restD(3) [OF r] fr(1) by (intro system_ok_return [of _ s' M ?v g X]) simp_all
qed

section \<open>Mutexes\<close>

lemma mutex_okD:
  assumes "mutex_ok s v X d m"
  shows "level s m \<le> 1" "holder (mutexes s m) = 0 \<Longrightarrow> mutexes s m = free_mutex \<and> d t m = 0"
    "holder (mutexes s m) \<noteq> 0 \<Longrightarrow> d (holder (mutexes s m)) m = unat (recursion_count (mutexes s m)) \<and>
       recursion_count (mutexes s m) \<noteq> 0 \<and> heirs v X m = {} \<and> level s m \<le> 0"
    "t \<noteq> holder (mutexes s m) \<Longrightarrow> d t m = 0"
    "0 < level s m \<Longrightarrow> level s m = 1 \<and> mutexes s m = free_mutex \<and> heirs v X m = {}"
    "heirs v X m \<noteq> {} \<Longrightarrow> mutexes s m = free_mutex \<and> level s m \<le> 0"
  using assms by (auto simp: mutex_ok_def Let_def free_mutex_def split: if_splits intro: mutex.equality)

text \<open>The records after the thread \<open>c\<close> has acquired \<open>m\<close> once more.\<close>

definition note_acquired :: "u32 \<Rightarrow> u32 \<Rightarrow> unit routine \<Rightarrow> system \<Rightarrow> system" where
  "note_acquired c m a x = x\<lparr>doing := a, depth := (depth x)(c := (depth x c)(m := depth x c m + 1)),
     awaits := (awaits x)(c := None)\<rparr>"

lemma note_acquired_simps [simp]:
  "doing (note_acquired c m a x) = a" "contexts (note_acquired c m a x) = contexts x" "owns (note_acquired c m a x) = owns x"
  "awaits (note_acquired c m a x) t = (if t = c then None else awaits x t)"
  "depth (note_acquired c m a x) t m' = (if t = c \<and> m' = m then depth x c m + 1 else depth x t m')"
  "t \<noteq> c \<Longrightarrow> depth (note_acquired c m a x) t = depth x t"
  by (auto simp: note_acquired_def)

lemma good_acquired:
  assumes g: "good M s v g X x" and run: "running s" and m: "m \<in> M" and X: "X' (current_thread s) = K_plain"
      "\<And>t. t \<noteq> current_thread s \<Longrightarrow> X' t = X t"
    and k: "kinv s' v" and eqs: "heap s' = heap s" "image s' = image s" "current_thread s' = current_thread s"
      "\<And>t. stack_base (tcbs s' t) = stack_base (tcbs s t)" "\<And>t. status (tcbs s' t) = status (tcbs s t)"
    and other: "\<And>m'. m' \<noteq> m \<Longrightarrow> mutexes s' m' = mutexes s m' \<and> sem_count (sems s' m') = sem_count (sems s m')"
      "\<And>m'. m' \<noteq> m \<Longrightarrow> m' \<in> M \<Longrightarrow> heirs v X' m' = heirs v X m'"
    and new: "sem_ok s' v m" "mutex_ok s' v X' (depth (note_acquired (current_thread s) m a x)) m"
  shows "good M s' v g X' (note_acquired (current_thread s) m a x)"
proof (rule good_step [OF g k eqs(1-4)])
  let ?c = "current_thread s"
  show "mutexes s' (free_list_lock (image s)) = mutexes s (free_list_lock (image s))"
    "sem_count (sems s' (free_list_lock (image s))) = sem_count (sems s (free_list_lock (image s)))"
    if "free_list_lock (image s) \<notin> M" using m that other(1) by metis+
  show "X' (idle_thread s) = K_plain" using X good_idle [OF g] by (cases "idle_thread s = ?c") simp_all
  show "sem_ok s' v b" for b using new(1) other(1) [of b] good_sem [OF g, of b] by (cases "b = m") (auto simp: sem_ok_def)
  show "mutex_ok s' v X' (depth (note_acquired ?c m a x)) m'" if "m' \<in> M" for m'
  proof (cases "m' = m")
    case False
    then show ?thesis using other that by (intro mutex_ok_cong [OF good_mutex [OF g that]]) auto
  next
    case True
    then show ?thesis using new(2) by (simp only:)
  qed
  show "kind_ok M s' v X' (note_acquired ?c m a x) t" if t: "t \<in> set (v_all v)" for t
  proof (cases "t = ?c")
    case True
    then show ?thesis using running_unplaced [OF good_kinv [OF g] run] X(1) eqs(5) run
      by (intro kind_ok_cur) (auto simp: running_def)
  next
    case False
    then show ?thesis using X(2) eqs(5) by (intro kind_ok_mono [OF good_kind [OF g t]]) auto
  qed
qed (use X in auto)

text \<open>The acquisition of \<open>m\<close> by the current thread, from a call or from the end of \<^verbatim>\<open>condvar_wait\<close>.\<close>

lemma note_return_acquired:
  "awaits x c = Some m \<Longrightarrow> note_return c (x\<lparr>doing := Return () s\<rparr>) = note_acquired c m (Return () s) x"
  by (simp add: note_return_def note_acquired_def)

lemma note_acquired_awaits [simp]: "note_acquired c m a (x\<lparr>awaits := (awaits x)(c := p)\<rparr>) = note_acquired c m a x"
  by (simp add: note_acquired_def)

lemma acquire_again_ok:
  assumes g: "good M s v g X x" and run: "running s" and m: "m \<in> M" and X: "\<And>m b. X (current_thread s) \<noteq> K_acquire m b"
    and own: "holder (mutexes s m) = current_thread s" "recursion_count (mutexes s m) \<noteq> 0xFFFFFFFF"
  shows "system_ok M (note_return (current_thread s)
     (x\<lparr>awaits := (awaits x)(current_thread s := Some m), doing := mutex_acquire m s\<rparr>))"
proof -
  let ?c = "current_thread s" and ?s = "upd_mutex m (\<lambda>c. c\<lparr>recursion_count := recursion_count c + 1\<rparr>) s"
  let ?X = "X(current_thread s := K_plain)"
  note k = good_kinv [OF g]
  note mo = mutex_okD [OF good_mutex [OF g m]]
  have h: "?c \<noteq> 0" by (rule kinv_cur_nonnull [OF k])
  have heirs: "heirs v ?X m' = heirs v X m'" for m' using X by (intro heirs_cong) auto
  have inc: "unat (recursion_count (mutexes s m) + 1) = unat (recursion_count (mutexes s m)) + 1"
  proof -
    have "(- 1 :: u32) = 0xFFFFFFFF" by simp
    then have "1 + recursion_count (mutexes s m) \<noteq> 0" using own(2) by (metis add_eq_0_iff)
    then show ?thesis by (simp add: unatSuc add.commute)
  qed
  have "good M ?s v g ?X (note_acquired ?c m (Return () ?s) x)"
  proof (rule good_acquired [OF g run m])
    show "sem_ok ?s v m" using good_sem [OF g, of m] by (simp add: sem_ok_def)
    show "mutex_ok ?s v ?X (depth (note_acquired ?c m (Return () ?s) x)) m"
      using mo(3) mo(4) own h inc heirs unfolding mutex_ok_def by (auto simp: unat_eq_zero)
  qed (use k heirs in auto)
  then show ?thesis
    using mutex_acquire_again [OF k own(1)] run
    by (intro system_ok_return [of _ ?s M v g ?X]) (simp_all add: note_return_acquired)
qed

lemma acquire_free_ok:
  assumes g: "good M s v g X x" and run: "running s" and m: "m \<in> M" and X: "\<And>m b. X (current_thread s) \<noteq> K_acquire m b"
    and lev: "0 < level s m"
  shows "system_ok M (note_return (current_thread s)
     (x\<lparr>awaits := (awaits x)(current_thread s := Some m), doing := mutex_acquire m s\<rparr>))"
proof -
  let ?c = "current_thread s" and ?X = "X(current_thread s := K_plain)"
  let ?s = "upd_mutex m (\<lambda>_. \<lparr>holder = ?c, recursion_count = 1\<rparr>)
     (set_count m (sem_count (sems s m) - 1) (set_blocker ?c m BlockerType_Mutex s))"
  note k = good_kinv [OF g]
  note mo = mutex_okD [OF good_mutex [OF g m]]
  have h: "?c \<noteq> 0" by (rule kinv_cur_nonnull [OF k])
  have fr: "holder (mutexes s m) = 0" "level s m = 1" "heirs v X m = {}" using mo(5) lev by (auto simp: free_mutex_def)
  have lev': "level ?s m = 0" using sint_dec [of "sem_count (sems s m)"] fr(2) by simp
  have heirs: "heirs v ?X m' = heirs v X m'" for m' using X by (intro heirs_cong) auto
  have d: "depth x t m = 0" for t using mo(2) fr(1) by simp
  have "good M ?s v g ?X (note_acquired ?c m (Return () ?s) x)"
  proof (rule good_acquired [OF g run m])
    show "sem_ok ?s v m" using good_sem [OF g, of m] lev' fr(2) by (simp add: sem_ok_def)
    show "mutex_ok ?s v ?X (depth (note_acquired ?c m (Return () ?s) x)) m"
      using h heirs lev' fr(3) d unfolding mutex_ok_def by simp
    show "stack_base (tcbs ?s t) = stack_base (tcbs s t)" for t by (simp add: set_blocker_def upd_tcb_def)
  qed (use k heirs in auto)
  then show ?thesis
    using mutex_acquire_free [OF k _ lev] fr(1) h run
    by (intro system_ok_return [of _ ?s M v g ?X]) (simp_all add: note_return_acquired)
qed

lemma acquire_waits_ok:
  assumes g: "good M s v g X x" and run: "running s" and m: "m \<in> M" and X: "\<And>m b. X (current_thread s) \<noteq> K_acquire m b"
    and lev: "level s m \<le> 0" and other: "holder (mutexes s m) \<noteq> current_thread s"
    and nidle: "current_thread s \<noteq> idle_thread s"
  shows "system_ok M (note_return (current_thread s)
     (x\<lparr>awaits := (awaits x)(current_thread s := Some m), doing := mutex_acquire m s\<rparr>))"
proof -
  let ?c = "current_thread s" and ?b = "interrupt_is_enabled (hw s)"
  let ?X = "X(?c := K_acquire m ?b)" and ?v = "wait_view (SemQ m) ?c v"
    and ?x = "x\<lparr>awaits := (awaits x)(?c := Some m)\<rparr>"
  note k = good_kinv [OF g]
  obtain s' where d: "mutex_acquire m s = Yield s' (\<lambda>s1. Return () (finish_acquire m ?b s1))" "kinv s' ?v" "sem_ok s' ?v m"
    "frame (set_count m (sem_count (sems s m) - 1) (s\<lparr>hw := cli (hw s)\<rparr>)) s'"
    "\<forall>t. t \<noteq> ?c \<longrightarrow> tcbs s' t = tcbs s t" "blocks (tcbs s ?c) (tcbs s' ?c)"
    using mutex_acquire_waits [OF k run nidle good_sem [OF g] lev good_level [OF g] other] by blast
  note fr = frameD [OF d(4), simplified]
  have "good M s' ?v g ?X ?x"
  proof (rule good_step [OF g d(2)])
    show "stack_base (tcbs s' t) = stack_base (tcbs s t)" for t using d(5,6) by (cases "t = ?c") (auto simp: blocks_def)
    show "sem_ok s' ?v b" for b
      using d(3) fr(4) [of b] good_sem [OF g, of b] by (cases "b = m") (auto simp: sem_ok_def wait_view_at)
    show "kind_ok M s' ?v ?X ?x t" if t: "t \<in> set (v_all v)" for t
    proof (cases "t = ?c")
      case True
      then show ?thesis
        using running_unplaced [OF k run] d(6) m by (auto simp: kind_ok_def wait_view_at blocks_def)
    next
      case False
      then show ?thesis
        using d(5) by (intro kind_ok_mono [OF good_kind [OF g t]]) (auto simp: wait_view_at split: if_splits)
    qed
    show "mutex_ok s' ?v ?X (depth ?x) m'" if m': "m' \<in> M" for m'
    proof (cases "m' = m")
      case False
      then have "heirs ?v ?X m' = heirs v X m'" using X by (intro heirs_cong) (auto simp: wait_view_at)
      then show ?thesis using False fr by (intro mutex_ok_cong [OF good_mutex [OF g m']]) auto
    next
      case True
      have "heirs ?v ?X m = heirs v X m" using X by (auto simp: heirs_def wait_view_at)
      moreover have "level s' m = level s m - 1"
        using sint_dec [OF good_level [OF g, of m]] fr(4) [of m] by simp
      ultimately show ?thesis
        using True good_mutex [OF g m] lev fr(3) unfolding mutex_ok_def Let_def by auto
    qed
  qed (use fr nidle m good_idle [OF g] in \<open>auto simp: wait_view_at\<close>)
  moreover have "(\<lambda>s1. Return () (finish_acquire m ?b s1)) = code (?X (current_thread s'))"
    using fr(1) by (intro ext) simp
  ultimately show ?thesis using d(1)
    by (intro system_ok_yield [of _ s' "\<lambda>s1. Return () (finish_acquire m ?b s1)" M ?v g ?X]) (simp_all add: note_return_def)
qed

lemma sys_acquire:
  assumes g: "good M s v g X x" and run: "running s" and m: "m \<in> M" and X: "\<And>m b. X (current_thread s) \<noteq> K_acquire m b"
    and nidle: "current_thread s \<noteq> idle_thread s"
    and lim: "holder (mutexes s m) = current_thread s \<Longrightarrow> recursion_count (mutexes s m) \<noteq> 0xFFFFFFFF"
  shows "system_ok M (note_return (current_thread s)
     (x\<lparr>awaits := (awaits x)(current_thread s := Some m), doing := mutex_acquire m s\<rparr>))"
proof (cases "holder (mutexes s m) = current_thread s")
  case True
  then show ?thesis using lim by (intro acquire_again_ok [OF g run m X])
next
  case False
  then show ?thesis
    using acquire_free_ok [OF g run m X] acquire_waits_ok [OF g run m X _ False nidle] by (cases "0 < level s m") auto
qed

text \<open>
  The mutex is handed over: its holder is gone, and either the count is one again or the first waiting
  thread is now its only heir.
\<close>

lemma mutex_ok_released:
  assumes g: "good M s v g X x" and m: "m \<in> M" and own: "holder (mutexes s m) \<noteq> 0"
    and s': "mutexes s' m = free_mutex" "sem_count (sems s' m) = sem_count (sems s m) + 1"
    and v': "v_all v' = v_all v" "v_sem v' m = tl (v_sem v m)"
    and X': "\<And>t. t \<in> set (v_all v) \<Longrightarrow> (\<exists>b. X' t = K_acquire m b) = (\<exists>b. X t = K_acquire m b)"
    and d': "\<And>t. d' t m = 0"
  shows "mutex_ok s' v' X' d' m"
proof -
  note ok = kinv_lists [OF good_kinv [OF g]]
  have mo: "heirs v X m = {}" "level s m \<le> 0" using mutex_okD(3) [OF good_mutex [OF g m] own] by simp_all
  have lev: "level s' m = level s m + 1" using s'(2) mo(2) sint_inc [of "sem_count (sems s m)"] by simp
  have heirs: "heirs v' X' m = set (take 1 (v_sem v m))"
  proof (cases "v_sem v m")
    case Nil
    then show ?thesis using mo(1) v' X' by (auto simp: heirs_def)
  next
    case (Cons t xs)
    have ta: "t \<in> set (v_all v)" using lists_member [OF ok, of t "P_wait (SemQ m)"] Cons by simp
    have "\<exists>b. X t = K_acquire m b" using good_kind [OF g ta] Cons m unfolding kind_ok_def by (metis list.set_intros(1))
    moreover have "t \<notin> set xs" using lists_distinct(2) [OF ok, of "P_wait (SemQ m)"] Cons by simp
    ultimately show ?thesis using mo(1) v' X' ta Cons by (auto simp: heirs_def)
  qed
  have "v_sem v m = [] \<longleftrightarrow> level s m = 0" using sem_ok_empty [OF good_sem [OF g], of m] mo(2) by auto
  then show ?thesis
    using heirs lev mo(2) s'(1) d' by (cases "v_sem v m") (auto simp: mutex_ok_def free_mutex_def)
qed

lemma wake_view_sem: "v_sem (wake_view (SemQ a) v) a = tl (v_sem v a)"
  by (simp add: wake_view_def split: list.splits)

lemma release_last_ok:
  assumes r: "at_rest M s v g X x" and m: "m \<in> M" and own: "mutexes s m = \<lparr>holder = current_thread s, recursion_count = 1\<rparr>"
    and d: "\<And>t. d t m = 0" "\<And>t m'. m' \<noteq> m \<Longrightarrow> d t m' = depth x t m'"
  shows "system_ok M (x\<lparr>depth := d, doing := lift_unit (mutex_release m s)\<rparr>)"
proof -
  note g = at_restD(1) [OF r] and k = at_restD(4) [OF r]
  let ?v = "wake_view (SemQ m) v" and ?x = "x\<lparr>depth := d\<rparr>"
  have h: "holder (mutexes s m) \<noteq> 0" using own kinv_cur_nonnull [OF k] by simp
  have lev: "level s m < 2147483647" using mutex_okD(3) [OF good_mutex [OF g m] h] by simp
  have hd: "v_sem v m \<noteq> [] \<Longrightarrow> hd (v_sem v m) \<noteq> current_thread s"
    using at_restD(7) [OF r, of "P_wait (SemQ m)"] hd_in_set [of "v_sem v m"] by fastforce
  obtain s' where u: "mutex_release m s = Inr s'" "kinv s' ?v" "sem_ok s' ?v m"
    "frame (set_count m (sem_count (sems s m) + 1) (upd_mutex m (\<lambda>_. free_mutex) s)) s'"
    "tcbs s' = wake_tcbs (SemQ m) v (tcbs s)"
    using mutex_release_last [OF k own good_sem [OF g] lev hd] by blast
  note fr = frameD [OF u(4), simplified]
  have "good M s' ?v g X ?x"
  proof (rule good_step [OF g u(2)])
    show "sem_ok s' ?v b" for b
      using u(3) fr(4) [of b] good_sem [OF g, of b] by (cases "b = m") (auto simp: sem_ok_def wake_view_other)
    show "kind_ok M s' ?v X ?x t" if t: "t \<in> set (v_all v)" for t
      by (rule kind_ok_mono [OF good_kind [OF g t]]) (use wake_view_wait wake_tcbs_zombie [OF k] u(5) d in \<open>auto, metis\<close>)
    show "mutex_ok s' ?v X (depth ?x) m'" if m': "m' \<in> M" for m'
    proof (cases "m' = m")
      case False
      then have "heirs ?v X m' = heirs v X m'" by (intro heirs_cong) (simp_all add: wake_view_other)
      then show ?thesis using False fr d(2) by (intro mutex_ok_cong [OF good_mutex [OF g m']]) auto
    next
      case True
      then show ?thesis using mutex_ok_released [OF g m h, of s' ?v X d] fr d wake_view_sem by simp
    qed
    show "v_sem ?v (free_list_lock (image s)) = v_sem v (free_list_lock (image s))" if "free_list_lock (image s) \<notin> M"
      using that m by (intro wake_view_other) auto
  qed (use fr u(5) m good_idle [OF g] at_restD(3) [OF r] in auto)
  moreover have "running s'"
    using u(5) fr(1) at_restD(2) [OF r] hd by (auto simp: running_def wake_tcbs_def split: list.splits)
  ultimately show ?thesis
    using u(1) at_restD(3) [OF r] fr(1) by (intro system_ok_return [of _ s' M ?v g X]) simp_all
qed

lemma release_nested_ok:
  assumes r: "at_rest M s v g X x" and m: "m \<in> M" and own: "holder (mutexes s m) = current_thread s"
    and nested: "1 < recursion_count (mutexes s m)"
    and d: "d (current_thread s) m = depth x (current_thread s) m - 1" "\<And>t m'. t \<noteq> current_thread s \<or> m' \<noteq> m \<Longrightarrow> d t m' = depth x t m'"
  shows "system_ok M (x\<lparr>depth := d, doing := lift_unit (mutex_release m s)\<rparr>)"
proof -
  let ?c = "current_thread s" and ?s = "upd_mutex m (\<lambda>c. c\<lparr>recursion_count := recursion_count c - 1\<rparr>) s"
    and ?x = "x\<lparr>depth := d\<rparr>"
  note g = at_restD(1) [OF r] and k = at_restD(4) [OF r]
  have h: "holder (mutexes s m) \<noteq> 0" using own kinv_cur_nonnull [OF k] by simp
  note mo = mutex_okD(3) [OF good_mutex [OF g m] h] mutex_okD(4) [OF good_mutex [OF g m]]
  let ?r = "recursion_count (mutexes s m)"
  have dec: "unat (?r - 1) = unat ?r - 1" "?r - 1 \<noteq> 0"
    using nested by (auto simp: unat_sub word_le_nat_alt word_less_nat_alt)
  have "good M ?s v g X ?x"
  proof (rule good_step [OF g])
    show "sem_ok ?s v b" for b using good_sem [OF g, of b] by (simp add: sem_ok_def)
    show "kind_ok M ?s v X ?x t" if t: "t \<in> set (v_all v)" for t
      by (rule kind_ok_mono [OF good_kind [OF g t]]) (use d in \<open>auto, metis diff_0_eq_0\<close>)
    show "mutex_ok ?s v X (depth ?x) m'" if m': "m' \<in> M" for m'
    proof (cases "m' = m")
      case False
      then show ?thesis using d(2) by (intro mutex_ok_cong [OF good_mutex [OF g m']]) auto
    next
      case True
      then show ?thesis
        using mo own h d dec unfolding mutex_ok_def Let_def by auto
    qed
  qed (use k m good_idle [OF g] at_restD(3) [OF r] in auto)
  then show ?thesis
    using mutex_release_nested [OF k own nested] at_restD(2,3) [OF r] by (intro system_ok_return [of _ ?s M v g X]) simp_all
qed

lemma sys_release:
  assumes r: "at_rest M s v g X x" and al: "allowed M s (Call_release m)"
  shows "system_ok M (note_call (current_thread s) (Call_release m) (x\<lparr>doing := lift_unit (mutex_release m s)\<rparr>))"
proof -
  let ?c = "current_thread s" and ?d = "(depth x)(current_thread s := (depth x (current_thread s))(m := depth x (current_thread s) m - 1))"
  note g = at_restD(1) [OF r] and k = at_restD(4) [OF r]
  have m: "m \<in> M" and own: "holder (mutexes s m) = ?c" using al by simp_all
  have h: "holder (mutexes s m) \<noteq> 0" using own kinv_cur_nonnull [OF k] by simp
  note mo = mutex_okD(3) [OF good_mutex [OF g m] h] mutex_okD(4) [OF good_mutex [OF g m]]
  have eq: "note_call ?c (Call_release m) (x\<lparr>doing := lift_unit (mutex_release m s)\<rparr>) =
    x\<lparr>depth := ?d, doing := lift_unit (mutex_release m s)\<rparr>" by simp
  show ?thesis
  proof (cases "recursion_count (mutexes s m) = 1")
    case True
    then have "mutexes s m = \<lparr>holder = ?c, recursion_count = 1\<rparr>" using own by (intro mutex.equality) simp_all
    then show ?thesis unfolding eq using mo own by (intro release_last_ok [OF r m]) auto
  next
    case False
    then have "1 < recursion_count (mutexes s m)" using mo(1) by (metis word_greater_zero_iff word_gt_0_no word_le_less_eq inc_le add_0)
    then show ?thesis unfolding eq by (intro release_nested_ok [OF r m own]) auto
  qed
qed

section \<open>Condition variables\<close>

lemma note_call_doing: "note_call t c (x\<lparr>doing := a\<rparr>) = (note_call t c x)\<lparr>doing := a\<rparr>"
  by (cases c) simp_all

lemma sys_wait:
  assumes r: "at_rest M s v g X x" and al: "allowed M s (Call_wait c m)"
  shows "system_ok M (note_return (current_thread s) (note_call (current_thread s) (Call_wait c m) (x\<lparr>doing := condvar_wait c m s\<rparr>)))"
proof -
  let ?c = "current_thread s" and ?b = "interrupt_is_enabled (hw s)"
  let ?X = "X(?c := K_wait m ?b)" and ?v = "wake_view (SemQ m) (wait_view (CondQ c) ?c v)"
    and ?x = "note_call ?c (Call_wait c m) x"
  note g = at_restD(1) [OF r] and run = at_restD(2) [OF r] and k = at_restD(4) [OF r]
  have m: "m \<in> M" and nidle: "?c \<noteq> idle_thread s" and own: "mutexes s m = \<lparr>holder = ?c, recursion_count = 1\<rparr>"
    using al by simp_all
  have h: "holder (mutexes s m) \<noteq> 0" using own kinv_cur_nonnull [OF k] by simp
  note mo = mutex_okD(3) [OF good_mutex [OF g m] h] mutex_okD(4) [OF good_mutex [OF g m]]
  have lev: "level s m < 2147483647" using mo(1) by simp
  obtain s' where d: "condvar_wait c m s = Yield s' (\<lambda>s1. mutex_acquire m (irq_restore ?b s1))" "kinv s' ?v" "sem_ok s' ?v m"
    "frame (set_count m (sem_count (sems s m) + 1) (upd_mutex m (\<lambda>_. free_mutex) (s\<lparr>hw := cli (hw s)\<rparr>))) s'"
    "\<forall>t. t \<noteq> ?c \<longrightarrow> tcbs s' t = wake_tcbs (SemQ m) v (tcbs s) t" "blocks (tcbs s ?c) (tcbs s' ?c)"
    using condvar_wait_waits [OF k run nidle own good_sem [OF g] lev] by blast
  note fr = frameD [OF d(4), simplified]
  have dep: "depth ?x t m' = (if m' = m then 0 else depth x t m')" for t m' using mo own by auto
  have cur: "?c \<notin> set (v_at v p)" for p by (rule at_restD(7) [OF r])
  have sem: "v_sem ?v a = (if a = m then tl (v_sem v a) else v_sem v a)" for a
    by (simp add: wake_view_sem wake_view_other wait_view_at)
  have wait: "t \<in> set (v_at ?v (P_wait w)) \<Longrightarrow> t \<in> set (v_at v (P_wait w)) \<or> t = ?c \<and> w = CondQ c" for t w
    using wake_view_wait [of t "SemQ m" "wait_view (CondQ c) ?c v" w] by (auto simp: wait_view_at split: if_splits)
  have "good M s' ?v g ?X ?x"
  proof (rule good_step [OF g d(2)])
    show "stack_base (tcbs s' t) = stack_base (tcbs s t)" for t using d(5,6) by (cases "t = ?c") (auto simp: blocks_def)
    show "sem_ok s' ?v b" for b
      using d(3) fr(4) [of b] good_sem [OF g, of b] sem [of b] by (cases "b = m") (auto simp: sem_ok_def)
    show "kind_ok M s' ?v ?X ?x t" if t: "t \<in> set (v_all v)" for t
    proof (cases "t = ?c")
      case True
      have "w = CondQ c" if "?c \<in> set (v_at ?v (P_wait w))" for w using wait [OF that] cur by blast
      then show ?thesis using True d(6) m dep [of ?c m] by (auto simp: kind_ok_def blocks_def)
    next
      case False
      have "status (tcbs s' t) = ThreadStatus_Zombie \<longleftrightarrow> status (tcbs s t) = ThreadStatus_Zombie"
        using d(5) wake_tcbs_zombie [OF k] False by simp
      then show ?thesis
        using False wait dep by (intro kind_ok_mono [OF good_kind [OF g t]]) auto
    qed
    show "mutex_ok s' ?v ?X (depth ?x) m'" if m': "m' \<in> M" for m'
    proof (cases "m' = m")
      case False
      then have "heirs ?v ?X m' = heirs v X m'" using at_restD(3) [OF r] by (intro heirs_cong) (auto simp: sem)
      then show ?thesis using False fr dep by (intro mutex_ok_cong [OF good_mutex [OF g m']]) auto
    next
      case True
      have "mutex_ok s' ?v ?X (depth ?x) m"
        using fr dep sem at_restD(3) [OF r] by (intro mutex_ok_released [OF g m h]) auto
      then show ?thesis using True by simp
    qed
  qed (use fr nidle sem m good_idle [OF g] in auto)
  moreover have "(\<lambda>s1. mutex_acquire m (irq_restore ?b s1)) = code (?X (current_thread s'))"
    using fr(1) by (intro ext) simp
  ultimately show ?thesis unfolding note_call_doing d(1) note_return_yield
    by (rule system_ok_doing)
qed

text \<open>Waking threads that wait for no mutex.\<close>

lemma sys_woken:
  assumes r: "at_rest M s v g X x" and k': "kinv s' v'" and fr: "frame s s'"
    and v': "v_all v' = v_all v" "\<And>a. v_sem v' a = v_sem v a"
      "\<And>t w. t \<in> set (v_at v' (P_wait w)) \<Longrightarrow> t \<in> set (v_at v (P_wait w))"
    and tc: "\<And>t. stack_base (tcbs s' t) = stack_base (tcbs s t)"
      "\<And>t. status (tcbs s' t) = ThreadStatus_Zombie \<longleftrightarrow> status (tcbs s t) = ThreadStatus_Zombie" "running s'"
  shows "system_ok M (x\<lparr>doing := Return () s'\<rparr>)"
proof -
  note g = at_restD(1) [OF r] and fr' = frameD [OF fr]
  have "good M s' v' g X x"
  proof (rule good_step [OF g k'])
    show "sem_ok s' v' b" for b by (rule sem_ok_cong [OF good_sem [OF g]]) (simp_all add: fr' v')
    show "kind_ok M s' v' X x t" if t: "t \<in> set (v_all v)" for t
      by (rule kind_ok_mono [OF good_kind [OF g t]]) (use v' tc in auto)
    show "mutex_ok s' v' X (depth x) m" if m: "m \<in> M" for m
      using heirs_cong [of v' v m X X] v' fr' by (intro mutex_ok_cong [OF good_mutex [OF g m]]) auto
  qed (use v' tc fr' good_idle [OF g] at_restD(3) [OF r] in auto)
  then show ?thesis using tc(3) at_restD(3) [OF r] fr' by (intro system_ok_return [of _ s' M v' g X]) simp_all
qed

lemma sys_signal:
  assumes r: "at_rest M s v g X x"
  shows "system_ok M (x\<lparr>doing := lift_unit (condvar_signal c s)\<rparr>)"
proof -
  note k = at_restD(4) [OF r] and run = at_restD(2) [OF r]
  obtain s' where u: "condvar_signal c s = Inr s'" "kinv s' (wake_view (CondQ c) v)" "frame s s'"
    "tcbs s' = wake_tcbs (CondQ c) v (tcbs s)" using condvar_signal_wakes [OF k run] by blast
  have "current_thread s \<notin> set (v_cond v c)" by (rule at_restD(7) [OF r])
  then have "running s'"
    using u(3,4) run by (auto simp: running_def wake_tcbs_def frame_def split: list.splits)
  then have "system_ok M (x\<lparr>doing := Return () s'\<rparr>)"
    using u(4) wake_tcbs_zombie [OF k] wake_view_wait
    by (intro sys_woken [OF r u(2,3)]) (auto simp: wake_view_other)
  then show ?thesis using u(1) by simp
qed

lemma sys_broadcast:
  assumes r: "at_rest M s v g X x"
  shows "system_ok M (x\<lparr>doing := lift_unit (condvar_broadcast c s)\<rparr>)"
proof -
  note k = at_restD(4) [OF r] and run = at_restD(2) [OF r]
  obtain s' where u: "condvar_broadcast c s = Inr s'" "kinv s' (wake_all_view c v)" "frame s s'"
    "\<forall>t. tcbs s' t = (if t \<in> set (v_cond v c) then wake_tcb (tcbs s t) else tcbs s t)"
    using condvar_broadcast_wakes [OF k run] by blast
  have z: "status (tcbs s t) = ThreadStatus_Blocked" if "t \<in> set (v_cond v c)" for t
    using kinv_status [OF k that] by simp
  have "current_thread s \<notin> set (v_cond v c)" by (rule at_restD(7) [OF r])
  then have "running s'" using u(3,4) run by (simp add: running_def frame_def)
  then have "system_ok M (x\<lparr>doing := Return () s'\<rparr>)"
    using u(4) z
    by (intro sys_woken [OF r u(2,3)]) (auto simp: wake_all_view_def wake_tcb_def split: if_splits)
  then show ?thesis using u(1) by simp
qed

section \<open>Giving up the processor\<close>

lemma sys_yield:
  assumes r: "at_rest M s v g X x"
  shows "system_ok M (x\<lparr>doing := thread_yield s\<rparr>)"
proof -
  have "Return () = code (X (current_thread s))" using at_restD(3) [OF r] by (intro ext) simp
  then show ?thesis
    using at_restD(1) [OF r] unfolding thread_yield_def by (intro system_ok_yield [of _ s "Return ()" M v g X]) simp_all
qed

text \<open>The status the current thread takes for its next place.\<close>

lemma kinv_retire:
  assumes k: "kinv s v" and run: "running s" and nidle: "current_thread s \<noteq> idle_thread s"
    and ok: "lists_ok s' v" and same: "current_thread s' = current_thread s" "image s' = image s"
    and st: "status (tcbs s' (current_thread s)) \<in> {ThreadStatus_Sleeping, ThreadStatus_Zombie}"
      "\<And>t. t \<noteq> current_thread s \<Longrightarrow> status (tcbs s' t) = status (tcbs s t)"
  shows "kinv s' v"
proof -
  have un: "current_thread s \<notin> set (v_at v p)" for p by (rule running_unplaced [OF k run])
  have "status (tcbs s' t) = place_status p" if "t \<in> set (v_at v p)" for t p
    using kinv_status [OF k that] st(2) [of t] un that by (cases "t = current_thread s") auto
  then show ?thesis
    unfolding kinv_def same
    using ok kinv_cur [OF k] kinv_idle [OF k] kinv_placed [OF k] un st nidle kinv_idle_status [OF k] by auto
qed

lemma sys_retire:
  assumes r: "at_rest M s v g X x" and nidle: "current_thread s \<noteq> idle_thread s" and k': "kinv s' v"
    and fr: "frame (s\<lparr>hw := hw s'\<rparr>) s'" and st: "\<And>t. stack_base (tcbs s' t) = stack_base (tcbs s t)"
      "\<And>t. t \<noteq> current_thread s \<Longrightarrow> status (tcbs s' t) = status (tcbs s t)"
    and K: "K = K_plain \<and> status (tcbs s' (current_thread s)) \<noteq> ThreadStatus_Zombie \<or>
      K = K_dead \<and> status (tcbs s' (current_thread s)) = ThreadStatus_Zombie \<and> free_list_lock (image s) \<notin> M"
  shows "system_ok M (x\<lparr>doing := Yield s' (code K)\<rparr>)"
proof -
  note g = at_restD(1) [OF r] and fr' = frameD [OF fr, simplified]
  let ?c = "current_thread s" and ?X = "X(current_thread s := K)"
  have "good M s' v g ?X x"
  proof (rule good_step [OF g k'])
    show "sem_ok s' v b" for b by (rule sem_ok_cong [OF good_sem [OF g]]) (simp_all add: fr')
    show "kind_ok M s' v ?X x t" if t: "t \<in> set (v_all v)" for t
    proof (cases "t = ?c")
      case True
      then show ?thesis using at_restD(5,7) [OF r] K by (auto simp: kind_ok_def)
    next
      case False
      then show ?thesis using st by (intro kind_ok_mono [OF good_kind [OF g t]]) auto
    qed
    show "mutex_ok s' v ?X (depth x) m" if m: "m \<in> M" for m
      using heirs_cong [of v v m ?X X] fr' K at_restD(3) [OF r]
      by (intro mutex_ok_cong [OF good_mutex [OF g m]]) auto
  qed (use st fr' nidle good_idle [OF g] K in auto)
  then show ?thesis using fr' by (intro system_ok_yield [of _ s' "code K" M v g ?X]) simp_all
qed

lemma sys_sleep:
  assumes r: "at_rest M s v g X x" and al: "allowed M s (Call_sleep ticks)"
  shows "system_ok M (x\<lparr>doing := go_to_sleep ticks s\<rparr>)"
proof -
  let ?s = "set_status (current_thread s) ThreadStatus_Sleeping
     (upd_tcb (current_thread s) (\<lambda>c. c\<lparr>wakeup_ticks := timer_ticks s + ticks\<rparr>) s)"
  have nidle: "current_thread s \<noteq> idle_thread s" using al by simp
  have "lists_ok ?s v" using kinv_lists [OF at_restD(4) [OF r]] by simp
  then have "kinv ?s v"
    by (rule kinv_retire [OF at_restD(4,2) [OF r] nidle]) (simp_all add: set_status_def upd_tcb_def)
  then have "system_ok M (x\<lparr>doing := Yield ?s (code K_plain)\<rparr>)"
    by (rule sys_retire [OF r nidle]) (simp_all add: set_status_def upd_tcb_def frame_def)
  moreover have "code K_plain = (\<lambda>s'. Return () s')" by (intro ext) simp
  ultimately show ?thesis by (simp add: go_to_sleep_def thread_yield_def)
qed

lemma sys_exit:
  assumes r: "at_rest M s v g X x" and al: "allowed M s Call_exit"
  shows "system_ok M (x\<lparr>doing := thread_exit s\<rparr>)"
proof -
  let ?s0 = "say ''Thread %u exiting\<newline>'' [Val (tid (tcbs s (current_thread s)))] (s\<lparr>hw := cli (hw s)\<rparr>)"
  let ?s = "set_status (current_thread s) ThreadStatus_Zombie ?s0"
  have nidle: "current_thread s \<noteq> idle_thread s" using al by simp
  have "lists_ok ?s v" using kinv_lists [OF at_restD(4) [OF r]] by simp
  then have "kinv ?s v"
    by (rule kinv_retire [OF at_restD(4,2) [OF r] nidle]) (simp_all add: set_status_def upd_tcb_def say_def)
  then have "system_ok M (x\<lparr>doing := Yield ?s (code K_dead)\<rparr>)"
    using al by (intro sys_retire [OF r nidle]) (simp_all add: set_status_def upd_tcb_def frame_def say_def)
  moreover have "code K_dead = (\<lambda>s'. Stop Diverge)" by (intro ext) simp
  ultimately show ?thesis using nidle by (simp add: thread_exit_def thread_yield_def irq_off_eq)
qed

section \<open>Using the heap\<close>

text \<open>The bytes a thread owns, and the heap calls of the other threads.\<close>

lemma owned_handed_out: "heap_ok s v g \<Longrightarrow> p \<in> set (owned_by s (v_all v)) \<Longrightarrow> \<exists>n. (unat p, n) \<in> handed_out g"
  by (auto simp: heap_ok_def)

lemma good_heap_step:
  assumes g: "good M s v g X x" and al: "heap_allowed s (owns x) op"
  shows "\<exists>p h g'. heap_call op (heap s) = Inr (p, h) \<and>
     shared_step (owns x) op g g' (mem (heap s)) (mem h) (new_owners (current_thread s) op p (owns x)) \<and>
     good M (s\<lparr>heap := h\<rparr>) v g' X (heap_step op s x)"
proof -
  let ?c = "current_thread s" and ?f = "owns x"
  have hp: "heap_inv (heap s) g" "distinct (owned_by s (v_all v))" using good_heap [OF g] by (simp_all add: heap_ok_def)
  have ow: "covers (handed_out g) ?f" "\<And>p. ?f p \<noteq> None \<Longrightarrow> p \<notin> set (owned_by s (v_all v))"
    using good_owners [OF g] by (simp_all add: owners_ok_def)
  have rule: "heap_rule (heap s) ?c ?f op" using al by (cases op) simp_all
  obtain p h g' where c: "heap_call op (heap s) = Inr (p, h)" "heap_inv h g'"
    "shared_step ?f op g g' (mem (heap s)) (mem h) (new_owners ?c op p ?f)"
    using heap_call_shared [OF hp(1) ow(1) rule] by blast
  let ?s = "s\<lparr>heap := h\<rparr>" and ?f' = "new_owners ?c op p ?f"
  have ob: "owned_by ?s = owned_by s" by (rule owned_by_cong) simp_all
  have kept: "\<exists>n. (unat q, n) \<in> handed_out g'" if q: "q \<in> set (owned_by s (v_all v))" for q
    using owned_handed_out [OF good_heap [OF g] q] c(3) affects_owned [OF rule, of q] ow(2) [of q] q
    unfolding shared_step_def by blast
  have "heap_ok ?s v g'" using hp(2) c(2) kept ob by (simp add: heap_ok_def)
  moreover have "owners_ok ?s v g' ?f'"
  proof -
    have "q \<notin> set (owned_by s (v_all v))" if "?f' q \<noteq> None" for q
      using that ow(2) [of q] c(3) owned_handed_out [OF good_heap [OF g], of q] unfolding shared_step_def by blast
    then show ?thesis using c(3) ob by (simp add: owners_ok_def shared_step_def)
  qed
  moreover have "heap_step op s x = x\<lparr>doing := Return () ?s, owns := ?f'\<rparr>" using c(1) by (simp add: heap_step_def)
  moreover have "quiet M ?s v" using good_quiet [OF g] by (simp add: quiet_def lock_free_def split: if_splits)
  ultimately have "good M ?s v g' X (heap_step op s x)"
    using g by (simp add: good_def sem_ok_def kind_ok_def mutex_ok_def)
  then show ?thesis using c by blast
qed

lemma sys_heap:
  assumes r: "at_rest M s v g X x" and al: "heap_allowed s (owns x) op"
  shows "system_ok M (heap_step op s x)"
proof -
  obtain p h g' where h: "heap_call op (heap s) = Inr (p, h)" "good M (s\<lparr>heap := h\<rparr>) v g' X (heap_step op s x)"
    using good_heap_step [OF at_restD(1) [OF r] al] by blast
  have "doing (heap_step op s x) = Return () (s\<lparr>heap := h\<rparr>)" using h(1) by (simp add: heap_step_def)
  then show ?thesis
    using h(2) at_restD(2,3) [OF r] by (intro system_ok_return [of _ "s\<lparr>heap := h\<rparr>" M v g' X]) (simp_all add: running_def)
qed

end
