(* ===== verification/SystemSafety.thy ===== *)
theory SystemSafety
  imports SystemInv
begin

text \<open>
  The interrupt keeps the invariant of the concurrent system, and with it every step: no reachable
  state has stopped, and a mutex is held by one thread at a time.
\<close>

section \<open>The interrupt\<close>

text \<open>What the interrupt does to the lists, seen from the queues and the dead threads.\<close>

lemma ticked_view_at:
  "v_all (ticked_view s v) = v_all v" "v_at (ticked_view s v) (P_wait w) = v_at v (P_wait w)"
  "v_zombie (ticked_view s v) = v_zombie v"
  "set (v_ready (ticked_view s v)) \<subseteq> set (v_ready v) \<union> set (v_sleep v)"
  by (auto simp: ticked_view_def tick_view_def)

lemma sched_view_wait: "v_at (sched_view s v) (P_wait w) = v_at v (P_wait w)"
  by (simp add: sched_view_def leave_view_wait clean_view_at)

lemma sched_view_all:
  "kinv s v \<Longrightarrow> v_all (sched_view s w) = filter (\<lambda>t. t \<notin> set (v_zombie w)) (v_all w)"
  using leave_view_mem(2) [OF kinv_cur_status] by (simp add: sched_view_def clean_view_def)

lemma pick_alive:
  assumes "kinv s v"
  shows "status (tcbs s (pick s (ticked_view s v))) \<noteq> ThreadStatus_Zombie"
proof (cases "v_ready (ticked_view s v) = []")
  case True
  then show ?thesis using kinv_idle_status [OF assms] by (auto simp: pick_def running_def)
next
  case False
  then have "pick s (ticked_view s v) = last (v_ready (ticked_view s v))" by (simp add: pick_def)
  then have "pick s (ticked_view s v) \<in> set (v_ready v) \<union> set (v_sleep v)"
    using subsetD [OF ticked_view_at(4) last_in_set [OF False]] by (simp only:)
  then show ?thesis
    using kinv_status [OF assms, of _ P_ready] kinv_status [OF assms, of _ P_sleep] by auto
qed

lemma sched_zombie:
  assumes k: "kinv s v"
  shows "t \<in> set (v_zombie (sched_view s (ticked_view s v))) \<longleftrightarrow>
     t = current_thread s \<and> status (tcbs s t) = ThreadStatus_Zombie"
proof (cases "pick s (ticked_view s v) = current_thread s")
  case True
  then show ?thesis using pick_alive [OF k] by (auto simp: sched_view_def clean_view_at)
next
  case False
  have "current_thread s = idle_thread s \<Longrightarrow> status (tcbs s (current_thread s)) = ThreadStatus_Running"
    using kinv_idle_status [OF k] by simp
  then show ?thesis
    using False leave_view_mem(1) [OF kinv_cur_status [OF k], of t "put P_ready (butlast (v_ready (ticked_view s v))) (clean_view (ticked_view s v))" P_zombie]
      kinv_cur_status [OF k]
    by (cases "status (tcbs s (current_thread s))") (auto simp: sched_view_def clean_view_at running_def)
qed

lemma sched_status_zombie:
  assumes k: "kinv s v" and k': "kinv s' (sched_view s (ticked_view s v))" and im: "image s' = image s" "running s'"
    and t: "t \<in> set (v_all (sched_view s (ticked_view s v)))"
  shows "status (tcbs s' t) = ThreadStatus_Zombie \<longleftrightarrow> status (tcbs s t) = ThreadStatus_Zombie"
proof -
  let ?v = "sched_view s (ticked_view s v)"
  have t': "t \<in> set (v_all v)" "t \<notin> set (v_zombie v)" using t by (auto simp: sched_view_all [OF k] ticked_view_at)
  have z: "t \<in> set (v_zombie ?v)" if "status (tcbs s' t) = ThreadStatus_Zombie"
  proof -
    have "t \<noteq> current_thread s'" using that im(2) by (auto simp: running_def)
    moreover have "t \<noteq> idle_thread s'" using kinv_idle_status [OF k'] that by (auto split: if_splits)
    ultimately obtain p where p: "t \<in> set (v_at ?v p)" using kinv_placed [OF k' t] by blast
    then have "p = P_zombie" using kinv_status [OF k' p] that by (cases p) auto
    then show ?thesis using p by simp
  qed
  have c: "t = current_thread s" if "status (tcbs s t) = ThreadStatus_Zombie"
  proof (rule ccontr)
    assume n: "t \<noteq> current_thread s"
    have "t \<noteq> idle_thread s" using kinv_idle_status [OF k] that by (auto split: if_splits)
    then obtain p where p: "t \<in> set (v_at v p)" using kinv_placed [OF k t'(1) n] by blast
    then have "p = P_zombie" using kinv_status [OF k p] that by (cases p) auto
    then show False using p t'(2) by simp
  qed
  show ?thesis
  proof
    show "status (tcbs s t) = ThreadStatus_Zombie" if "status (tcbs s' t) = ThreadStatus_Zombie"
      using z [OF that] sched_zombie [OF k, of t] by blast
    show "status (tcbs s' t) = ThreadStatus_Zombie" if a: "status (tcbs s t) = ThreadStatus_Zombie"
    proof -
      have "t \<in> set (v_zombie ?v)" using c [OF a] a sched_zombie [OF k, of t] by simp
      from kinv_status [OF k' this] show ?thesis by simp
    qed
  qed
qed

text \<open>What the threads own survives the death of others.\<close>

lemma owners_switch:
  assumes g: "good M s v g X x" and all: "v_all v' = filter (\<lambda>t. t \<notin> set (v_zombie v)) (v_all v)"
    and im: "image s' = image s" and st: "\<And>t. stack_base (tcbs s' t) = stack_base (tcbs s t)"
    and g': "handed_out g' = {r \<in> handed_out g. fst r \<notin> unat ` set (owned_by s (v_zombie v))}"
  shows "owners_ok s' v' g' (owns x)"
proof -
  have sub: "set (owned_by s (v_zombie v)) \<subseteq> set (owned_by s (v_all v))"
    using lists_member [OF kinv_lists [OF good_kinv [OF g]], of _ P_zombie] by (auto simp: owned_by_def)
  have ow: "covers (handed_out g) (owns x)" "\<And>p. owns x p \<noteq> None \<Longrightarrow> p \<notin> set (owned_by s (v_all v))"
    using good_owners [OF g] by (simp_all add: owners_ok_def)
  have "unat p \<notin> unat ` set (owned_by s (v_zombie v))" if "owns x p \<noteq> None" for p
    using ow(2) [OF that] sub by (auto simp: word_unat_eq_iff [symmetric])
  then have "covers (handed_out g') (owns x)" using ow(1) unfolding covers_def g' by fastforce
  moreover have "set (owned_by s' (v_all v')) \<subseteq> set (owned_by s (v_all v))"
    unfolding owned_by_cong [OF im st] all by (auto simp: owned_by_def)
  ultimately show ?thesis using ow(2) by (auto simp: owners_ok_def)
qed

lemma good_switch:
  assumes g: "good M s v g X x" and k: "k = code (X (current_thread s))"
    and r: "kinv s' (sched_view s (ticked_view s v))" "running s'" "heap_ok s' (sched_view s (ticked_view s v)) g'"
      "lock_free s (free_list_lock (image s)) \<longrightarrow> lock_free s' (free_list_lock (image s))" "image s' = image s" "mutexes s' = mutexes s"
      "\<And>a. sem_count (sems s' a) = sem_count (sems s a)"
    and h: "\<And>t. stack_base (tcbs s' t) = stack_base (tcbs s t)"
      "handed_out g' = {r \<in> handed_out g. fst r \<notin> unat ` set (owned_by s (v_zombie v))}"
  shows "good M s' (sched_view s (ticked_view s v)) g' X (x\<lparr>contexts := (contexts x)(current_thread s := (fl, k))\<rparr>)"
proof -
  let ?v = "sched_view s (ticked_view s v)" and ?x = "x\<lparr>contexts := (contexts x)(current_thread s := (fl, k))\<rparr>"
  note kv = good_kinv [OF g]
  have all: "v_all ?v = filter (\<lambda>t. t \<notin> set (v_zombie v)) (v_all v)"
    by (simp add: sched_view_all [OF kv] ticked_view_at)
  then have sub: "t \<in> set (v_all v)" if "t \<in> set (v_all ?v)" for t using that by simp
  have wait: "v_at ?v (P_wait w) = v_at v (P_wait w)" for w by (simp add: sched_view_wait ticked_view_at)
  have "kind_ok M s' ?v X ?x t" if t: "t \<in> set (v_all ?v)" for t
    using sched_status_zombie [OF kv r(1,5,2) t] by (intro kind_ok_mono [OF good_kind [OF g sub [OF t]]]) (auto simp: wait)
  moreover have "mutex_ok s' ?v X (depth ?x) m" if m: "m \<in> M" for m
  proof -
    have "X t = K_dead" if "t \<in> set (v_zombie v)" for t
      using good_kind [OF g lists_member [OF kinv_lists [OF kv] that]] kinv_status [OF kv that] by (simp add: kind_ok_def)
    then have "heirs ?v X m = heirs v X m" using wait [of "SemQ m"] by (auto simp: heirs_def all)
    then show ?thesis using r by (intro mutex_ok_cong [OF good_mutex [OF g m]]) auto
  qed
  moreover have "sem_ok s' ?v a" for a by (rule sem_ok_cong [OF good_sem [OF g]]) (simp_all add: r wait)
  moreover have "length (v_all ?v) < 2147483648" using good_len [OF g] length_filter_le [of _ "v_all v"] unfolding all by (meson le_less_trans)
  moreover have "snd (contexts ?x t) = code (X t)" if "t \<in> set (v_all ?v)" for t
    using good_context [OF g sub [OF that]] k by simp
  moreover have "quiet M s' ?v"
    using good_quiet [OF g] r(4,5) sched_status_zombie [OF kv r(1,5,2)] sub by (auto simp: quiet_def)
  moreover have "owners_ok s' ?v g' (owns ?x)" using owners_switch [OF g all r(5) h] by simp
  ultimately show ?thesis using r(1,3,5) good_idle [OF g] by (simp add: good_def)
qed

section \<open>Resuming a thread\<close>

lemma resume_down:
  assumes g: "good M s v g X x" and run: "running s" and X: "X (current_thread s) = K_down b"
  shows "system_ok M (x\<lparr>doing := Return () (irq_restore b s)\<rparr>)"
proof -
  let ?c = "current_thread s" and ?X = "X(current_thread s := K_plain)"
  note k = good_kinv [OF g]
  have "good M s v g ?X x"
  proof (rule good_step [OF g k])
    show "kind_ok M s v ?X x t" if t: "t \<in> set (v_all v)" for t
    proof (cases "t = ?c")
      case True
      then show ?thesis
        using good_kind [OF g t] running_unplaced [OF k run] run X by (auto simp: kind_ok_def running_def)
    next
      case False
      then show ?thesis by (intro kind_ok_mono [OF good_kind [OF g t]]) auto
    qed
    show "mutex_ok s v ?X (depth x) m" if m: "m \<in> M" for m
      using heirs_cong [of v v m ?X X] X by (intro mutex_ok_cong [OF good_mutex [OF g m]]) auto
  qed (use good_idle [OF g] good_sem [OF g] in auto)
  then show ?thesis using run by (intro system_ok_return [of _ "irq_restore b s" M v g ?X]) simp_all
qed

lemma finish_acquire_fields [simp]:
  "mutexes (finish_acquire m b s) x = (if x = m then \<lparr>holder = current_thread s, recursion_count = 1\<rparr> else mutexes s x)"
  "sems (finish_acquire m b s) = sems s" "tcbs (finish_acquire m b s) = tcbs s" "heap (finish_acquire m b s) = heap s"
  "image (finish_acquire m b s) = image s" "current_thread (finish_acquire m b s) = current_thread s"
  by (simp_all add: finish_acquire_def irq_restore_def)

lemma kinv_finish_acquire [simp]: "kinv (finish_acquire m b s) v = kinv s v"
  by (simp add: finish_acquire_def)

lemma resume_acquire:
  assumes g: "good M s v g X x" and run: "running s" and X: "X (current_thread s) = K_acquire m b"
  shows "system_ok M (note_return (current_thread s) (x\<lparr>doing := Return () (finish_acquire m b s)\<rparr>))"
proof -
  let ?c = "current_thread s" and ?X = "X(current_thread s := K_plain)" and ?s = "finish_acquire m b s"
  note k = good_kinv [OF g]
  have m: "m \<in> M" and aw: "awaits x ?c = Some m" using good_kind [OF g kinv_cur [OF k]] X by (simp_all add: kind_ok_def)
  have heir: "?c \<in> heirs v X m"
    using kinv_cur [OF k] X running_unplaced [OF k run, of "P_wait (SemQ m)"] by (simp add: heirs_def)
  then have fm: "mutexes s m = free_mutex" "level s m \<le> 0" using mutex_okD(6) [OF good_mutex [OF g m]] by auto
  then have hs: "heirs v X m = {?c}" and d: "\<And>t. depth x t m = 0"
    using heir good_mutex [OF g m] by (auto simp: mutex_ok_def Let_def free_mutex_def)
  have hs': "heirs v ?X m = {}" using hs by (auto simp: heirs_def split: if_splits)
  have "good M ?s v g ?X (note_acquired ?c m (Return () ?s) x)"
  proof (rule good_acquired [OF g run m])
    show "sem_ok ?s v m" using good_sem [OF g, of m] by (simp add: sem_ok_def)
    show "mutex_ok ?s v ?X (depth (note_acquired ?c m (Return () ?s) x)) m"
      using hs' fm(2) d kinv_cur_nonnull [OF k] by (simp add: mutex_ok_def)
    show "heirs v ?X m' = heirs v X m'" if "m' \<noteq> m" for m' using that X by (intro heirs_cong) auto
  qed (use k in auto)
  then show ?thesis
    using run aw by (intro system_ok_return [of _ ?s M v g ?X]) (simp_all add: note_return_acquired running_def)
qed

lemma resume_wait:
  assumes g: "good M s v g X x" and run: "running s" and X: "X (current_thread s) = K_wait m b"
  shows "system_ok M (note_return (current_thread s) (x\<lparr>doing := mutex_acquire m (irq_restore b s)\<rparr>))"
proof -
  let ?c = "current_thread s" and ?s = "irq_restore b s"
  note k = good_kinv [OF g]
  have m: "m \<in> M" and aw: "awaits x ?c = Some m" and d: "depth x ?c m = 0"
    using good_kind [OF g kinv_cur [OF k]] X by (simp_all add: kind_ok_def)
  have "holder (mutexes s m) \<noteq> ?c"
    using mutex_okD(3) [OF good_mutex [OF g m]] d kinv_cur_nonnull [OF k] by (auto simp: unat_eq_zero)
  moreover have "?c \<noteq> idle_thread s" using good_idle [OF g] X by auto
  moreover have "mutexes ?s = mutexes s" by (simp add: irq_restore_def)
  ultimately have "system_ok M (note_return ?c (x\<lparr>awaits := (awaits x)(?c := Some m), doing := mutex_acquire m ?s\<rparr>))"
    using sys_acquire [of M ?s v g X x m] g run m X by simp
  moreover have "x\<lparr>awaits := (awaits x)(?c := Some m)\<rparr> = x" using aw by (simp add: fun_upd_idem)
  ultimately show ?thesis by (metis system.update_convs system.surjective)
qed

section \<open>Every step\<close>

lemma resume_ok:
  assumes g: "good M s v g X x" and run: "running s"
  shows "system_ok M (note_return (current_thread s) (x\<lparr>doing := code (X (current_thread s)) s\<rparr>))"
proof -
  have kd: "kind_ok M s v X x (current_thread s)" by (rule good_kind [OF g kinv_cur [OF good_kinv [OF g]]])
  show ?thesis
  proof (cases "X (current_thread s)")
    case K_plain
    then have "awaits x (current_thread s) = None" using kd by (simp add: kind_ok_def)
    then show ?thesis using K_plain g run by (intro system_ok_return [of _ s M v g X]) simp_all
  next
    case (K_down b)
    then have "awaits x (current_thread s) = None" using kd by (simp add: kind_ok_def)
    then show ?thesis using K_down resume_down [OF g run K_down] by simp
  next
    case (K_acquire m b)
    then show ?thesis using resume_acquire [OF g run K_acquire] by simp
  next
    case (K_wait m b)
    then show ?thesis using resume_wait [OF g run K_wait] by simp
  next
    case K_dead
    then show ?thesis using kd run by (simp add: kind_ok_def running_def)
  qed
qed

lemma good_can_clean: "good M s v g X x \<Longrightarrow> can_clean s v"
proof -
  assume g: "good M s v g X x"
  have "v_zombie v = []" if "free_list_lock (image s) \<in> M"
  proof (rule ccontr)
    assume "v_zombie v \<noteq> []"
    then obtain t where t: "t \<in> set (v_zombie v)" by (cases "v_zombie v") auto
    then show False
      using good_quiet [OF g] that lists_member [OF kinv_lists [OF good_kinv [OF g]] t] kinv_status [OF good_kinv [OF g] t]
      by (simp add: quiet_def)
  qed
  then show ?thesis using good_quiet [OF g] by (auto simp: can_clean_def quiet_def split: if_splits)
qed

lemma sys_interrupt:
  assumes "system_ok M x" "doing x = Yield s k"
  shows "system_ok M (switch s k x)"
proof -
  obtain v g X where g: "good M s v g X x" and k: "k = code (X (current_thread s))"
    using assms by (auto simp: system_ok_def)
  let ?v = "sched_view s (ticked_view s v)" and ?ctx = "(contexts x)(current_thread s := (eflags (hw s), k))"
  obtain s' g' where i: "isr_IRQ0 s = Inr s'" "kinv s' ?v" "running s'" "heap_ok s' ?v g'"
    "lock_free s (free_list_lock (image s)) \<longrightarrow> lock_free s' (free_list_lock (image s))" "image s' = image s" "mutexes s' = mutexes s"
    "\<And>a. sem_count (sems s' a) = sem_count (sems s a)"
    "\<And>t. stack_base (tcbs s' t) = stack_base (tcbs s t)"
    "handed_out g' = {r \<in> handed_out g. fst r \<notin> unat ` set (owned_by s (v_zombie v))}"
    using isr_IRQ0_ok [OF good_kinv [OF g] good_heap [OF g] good_can_clean [OF g]] by blast
  let ?x = "x\<lparr>contexts := ?ctx\<rparr>" and ?n = "current_thread s'"
  have g': "good M s' ?v g' X ?x" by (rule good_switch [OF g k i(2-10)])
  have n: "?n \<in> set (v_all v)"
    using kinv_cur [OF i(2)] by (simp add: sched_view_all [OF good_kinv [OF g]] ticked_view_at)
  have c: "snd (?ctx ?n) = code (X ?n)" using good_context [OF g n] k by simp
  let ?s = "s'\<lparr>hw := eflags_set (fst (?ctx ?n)) (hw s')\<rparr>"
  have "system_ok M (note_return ?n (?x\<lparr>doing := code (X ?n) ?s\<rparr>))"
    using resume_ok [of M ?s ?v g' X ?x] g' i(3) by simp
  moreover have "switch s k x = note_return ?n (?x\<lparr>doing := code (X ?n) ?s\<rparr>)"
    using i(1) c by (simp add: switch_def Let_def case_prod_beta doing_swap)
  ultimately show ?thesis by simp
qed

lemma sys_call:
  assumes r: "at_rest M s v g X x" and al: "allowed M s c"
  shows "system_ok M (note_return (current_thread s) (note_call (current_thread s) c (x\<lparr>doing := perform c s\<rparr>)))"
proof -
  note aw = at_restD(5) [OF r]
  show ?thesis
  proof (cases c)
    case (Call_down a)
    then show ?thesis using sys_down [OF r] al aw by simp
  next
    case (Call_up a)
    then show ?thesis using sys_up [OF r] al aw by simp
  next
    case (Call_acquire m)
    then show ?thesis using sys_acquire [OF at_restD(1,2) [OF r], of m] at_restD(3) [OF r] al by (simp add: doing_swap)
  next
    case (Call_release m)
    then show ?thesis using sys_release [OF r, of m] al aw by simp
  next
    case (Call_wait cv m)
    then show ?thesis using sys_wait [OF r, of cv m] al by simp
  next
    case (Call_signal cv)
    then show ?thesis using sys_signal [OF r] aw by simp
  next
    case (Call_broadcast cv)
    then show ?thesis using sys_broadcast [OF r] aw by simp
  next
    case Call_yield
    then show ?thesis using sys_yield [OF r] aw by simp
  next
    case (Call_sleep n)
    then show ?thesis using sys_sleep [OF r, of n] al aw by simp
  next
    case Call_exit
    then show ?thesis using sys_exit [OF r] al aw by simp
  qed
qed

lemma sys_step: "sstep M x x' \<Longrightarrow> system_ok M x \<Longrightarrow> system_ok M x'"
proof (induction rule: sstep.induct)
  case (call x s c)
  then obtain v g X where "at_rest M s v g X x" by (auto simp: system_ok_def at_rest_def)
  then show ?case using call by (intro sys_call)
next
  case (heap x s op)
  then obtain v g X where "at_rest M s v g X x" by (auto simp: system_ok_def at_rest_def)
  then show ?case using heap by (intro sys_heap)
next
  case (preempt x s)
  then obtain v g X where "at_rest M s v g X x" by (auto simp: system_ok_def at_rest_def)
  then show ?case by (rule sys_yield)
next
  case (interrupt x s k)
  then show ?case by (intro sys_interrupt)
qed

lemma sys_reach: "reach M x0 x \<Longrightarrow> system_ok M x0 \<Longrightarrow> system_ok M x"
  by (induction rule: reach.induct) (auto intro: sys_step)

section \<open>The start\<close>

text \<open>
  The kernel when its threads begin to run: the current thread runs, the others are ready or asleep,
  nobody waits, the mutexes are as \<^verbatim>\<open>mutex_init\<close> leaves them and no count is negative.
\<close>

definition initial :: "u32 set \<Rightarrow> kern \<Rightarrow> view \<Rightarrow> block list \<Rightarrow> bool" where
  "initial M s v g \<longleftrightarrow> kinv s v \<and> running s \<and> heap_ok s v g \<and> lock_free s (free_list_lock (image s)) \<and>
     length (v_all v) < 2147483648 \<and> (\<forall>w. v_at v (P_wait w) = []) \<and>
     v_zombie v = [] \<and> (\<forall>a. 0 \<le> level s a) \<and> (\<forall>m \<in> M. mutexes s m = free_mutex \<and> level s m = 1)"

lemma initial_subset: "initial M s v g \<Longrightarrow> N \<subseteq> M \<Longrightarrow> initial N s v g"
  by (auto simp: initial_def)

definition start_system :: "kern \<Rightarrow> system" where
  "start_system s = \<lparr>doing = Return () s, contexts = (\<lambda>_. (EFLAGS_DEFAULT, Return ())), depth = (\<lambda>_ _. 0), awaits = (\<lambda>_. None),
     owns = Map.empty\<rparr>"

lemma initial_ok:
  assumes i: "initial M s v g"
  shows "system_ok M (start_system s)"
proof -
  let ?X = "\<lambda>_ :: u32. K_plain"
  have k: "kinv s v" and run: "running s" using i by (simp_all add: initial_def)
  have nz: "status (tcbs s t) \<noteq> ThreadStatus_Zombie" if t: "t \<in> set (v_all v)" for t
    proof
      assume z: "status (tcbs s t) = ThreadStatus_Zombie"
      then have "t \<noteq> current_thread s" "t \<noteq> idle_thread s"
        using run kinv_idle_status [OF k] by (auto simp: running_def split: if_splits)
      then obtain p where p: "t \<in> set (v_at v p)" using kinv_placed [OF k t] by blast
      then show False using kinv_status [OF k p] z i by (cases p) (auto simp: initial_def)
    qed
  then have "quiet M s v" "\<forall>t \<in> set (v_all v). kind_ok M s v ?X (start_system s) t"
    using i by (simp_all add: kind_ok_def initial_def start_system_def quiet_def)
  moreover have "\<forall>m \<in> M. mutex_ok s v ?X (\<lambda>_ _. 0) m"
    using i by (simp add: initial_def mutex_ok_def free_mutex_def heirs_def)
  moreover have "\<forall>a. sem_ok s v a" using i by (simp add: initial_def sem_ok_def)
  moreover have "code K_plain = Return ()" by (intro ext) simp
  ultimately have "good M s v g ?X (start_system s)"
    using i by (simp add: initial_def good_def start_system_def owners_ok_def covers_def)
  then show ?thesis using run by (intro system_ok_return [of _ s M v g ?X]) (simp_all add: start_system_def)
qed

text \<open>What the invariant says of a state.\<close>

lemma system_okE:
  assumes "system_ok M x"
  obtains s v g X where "good M s v g X x" "doing x = Return () s \<or> (\<exists>k. doing x = Yield s k)"
  using assms by (cases "doing x") (auto simp: system_ok_def)

lemma system_ok_exclusive:
  assumes ok: "system_ok M x" and m: "m \<in> M" and d: "0 < depth x t m" "0 < depth x u m"
  shows "t = u"
  using ok
proof (cases rule: system_okE)
  case (1 s v g X)
  then show ?thesis using mutex_okD(4) [OF good_mutex [OF 1(1) m]] d by (metis less_numeral_extra(3))
qed

lemma system_ok_state:
  assumes "system_ok M x"
  shows "\<exists>s v. (doing x = Return () s \<or> (\<exists>k. doing x = Yield s k)) \<and> kinv s v \<and> (\<forall>a. sem_ok s v a)"
  using assms
proof (cases rule: system_okE)
  case (1 s v g X)
  then show ?thesis using good_kinv [OF 1(1)] good_sem [OF 1(1)] by blast
qed

end
