(* ===== verification/ThreadCreate.thy ===== *)
theory ThreadCreate
  imports Scheduler
begin

text \<open>
  Threads come into being: \<^verbatim>\<open>internal_thread_init\<close> writes the stack from which the first switch to the
  thread continues, \<^verbatim>\<open>thread_main_init\<close> makes the main and the idle thread and establishes the invariant,
  \<^verbatim>\<open>thread_create_arg\<close> adds a thread to a running system.
\<close>

section \<open>A new stack\<close>

text \<open>The pushed words lie below the stack pointer, the last one lowest; nothing else changes.\<close>

lemma unat_minus4: "4 \<le> unat (a :: u32) \<Longrightarrow> unat (a - 4) = unat a - 4"
  by (simp add: unat_sub word_le_nat_alt)

lemma push_words_spec:
  assumes "4 * length ws \<le> unat stack"
  shows "snd (push_words m stack ws) = stack - of_nat (4 * length ws) \<and>
     (\<forall>x. unat x < unat stack - 4 * length ws \<or> unat stack \<le> unat x \<longrightarrow> fst (push_words m stack ws) x = m x) \<and>
     (\<forall>i < length ws. load32 (fst (push_words m stack ws)) (stack - of_nat (4 * (i + 1))) = ws ! i)"
  using assms
proof (induction m stack ws rule: push_words.induct)
  case (2 m stack w ws)
  let ?m = "store32 m (stack - 4) w" and ?n = "length ws"
  have s4: "unat (stack - 4) = unat stack - 4" using 2(2) by (intro unat_minus4) simp
  have ih: "snd (push_words ?m (stack - 4) ws) = stack - 4 - of_nat (4 * ?n)"
    "\<And>x. unat x < unat stack - 4 - 4 * ?n \<or> unat stack - 4 \<le> unat x \<Longrightarrow> fst (push_words ?m (stack - 4) ws) x = ?m x"
    "\<And>i. i < ?n \<Longrightarrow> load32 (fst (push_words ?m (stack - 4) ws)) (stack - 4 - of_nat (4 * (i + 1))) = ws ! i"
    using 2 s4 by auto
  have in4: "within (stack - 4) 4 x \<longleftrightarrow> unat stack - 4 \<le> unat x \<and> unat x < unat stack" for x
  proof -
    have "within (of_nat (unat stack - 4)) (of_nat 4) x \<longleftrightarrow> unat stack - 4 \<le> unat x \<and> unat x < unat stack - 4 + 4"
      using unat32_bound [of stack] 2(2) by (intro within_of_nat) (simp_all del: unat32_bound)
    moreover have "of_nat (unat (stack - 4)) = stack - 4" by simp
    then have "of_nat (unat stack - 4) = stack - 4" unfolding s4 .
    ultimately show ?thesis using 2(2) by simp
  qed
  have "fst (push_words ?m (stack - 4) ws) x = m x" if "unat x < unat stack - 4 * length (w # ws) \<or> unat stack \<le> unat x" for x
  proof -
    have "unat x < unat stack - 4 - 4 * ?n \<or> unat stack - 4 \<le> unat x" "\<not> (unat stack - 4 \<le> unat x \<and> unat x < unat stack)"
      using that by auto
    then show ?thesis using ih(2) [of x] store32_outside [of "stack - 4" x m w] in4 [of x] by simp
  qed
  moreover have "load32 (fst (push_words ?m (stack - 4) ws)) (stack - of_nat (4 * (i + 1))) = (w # ws) ! i"
    if i: "i < length (w # ws)" for i
  proof (cases i)
    case 0
    have "load32 (fst (push_words ?m (stack - 4) ws)) (stack - 4) = load32 ?m (stack - 4)"
      using in4 by (intro load32_cong ih(2)) auto
    then show ?thesis using 0 by (simp add: load32_store32_same)
  next
    case (Suc j)
    then show ?thesis using ih(3) [of j] i by (simp add: algebra_simps)
  qed
  ultimately show ?case using ih(1) by (simp add: algebra_simps)
qed simp

lemma push_words_load:
  assumes "4 * length ws \<le> unat stack" "unat a + 4 \<le> 4294967296" "unat a + 4 \<le> unat stack - 4 * length ws \<or> unat stack \<le> unat a"
  shows "load32 (fst (push_words m stack ws)) a = load32 m a"
proof (rule load32_cong)
  fix x assume "within a 4 x"
  then have "within (of_nat (unat a)) (of_nat 4) x" by simp
  then have "unat a \<le> unat x" "unat x < unat a + 4" using within_of_nat [of "unat a" 4 x] assms(2) by simp_all
  then have "unat x < unat stack - 4 * length ws \<or> unat stack \<le> unat x" using assms(3) by linarith
  then show "fst (push_words m stack ws) x = m x" using push_words_spec [OF assms(1), of m] by blast
qed

text \<open>Writes outside the heap region.\<close>

lemma same_header:
  assumes "header a" "\<And>x. a \<le> unat x \<Longrightarrow> unat x < a + 16 \<Longrightarrow> m' x = m x"
  shows "km_getsize m' (of_nat a) = km_getsize m (of_nat a)" "km_isalloc m' (of_nat a) = km_isalloc m (of_nat a)"
    "km_checkmagic m' (of_nat a) = km_checkmagic m (of_nat a)" "km_next m' (of_nat a) = km_next m (of_nat a)"
proof -
  have l: "load32 m' (of_nat a + of_nat (4 * i)) = load32 m (of_nat a + of_nat (4 * i))" if i: "i < 4" for i
    using within_word [OF assms(1) i] i by (intro load32_cong assms(2)) auto
  from l [of 0] l [of 1] l [of 2]
  show "km_getsize m' (of_nat a) = km_getsize m (of_nat a)" "km_isalloc m' (of_nat a) = km_isalloc m (of_nat a)"
    "km_checkmagic m' (of_nat a) = km_checkmagic m (of_nat a)" "km_next m' (of_nat a) = km_next m (of_nat a)"
    by (simp_all add: km_getsize_def km_isalloc_def km_checkmagic_def km_next_def km_metadata_def)
qed

lemma free_chain_same:
  "free_chain m p xs \<Longrightarrow> (\<And>a n x. (a, n) \<in> set xs \<Longrightarrow> a \<le> unat x \<Longrightarrow> unat x < a + 16 \<Longrightarrow> m' x = m x) \<Longrightarrow> free_chain m' p xs"
proof (induction m p xs rule: free_chain.induct)
  case (2 m p a n xs)
  have "km_getsize m' (of_nat a) = km_getsize m (of_nat a)" "km_next m' (of_nat a) = km_next m (of_nat a)"
    using 2(2,3) by (intro same_header; auto)+
  then show ?case using 2 by auto
qed simp

lemma heap_inv_outside:
  assumes inv: "heap_inv h g" and out: "\<And>x. unat (kheap_begin h) \<le> unat x \<Longrightarrow> unat x < unat (kheap_end h) \<Longrightarrow> m' x = mem h x"
  shows "heap_inv (h\<lparr>mem := m'\<rparr>) g"
proof -
  have t: "tiled (unat (kheap_begin h)) g (unat (kheap_end h))" using inv by (simp add: heap_inv_def)
  have hx: "m' x = mem h x" if "(a, n, al) \<in> set g" "a \<le> unat x" "unat x < a + 16" for a n al x
    using tiled_member [OF t that(1)] inv_bounds [OF inv that(1)] that(2,3) by (intro out) auto
  have "hdr_ok m' (a, n, al)" if b: "(a, n, al) \<in> set g" for a n al
  proof -
    have "hdr_ok (mem h) (a, n, al)" using inv b by (auto simp: heap_inv_def)
    moreover note same_header [OF inv_bounds(1) [OF inv b], of m' "mem h", OF hx [OF b]]
    ultimately show ?thesis by (simp add: hdr_ok_def)
  qed
  moreover have "free_chain m' (free_list h) (frees g)"
  proof (rule free_chain_same)
    show "free_chain (mem h) (free_list h) (frees g)" using inv by (simp add: heap_inv_def)
    show "m' x = mem h x" if "(a, n) \<in> set (frees g)" "a \<le> unat x" "unat x < a + 16" for a n x
      using that hx [of a n False x] by (simp add: frees_mem)
  qed
  ultimately show ?thesis using inv by (auto simp: heap_inv_def region_ok_def)
qed

section \<open>Free locks\<close>

text \<open>A free lock taken and dropped by the current thread leaves its blocker note and nothing else.\<close>

definition taken :: "u32 \<Rightarrow> kern \<Rightarrow> kern" where
  "taken m s = upd_mutex m (\<lambda>_. \<lparr>holder = current_thread s, recursion_count = 1\<rparr>)
     (set_count m 0 (set_blocker (current_thread s) m BlockerType_Mutex s))"

definition dropped :: "u32 \<Rightarrow> kern \<Rightarrow> kern" where
  "dropped m s = upd_mutex m (\<lambda>_. free_mutex) (set_count m 1 s)"

lemma acquire_free_lock:
  assumes c: "current_thread s \<noteq> 0" and l: "lock_free s m"
  shows "mutex_acquire m s = Return () (taken m s)"
proof -
  let ?c = "current_thread s"
  let ?s2 = "set_blocker ?c m BlockerType_Mutex (s\<lparr>hw := cli (hw s)\<rparr>)"
  let ?s3 = "set_count m 0 ?s2"
  let ?s4 = "upd_mutex m (\<lambda>_. \<lparr>holder = ?c, recursion_count = 1\<rparr>) ?s3"
  have one: "sint (1 :: u32) = 1" and cnt: "sem_count (sems ?s2 m) = 1" using l by (simp_all add: lock_free_def)
  have "irq_restore (interrupt_is_enabled (hw ?s2)) ?s3 = ?s3\<lparr>hw := hw ?s2\<rparr>"
    by (rule irq_restore_back) simp
  then have d: "semaphore_down m ?s2 = Return () ?s3"
    using c cnt by (simp add: semaphore_down_def irq_off_eq upd_sem_def set_blocker_def upd_tcb_def Let_def)
  have "irq_restore (interrupt_is_enabled (hw s)) ?s4 = ?s4\<lparr>hw := hw s\<rparr>" by (rule irq_restore_back) simp
  also have "\<dots> = taken m s"
    by (simp add: taken_def upd_mutex_def upd_sem_def set_blocker_def upd_tcb_def)
  finally show ?thesis
    using c l d by (simp add: mutex_acquire_def irq_off_eq Let_def lock_free_def free_mutex_def)
qed

lemma release_held_lock:
  assumes c: "current_thread s \<noteq> 0" and own: "mutexes s m = \<lparr>holder = current_thread s, recursion_count = 1\<rparr>"
    and cnt: "sem_count (sems s m) = 0" "wait_queue_head (sem_queue (sems s m)) = 0"
  shows "mutex_release m s = Inr (dropped m s)"
proof -
  let ?s2 = "upd_mutex m (\<lambda>c. c\<lparr>holder := 0\<rparr>)
    (upd_mutex m (\<lambda>c. c\<lparr>recursion_count := recursion_count c - 1\<rparr>) (s\<lparr>hw := cli (hw s)\<rparr>))"
  let ?s3 = "set_count m 1 ?s2"
  have "irq_restore (interrupt_is_enabled (hw ?s2)) ?s3 = ?s3\<lparr>hw := hw ?s2\<rparr>"
    by (rule irq_restore_back) simp
  then have u: "semaphore_up m ?s2 = Inr ?s3"
    using c cnt by (simp add: semaphore_up_def irq_off_eq upd_sem_def upd_mutex_def Let_def)
  have "irq_restore (interrupt_is_enabled (hw s)) ?s3 = ?s3\<lparr>hw := hw s\<rparr>" by (rule irq_restore_back) simp
  also have "\<dots> = dropped m s"
    using own by (simp add: dropped_def upd_mutex_def upd_sem_def free_mutex_def)
  finally show ?thesis using c own u by (simp add: mutex_release_def irq_off_eq Let_def)
qed

text \<open>A critical section whose work commutes with the lock's own fields.\<close>

lemma release_taken_lock:
  assumes c: "current_thread s \<noteq> 0"
    and comm: "f (taken m s) = taken m (f s)" "current_thread (f s) = current_thread s" "lock_free (f s) m"
  shows "mutex_release m (f (taken m s)) = Inr (set_blocker (current_thread s) m BlockerType_Mutex (f s))"
proof -
  have "mutexes (taken m (f s)) m = \<lparr>holder = current_thread (taken m (f s)), recursion_count = 1\<rparr>"
    "sem_count (sems (taken m (f s)) m) = 0" "wait_queue_head (sem_queue (sems (taken m (f s)) m)) = 0"
    "current_thread (taken m (f s)) \<noteq> 0"
    using comm(2,3) c by (simp_all add: taken_def lock_free_def)
  then have r: "mutex_release m (taken m (f s)) = Inr (dropped m (taken m (f s)))" by (intro release_held_lock)
  have "mutexes (f s) = (mutexes (f s))(m := free_mutex)" "sems (f s) = (sems (f s))(m := (sems (f s) m)\<lparr>sem_count := 1\<rparr>)"
    using comm(3) by (auto simp: lock_free_def)
  then have "dropped m (taken m (f s)) = set_blocker (current_thread (f s)) m BlockerType_Mutex (f s)"
    by (simp add: dropped_def taken_def upd_mutex_def upd_sem_def set_blocker_def upd_tcb_def)
  then show ?thesis using comm(1,2) r by simp
qed

lemma taken_fields [simp]: "image (taken m s) = image s" "heap (taken m s) = heap s" "current_thread (taken m s) = current_thread s"
  by (simp_all add: taken_def)

lemma lock_free_upd [simp]:
  "lock_free (set_blocker t ob ty s) m = lock_free s m" "lock_free (say fm args s) m = lock_free s m"
  "lock_free (s\<lparr>heap := h\<rparr>) m = lock_free s m" "lock_free (upd_tcb t f s) m = lock_free s m"
  "lock_free (s\<lparr>next_tid := n\<rparr>) m = lock_free s m" "lock_free (init_nodes t s) m = lock_free s m"
  "lock_free (all_add t s) m = lock_free s m" "lock_free (ready_add t s) m = lock_free s m"
  by (auto simp: lock_free_def init_nodes_def all_add_def ready_add_def upd_tcb_def split: prod.splits)

lemma kcalloc_run:
  assumes "current_thread s \<noteq> 0" "lock_free s (free_list_lock (image s))" "kcalloc_unsafe (heap s) n e = Inr (p, h)"
  shows "kcalloc n e s = Return p (set_blocker (current_thread s) (free_list_lock (image s)) BlockerType_Mutex
     ((say ''CALLOCATING\<newline>'' [] s)\<lparr>heap := h\<rparr>))"
proof -
  let ?m = "free_list_lock (image s)" and ?s = "say ''CALLOCATING\<newline>'' [] s"
  have "mutex_acquire ?m ?s = Return () (taken ?m ?s)" using assms by (intro acquire_free_lock) simp_all
  moreover have "mutex_release ?m ((taken ?m ?s)\<lparr>heap := h\<rparr>) = Inr (set_blocker (current_thread ?s) ?m BlockerType_Mutex (?s\<lparr>heap := h\<rparr>))"
    using assms by (intro release_taken_lock) (simp_all add: taken_def upd_mutex_def upd_sem_def set_blocker_def upd_tcb_def)
  ultimately show ?thesis using assms(3) by (simp add: kcalloc_def with_heap_def)
qed

section \<open>Linking a new thread\<close>

lemma lists_ok_init:
  assumes ok: "lists_ok s v" and t: "t \<notin> set (v_all v)"
  shows "lists_ok (init_nodes t s) v"
proof -
  let ?s = "init_nodes t s"
  have al: "all_links ?s x = all_links s x" if "x \<noteq> all_node t" for x using that by (simp add: init_nodes_def thread_listnode_init_def)
  have lo: "local_links ?s x = local_links s x" if "x \<noteq> local_node t" for x using that by (simp add: init_nodes_def thread_listnode_init_def)
  have rt: "root ?s p = root s p" for p by (cases p rule: place_cases) (simp_all add: init_nodes_def)
  have "dll (all_links ?s) 0 (all_threads ?s) (map all_node (v_all v)) = dll (all_links s) 0 (all_threads s) (map all_node (v_all v))"
  proof -
    have "all_threads ?s = all_threads s" by (simp add: init_nodes_def)
    moreover have "all_node x \<noteq> all_node t" if "x \<in> set (v_all v)" for x using that t by auto
    ultimately show ?thesis using al by (auto intro!: dll_cong)
  qed
  moreover have "place_holds p (root ?s p) (local_links ?s) (v_at v p)" for p
  proof -
    have "t \<notin> set (v_at v p)" using t lists_member [OF ok] by blast
    then have "local_node x \<noteq> local_node t" if "x \<in> set (v_at v p)" for x using that by auto
    then have "dll (local_links ?s) 0 q (map local_node (v_at v p)) = dll (local_links s) 0 q (map local_node (v_at v p))" for q
      using lo by (auto intro!: dll_cong)
    then show ?thesis using lists_place [OF ok, of p] rt by (simp add: place_holds_def)
  qed
  moreover have "node_ok ?s x" if x: "x \<in> set (v_all v)" for x
  proof -
    have "x \<noteq> t" using x t by blast
    then show ?thesis using lists_node [OF ok x] al [of "all_node x"] lo [of "local_node x"] by (simp add: node_ok_def)
  qed
  ultimately show ?thesis using ok by (simp add: lists_ok_def)
qed

lemma all_add_ok:
  assumes ok: "lists_ok s v" and t: "t \<notin> set (v_all v)" and n: "node_ok s t"
  shows "lists_ok (all_add t s) (v\<lparr>v_all := t # v_all v\<rparr>)"
proof -
  have "all_node t \<notin> set (map all_node (v_all v))" "all_node t \<noteq> 0" using t n by (auto simp: node_ok_def)
  then obtain ns where a: "thread_list_add (all_threads s) (all_links s) (all_node t) = (all_node t, ns)"
    "dll ns 0 (all_node t) (all_node t # map all_node (v_all v))"
    "same_links (insert (all_node t) (set (map all_node (v_all v)))) (all_links s) ns"
    using list_add_refines [OF lists_all [OF ok]] by blast
  have eq: "all_add t s = s\<lparr>all_threads := all_node t, all_links := ns\<rparr>" using a(1) by (simp add: all_add_def)
  have rt: "root (all_add t s) p = root s p" for p unfolding eq by (cases p rule: place_cases) simp_all
  have "node_ok (all_add t s) x = node_ok s x" for x
    using same_linksD(2) [OF a(3)] unfolding eq by (simp add: node_ok_def)
  then show ?thesis
    using ok n a(2) rt unfolding lists_ok_def by (auto simp: eq)
qed

section \<open>Memory for a new thread\<close>

lemma alloc_blocks_end: "alloc_blocks t hi bs = (a, hi', bs') \<Longrightarrow> hi' \<le> hi + round_up 4096 t"
  by (auto simp: alloc_blocks_def split: option.splits)

lemma regions_kept_grow:
  "regions_kept g h h' \<Longrightarrow> regions_kept g' h' h'' \<Longrightarrow> handed_out g \<subseteq> handed_out g' \<Longrightarrow> regions_kept g h h''"
  by (auto simp: regions_kept_def intro: region_kept_trans outside_kept_trans)

lemma kcalloc_fresh:
  assumes inv: "heap_inv h g" and sv: "serviceable h g (n * e)"
  shows "\<exists>p k h' g'. kcalloc_unsafe h n e = Inr (of_nat p, h') \<and> heap_inv h' g' \<and>
     handed_out g' = insert (p, k) (handed_out g) \<and> unat (n * e) \<le> k \<and> p \<notin> fst ` handed_out g \<and>
     (p - 16, k + 16, True) \<in> set g' \<and> 16 \<le> p \<and> p + k < 4294967296 \<and> unat (kheap_begin h) < p \<and>
     kheap_begin h' = kheap_begin h \<and> kheap_max_end h' = kheap_max_end h \<and>
     unat (kheap_end h') \<le> unat (kheap_end h) + round_up 4096 (block_size (unat (n * e))) \<and> regions_kept g h h'"
proof -
  let ?b = "n * e" and ?t = "block_size (unat (n * e))"
  obtain a hi' g' where spec: "alloc_blocks ?t (unat (kheap_end h)) g = (a, hi', g')" by (metis prod_cases3)
  obtain h' where k: "kcalloc_unsafe h n e = Inr (of_nat (a + 16), h')" "heap_inv h' g'" "unat (kheap_end h') = hi'"
    and keep: "live_kept g (mem h) (mem h')" "outside_kept h h'"
    using kcalloc_refines [OF inv sv spec] by blast
  have "regions_kept g h h'" using keep live_kept_regions [OF keep(1)] by (simp add: regions_kept_def)
  obtain h1 where k1: "kmalloc_unsafe h ?b = Inr (of_nat (a + 16), h1)" "kheap_begin h1 = kheap_begin h"
    "kheap_max_end h1 = kheap_max_end h"
    using kmalloc_refines [OF inv sv spec] by blast
  have same: "kheap_begin h' = kheap_begin h" "kheap_max_end h' = kheap_max_end h"
    using k(1) k1 by (auto simp: kcalloc_unsafe_def Let_def split: if_splits)
  obtain m where m: "?t \<le> m" "handed_out g' = insert (a + 16, m - 16) (handed_out g)"
    using handed_out_alloc [OF spec] by blast
  have til: "tiled (unat (kheap_begin h')) g' (unat (kheap_end h'))" "tiled (unat (kheap_begin h)) g (unat (kheap_end h))"
    using k(2) inv by (simp_all add: heap_inv_def)
  obtain m2 where m2: "?t \<le> m2" "(a, m2, True) \<in> set g'" "\<And>b k. (b, k, True) \<in> set g \<Longrightarrow> b + k \<le> a \<or> a + m2 \<le> b"
    using alloc_blocks_shape [OF til(2) spec block_size_bounds(1)] by fastforce
  have "(a + 16, m - 16) \<in> handed_out g'" using m(2) by simp
  then have "(a, m - 16 + 16, True) \<in> set g'" using handed_out_mem [OF til(1)] by simp
  then have mm: "(a, m, True) \<in> set g'" "m = m2"
    using m(1) block_size_bounds(1) [of "unat ?b"] tiled_addresses_distinct [OF til(1) m2(2), of m True] by auto
  have "a + 16 \<notin> fst ` handed_out g"
  proof
    assume "a + 16 \<in> fst ` handed_out g"
    then obtain j where "(a, j, True) \<in> set g" by (auto simp: handed_out_def)
    then show False
      using m2(1,3) tiled_member [OF til(2), of a j True] block_size_bounds(1) [of "unat ?b"] by fastforce
  qed
  moreover have "unat ?b \<le> m - 16" using m(1) block_size_bounds(3) [of "unat ?b"] by simp
  moreover have "unat (kheap_begin h) < a + 16" using tiled_member [OF til(1) mm(1)] same(1) by simp
  moreover have "16 \<le> m" using m(1) block_size_bounds(1) [of "unat ?b"] by simp
  moreover have "unat (kheap_end h') \<le> unat (kheap_end h) + round_up 4096 ?t" using alloc_blocks_end [OF spec] k(3) by simp
  moreover note \<open>regions_kept g h h'\<close>
  ultimately show ?thesis
    using k m(2) mm(1) inv_bounds [OF k(2) mm(1)] same
    by (intro exI [of _ "a + 16"] exI [of _ "m - 16"] exI [of _ h'] exI [of _ g']) auto
qed

text \<open>Writing into memory that was handed out.\<close>

lemma handed_out_write:
  assumes inv: "heap_inv h g" and b: "(p - 16, k + 16, True) \<in> set g" "16 \<le> p"
    and out: "\<And>x. unat x < p \<or> p + k \<le> unat x \<Longrightarrow> m' x = mem h x"
  shows "heap_inv (h\<lparr>mem := m'\<rparr>) g"
proof -
  have "same_outside (payload (p - 16) (k + 16)) (mem h) m'"
    using inv_bounds [OF inv b(1)] b(2) by (intro payload_cover out) auto
  then show ?thesis by (rule payload_write [OF inv b(1)])
qed

section \<open>Creating a thread\<close>

definition new_tcb :: "u32 \<Rightarrow> u32 \<Rightarrow> u32 \<Rightarrow> tcb \<Rightarrow> tcb" where
  "new_tcb i sp stk c = c\<lparr>tid := i, esp := sp, status := ThreadStatus_Ready, stack_base := stk, wakeup_ticks := 0,
     blocked_on := 0, blocker_type := BlockerType_None\<rparr>"

lemma internal_thread_init_run:
  assumes "next_tid s \<noteq> 0" "64 \<le> unat stackptr"
  shows "\<exists>m. internal_thread_init entry arg stk stackptr t s =
       Inr (say ''Creating thread %u\<newline>'' [Val (next_tid s)] (init_nodes t (upd_tcb t (new_tcb (next_tid s) (stackptr - 64) stk)
         (s\<lparr>heap := (heap s)\<lparr>mem := m\<rparr>, next_tid := next_tid s + 1\<rparr>)))) \<and>
     (\<forall>x. unat x < unat stackptr - 64 \<or> unat stackptr \<le> unat x \<longrightarrow> m x = mem (heap s) x) \<and>
     (\<forall>i < 16. load32 m (stackptr - of_nat (4 * (i + 1))) = initial_frame (thread_exit_addr (image s)) entry arg ! i)"
proof -
  let ?ws = "initial_frame (thread_exit_addr (image s)) entry arg"
  have len: "length ?ws = 16" by (simp add: initial_frame_def Let_def)
  let ?p = "push_words (mem (heap s)) stackptr ?ws"
  have sp: "snd ?p = stackptr - 64" "\<forall>x. unat x < unat stackptr - 64 \<or> unat stackptr \<le> unat x \<longrightarrow> fst ?p x = mem (heap s) x"
    "\<forall>i < 16. load32 (fst ?p) (stackptr - of_nat (4 * (i + 1))) = ?ws ! i"
    using push_words_spec [of ?ws stackptr "mem (heap s)"] assms(2) unfolding len by simp_all
  have "internal_thread_init entry arg stk stackptr t s =
       Inr (say ''Creating thread %u\<newline>'' [Val (next_tid s)] (init_nodes t (upd_tcb t (new_tcb (next_tid s) (snd ?p) stk)
         (s\<lparr>heap := (heap s)\<lparr>mem := fst ?p\<rparr>, next_tid := next_tid s + 1\<rparr>))))"
    using assms(1) by (simp add: internal_thread_init_def new_tcb_def [abs_def] Let_def case_prod_beta upd_tcb_def init_nodes_def)
  then show ?thesis using sp by (intro exI [of _ "fst ?p"]) simp
qed

definition born_view :: "u32 \<Rightarrow> view \<Rightarrow> view" where
  "born_view t v = put P_ready (t # v_ready v) (v\<lparr>v_all := t # v_all v\<rparr>)"

lemma kinv_born:
  assumes k: "kinv s v" and t: "t \<notin> set (v_all v)" and ok: "lists_ok s' (born_view t v)"
    and same: "current_thread s' = current_thread s" "image s' = image s"
    and st: "status (tcbs s' t) = ThreadStatus_Ready" "\<And>u. u \<noteq> t \<Longrightarrow> status (tcbs s' u) = status (tcbs s u)"
  shows "kinv s' (born_view t v)"
proof -
  note lok = kinv_lists [OF k]
  have un: "t \<notin> set (v_at v p)" for p using t lists_member [OF lok] by blast
  have nt: "current_thread s \<noteq> t" "idle_thread s \<noteq> t" using t kinv_cur [OF k] kinv_idle(1) [OF k] by auto
  have mem: "x \<in> set (v_at (born_view t v) p) \<longleftrightarrow> x \<in> set (v_at v p) \<or> x = t \<and> p = P_ready" for x p
    by (auto simp: born_view_def)
  have al: "v_all (born_view t v) = t # v_all v" by (simp add: born_view_def)
  have s1: "status (tcbs s' x) = place_status p" if "x \<in> set (v_at (born_view t v) p)" for x p
    using that mem kinv_status [OF k, of x p] st un by (cases "x = t") auto
  have s2: "\<exists>p. x \<in> set (v_at (born_view t v) p)" if "x \<in> set (t # v_all v)" "x \<noteq> current_thread s" "x \<noteq> idle_thread s" for x
    using that kinv_placed [OF k, of x] mem by (cases "x = t") auto
  show ?thesis
    unfolding kinv_def same al
    using ok s1 s2 kinv_cur [OF k] kinv_idle [OF k] kinv_cur_status [OF k] kinv_idle_status [OF k]
      kinv_cur_place [OF k] kinv_cur_blocked [OF k] st(2) nt by (simp add: mem)
qed

lemma link_new_thread:
  assumes ok: "lists_ok s v" and t: "t \<notin> set (v_all v)" and s': "lists_ok s' (v\<lparr>v_all := t # v_all v\<rparr>)"
  shows "lists_ok (ready_add t s') (born_view t v)"
proof -
  have un: "t \<notin> set (v_at v p)" for p using t lists_member [OF ok] by blast
  show ?thesis
    using place_add_ok [OF s', of t P_ready] un by (auto simp: place_ops born_view_def)
qed

text \<open>The two allocations of \<^verbatim>\<open>thread_create_arg\<close>, and the stack written into the first.\<close>

lemma serviceable_room:
  assumes "unat (kheap_end h) + round_up 4096 (block_size (unat sz)) \<le> unat (kheap_max_end h)" "unat sz \<le> 65536"
  shows "serviceable h g sz"
  using assms block_size_bounds(4) [of "unat sz"] by (simp add: serviceable_def)

lemma thread_memory:
  assumes inv: "heap_inv h g" and room: "unat (kheap_end h) + 0x12000 \<le> unat (kheap_max_end h)"
  shows "\<exists>p k h1 q j h2 g2. kcalloc_unsafe h 1 THREAD_STACK_SPACE = Inr (of_nat p, h1) \<and>
     kcalloc_unsafe h1 1 sizeof_thread_t = Inr (of_nat q, h2) \<and> heap_inv h2 g2 \<and>
     handed_out g2 = insert (q, j) (insert (p, k) (handed_out g)) \<and> 65536 \<le> k \<and> 56 \<le> j \<and> p \<noteq> q \<and>
     p \<notin> fst ` handed_out g \<and> q \<notin> fst ` handed_out g \<and> 0 < p \<and> p + k < 4294967296 \<and> q + j < 4294967296 \<and>
     unat (kheap_begin h) < q \<and> regions_kept g h h2 \<and>
     (\<forall>m. (\<forall>x. unat x < p \<or> p + k \<le> unat x \<longrightarrow> m x = mem h2 x) \<longrightarrow> heap_inv (h2\<lparr>mem := m\<rparr>) g2)"
proof -
  have r: "round_up 4096 (block_size 65536) = 0x11000" "round_up 4096 (block_size 56) = 0x1000"
    by (simp_all add: round_up_def block_size_def)
  have "serviceable h g (1 * THREAD_STACK_SPACE)" using room r by (intro serviceable_room) simp_all
  then obtain p k h1 g1 where a: "kcalloc_unsafe h 1 THREAD_STACK_SPACE = Inr (of_nat p, h1)" "heap_inv h1 g1"
    "handed_out g1 = insert (p, k) (handed_out g)" "65536 \<le> k" "p \<notin> fst ` handed_out g" "16 \<le> p" "p + k < 4294967296"
    "kheap_begin h1 = kheap_begin h" "kheap_max_end h1 = kheap_max_end h" "unat (kheap_end h1) \<le> unat (kheap_end h) + 0x11000"
    "regions_kept g h h1"
    using kcalloc_fresh [OF inv, of 1 THREAD_STACK_SPACE] r by auto
  have "serviceable h1 g1 (1 * sizeof_thread_t)" using room r a(9,10) by (intro serviceable_room) simp_all
  then obtain q j h2 g2 where b: "kcalloc_unsafe h1 1 sizeof_thread_t = Inr (of_nat q, h2)" "heap_inv h2 g2"
    "handed_out g2 = insert (q, j) (handed_out g1)" "56 \<le> j" "q \<notin> fst ` handed_out g1" "q + j < 4294967296"
    "unat (kheap_begin h1) < q" "regions_kept g1 h1 h2"
    using kcalloc_fresh [OF a(2), of 1 sizeof_thread_t] by auto
  have "tiled (unat (kheap_begin h2)) g2 (unat (kheap_end h2))" using b(2) by (simp add: heap_inv_def)
  from handed_out_mem [OF this, of p k] have "(p - 16, k + 16, True) \<in> set g2" using b(3) a(3) by simp
  then have "heap_inv (h2\<lparr>mem := m\<rparr>) g2" if "\<forall>x. unat x < p \<or> p + k \<le> unat x \<longrightarrow> m x = mem h2 x" for m
    using that a(6) by (intro handed_out_write [OF b(2), of p k]) auto
  moreover have "p \<noteq> q" "q \<notin> fst ` handed_out g" using b(5) unfolding a(3) by auto
  moreover have "unat (kheap_begin h) < q" "0 < p" using b(7) a(6,8) by simp_all
  moreover have "regions_kept g h h2" using regions_kept_grow [OF a(11) b(8)] a(3) by auto
  moreover note a(1,4,5,7) b(1,2,4,6) b(3) [unfolded a(3)]
  ultimately show ?thesis by blast
qed

lemma add_taken:
  "all_add t (taken m s) = taken m (all_add t s)" "ready_add t (taken m s) = taken m (ready_add t s)"
  by (simp_all add: all_add_def ready_add_def taken_def upd_mutex_def upd_sem_def set_blocker_def upd_tcb_def case_prod_beta)

lemma add_fields [simp]:
  "current_thread (all_add t s) = current_thread s" "current_thread (ready_add t s) = current_thread s"
  "image (all_add t s) = image s" "image (ready_add t s) = image s" "tcbs (all_add t s) = tcbs s" "tcbs (ready_add t s) = tcbs s"
  "heap (all_add t s) = heap s" "heap (ready_add t s) = heap s"
  "current_thread (init_nodes t s) = current_thread s" "image (init_nodes t s) = image s" "tcbs (init_nodes t s) = tcbs s"
  "heap (init_nodes t s) = heap s" "next_tid (set_blocker u ob ty s) = next_tid s"
  by (simp_all add: all_add_def ready_add_def init_nodes_def set_blocker_def upd_tcb_def case_prod_beta)

text \<open>The state after the creation, one step of the routine at a time.\<close>

definition allocated :: "km_state \<Rightarrow> kern \<Rightarrow> kern" where
  "allocated h s = set_blocker (current_thread s) (free_list_lock (image s)) BlockerType_Mutex
     ((say ''CALLOCATING\<newline>'' [] s)\<lparr>heap := h\<rparr>)"

definition prepared :: "u32 \<Rightarrow> u32 \<Rightarrow> memory \<Rightarrow> kern \<Rightarrow> kern" where
  "prepared t stk m s = say ''Creating thread %u\<newline>'' [Val (next_tid s)]
     (init_nodes t (upd_tcb t (new_tcb (next_tid s) (stk + THREAD_STACK_SPACE - 64) stk)
       ((upd_tcb t (\<lambda>_. zero_tcb) s)\<lparr>heap := (heap s)\<lparr>mem := m\<rparr>, next_tid := next_tid s + 1\<rparr>)))"

definition linked :: "u32 \<Rightarrow> kern \<Rightarrow> kern" where
  "linked t s = set_blocker (current_thread s) (local_threads_lock (image s)) BlockerType_Mutex
     (ready_add t (set_blocker (current_thread s) (all_threads_lock (image s)) BlockerType_Mutex (all_add t s)))"

lemma thread_create_run:
  assumes c: "current_thread s \<noteq> 0" and tid: "next_tid s \<noteq> 0"
    and lf: "lock_free s (free_list_lock (image s))" "lock_free s (all_threads_lock (image s))" "lock_free s (local_threads_lock (image s))"
    and a: "kcalloc_unsafe (heap s) 1 THREAD_STACK_SPACE = Inr (stk, h1)" "kcalloc_unsafe h1 1 sizeof_thread_t = Inr (t, h2)"
    and nz: "stk \<noteq> 0" "t \<noteq> 0" "unat stk + 65536 < 4294967296"
  shows "\<exists>m. thread_create_arg entry arg s = Return t (linked t (prepared t stk m (allocated h2 (allocated h1 s)))) \<and>
     (\<forall>x. unat x < unat stk + 65536 - 64 \<or> unat stk + 65536 \<le> unat x \<longrightarrow> m x = mem h2 x) \<and>
     (\<forall>i < 16. load32 m (stk + THREAD_STACK_SPACE - of_nat (4 * (i + 1))) = initial_frame (thread_exit_addr (image s)) entry arg ! i)"
proof -
  let ?s1 = "allocated h1 s" and ?s2 = "allocated h2 (allocated h1 s)" and ?sp = "stk + THREAD_STACK_SPACE"
  have sp: "unat ?sp = unat stk + 65536" using nz(3) by (simp add: unat_word_ariths)
  have f1: "current_thread ?s1 = current_thread s" "image ?s1 = image s" "heap ?s1 = h1" "next_tid ?s2 = next_tid s"
    "current_thread ?s2 = current_thread s" "image ?s2 = image s" "heap ?s2 = h2" "lock_free ?s1 l = lock_free s l"
    "lock_free ?s2 l = lock_free s l" for l
    by (simp_all add: allocated_def)
  have k1: "kcalloc 1 THREAD_STACK_SPACE s = Return stk ?s1" using kcalloc_run [OF c lf(1) a(1)] by (simp add: allocated_def)
  have k2: "kcalloc 1 sizeof_thread_t ?s1 = Return t ?s2"
    using kcalloc_run [of ?s1] c lf(1) a(2) f1 by (simp add: allocated_def)
  let ?z = "upd_tcb t (\<lambda>_. zero_tcb) ?s2"
  obtain m where i: "internal_thread_init entry arg stk ?sp t ?z = Inr (prepared t stk m ?s2)"
    "\<forall>x. unat x < unat ?sp - 64 \<or> unat ?sp \<le> unat x \<longrightarrow> m x = mem h2 x"
    "\<forall>i < 16. load32 m (?sp - of_nat (4 * (i + 1))) = initial_frame (thread_exit_addr (image s)) entry arg ! i"
    using internal_thread_init_run [of ?z ?sp entry arg stk t] tid sp f1 by (auto simp: prepared_def upd_tcb_def)
  let ?s3 = "prepared t stk m ?s2"
  have f3: "current_thread ?s3 = current_thread s" "image ?s3 = image s" "lock_free ?s3 l = lock_free s l" for l
    using f1 by (simp_all add: prepared_def)
  let ?A = "all_threads_lock (image s)" and ?B = "local_threads_lock (image s)"
  let ?s5 = "set_blocker (current_thread s) ?A BlockerType_Mutex (all_add t ?s3)"
  have u1: "mutex_acquire ?A ?s3 = Return () (taken ?A ?s3)" "mutex_release ?A (all_add t (taken ?A ?s3)) = Inr ?s5"
    using c lf f3 acquire_free_lock [of ?s3 ?A] release_taken_lock [of ?s3 "all_add t" ?A] add_taken by simp_all
  have u2: "mutex_acquire ?B ?s5 = Return () (taken ?B ?s5)" "mutex_release ?B (ready_add t (taken ?B ?s5)) = Inr (linked t ?s3)"
    using c lf f3 acquire_free_lock [of ?s5 ?B] release_taken_lock [of ?s5 "ready_add t" ?B] add_taken
    by (simp_all add: linked_def)
  have "thread_create_arg entry arg s = Return t (linked t ?s3)"
    using nz k1 k2 i(1) u1 u2 f3 f1 by (simp add: thread_create_arg_def)
  then show ?thesis using i sp by auto
qed

lemma created_tcbs:
  "tcbs (linked t (prepared t stk m s)) u =
     (if u = t then new_tcb (next_tid s) (stk + THREAD_STACK_SPACE - 64) stk zero_tcb
      else if u = current_thread s then touch (local_threads_lock (image s)) (tcbs s u) else tcbs s u)"
  if "t \<noteq> current_thread s"
  using that by (simp add: linked_def prepared_def set_blocker_def upd_tcb_def touch_def)

lemma created_fields [simp]:
  "current_thread (linked t (prepared t stk m s)) = current_thread s" "image (linked t (prepared t stk m s)) = image s"
  "heap (linked t (prepared t stk m s)) = (heap s)\<lparr>mem := m\<rparr>"
  "tcbs (allocated h s) = (tcbs s)(current_thread s := touch (free_list_lock (image s)) (tcbs s (current_thread s)))"
  "current_thread (allocated h s) = current_thread s" "image (allocated h s) = image s" "heap (allocated h s) = h"
  "next_tid (allocated h s) = next_tid s"
  by (simp_all add: linked_def prepared_def allocated_def set_blocker_def upd_tcb_def touch_def)

lemma created_locks [simp]:
  "lock_free (linked t (prepared t stk m s)) l = lock_free s l" "lock_free (allocated h s) l = lock_free s l"
  by (simp_all add: linked_def prepared_def allocated_def)

lemma created_lists:
  assumes ok: "lists_ok s v" and t: "t \<notin> set (v_all v)" "t \<noteq> 0" "t + 32 \<noteq> 0" "t + 44 \<noteq> 0"
  shows "lists_ok (linked t (prepared t stk m s)) (born_view t v)"
proof -
  let ?s3 = "prepared t stk m s"
  let ?z = "upd_tcb t (new_tcb (next_tid s) (stk + THREAD_STACK_SPACE - 64) stk)
    ((upd_tcb t (\<lambda>_. zero_tcb) s)\<lparr>heap := (heap s)\<lparr>mem := m\<rparr>, next_tid := next_tid s + 1\<rparr>)"
  have rt: "root ?z p = root s p" for p by (cases p rule: place_cases) (simp_all add: upd_tcb_def)
  have "lists_ok ?z v" by (rule lists_ok_cong [OF ok]) (use rt in \<open>simp_all add: upd_tcb_def\<close>)
  then have l3: "lists_ok ?s3 v" unfolding prepared_def using t(1) by (simp add: lists_ok_init)
  have "node_ok ?s3 t"
    using t by (simp add: node_ok_def prepared_def say_def init_nodes_def thread_listnode_init_def all_node_def local_node_def)
  then have "lists_ok (set_blocker u ob ty (all_add t ?s3)) (v\<lparr>v_all := t # v_all v\<rparr>)" for u ob ty
    using all_add_ok [OF l3 t(1)] by simp
  then show ?thesis using link_new_thread [OF l3 t(1)] by (simp add: linked_def)
qed

lemma owned_by_members:
  "image s' = image s \<Longrightarrow> (\<And>t. t \<in> set ts \<Longrightarrow> stack_base (tcbs s' t) = stack_base (tcbs s t)) \<Longrightarrow> owned_by s' ts = owned_by s ts"
  by (induction ts) (auto simp: owned_by_def owned_def)

lemma of_nat_plus_nonzero: "0 < q + k \<Longrightarrow> q + k < 4294967296 \<Longrightarrow> (of_nat q + of_nat k :: u32) \<noteq> 0"
  using unat_of_nat32 [of "q + k"] by (metis less_not_refl of_nat_add unat_0)

text \<open>What the creation of the thread \<open>t\<close> leaves of the others, and the stack it gives the new one.\<close>

definition created :: "u32 \<Rightarrow> block list \<Rightarrow> block list \<Rightarrow> kern \<Rightarrow> kern \<Rightarrow> bool" where
  "created t g g' s s' \<longleftrightarrow> current_thread s' = current_thread s \<and> image s' = image s \<and> esp_reg s' = esp_reg s \<and>
     mutexes s' = mutexes s \<and> sems s' = sems s \<and> regions_kept g (heap s) (heap s') \<and>
     (\<forall>u. u \<noteq> t \<longrightarrow> esp (tcbs s' u) = esp (tcbs s u) \<and> stack_base (tcbs s' u) = stack_base (tcbs s u) \<and>
        status (tcbs s' u) = status (tcbs s u)) \<and>
     stack_base (tcbs s' t) \<noteq> 0 \<and> esp (tcbs s' t) = stack_base (tcbs s' t) + THREAD_STACK_SPACE - 64 \<and>
     (\<exists>k \<ge> 65536. (unat (stack_base (tcbs s' t)), k) \<in> handed_out g') \<and>
     unat t \<notin> fst ` handed_out g \<and> unat (stack_base (tcbs s' t)) \<notin> fst ` handed_out g"

lemma created_keeps [simp]:
  "esp_reg (linked t (prepared t stk m s)) = esp_reg s" "mutexes (linked t (prepared t stk m s)) = mutexes s"
  "sems (linked t (prepared t stk m s)) = sems s" "esp_reg (allocated h s) = esp_reg s" "mutexes (allocated h s) = mutexes s"
  "sems (allocated h s) = sems s"
  by (simp_all add: linked_def prepared_def allocated_def set_blocker_def upd_tcb_def ready_add_def all_add_def init_nodes_def
      say_def case_prod_beta)

text \<open>Writing the stack that was just allocated disturbs no region handed out before.\<close>

lemma new_stack_kept:
  assumes inv: "heap_inv h g'" and g': "handed_out g' = insert (q, j) (insert (p, n) (handed_out g))"
    and p: "p \<notin> fst ` handed_out g" and out: "\<And>x. unat x < p \<or> p + n \<le> unat x \<Longrightarrow> m x = mem h x"
  shows "regions_kept g h (h\<lparr>mem := m\<rparr>)"
proof -
  have pn: "(p, n) \<in> handed_out g'" using g' by simp
  have "region_kept r (mem h) m" if r: "r \<in> handed_out g" for r
  proof -
    obtain a k where rk: "r = (a, k)" by (cases r)
    have "(p, n) \<noteq> (a, k)" using p r rk by force
    then show ?thesis using kheap.live_disjoint [OF inv pn, of a k] r rk g' out by (auto simp: region_kept_def)
  qed
  moreover have "outside_kept h (h\<lparr>mem := m\<rparr>)"
  proof -
    obtain L a R where b: "g' = L @ (a, n + 16, True) # R" "p = a + 16" by (rule handed_out_split [OF inv pn])
    then have m: "(a, n + 16, True) \<in> set g'" by simp
    have "same_outside (payload a (n + 16)) (mem h) m" using inv_bounds [OF inv m] b(2) by (intro payload_cover out) auto
    then show ?thesis by (rule payload_outside [OF inv m])
  qed
  ultimately show ?thesis by (simp add: regions_kept_def)
qed

lemma thread_create_ok:
  assumes k: "kinv s v" and hp: "heap_ok s v g" and tid: "next_tid s \<noteq> 0"
    and lf: "lock_free s (free_list_lock (image s))" "lock_free s (all_threads_lock (image s))" "lock_free s (local_threads_lock (image s))"
    and room: "unat (kheap_end (heap s)) + 0x12000 \<le> unat (kheap_max_end (heap s))"
    and idle: "unat (idle_thread s) \<le> unat (kheap_begin (heap s))"
  shows "\<exists>t s' g'. thread_create_arg entry arg s = Return t s' \<and> t \<notin> set (v_all v) \<and> kinv s' (born_view t v) \<and>
     heap_ok s' (born_view t v) g' \<and> handed_out g \<subseteq> handed_out g' \<and> tid (tcbs s' t) = next_tid s \<and>
     (\<forall>i < 16. load32 (mem (heap s')) (esp (tcbs s' t) + of_nat (4 * i)) =
        rev (initial_frame (thread_exit_addr (image s)) entry arg) ! i) \<and>
     (\<forall>u. u \<noteq> t \<and> u \<noteq> current_thread s \<longrightarrow> tcbs s' u = tcbs s u) \<and> created t g g' s s'"
proof -
  have c: "current_thread s \<noteq> 0" by (rule kinv_cur_nonnull [OF k])
  have hi: "heap_inv (heap s) g" using hp by (simp add: heap_ok_def)
  obtain p n h1 q j h2 g2 where a: "kcalloc_unsafe (heap s) 1 THREAD_STACK_SPACE = Inr (of_nat p, h1)"
    "kcalloc_unsafe h1 1 sizeof_thread_t = Inr (of_nat q, h2)" "heap_inv h2 g2"
    "handed_out g2 = insert (q, j) (insert (p, n) (handed_out g))" "65536 \<le> n" "56 \<le> j" "p \<noteq> q"
    "p \<notin> fst ` handed_out g" "q \<notin> fst ` handed_out g" "0 < p" "p + n < 4294967296" "q + j < 4294967296"
    "unat (kheap_begin (heap s)) < q"
    and keep: "regions_kept g (heap s) h2" and a14: "\<And>m. (\<forall>x. unat x < p \<or> p + n \<le> unat x \<longrightarrow> m x = mem h2 x) \<Longrightarrow> heap_inv (h2\<lparr>mem := m\<rparr>) g2"
    using thread_memory [OF hi room] by blast
  let ?t = "of_nat q :: u32" and ?stk = "of_nat p :: u32"
  have up: "unat ?stk = p" "unat ?t = q" using a(11,12) by (simp_all add: unat_of_nat32)
  have nz: "?stk \<noteq> 0" "?t \<noteq> 0" "?t + 32 \<noteq> 0" "?t + 44 \<noteq> 0"
    using up a(6,10,12,13) of_nat_plus_nonzero [of q 32] of_nat_plus_nonzero [of q 44] by auto
  obtain m where r: "thread_create_arg entry arg s = Return ?t (linked ?t (prepared ?t ?stk m (allocated h2 (allocated h1 s))))"
    "\<forall>x. unat x < p + 65536 - 64 \<or> p + 65536 \<le> unat x \<longrightarrow> m x = mem h2 x"
    "\<forall>i < 16. load32 m (?stk + THREAD_STACK_SPACE - of_nat (4 * (i + 1))) = initial_frame (thread_exit_addr (image s)) entry arg ! i"
    using thread_create_run [OF c tid lf a(1,2) nz(1,2), of entry arg] up a(5,11) by auto
  let ?s2 = "allocated h2 (allocated h1 s)" and ?s' = "linked ?t (prepared ?t ?stk m (allocated h2 (allocated h1 s)))"
  have fresh: "?t \<notin> set (v_all v)"
  proof
    assume t: "?t \<in> set (v_all v)"
    have "?t \<noteq> idle_thread s" using idle a(13) up(2) by auto
    then have "?t \<in> set (owned_by s (v_all v))" using t by (auto simp: owned_by_def owned_def)
    then show False using hp a(9) up(2) by (force simp: heap_ok_def)
  qed
  then have ntc: "?t \<noteq> current_thread s" using kinv_cur [OF k] by auto
  have l2: "lists_ok ?s2 v" using kinv_lists [OF k] by (simp add: allocated_def)
  have lists: "lists_ok ?s' (born_view ?t v)" by (rule created_lists [OF l2 fresh nz(2-4)])
  have tc: "tcbs ?s' u = (if u = ?t then new_tcb (next_tid s) (?stk + THREAD_STACK_SPACE - 64) ?stk zero_tcb
     else if u = current_thread s then touch (local_threads_lock (image s)) (touch (free_list_lock (image s)) (tcbs s u)) else tcbs s u)" for u
    using created_tcbs [of ?t ?s2 ?stk m u] ntc by simp
  have kinv': "kinv ?s' (born_view ?t v)"
    by (rule kinv_born [OF k fresh lists]) (simp_all add: tc new_tcb_def)
  have sb: "stack_base (tcbs ?s' u) = stack_base (tcbs s u)" if "u \<noteq> ?t" for u using that by (simp add: tc)
  have own: "owned_by ?s' (v_all (born_view ?t v)) = [?stk, ?t] @ owned_by s (v_all v)"
  proof -
    have "stack_base (tcbs ?s' u) = stack_base (tcbs s u)" if u: "u \<in> set (v_all v)" for u
    proof -
      have "u \<noteq> ?t" using u fresh by blast
      then show ?thesis by (rule sb)
    qed
    then have "owned_by ?s' (v_all v) = owned_by s (v_all v)" by (intro owned_by_members) simp_all
    moreover have "owned_by ?s' [?t] = [?stk, ?t]"
      using nz(1) idle a(13) up(2) by (auto simp: owned_by_def owned_def tc new_tcb_def)
    ultimately show ?thesis using owned_by_append [of ?s' "[?t]" "v_all v"] by (simp add: born_view_def)
  qed
  have hp': "heap_ok ?s' (born_view ?t v) g2"
  proof -
    have "heap_inv (heap ?s') g2" using a14 [of m] r(2) a(5) by simp
    moreover have "?stk \<notin> set (owned_by s (v_all v))" "?t \<notin> set (owned_by s (v_all v))"
      using hp a(8,9) up by (force simp: heap_ok_def)+
    moreover have "?stk \<noteq> ?t" using up a(7) by auto
    ultimately show ?thesis using hp a(4) up own by (auto simp: heap_ok_def)
  qed
  have "load32 (mem (heap ?s')) (esp (tcbs ?s' ?t) + of_nat (4 * i)) = rev (initial_frame (thread_exit_addr (image s)) entry arg) ! i"
    if i: "i < 16" for i
  proof -
    have "length (initial_frame (thread_exit_addr (image s)) entry arg) = 16" by (simp add: initial_frame_def Let_def)
    moreover have "esp (tcbs ?s' ?t) + of_nat (4 * i) = ?stk + THREAD_STACK_SPACE - of_nat (4 * (15 - i + 1))"
      using i by (simp add: tc new_tcb_def of_nat_diff algebra_simps)
    moreover have "load32 m (?stk + THREAD_STACK_SPACE - of_nat (4 * (15 - i + 1))) =
        initial_frame (thread_exit_addr (image s)) entry arg ! (15 - i)" using r(3) i by (simp only:)
    moreover have "mem (heap ?s') = m" by simp
    moreover have "16 - Suc i = 15 - i" by simp
    ultimately show ?thesis using i by (simp only: rev_nth)
  qed
  moreover have "created ?t g g2 s ?s'"
  proof -
    have "m x = mem h2 x" if "unat x < p \<or> p + n \<le> unat x" for x using r(2) that a(5) by auto
    then have "regions_kept g (heap s) (h2\<lparr>mem := m\<rparr>)" using regions_kept_grow [OF keep new_stack_kept [OF a(3,4,8), of m]] by simp
    then show ?thesis using tc nz(1) a(4,5,8,9) up by (auto simp: created_def new_tcb_def)
  qed
  ultimately show ?thesis
    using r(1) fresh kinv' hp' a(4) tc by (intro exI [of _ ?t] exI [of _ ?s'] exI [of _ g2]) (auto simp: new_tcb_def)
qed

section \<open>The first threads\<close>

text \<open>The static state of a kernel that has just been loaded: no list has a member.\<close>

definition bare :: "kern \<Rightarrow> bool" where
  "bare s \<longleftrightarrow> all_threads s = 0 \<and> ready_threads s = 0 \<and> sleeping_threads s = 0 \<and> zombie_threads s = 0 \<and>
     (\<forall>a. sem_queue (sems s a) = \<lparr>wait_queue_head = 0, wait_queue_tail = 0\<rparr>) \<and>
     (\<forall>c. condvars s c = \<lparr>wait_queue_head = 0, wait_queue_tail = 0\<rparr>)"

definition image_ok :: "kern \<Rightarrow> bool" where
  "image_ok s \<longleftrightarrow> idle_thread s \<noteq> 0 \<and> unat (idle_thread s) + 56 \<le> unat (kheap_begin (heap s)) \<and>
     unat (idle_stack (image s)) + 65536 \<le> unat (kheap_begin (heap s))"

abbreviation no_view :: view where "no_view \<equiv> \<lparr>v_all = [], v_at = (\<lambda>_. [])\<rparr>"

lemma bare_lists: "bare s \<Longrightarrow> lists_ok s no_view"
proof -
  assume b: "bare s"
  have "place_holds p (root s p) (local_links s) []" for p
    using b by (cases p rule: place_cases) (simp_all add: place_holds_def bare_def)
  then show ?thesis using b by (simp add: lists_ok_def bare_def)
qed

lemma bare_mutex_init [simp]: "bare s \<Longrightarrow> bare (mutex_init m s)"
  by (simp add: bare_def mutex_init_def semaphore_init_def upd_mutex_def upd_sem_def)

lemma mutex_init_fields [simp]:
  "tcbs (mutex_init m s) = tcbs s" "image (mutex_init m s) = image s" "heap (mutex_init m s) = heap s" "next_tid (mutex_init m s) = next_tid s"
  "current_thread (mutex_init m s) = current_thread s" "hw (mutex_init m s) = hw s" "timer_ticks (mutex_init m s) = timer_ticks s"
  "esp_reg (mutex_init m s) = esp_reg s"
  by (simp_all add: mutex_init_def semaphore_init_def upd_mutex_def upd_sem_def)

lemma lock_free_init: "lock_free (mutex_init m s) l \<longleftrightarrow> l = m \<or> lock_free s l"
  by (simp add: lock_free_def mutex_init_def semaphore_init_def upd_mutex_def upd_sem_def free_mutex_def)

lemma lists_ok_link:
  assumes ok: "lists_ok s v" and t: "t \<notin> set (v_all v)" "t \<noteq> 0" "t + 32 \<noteq> 0" "t + 44 \<noteq> 0"
  shows "lists_ok (all_add t (init_nodes t s)) (v\<lparr>v_all := t # v_all v\<rparr>)"
proof (rule all_add_ok [OF lists_ok_init [OF ok t(1)] t(1)])
  show "node_ok (init_nodes t s) t"
    using t by (simp add: node_ok_def init_nodes_def thread_listnode_init_def all_node_def local_node_def)
qed

text \<open>The state after each step of \<^verbatim>\<open>thread_main_init\<close>.\<close>

definition main_linked :: "u32 \<Rightarrow> km_state \<Rightarrow> kern \<Rightarrow> kern" where
  "main_linked t h s = (all_add t (init_nodes t (upd_tcb t (\<lambda>_. zero_tcb\<lparr>status := ThreadStatus_Running\<rparr>)
     ((mutex_init (local_threads_lock (image s)) (mutex_init (all_threads_lock (image s)) (s\<lparr>threads_inited := True\<rparr>)))\<lparr>heap := h\<rparr>))))
     \<lparr>current_thread := t\<rparr>"

definition idle_linked :: "memory \<Rightarrow> kern \<Rightarrow> kern" where
  "idle_linked m s = all_add (idle_thread s) (say ''Creating thread %u\<newline>'' [Val (next_tid s)]
     (init_nodes (idle_thread s) (upd_tcb (idle_thread s) (new_tcb (next_tid s) (idle_stack (image s) + THREAD_STACK_SPACE - 64) (idle_stack (image s)))
       (s\<lparr>heap := (heap s)\<lparr>mem := m\<rparr>, next_tid := next_tid s + 1\<rparr>))))"

lemma main_linked_fields [simp]:
  "tcbs (main_linked t h s) = (tcbs s)(t := zero_tcb\<lparr>status := ThreadStatus_Running\<rparr>)" "image (main_linked t h s) = image s"
  "heap (main_linked t h s) = h" "next_tid (main_linked t h s) = next_tid s" "current_thread (main_linked t h s) = t"
  "timer_ticks (main_linked t h s) = timer_ticks s" "hw (main_linked t h s) = hw s" "esp_reg (main_linked t h s) = esp_reg s"
  by (simp_all add: main_linked_def upd_tcb_def all_add_def init_nodes_def case_prod_beta)

lemma idle_linked_fields [simp]:
  "tcbs (idle_linked m s) = (tcbs s)(idle_thread s := new_tcb (next_tid s) (idle_stack (image s) + THREAD_STACK_SPACE - 64)
     (idle_stack (image s)) (tcbs s (idle_thread s)))"
  "image (idle_linked m s) = image s" "heap (idle_linked m s) = (heap s)\<lparr>mem := m\<rparr>" "current_thread (idle_linked m s) = current_thread s"
  "eflags (hw (idle_linked m s)) = eflags (hw s)" "timer_ticks (idle_linked m s) = timer_ticks s" "next_tid (idle_linked m s) = next_tid s + 1" "esp_reg (idle_linked m s) = esp_reg s"
  by (simp_all add: idle_linked_def upd_tcb_def all_add_def init_nodes_def case_prod_beta)

lemma thread_main_init_run:
  assumes "\<not> threads_inited s" "next_tid s = 1" "kcalloc_unsafe (heap s) 1 sizeof_thread_t = Inr (t, h)"
    "t \<noteq> 0" "unat (idle_stack (image s)) + 65536 < 4294967296"
  shows "\<exists>m. thread_main_init s = Inr (idle_linked m (main_linked t h s)) \<and>
     (\<forall>x. unat x < unat (idle_stack (image s)) \<or> unat (idle_stack (image s)) + 65536 \<le> unat x \<longrightarrow> m x = mem h x) \<and>
     (\<forall>i < 16. load32 m (idle_stack (image s) + THREAD_STACK_SPACE - of_nat (4 * (i + 1))) =
        initial_frame (thread_exit_addr (image s)) (cpu_idle_loop_addr (image s)) 0 ! i)"
proof -
  let ?s4 = "main_linked t h s" and ?sp = "idle_stack (image s) + THREAD_STACK_SPACE"
  have sp: "unat ?sp = unat (idle_stack (image s)) + 65536" using assms(5) by (simp add: unat_word_ariths)
  obtain m where i: "internal_thread_init (cpu_idle_loop_addr (image s)) 0 (idle_stack (image s)) ?sp (idle_thread s) ?s4 =
      Inr (say ''Creating thread %u\<newline>'' [Val (next_tid s)] (init_nodes (idle_thread s) (upd_tcb (idle_thread s)
        (new_tcb (next_tid s) (?sp - 64) (idle_stack (image s))) (?s4\<lparr>heap := h\<lparr>mem := m\<rparr>, next_tid := next_tid s + 1\<rparr>))))"
    "\<forall>x. unat x < unat ?sp - 64 \<or> unat ?sp \<le> unat x \<longrightarrow> m x = mem h x"
    "\<forall>i < 16. load32 m (?sp - of_nat (4 * (i + 1))) = initial_frame (thread_exit_addr (image s)) (cpu_idle_loop_addr (image s)) 0 ! i"
    using internal_thread_init_run [of ?s4 ?sp "cpu_idle_loop_addr (image s)" 0 "idle_stack (image s)" "idle_thread s"] assms(2) sp by auto
  have s4: "(all_add t (init_nodes t (upd_tcb t (\<lambda>_. zero_tcb\<lparr>tid := 0, status := ThreadStatus_Running, blocked_on := 0,
       blocker_type := BlockerType_None, wakeup_ticks := 0\<rparr>)
     ((mutex_init (local_threads_lock (image s)) (mutex_init (all_threads_lock (image s)) (s\<lparr>threads_inited := True\<rparr>)))\<lparr>heap := h\<rparr>))))
     \<lparr>current_thread := t\<rparr> = ?s4" by (simp add: main_linked_def zero_tcb_def)
  have t4: "tid (tcbs (upd_tcb t (\<lambda>_. zero_tcb\<lparr>tid := 0, status := st, blocked_on := 0, blocker_type := bt, wakeup_ticks := 0\<rparr>) x) t) = 0"
    "tid (tcbs (upd_tcb t (new_tcb i sp' stk) x) t) = i" for t st bt i sp' stk x by (simp_all add: upd_tcb_def new_tcb_def)
  have "thread_main_init s = Inr (idle_linked m ?s4)"
    using assms(1-4) i(1)
    by (simp add: thread_main_init_def Let_def s4 t4 idle_linked_def del: main_linked_fields(1))
  moreover have "\<forall>x. unat x < unat (idle_stack (image s)) \<or> unat (idle_stack (image s)) + 65536 \<le> unat x \<longrightarrow> m x = mem h x" using i(2) sp by auto
  ultimately show ?thesis using i(3) by blast
qed

text \<open>What the first switch to the idle thread will find.\<close>

definition idle_made :: "kern \<Rightarrow> kern \<Rightarrow> bool" where
  "idle_made s s' \<longleftrightarrow> esp_reg s' = esp_reg s \<and> stack_base (tcbs s' (current_thread s')) = 0 \<and>
     esp (tcbs s' (idle_thread s)) = idle_stack (image s) + THREAD_STACK_SPACE - 64 \<and>
     (\<forall>i < 16. load32 (mem (heap s')) (idle_stack (image s) + THREAD_STACK_SPACE - of_nat (4 * (i + 1))) =
        initial_frame (thread_exit_addr (image s)) (cpu_idle_loop_addr (image s)) 0 ! i)"

lemma thread_main_init_ok:
  assumes b: "bare s" "\<not> threads_inited s" "next_tid s = 1" and im: "image_ok s"
    and hp: "heap_inv (heap s) g" "serviceable (heap s) g sizeof_thread_t"
  shows "\<exists>t s' g'. thread_main_init s = Inr s' \<and> current_thread s' = t \<and> running s' \<and> image s' = image s \<and>
     kinv s' \<lparr>v_all = [idle_thread s, t], v_at = (\<lambda>_. [])\<rparr> \<and> heap_ok s' \<lparr>v_all = [idle_thread s, t], v_at = (\<lambda>_. [])\<rparr> g' \<and>
     lock_free s' (all_threads_lock (image s)) \<and> lock_free s' (local_threads_lock (image s)) \<and>
     (\<forall>l. lock_free s l \<longrightarrow> lock_free s' l) \<and> next_tid s' = 2 \<and> eflags (hw s') = eflags (hw s) \<and>
     idle_made s s' \<and> kheap_begin (heap s') = kheap_begin (heap s)"
proof -
  obtain p k h g' where a: "kcalloc_unsafe (heap s) 1 sizeof_thread_t = Inr (of_nat p, h)" "heap_inv h g'"
    "handed_out g' = insert (p, k) (handed_out g)" "56 \<le> k" "p + k < 4294967296" "unat (kheap_begin (heap s)) < p"
    "kheap_begin h = kheap_begin (heap s)"
    using kcalloc_fresh [OF hp(1), of 1 sizeof_thread_t] hp(2) by auto
  let ?t = "of_nat p :: u32" and ?i = "idle_thread s"
  have up: "unat ?t = p" using a(5) by (simp add: unat_of_nat32)
  have nz: "?t \<noteq> 0" "?t + 32 \<noteq> 0" "?t + 44 \<noteq> 0"
    using up a(4-6) of_nat_plus_nonzero [of p 32] of_nat_plus_nonzero [of p 44] by auto
  have ib: "unat ?i + 56 \<le> unat (kheap_begin (heap s))" "?i \<noteq> 0" using im by (simp_all add: image_ok_def)
  have iz: "?i + 32 \<noteq> 0" "?i + 44 \<noteq> 0"
    using of_nat_plus_nonzero [of "unat ?i" 32] of_nat_plus_nonzero [of "unat ?i" 44] ib(1) unat32_bound [of "kheap_begin (heap s)"]
    by (simp_all del: unat32_bound)
  have ne: "?t \<noteq> ?i" using up a(6) ib(1) by auto
  obtain m where r: "thread_main_init s = Inr (idle_linked m (main_linked ?t h s))"
    "\<forall>x. unat x < unat (idle_stack (image s)) \<or> unat (idle_stack (image s)) + 65536 \<le> unat x \<longrightarrow> m x = mem h x"
    "\<forall>i < 16. load32 m (idle_stack (image s) + THREAD_STACK_SPACE - of_nat (4 * (i + 1))) =
        initial_frame (thread_exit_addr (image s)) (cpu_idle_loop_addr (image s)) 0 ! i"
    using thread_main_init_run [OF b(2,3) a(1) nz(1)] im unat32_bound [of "kheap_begin (heap s)"]
    by (auto simp: image_ok_def simp del: unat32_bound)
  let ?s4 = "main_linked ?t h s" and ?v = "\<lparr>v_all = [?i, ?t], v_at = (\<lambda>_. [])\<rparr> :: view"
  let ?s' = "idle_linked m ?s4"
  let ?s1 = "mutex_init (local_threads_lock (image s)) (mutex_init (all_threads_lock (image s)) (s\<lparr>threads_inited := True\<rparr>))"
  have "bare (s\<lparr>threads_inited := True\<rparr>)" using b(1) by (simp add: bare_def)
  then have "bare ?s1" by simp
  then have "lists_ok ?s1 no_view" by (rule bare_lists)
  then have l4: "lists_ok ?s4 \<lparr>v_all = [?t], v_at = (\<lambda>_. [])\<rparr>"
    using lists_ok_link [of "upd_tcb ?t (\<lambda>_. zero_tcb\<lparr>status := ThreadStatus_Running\<rparr>) (?s1\<lparr>heap := h\<rparr>)" no_view ?t] nz
    by (simp add: main_linked_def)
  have "lists_ok (?s4\<lparr>heap := h\<lparr>mem := m\<rparr>, next_tid := next_tid s + 1\<rparr>) \<lparr>v_all = [?t], v_at = (\<lambda>_. [])\<rparr>"
  proof (rule lists_ok_cong [OF l4])
    show "root (?s4\<lparr>heap := h\<lparr>mem := m\<rparr>, next_tid := next_tid s + 1\<rparr>) q = root ?s4 q" for q by (cases q rule: place_cases) simp_all
  qed simp_all
  then have l5: "lists_ok (say fm args (init_nodes ?i (upd_tcb ?i f (?s4\<lparr>heap := h\<lparr>mem := m\<rparr>, next_tid := next_tid s + 1\<rparr>))))
      \<lparr>v_all = [?t], v_at = (\<lambda>_. [])\<rparr>" for fm args f
    using ne by (simp add: lists_ok_init)
  have "node_ok (say fm args (init_nodes ?i x)) ?i" for fm args x
    using ib(2) iz by (simp add: node_ok_def say_def init_nodes_def thread_listnode_init_def all_node_def local_node_def)
  then have lists: "lists_ok ?s' ?v"
    using all_add_ok [OF l5, of ?i] ne by (simp add: idle_linked_def)
  have tc: "status (tcbs ?s' ?t) = ThreadStatus_Running" "status (tcbs ?s' ?i) = ThreadStatus_Ready" "stack_base (tcbs ?s' ?t) = 0"
    using ne by (simp_all add: new_tcb_def zero_tcb_def)
  then have "kinv ?s' ?v" using lists ne by (simp add: kinv_def)
  moreover have "heap_ok ?s' ?v g'"
  proof -
    have "m x = mem h x" if "unat (kheap_begin h) \<le> unat x" for x
      using that r(2) im a(7) by (simp add: image_ok_def)
    then have "heap_inv (heap ?s') g'" using heap_inv_outside [OF a(2), of m] by simp
    moreover have "owned_by ?s' (v_all ?v) = [?t]" using ne tc(3) by (simp add: owned_by_def owned_def)
    ultimately show ?thesis using a(3) up by (auto simp: heap_ok_def)
  qed
  moreover have "lock_free ?s' l \<longleftrightarrow> l = local_threads_lock (image s) \<or> l = all_threads_lock (image s) \<or> lock_free s l" for l
  proof -
    have "lock_free (x\<lparr>current_thread := c\<rparr>) l = lock_free x l" "lock_free (x\<lparr>threads_inited := bb\<rparr>) l = lock_free x l" for x c bb
      by (simp_all add: lock_free_def)
    then show ?thesis by (simp add: idle_linked_def main_linked_def lock_free_init)
  qed
  moreover have "idle_made s ?s'"
    using r(3) tc(3) ne by (auto simp: idle_made_def new_tcb_def)
  ultimately show ?thesis using r(1) tc(1) b(3) a(7) by (intro exI [of _ ?t] exI [of _ ?s'] exI [of _ g']) (simp add: running_def)
qed

end
