(* ===== verification/ThreadExample.thy ===== *)
theory ThreadExample
  imports SystemSafety KmallocProps ThreadCreate
begin

text \<open>
  A small kernel on which the theorems about threads are applied: the main thread runs, the idle thread
  is static, and a second thread, with a stack of its own, is in any one place. Their memory is in
  a heap of three blocks that are handed out and a free one; the two stacks hold the frames of threads
  that have not run yet.
\<close>

definition ex_headers :: memory where
  "ex_headers = store32 (store32 (store32 (store32 (store32 (store32 (store32 (store32 (\<lambda>_. 0) 0x200000 0x51) 0x200008 KMALLOC_MAGIC)
      0x200050 0x51) 0x200058 KMALLOC_MAGIC) 0x2000A0 0x10011) 0x2000A8 KMALLOC_MAGIC) 0x2100B0 0x3F50) 0x2100B8 KMALLOC_MAGIC"

definition ex_mem :: memory where
  "ex_mem = fst (push_words (fst (push_words ex_headers 0x2100B0 (initial_frame 0x101000 0x102000 7)))
      0x116000 (initial_frame 0x101000 0x101100 0))"

definition ex_heap :: km_state where
  "ex_heap = heap0\<lparr>mem := ex_mem, free_list := 0x2100B0, kheap_end := 0x214000\<rparr>"

abbreviation ex_blocks :: "block list" where
  "ex_blocks \<equiv> [(0x200000, 0x50, True), (0x200050, 0x50, True), (0x2000A0, 0x10010, True), (0x2100B0, 0x3F50, False)]"

abbreviation t_main :: u32 where "t_main \<equiv> 0x200010"
abbreviation t_two :: u32 where "t_two \<equiv> 0x200060"
abbreviation t_idle :: u32 where "t_idle \<equiv> 0x105000"

definition ex_image :: kernel_image where
  "ex_image = \<lparr>idle_thread_addr = t_idle, idle_stack = 0x106000, all_threads_lock = 0x120000, local_threads_lock = 0x120020,
     free_list_lock = 0x120040, serial_lock = (\<lambda>_. 0x120060), thread_exit_addr = 0x101000, cpu_idle_loop_addr = 0x101100\<rparr>"

definition ex_tcb :: "u32 \<Rightarrow> ThreadStatus \<Rightarrow> u32 \<Rightarrow> tcb" where
  "ex_tcb i st stk = \<lparr>tid = i, esp = (if stk = 0 then 0 else stk + 65472), status = st, exit_code = 0, wakeup_ticks = 10, stack_base = stk,
     blocker_type = BlockerType_None, blocked_on = 0\<rparr>"

definition ex_queue :: "place \<Rightarrow> place \<Rightarrow> wqueue" where
  "ex_queue p q = (if q = p then \<lparr>wait_queue_head = 0x20008C, wait_queue_tail = 0x20008C\<rparr>
     else \<lparr>wait_queue_head = 0, wait_queue_tail = 0\<rparr>)"

text \<open>The nodes: no list but that of all threads has two members.\<close>

definition ex_kern :: "place \<Rightarrow> kern" where
  "ex_kern p = \<lparr>image = ex_image,
     all_links = (\<lambda>_. \<lparr>thread = 0, nxt = 0, prev = 0\<rparr>)
       (0x200080 := \<lparr>thread = t_two, nxt = 0x105020, prev = 0\<rparr>, 0x105020 := \<lparr>thread = t_idle, nxt = 0x200030, prev = 0x200080\<rparr>,
        0x200030 := \<lparr>thread = t_main, nxt = 0, prev = 0x105020\<rparr>),
     local_links = (\<lambda>a. \<lparr>thread = a - 44, nxt = 0, prev = 0\<rparr>),
     tcbs = (\<lambda>_. ex_tcb 0 ThreadStatus_Ready 0)(t_main := ex_tcb 0 ThreadStatus_Running 0,
       t_idle := ex_tcb 1 ThreadStatus_Ready 0x106000, t_two := ex_tcb 2 (place_status p) 0x2000B0),
     all_threads = 0x200080, ready_threads = wait_queue_head (ex_queue p P_ready),
     sleeping_threads = wait_queue_head (ex_queue p P_sleep), zombie_threads = wait_queue_head (ex_queue p P_zombie),
     current_thread = t_main, next_tid = 3, threads_inited = True,
     sems = (\<lambda>a. \<lparr>sem_count = (if p = P_wait (SemQ a) then - 1 else 1), sem_queue = ex_queue p (P_wait (SemQ a))\<rparr>),
     mutexes = (\<lambda>_. free_mutex), condvars = (\<lambda>a. ex_queue p (P_wait (CondQ a))),
     serial_locks_initialized = (\<lambda>_. True), timer_ticks = 9, first_tick = False, esp_reg = 0x90000,
     heap = ex_heap, hw = \<lparr>io_trace = [], eflags = EFLAGS_DEFAULT\<rparr>\<rparr>"

definition ex_view :: "place \<Rightarrow> view" where
  "ex_view p = \<lparr>v_all = [t_two, t_idle, t_main], v_at = (\<lambda>q. if q = p then [t_two] else [])\<rparr>"

lemma ex_header_words:
  "load32 ex_headers 0x200000 = 0x51" "load32 ex_headers 0x200008 = KMALLOC_MAGIC"
  "load32 ex_headers 0x200050 = 0x51" "load32 ex_headers 0x200058 = KMALLOC_MAGIC"
  "load32 ex_headers 0x2000A0 = 0x10011" "load32 ex_headers 0x2000A8 = KMALLOC_MAGIC"
  "load32 ex_headers 0x2100B0 = 0x3F50" "load32 ex_headers 0x2100B4 = 0" "load32 ex_headers 0x2100B8 = KMALLOC_MAGIC"
  by code_simp+

lemma initial_frame_length [simp]: "length (initial_frame x e a) = 16"
  by (simp add: initial_frame_def Let_def)

lemma ex_mem_words:
  "load32 ex_mem 0x200000 = 0x51" "load32 ex_mem 0x200008 = KMALLOC_MAGIC"
  "load32 ex_mem 0x200050 = 0x51" "load32 ex_mem 0x200058 = KMALLOC_MAGIC"
  "load32 ex_mem 0x2000A0 = 0x10011" "load32 ex_mem 0x2000A8 = KMALLOC_MAGIC"
  "load32 ex_mem 0x2100B0 = 0x3F50" "load32 ex_mem 0x2100B4 = 0" "load32 ex_mem 0x2100B8 = KMALLOC_MAGIC"
  by (simp_all add: ex_mem_def push_words_load ex_header_words)

lemma ex_heap_inv: "heap_inv ex_heap ex_blocks"
  by (simp add: heap_eval ex_heap_def heap0_def ex_mem_words)

lemma ex_fields [simp]:
  "image (ex_kern p) = ex_image" "current_thread (ex_kern p) = t_main" "heap (ex_kern p) = ex_heap"
  "mutexes (ex_kern p) a = free_mutex" "timer_ticks (ex_kern p) = 9" "hw (ex_kern p) = \<lparr>io_trace = [], eflags = EFLAGS_DEFAULT\<rparr>"
  "tcbs (ex_kern p) t_main = ex_tcb 0 ThreadStatus_Running 0" "tcbs (ex_kern p) t_idle = ex_tcb 1 ThreadStatus_Ready 0x106000"
  "tcbs (ex_kern p) t_two = ex_tcb 2 (place_status p) 0x2000B0"
  "sem_count (sems (ex_kern p) a) = (if p = P_wait (SemQ a) then - 1 else 1)"
  "idle_thread_addr ex_image = t_idle" "free_list_lock ex_image = 0x120040"
  "v_all (ex_view p) = [t_two, t_idle, t_main]" "v_at (ex_view p) q = (if q = p then [t_two] else [])"
  by (simp_all add: ex_kern_def ex_image_def ex_view_def)

lemma ex_lists: "lists_ok (ex_kern p) (ex_view p)"
proof -
  have "place_holds q (root (ex_kern p) q) (local_links (ex_kern p)) (v_at (ex_view p) q)" for q
    by (cases q rule: place_cases) (auto simp: place_holds_def ex_kern_def ex_queue_def local_node_def)
  moreover have "dll (all_links (ex_kern p)) 0 (all_threads (ex_kern p)) (map all_node (v_all (ex_view p)))"
    by (simp add: ex_kern_def all_node_def)
  moreover have "\<forall>t \<in> set (v_all (ex_view p)). node_ok (ex_kern p) t"
    by (simp add: node_ok_def all_node_def local_node_def ex_kern_def)
  moreover have "set (v_at (ex_view p) q) \<subseteq> set (v_all (ex_view p))"
    "q \<noteq> q' \<Longrightarrow> set (v_at (ex_view p) q) \<inter> set (v_at (ex_view p) q') = {}" for q q' by auto
  ultimately show ?thesis unfolding lists_ok_def by blast
qed

lemma ex_kinv: "kinv (ex_kern p) (ex_view p)"
  using ex_lists [of p] by (simp add: kinv_def ex_tcb_def)

lemma ex_running: "running (ex_kern p)"
  by (simp add: running_def ex_tcb_def)

lemma ex_heap_ok: "heap_ok (ex_kern p) (ex_view p) ex_blocks"
proof -
  have "owned_by (ex_kern p) (v_all (ex_view p)) = [0x2000B0, t_two, t_main]"
    by (simp add: owned_by_def owned_def ex_tcb_def)
  moreover have "\<forall>q \<in> set [0x2000B0, t_two, t_main]. \<exists>n. (unat q, n) \<in> handed_out ex_blocks"
    by (auto simp: handed_out_def)
  ultimately show ?thesis using ex_heap_inv by (simp add: heap_ok_def)
qed

lemma ex_lock: "p \<noteq> P_wait (SemQ 0x120040) \<Longrightarrow> lock_free (ex_kern p) (free_list_lock (image (ex_kern p)))"
  by (simp add: lock_free_def ex_kern_def ex_queue_def ex_image_def)

lemma ex_sem: "sem_ok (ex_kern p) (ex_view p) a"
  by (simp add: sem_ok_def)

lemma ex_initial: "initial M (ex_kern P_ready) (ex_view P_ready) ex_blocks"
  using ex_kinv ex_running ex_heap_ok ex_lock by (simp add: initial_def)

end
