(* ===== verification/ThreadProps.thy ===== *)
theory ThreadProps
  imports ThreadExample ThreadCreate
begin

text \<open>
  The theorems about threads and synchronisation, each with the kernel of \<open>ThreadExample\<close> as an instance.
\<close>

section \<open>The scheduler\<close>

text \<open>C7. The timer interrupt refines the scheduling policy on lists: it counts the tick, moves the threads
  that are due to the ready list, frees the dead threads, and continues with the thread that has
  waited longest (the running one if no other is ready, the idle one if it cannot run either). It
  never panics, keeps the invariant and touches no mutex and no count.\<close>

theorem timer_interrupt_schedules:
  assumes "kinv s v" "heap_ok s v g" "lock_free s (free_list_lock (image s))"
  shows "\<exists>s' g'. isr_IRQ0 s = Inr s' \<and> kinv s' (sched_view s (ticked_view s v)) \<and> running s' \<and>
     current_thread s' = pick s (ticked_view s v) \<and> heap_ok s' (sched_view s (ticked_view s v)) g' \<and>
     lock_free s' (free_list_lock (image s)) \<and> mutexes s' = mutexes s \<and>
     (\<forall>a. sem_count (sems s' a) = sem_count (sems s a)) \<and> timer_ticks s' = timer_ticks s + 1 \<and>
     (\<forall>t. esp (tcbs s' t) = (if t = current_thread s then esp_reg s - 56 else esp (tcbs s t))) \<and>
     esp_reg s' = esp (tcbs s' (current_thread s')) + 56"
  using isr_IRQ0_ok [OF assms(1,2) can_clean_free [OF assms(3)]] assms(3) by blast

lemma ex_pick: "pick (ex_kern P_ready) (ticked_view (ex_kern P_ready) (ex_view P_ready)) = t_two"
  by (simp add: pick_def ticked_view_def tick_view_def)

theorem timer_interrupt_schedules_witness:
  "\<exists>s'. isr_IRQ0 (ex_kern P_ready) = Inr s' \<and> current_thread s' = t_two \<and> running s' \<and> timer_ticks s' = 10"
  using timer_interrupt_schedules [OF ex_kinv ex_heap_ok ex_lock, of P_ready] by (auto simp: ex_pick)

lemma round_advances:
  assumes k: "kinv s v" and q: "v_ready v = xs @ t # ys" "ys \<noteq> []"
  shows "\<exists>xs'. v_ready (sched_view s (ticked_view s v)) = xs' @ t # butlast ys"
proof -
  have r: "v_ready (ticked_view s v) = rev (filter (due (s\<lparr>timer_ticks := timer_ticks s + 1\<rparr>)) (v_sleep v)) @ xs @ t # ys"
    using q(1) by (simp add: ticked_view_def tick_view_def)
  have p: "pick s (ticked_view s v) = last ys" using q(2) by (simp add: pick_def r)
  have "last ys \<in> set (v_ready v)" using q by simp
  then have "last ys \<noteq> current_thread s" using kinv_cur_place [OF k, of P_ready] by auto
  then show ?thesis
    using p q(2) by (auto simp: sched_view_def leave_view_def Let_def r butlast_append split: ThreadStatus.splits)
qed

text \<open>C22. The timer tick makes exactly the sleeping threads ready whose time has come.\<close>

theorem timer_tick_wakes_due:
  assumes "kinv s v"
  shows "\<exists>s'. thread_timer_tick s = Inr s' \<and> frame s s' \<and> kinv s' (tick_view s v) \<and>
     (\<forall>t. tcbs s' t = (if t \<in> set (v_sleep v) \<and> wakeup_ticks (tcbs s t) \<le> timer_ticks s
        then (tcbs s t)\<lparr>status := ThreadStatus_Ready\<rparr> else tcbs s t))"
  using thread_timer_tick_ok [OF assms] by (simp add: due_def)

theorem timer_tick_wakes_due_witness:
  "\<exists>s'. thread_timer_tick (ex_kern P_sleep\<lparr>timer_ticks := 10\<rparr>) = Inr s' \<and> status (tcbs s' t_two) = ThreadStatus_Ready"
proof -
  have "kinv (ex_kern P_sleep\<lparr>timer_ticks := 10\<rparr>) (ex_view P_sleep)" using ex_kinv by simp
  from timer_tick_wakes_due [OF this] show ?thesis by (auto simp: ex_tcb_def)
qed

text \<open>C21. Dead threads are freed once: while the lock of the heap is free, \<open>clean_zombies\<close> removes every zombie from the
  lists and gives its stack and its control block back to the heap, and no other block. Every block that is still handed out
  keeps its bytes (the headers of free blocks change as the freed ones are linked and merged), and no thread is touched
  beyond the blocker note of the running one.\<close>

theorem clean_zombies_frees:
  assumes "kinv s v" "heap_ok s v g" "lock_free s (free_list_lock (image s))"
  shows "\<exists>s' g'. clean_zombies s = Inr s' \<and> kinv s' (clean_view v) \<and> heap_ok s' (clean_view v) g' \<and>
     tcbs s' = (if v_zombie v = [] then tcbs s else touched s) \<and>
     handed_out g' = {r \<in> handed_out g. fst r \<notin> unat ` set (owned_by s (v_zombie v))} \<and>
     (\<forall>r \<in> handed_out g'. region_kept r (mem (heap s)) (mem (heap s')))"
proof -
  obtain s' g' where "clean_zombies_from (zombie_threads s) s = Some (Inr s')" "kinv s' (clean_view v)"
    "heap_ok s' (clean_view v) g'" "tcbs s' = (if v_zombie v = [] then tcbs s else touched s)"
    "handed_out g' = {r \<in> handed_out g. fst r \<notin> unat ` set (owned_by s (v_zombie v))}" "regions_kept g' (heap s) (heap s')"
    using clean_zombies_from_ok [OF assms(1,2) can_clean_free [OF assms(3)]] by blast
  then show ?thesis by (intro exI [of _ s'] exI [of _ g']) (simp add: clean_zombies_def regions_kept_def)
qed

theorem clean_zombies_frees_witness:
  "\<exists>s' g'. clean_zombies (ex_kern P_zombie) = Inr s' \<and> heap_ok s' (clean_view (ex_view P_zombie)) g' \<and>
     handed_out g' = {r \<in> handed_out ex_blocks. fst r \<notin> {0x2000B0, 0x200060}}"
proof -
  have "unat ` set (owned_by (ex_kern P_zombie) (v_zombie (ex_view P_zombie))) = {0x2000B0, 0x200060}"
    by (auto simp: owned_by_def owned_def ex_tcb_def)
  then show ?thesis using clean_zombies_frees [OF ex_kinv ex_heap_ok ex_lock, of P_zombie] by auto
qed

lemma initial_frame_words:
  "rev (initial_frame ex entry arg) = [0x10, 0x10, 0x10, 0x10, 0, 0, 0, 0, 0, 0, 0, entry, 8, EFLAGS_DEFAULT, ex, arg]"
proof -
  have "(ucast (segselector_init SegmentKernelCode TableIndex_GDT SegmentPrivilege_Ring0) :: u32) = 8"
    "(ucast (segselector_init SegmentKernelData TableIndex_GDT SegmentPrivilege_Ring0) :: u32) = 0x10" by code_simp+
  then show ?thesis by (simp add: initial_frame_def)
qed

text \<open>\<open>thread_create_arg\<close> adds a thread: it gets fresh memory for its stack and control block and the next
  identifier, joins the list of all threads and the ready list, and its stack holds the words that
  the end of the timer interrupt takes off: kernel segments, zero registers, the entry point with
  interrupts enabled, and under it the return into \<open>thread_exit\<close> and the argument.\<close>

theorem thread_create_adds:
  assumes "kinv s v" "heap_ok s v g" "next_tid s \<noteq> 0"
    "lock_free s (free_list_lock (image s))" "lock_free s (all_threads_lock (image s))" "lock_free s (local_threads_lock (image s))"
    "unat (kheap_end (heap s)) + 0x12000 \<le> unat (kheap_max_end (heap s))" "unat (idle_thread s) \<le> unat (kheap_begin (heap s))"
  shows "\<exists>t s' g'. thread_create_arg entry arg s = Return t s' \<and> t \<notin> set (v_all v) \<and> kinv s' (born_view t v) \<and>
     heap_ok s' (born_view t v) g' \<and> handed_out g \<subseteq> handed_out g' \<and> tid (tcbs s' t) = next_tid s \<and>
     map (\<lambda>i. load32 (mem (heap s')) (esp (tcbs s' t) + of_nat (4 * i))) [0..<16] =
       [0x10, 0x10, 0x10, 0x10, 0, 0, 0, 0, 0, 0, 0, entry, 8, EFLAGS_DEFAULT, thread_exit_addr (image s), arg] \<and>
     (\<forall>u. u \<noteq> t \<and> u \<noteq> current_thread s \<longrightarrow> tcbs s' u = tcbs s u)"
proof -
  obtain t s' g' where c: "thread_create_arg entry arg s = Return t s'" "t \<notin> set (v_all v)" "kinv s' (born_view t v)"
    "heap_ok s' (born_view t v) g'" "handed_out g \<subseteq> handed_out g'" "tid (tcbs s' t) = next_tid s"
    "\<forall>i < 16. load32 (mem (heap s')) (esp (tcbs s' t) + of_nat (4 * i)) = rev (initial_frame (thread_exit_addr (image s)) entry arg) ! i"
    "\<forall>u. u \<noteq> t \<and> u \<noteq> current_thread s \<longrightarrow> tcbs s' u = tcbs s u"
    using thread_create_ok [OF assms, of entry arg] by blast
  have "map (\<lambda>i. load32 (mem (heap s')) (esp (tcbs s' t) + of_nat (4 * i))) [0..<16] = rev (initial_frame (thread_exit_addr (image s)) entry arg)"
    using c(7) by (intro nth_equalityI) (simp_all add: initial_frame_words)
  then show ?thesis using c(1-6,8) unfolding initial_frame_words
    by (intro exI [of _ t] exI [of _ s'] exI [of _ g'] conjI) assumption+
qed

lemma ex_locks: "p \<noteq> P_wait (SemQ l) \<Longrightarrow> lock_free (ex_kern p) l"
  by (simp add: lock_free_def ex_kern_def ex_queue_def)

theorem thread_create_adds_witness:
  "\<exists>t s'. thread_create_arg 0x101500 42 (ex_kern P_ready) = Return t s' \<and> kinv s' (born_view t (ex_view P_ready)) \<and>
     tid (tcbs s' t) = 3 \<and> load32 (mem (heap s')) (esp (tcbs s' t) + 44) = 0x101500"
proof -
  have "next_tid (ex_kern P_ready) = 3" by (simp add: ex_kern_def)
  moreover have "unat (kheap_end ex_heap) + 0x12000 \<le> unat (kheap_max_end ex_heap)" "unat t_idle \<le> unat (kheap_begin ex_heap)"
    by (simp_all add: ex_heap_def heap0_def)
  ultimately obtain t s' where c: "thread_create_arg 0x101500 42 (ex_kern P_ready) = Return t s'" "kinv s' (born_view t (ex_view P_ready))"
    "tid (tcbs s' t) = 3" "map (\<lambda>i. load32 (mem (heap s')) (esp (tcbs s' t) + of_nat (4 * i))) [0..<16] =
       [0x10, 0x10, 0x10, 0x10, 0, 0, 0, 0, 0, 0, 0, 0x101500, 8, EFLAGS_DEFAULT, thread_exit_addr (image (ex_kern P_ready)), 42]"
    using thread_create_adds [OF ex_kinv [of P_ready] ex_heap_ok _ ex_locks ex_locks ex_locks, of "0x101500" "42"] by auto
  have "load32 (mem (heap s')) (esp (tcbs s' t) + 44) = map (\<lambda>i. load32 (mem (heap s')) (esp (tcbs s' t) + of_nat (4 * i))) [0..<16] ! 11"
    by simp
  also have "\<dots> = 0x101500" unfolding c(4) by simp
  finally show ?thesis using c(1-3) by blast
qed

section \<open>Synchronisation\<close>

text \<open>C23. \<open>semaphore_up\<close> adds one to the count and hands it to the thread that has waited longest, which
  becomes ready; with nobody waiting only the count changes. No one else is woken.\<close>

theorem semaphore_up_hands_over:
  assumes "kinv s v" "running s" "sem_ok s v a" "level s a < 2147483647"
  shows "\<exists>s'. semaphore_up a s = Inr s' \<and> kinv s' (wake_view (SemQ a) v) \<and> sem_ok s' (wake_view (SemQ a) v) a \<and>
     sem_count (sems s' a) = sem_count (sems s a) + 1 \<and> hw s' = hw s \<and> current_thread s' = current_thread s \<and>
     tcbs s' = (case v_sem v a of [] \<Rightarrow> tcbs s | t # _ \<Rightarrow> (tcbs s)(t := wake_tcb (tcbs s t)))"
proof -
  have "current_thread s \<notin> set (v_sem v a)" by (rule running_unplaced [OF assms(1,2)])
  then have "v_sem v a \<noteq> [] \<Longrightarrow> hd (v_sem v a) \<noteq> current_thread s" using hd_in_set [of "v_sem v a"] by fastforce
  from semaphore_up_wakes [OF assms(1,3,4) this] show ?thesis by (auto simp: frame_def wake_tcbs_def)
qed

theorem semaphore_up_hands_over_witness:
  "\<exists>s'. semaphore_up 0x140000 (ex_kern (P_wait (SemQ 0x140000))) = Inr s' \<and> sem_count (sems s' 0x140000) = 0 \<and>
     status (tcbs s' t_two) = ThreadStatus_Ready"
  using semaphore_up_hands_over [OF ex_kinv [of "P_wait (SemQ 0x140000)"] ex_running ex_sem [of _ "0x140000"]]
  by (auto simp: wake_tcb_def)

text \<open>C24. \<open>semaphore_down\<close> takes one from a positive count and returns; otherwise the caller joins the end of
  the queue, is blocked, and gives up the processor, to return with the interrupt flag restored
  when it runs again. Either way the number of waiting threads matches the count.\<close>

theorem semaphore_down_takes_or_waits:
  assumes k: "kinv s v" "running s" "current_thread s \<noteq> idle_thread s" and sem: "sem_ok s v a" "- 2147483648 < level s a"
  shows "if 0 < level s a
     then \<exists>s'. semaphore_down a s = Return () s' \<and> s' = set_count a (sem_count (sems s a) - 1) s \<and> kinv s' v \<and> sem_ok s' v a
     else \<exists>s'. semaphore_down a s = Yield s' (\<lambda>s1. Return () (irq_restore (interrupt_is_enabled (hw s)) s1)) \<and>
       kinv s' (wait_view (SemQ a) (current_thread s) v) \<and> sem_ok s' (wait_view (SemQ a) (current_thread s) v) a \<and>
       sem_count (sems s' a) = sem_count (sems s a) - 1 \<and> status (tcbs s' (current_thread s)) = ThreadStatus_Blocked"
proof (cases "0 < level s a")
  case True
  then show ?thesis
    using semaphore_down_takes [OF k(1) True] sint_dec [OF sem(2)] sem(1) k(1) by (simp add: sem_ok_def)
next
  case False
  then show ?thesis
    using semaphore_down_waits [OF k sem(1) _ sem(2)] by (auto simp: frame_def blocks_def)
qed

theorem semaphore_down_takes_or_waits_witness:
  "\<exists>s'. semaphore_down 0x140000 (ex_kern P_ready) = Return () s' \<and> sem_count (sems s' 0x140000) = 0"
  using semaphore_down_takes_or_waits [OF ex_kinv [of P_ready] ex_running _ ex_sem [of _ "0x140000"]] by simp

text \<open>A mutex can only be released by its holder: the release by any other thread panics.\<close>

theorem mutex_release_by_other_panics:
  assumes "kinv s v" "holder (mutexes s m) \<noteq> current_thread s"
  shows "mutex_release m s = Inl (Panic ''mutex_release(): Owner thread must release the lock'')"
  by (rule mutex_release_foreign [OF assms])

theorem mutex_release_by_other_panics_witness:
  "mutex_release 0x130000 (ex_kern P_ready) = Inl (Panic ''mutex_release(): Owner thread must release the lock'')"
  by (rule mutex_release_by_other_panics [OF ex_kinv]) (simp add: free_mutex_def)

text \<open>C25. \<open>condvar_wait\<close> releases the mutex and starts to wait in one step: when it gives up the processor the
  caller is already in the queue of the condition variable, so no signal can be lost, the mutex is
  free and handed to its first waiting thread, and the rest of the call acquires it again.\<close>

theorem condvar_wait_atomic:
  assumes "kinv s v" "running s" "current_thread s \<noteq> idle_thread s"
    "mutexes s m = \<lparr>holder = current_thread s, recursion_count = 1\<rparr>" "sem_ok s v m" "level s m < 2147483647"
  shows "\<exists>s'. condvar_wait c m s = Yield s' (\<lambda>s1. mutex_acquire m (irq_restore (interrupt_is_enabled (hw s)) s1)) \<and>
     kinv s' (wake_view (SemQ m) (wait_view (CondQ c) (current_thread s) v)) \<and>
     sem_ok s' (wake_view (SemQ m) (wait_view (CondQ c) (current_thread s) v)) m \<and>
     mutexes s' m = free_mutex \<and> sem_count (sems s' m) = sem_count (sems s m) + 1 \<and>
     status (tcbs s' (current_thread s)) = ThreadStatus_Blocked"
  using condvar_wait_waits [OF assms, of c] by (auto simp: frame_def blocks_def)

definition ex_held :: "place \<Rightarrow> kern" where
  "ex_held p = upd_mutex 0x130000 (\<lambda>_. \<lparr>holder = t_main, recursion_count = 1\<rparr>) (set_count 0x130000 0 (ex_kern p))"

lemma ex_held_ok: "kinv (ex_held p) (ex_view p)" "running (ex_held p)"
  "p \<noteq> P_wait (SemQ 0x130000) \<Longrightarrow> sem_ok (ex_held p) (ex_view p) 0x130000"
  using ex_kinv [of p] ex_running [of p] by (simp_all add: ex_held_def sem_ok_def)

theorem condvar_wait_atomic_witness:
  "\<exists>s' k. condvar_wait 0x150000 0x130000 (ex_held P_ready) = Yield s' k \<and> mutexes s' 0x130000 = free_mutex \<and>
     sem_count (sems s' 0x130000) = 1 \<and> status (tcbs s' t_main) = ThreadStatus_Blocked"
  using condvar_wait_atomic [OF ex_held_ok(1) [of P_ready] ex_held_ok(2), of "0x130000" "0x150000"] ex_held_ok(3) [of P_ready]
  by (auto simp: ex_held_def)

text \<open>C26. \<open>condvar_broadcast\<close> ends and wakes every thread that waits on the condition variable, each once, and
  no other.\<close>

theorem condvar_broadcast_wakes_all:
  assumes "kinv s v" "running s"
  shows "\<exists>s'. condvar_broadcast c s = Inr s' \<and> kinv s' (wake_all_view c v) \<and> frame s s' \<and>
     (\<forall>t. tcbs s' t = (if t \<in> set (v_cond v c) then wake_tcb (tcbs s t) else tcbs s t))"
  by (rule condvar_broadcast_wakes [OF assms])

theorem condvar_broadcast_wakes_all_witness:
  "\<exists>s'. condvar_broadcast 0x150000 (ex_kern (P_wait (CondQ 0x150000))) = Inr s' \<and> status (tcbs s' t_two) = ThreadStatus_Ready"
  using condvar_broadcast_wakes_all [OF ex_kinv [of "P_wait (CondQ 0x150000)"] ex_running, of "0x150000"]
  by (auto simp: wake_tcb_def)

section \<open>The whole system\<close>

text \<open>C5. Threads that run together never bring the kernel down: from a kernel whose threads have just been
  created, in every interleaving of calls of the primitives and timer interrupts, no assertion
  fails and no pointer is wrong, the lists stay in order, no thread is lost, and the count of
  every semaphore says how many threads wait for it.\<close>

theorem concurrent_threads_safe:
  assumes "initial M s v g" "reach M (start_system s) x"
  shows "\<exists>s' v'. (doing x = Return () s' \<or> (\<exists>k. doing x = Yield s' k)) \<and> kinv s' v' \<and> (\<forall>a. sem_ok s' v' a)"
  by (rule system_ok_state [OF sys_reach [OF assms(2) initial_ok [OF assms(1)]]])

text \<open>C6. Mutual exclusion: a thread that has acquired a mutex more often than it has released it is the
  holder the mutex records, with that recursion count, so no two threads are ever inside at once.\<close>

theorem mutex_exclusion:
  assumes "initial M s v g" "reach M (start_system s) x" "m \<in> M" "0 < depth x t m" "doing x = Return () s'"
  shows "holder (mutexes s' m) = t \<and> unat (recursion_count (mutexes s' m)) = depth x t m \<and> (\<forall>u. u \<noteq> t \<longrightarrow> depth x u m = 0)"
proof -
  have "system_ok M x" by (rule sys_reach [OF assms(2) initial_ok [OF assms(1)]])
  then obtain v' g' X where g: "good M s' v' g' X x" using assms(5) by (auto simp: system_ok_def)
  note mo = mutex_okD [OF good_mutex [OF g assms(3)]]
  have "holder (mutexes s' m) = t" using mo(4) [of t] assms(4) by auto
  then show ?thesis using mo(2) [of t] mo(3) mo(4) assms(4) by (cases "holder (mutexes s' m) = 0") auto
qed

text \<open>The main thread of the example acquires the mutex, once.\<close>

definition ex_acquired :: system where
  "ex_acquired = note_return t_main (note_call t_main (Call_acquire 0x130000)
     ((start_system (ex_kern P_ready))\<lparr>doing := mutex_acquire 0x130000 (ex_kern P_ready)\<rparr>))"

lemma ex_acquired_reach: "reach {0x130000} (start_system (ex_kern P_ready)) ex_acquired"
proof -
  have "sstep {0x130000} (start_system (ex_kern P_ready)) ex_acquired"
    using sstep.call [of "start_system (ex_kern P_ready)" "ex_kern P_ready" "{0x130000}" "Call_acquire 0x130000"]
    by (simp add: ex_acquired_def start_system_def free_mutex_def)
  then show ?thesis by (rule reach.step [OF reach.start])
qed

lemma ex_acquired_depth:
  "depth ex_acquired t_main 0x130000 = 1" "\<exists>s'. doing ex_acquired = Return () s'"
proof -
  have "mutex_acquire 0x130000 (ex_kern P_ready) = Return ()
      (upd_mutex 0x130000 (\<lambda>_. \<lparr>holder = t_main, recursion_count = 1\<rparr>) (set_count 0x130000 0
        (set_blocker t_main 0x130000 BlockerType_Mutex (ex_kern P_ready))))"
    using mutex_acquire_free [OF ex_kinv [of P_ready], of "0x130000"] by (simp add: free_mutex_def)
  then show "depth ex_acquired t_main 0x130000 = 1" "\<exists>s'. doing ex_acquired = Return () s'"
    by (simp_all add: ex_acquired_def note_return_def start_system_def)
qed

theorem concurrent_threads_safe_witness:
  "\<exists>s' v'. (doing ex_acquired = Return () s' \<or> (\<exists>k. doing ex_acquired = Yield s' k)) \<and> kinv s' v' \<and> (\<forall>a. sem_ok s' v' a)"
  by (rule concurrent_threads_safe [OF ex_initial ex_acquired_reach])

theorem mutex_exclusion_witness:
  "\<exists>s'. doing ex_acquired = Return () s' \<and> holder (mutexes s' 0x130000) = t_main \<and>
     unat (recursion_count (mutexes s' 0x130000)) = 1 \<and> (\<forall>u. u \<noteq> t_main \<longrightarrow> depth ex_acquired u 0x130000 = 0)"
proof -
  obtain s' where s': "doing ex_acquired = Return () s'" using ex_acquired_depth(2) by blast
  then show ?thesis
    using mutex_exclusion [OF ex_initial ex_acquired_reach _ _ s', of "0x130000" t_main] ex_acquired_depth(1)
    by auto
qed

end
