(* ===== verification/SharedHeap.thy ===== *)
theory SharedHeap
  imports SystemSafety
begin

text \<open>
  The heap under concurrent use: the memory of different owners never overlaps, and what one thread has
  been handed out changes only through that thread, whatever the others and the timer interrupt do.
\<close>

section \<open>The kernel state of a system\<close>

definition kern_of :: "system \<Rightarrow> kern" where
  "kern_of x = (case doing x of Return _ s \<Rightarrow> s | Yield s _ \<Rightarrow> s | Stop _ \<Rightarrow> undefined)"

lemma system_ok_kern:
  assumes "system_ok M x"
  obtains v g X where "good M (kern_of x) v g X x"
  using assms by (cases "doing x") (auto simp: system_ok_def kern_of_def)

section \<open>What synchronisation leaves alone\<close>

text \<open>The heap, the current thread, the list of all threads and the stacks.\<close>

definition base_state :: "kern \<Rightarrow> km_state \<times> kernel_image \<times> u32 \<times> u32 \<times> u32 \<times> nodes \<times> (u32 \<Rightarrow> u32 \<times> u32)" where
  "base_state s = (heap s, image s, current_thread s, esp_reg s, all_threads s, all_links s,
     \<lambda>t. (esp (tcbs s t), stack_base (tcbs s t)))"

lemma baseD:
  assumes "base_state s' = base_state s"
  shows "heap s' = heap s" "image s' = image s" "current_thread s' = current_thread s" "esp_reg s' = esp_reg s"
    "all_threads s' = all_threads s" "all_links s' = all_links s"
    "esp (tcbs s' t) = esp (tcbs s t)" "stack_base (tcbs s' t) = stack_base (tcbs s t)"
  using assms by (auto simp: base_state_def fun_eq_iff)

fun keeps_base :: "kern \<Rightarrow> unit routine \<Rightarrow> bool" where
  "keeps_base s (Return _ s') \<longleftrightarrow> base_state s' = base_state s"
| "keeps_base s (Yield s' k) \<longleftrightarrow> base_state s' = base_state s"
| "keeps_base s (Stop e) \<longleftrightarrow> True"

lemma keeps_base_cong: "base_state s' = base_state s \<Longrightarrow> keeps_base s' r = keeps_base s r"
  by (cases r) simp_all

lemma base_upd [simp]:
  "base_state (upd_sem a f s) = base_state s" "base_state (upd_mutex m fm s) = base_state s" "base_state (s\<lparr>hw := h\<rparr>) = base_state s"
  "base_state (set_status t st s) = base_state s" "base_state (set_blocker t ob ty s) = base_state s" "base_state (irq_restore b s) = base_state s"
  "base_state (upd_cond c q s) = base_state s" "base_state (sem_append a t s) = base_state s" "base_state (cond_append c t s) = base_state s"
  "base_state (ready_add t s) = base_state s" "base_state (upd_tcb t (\<lambda>c. c\<lparr>wakeup_ticks := w\<rparr>) s) = base_state s" "base_state (say fmt args s) = base_state s"
  by (simp_all add: base_state_def upd_sem_def upd_mutex_def upd_tcb_def set_status_def set_blocker_def irq_restore_def
      upd_cond_def sem_append_def cond_append_def ready_add_def say_def fun_eq_iff split: prod.splits)

lemma base_irq_off: "irq_off s = (b, s') \<Longrightarrow> base_state s' = base_state s"
  by (auto simp: irq_off_eq)

lemma unblock_keeps: "thread_unblock t s = Inr s' \<Longrightarrow> base_state s' = base_state s"
  by (auto simp: thread_unblock_def kernel_assert_def split: if_splits)

lemma pops_keep: "sem_pop a s = Inr (t, s') \<Longrightarrow> base_state s' = base_state s" "cond_pop c s = Inr (t, s') \<Longrightarrow> base_state s' = base_state s"
  by (auto simp: sem_pop_def cond_pop_def base_state_def upd_sem_def upd_cond_def)

lemma down_keeps: "keeps_base s (semaphore_down a s)"
  by (auto simp: semaphore_down_def thread_yield_def Let_def dest!: base_irq_off split: prod.splits)

lemma up_keeps: "semaphore_up a s = Inr s' \<Longrightarrow> base_state s' = base_state s"
  by (auto simp: semaphore_up_def kernel_assert_def Let_def dest!: base_irq_off unblock_keeps pops_keep
      split: prod.splits if_splits)

lemma acquire_keeps: "keeps_base s (mutex_acquire m s)"
proof -
  have bind: "keeps_base s0 (bind_act r (\<lambda>_ s3. Return () (f s3)))" if "keeps_base s0 r" "\<And>s. base_state (f s) = base_state s" for s0 r f
    using that by (cases r) simp_all
  obtain b s1 where o: "irq_off s = (b, s1)" by (cases "irq_off s")
  let ?s2 = "set_blocker (current_thread s1) m BlockerType_Mutex s1"
  have "base_state ?s2 = base_state s" using base_irq_off [OF o] by simp
  then have "keeps_base s (semaphore_down m ?s2)" using down_keeps [of ?s2 m] keeps_base_cong [of ?s2 s] by simp
  then show ?thesis using base_irq_off [OF o] o by (auto simp: mutex_acquire_def Let_def intro!: bind)
qed

lemma release_keeps: "mutex_release m s = Inr s' \<Longrightarrow> base_state s' = base_state s"
  by (auto simp: mutex_release_def kernel_assert_def Let_def dest!: base_irq_off up_keeps split: prod.splits if_splits)

lemma wait_keeps: "keeps_base s (condvar_wait c m s)"
proof -
  obtain b s1 where o: "irq_off s = (b, s1)" by (cases "irq_off s")
  let ?s = "cond_append c (current_thread s1) (set_blocker (current_thread s1) c BlockerType_CondVar
     (set_status (current_thread s1) ThreadStatus_Blocked s1))"
  show ?thesis
    using o base_irq_off [OF o] release_keeps [of m ?s]
    by (cases "mutex_release m ?s") (auto simp: condvar_wait_def thread_yield_def Let_def)
qed

lemma signal_keeps: "condvar_signal c s = Inr s' \<Longrightarrow> base_state s' = base_state s"
  by (auto simp: condvar_signal_def kernel_assert_def Let_def dest!: base_irq_off unblock_keeps pops_keep
      split: prod.splits if_splits)

lemma broadcast_from_keeps: "broadcast_from c s = Some r \<Longrightarrow> \<forall>s'. r = Inr s' \<longrightarrow> base_state s' = base_state s"
proof (rule broadcast_from.raw_induct [of "\<lambda>c s r. \<forall>s'. r = Inr s' \<longrightarrow> base_state s' = base_state s"])
  fix f c s r
  assume ih: "\<And>c s r. f c s = Some r \<Longrightarrow> \<forall>s'. r = Inr s' \<longrightarrow> base_state s' = base_state s"
    and eq: "(if wait_queue_head (condvars s c) \<noteq> 0
         then let r = andthen (cond_pop c s) (\<lambda>(wake_thread, s1). thread_unblock wake_thread s1)
              in if isl r then Some r else f c (projr r)
         else Some (Inr s)) = Some r"
  show "\<forall>s'. r = Inr s' \<longrightarrow> base_state s' = base_state s"
  proof (cases "wait_queue_head (condvars s c) = 0")
    case False
    let ?r = "andthen (cond_pop c s) (\<lambda>(wake_thread, s1). thread_unblock wake_thread s1)"
    show ?thesis
    proof (cases ?r)
      case (Inr s1)
      then have "base_state s1 = base_state s" by (auto dest!: unblock_keeps pops_keep)
      then show ?thesis using ih [of c s1 r] eq False Inr by (simp add: Let_def)
    qed (use eq False in \<open>auto simp: Let_def\<close>)
  qed (use eq in auto)
qed

lemma broadcast_keeps: "condvar_broadcast c s = Inr s' \<Longrightarrow> base_state s' = base_state s"
  using broadcast_from_keeps
  by (auto simp: condvar_broadcast_def kernel_assert_def settle_loop_def dest!: base_irq_off split: prod.splits if_splits option.splits)

lemma code_keeps: "keeps_base s (code K s)"
  using acquire_keeps [of "irq_restore b s" for b] keeps_base_cong [of "irq_restore b s" s for b]
  by (cases K) (auto simp: finish_acquire_def)

lemma perform_keeps: "keeps_base s (perform c s)"
proof -
  have lift: "keeps_base s0 (lift_unit r)" if "\<And>s'. r = Inr s' \<Longrightarrow> base_state s' = base_state s0" for s0 r
    using that by (cases r) simp_all
  show ?thesis
    using down_keeps acquire_keeps wait_keeps
    by (cases c) (auto intro!: lift simp: up_keeps release_keeps signal_keeps broadcast_keeps thread_yield_def go_to_sleep_def
        thread_exit_def Let_def dest!: base_irq_off split: prod.splits)
qed

section \<open>Disjointness and isolation\<close>

lemma owners_apart:
  assumes ok: "system_ok M x" and o: "owns x p = Some (t, n)" "owns x q = Some (u, k)" "p \<noteq> q"
  shows "unat p + unat n + 16 \<le> unat q \<or> unat q + unat k + 16 \<le> unat p"
  using ok
proof (cases rule: system_ok_kern)
  case (1 v g X)
  have cov: "covers (handed_out g) (owns x)" and hi: "heap_inv (heap (kern_of x)) g"
    using good_owners [OF 1] good_heap [OF 1] by (simp_all add: owners_ok_def heap_ok_def)
  obtain a b where ab: "unat n \<le> a" "(unat p, a) \<in> handed_out g" "unat k \<le> b" "(unat q, b) \<in> handed_out g"
    using coversD [OF cov o(1)] coversD [OF cov o(2)] by blast
  moreover have "unat p \<noteq> unat q" using o(3) by (simp add: word_unat_eq_iff)
  ultimately show ?thesis using kheap.live_disjoint [OF hi ab(2,4)] by auto
qed

lemma owners_range:
  assumes ok: "system_ok M x" and o: "owns x p = Some (t, n)"
  shows "p \<noteq> 0 \<and> unat p + unat n < 4294967296"
  using ok
proof (cases rule: system_ok_kern)
  case (1 v g X)
  have cov: "covers (handed_out g) (owns x)" and hi: "heap_inv (heap (kern_of x)) g"
    using good_owners [OF 1] good_heap [OF 1] by (simp_all add: owners_ok_def heap_ok_def)
  obtain a where a: "unat n \<le> a" "(unat p, a) \<in> handed_out g" using coversD [OF cov o] by blast
  then show ?thesis using kheap.live_range [OF hi a(2)] by auto
qed

definition bytes_of :: "system \<Rightarrow> u32 \<Rightarrow> u32 \<Rightarrow> u8 list" where
  "bytes_of x p n = bytes_at (mem (heap (kern_of x))) p (unat n)"

lemma note_fields [simp]:
  "owns (note_return t x) = owns x" "doing (note_return t x) = doing x"
  "owns (note_call t c x) = owns x" "doing (note_call t c x) = doing x"
  by (simp_all add: note_return_def split: act.splits option.splits) (cases c; simp)+

lemma keeps_kern: "system_ok M x \<Longrightarrow> keeps_base s (doing x) \<Longrightarrow> base_state (kern_of x) = base_state s"
  by (cases "doing x") (auto simp: kern_of_def system_ok_def)

lemma region_bytes:
  assumes "region_kept (unat p, k) m m'" "unat n \<le> k" "unat p + k < 4294967296"
  shows "bytes_at m' p (unat n) = bytes_at m p (unat n)"
proof (intro nth_equalityI)
  fix i assume "i < length (bytes_at m' p (unat n))"
  then have i: "i < unat n" by simp
  then have "unat (p + of_nat i) = unat p + i" using assms(2,3) by (simp add: unat_word_ariths unat_of_nat32)
  then show "bytes_at m' p (unat n) ! i = bytes_at m p (unat n) ! i"
    using assms(1,2) i by (auto simp: region_kept_def)
qed simp

text \<open>The region a thread owns is live, and keeps its bytes when its region is kept.\<close>

lemma owner_kept:
  assumes "good M s v g X x" "owns x p = Some (t, n)" "\<And>k. (unat p, k) \<in> handed_out g \<Longrightarrow> region_kept (unat p, k) (mem (heap s)) m'"
  shows "bytes_at m' p (unat n) = bytes_at (mem (heap s)) p (unat n)"
proof -
  have cov: "covers (handed_out g) (owns x)" and hi: "heap_inv (heap s) g"
    using good_owners [OF assms(1)] good_heap [OF assms(1)] by (simp_all add: owners_ok_def heap_ok_def)
  obtain k where k: "unat n \<le> k" "(unat p, k) \<in> handed_out g" using coversD [OF cov assms(2)] by blast
  then show ?thesis using region_bytes [OF assms(3) k(1)] kheap.live_range [OF hi k(2)] by blast
qed

lemma affects_own:
  assumes ok: "system_ok M x" and s: "doing x = Return () s" and al: "heap_allowed s (owns x) op"
    and o: "owns x p = Some (t, n)" and a: "affects (owns x) op p"
  shows "t = current_thread s"
proof (rule ccontr)
  assume o2: "t \<noteq> current_thread s"
  have "\<not> affects (owns x) op p"
  proof (cases op)
    case (OpWrite a b)
    then obtain r where r: "owned_by_thread (current_thread s) (owns x) r" "inside (owns x) r a" using al by auto
    then obtain k where k: "owns x r = Some (current_thread s, k)" by (auto simp: owned_by_thread_def split: option.splits)
    then have "r \<noteq> p" using o o2 by auto
    then show ?thesis
      using owners_apart [OF ok k o] r(2) k o OpWrite by (auto simp: inside_def)
  qed (use al o o2 in \<open>auto simp: owned_by_thread_def\<close>)
  then show False using a by blast
qed

lemma heap_isolated:
  assumes ok: "system_ok M x" and s: "doing x = Return () s" and al: "heap_allowed s (owns x) op"
    and o: "owns x p = Some (t, n)" "\<not> affects (owns x) op p"
  shows "owns (heap_step op s x) p = Some (t, n) \<and> bytes_of (heap_step op s x) p n = bytes_of x p n"
proof -
  obtain v g X where g: "good M s v g X x" using ok s by (auto simp: system_ok_def)
  obtain q h g' where h: "heap_call op (heap s) = Inr (q, h)"
    "shared_step (owns x) op g g' (mem (heap s)) (mem h) (new_owners (current_thread s) op q (owns x))"
    using good_heap_step [OF g al] by blast
  have "new_owners (current_thread s) op q (owns x) p = owns x p"
    "\<And>k. (unat p, k) \<in> handed_out g \<Longrightarrow> region_kept (unat p, k) (mem (heap s)) (mem h)"
    using h(2) o unfolding shared_step_def by auto
  then show ?thesis
    using h(1) owner_kept [OF g o(1), of "mem h"] o(1) s by (simp add: heap_step_def bytes_of_def kern_of_def)
qed

lemma switch_isolated:
  assumes ok: "system_ok M x" and s: "doing x = Yield s k" and o: "owns x p = Some (t, n)"
  shows "owns (switch s k x) p = Some (t, n) \<and> bytes_of (switch s k x) p n = bytes_of x p n"
proof -
  obtain v g X where g: "good M s v g X x" and k: "k = code (X (current_thread s))" using ok s by (auto simp: system_ok_def)
  obtain s' g' where i: "isr_IRQ0 s = Inr s'" "kinv s' (sched_view s (ticked_view s v))"
    "handed_out g' = {r \<in> handed_out g. fst r \<notin> unat ` set (owned_by s (v_zombie v))}" "regions_kept g' (heap s) (heap s')"
    using isr_IRQ0_ok [OF good_kinv [OF g] good_heap [OF g] good_can_clean [OF g]] by blast
  let ?ctx = "(contexts x)(current_thread s := (eflags (hw s), k))" and ?n = "current_thread s'"
  have n: "?n \<in> set (v_all v)"
    using kinv_cur [OF i(2)] by (simp add: sched_view_all [OF good_kinv [OF g]] ticked_view_at)
  have c: "snd (?ctx ?n) = code (X ?n)" using good_context [OF g n] k by simp
  have sub: "set (owned_by s (v_zombie v)) \<subseteq> set (owned_by s (v_all v))"
    using lists_member [OF kinv_lists [OF good_kinv [OF g]], of _ P_zombie] by (auto simp: owned_by_def)
  have "p \<notin> set (owned_by s (v_all v))" using good_owners [OF g] o by (simp add: owners_ok_def)
  then have "unat p \<notin> unat ` set (owned_by s (v_zombie v))" using sub by (auto simp: word_unat_eq_iff [symmetric])
  then have "region_kept (unat p, j) (mem (heap s)) (mem (heap s'))" if "(unat p, j) \<in> handed_out g" for j
    using i(3,4) that unfolding regions_kept_def by auto
  then have b: "bytes_at (mem (heap s')) p (unat n) = bytes_at (mem (heap s)) p (unat n)" by (rule owner_kept [OF g o])
  let ?s = "s'\<lparr>hw := eflags_set (fst (?ctx ?n)) (hw s')\<rparr>"
  have "doing (switch s k x) = code (X ?n) ?s" "owns (switch s k x) = owns x"
    using i(1) c by (simp_all add: switch_def Let_def case_prod_beta)
  moreover have "heap (kern_of (switch s k x)) = heap s'"
    using baseD(1) [OF keeps_kern [OF sys_interrupt [OF ok s]]] code_keeps [of ?s "X ?n"] calculation(1) by simp
  ultimately show ?thesis using b o s by (simp add: bytes_of_def kern_of_def)
qed

lemma call_isolated:
  assumes ok: "system_ok M x" and s: "doing x = Return () s" and al: "allowed M s c" and o: "owns x p = Some (t, n)"
    and x': "x' = note_return (current_thread s) (note_call (current_thread s) c (x\<lparr>doing := perform c s\<rparr>))"
  shows "owns x' p = Some (t, n) \<and> bytes_of x' p n = bytes_of x p n"
proof -
  have "keeps_base s (doing x')" using x' perform_keeps by simp
  moreover have "system_ok M x'" unfolding x' by (rule sys_step [OF sstep.call [OF s al] ok])
  ultimately have "heap (kern_of x') = heap s" by (intro baseD(1) keeps_kern)
  then show ?thesis using x' s o by (simp add: bytes_of_def kern_of_def)
qed

text \<open>The only step that may change a region is a heap call or a write of its owner to it.\<close>

definition by_owner :: "system \<Rightarrow> u32 \<Rightarrow> u32 \<Rightarrow> system \<Rightarrow> bool" where
  "by_owner x t p x' \<longleftrightarrow> (\<exists>s op. doing x = Return () s \<and> current_thread s = t \<and> affects (owns x) op p \<and> x' = heap_step op s x)"

lemma step_isolated:
  assumes step: "sstep M x x'" and ok: "system_ok M x" and o: "owns x p = Some (t, n)" "\<not> by_owner x t p x'"
  shows "owns x' p = Some (t, n) \<and> bytes_of x' p n = bytes_of x p n"
proof (rule sstep_elims [OF step])
  fix s c assume "x' = note_return (current_thread s) (note_call (current_thread s) c (x\<lparr>doing := perform c s\<rparr>))"
    "doing x = Return () s" "allowed M s c"
  then show ?thesis using call_isolated [OF ok _ _ o(1)] by blast
next
  fix s op assume h: "x' = heap_step op s x" "doing x = Return () s" "heap_allowed s (owns x) op"
  then have "\<not> affects (owns x) op p" using affects_own [OF ok h(2,3) o(1)] o(2) by (auto simp: by_owner_def)
  then show ?thesis using heap_isolated [OF ok h(2,3) o(1)] h(1) by simp
next
  fix s assume x': "x' = x\<lparr>doing := thread_yield s\<rparr>" "doing x = Return () s"
  have "kern_of x' = kern_of x" unfolding x'(1) kern_of_def x'(2) by (simp add: thread_yield_def)
  then show ?thesis using o(1) x'(1) by (simp add: bytes_of_def)
next
  fix s k assume "x' = switch s k x" "doing x = Yield s k"
  then show ?thesis using switch_isolated [OF ok _ o(1)] by simp
qed

end
