(* ===== verification/SharedProps.thy ===== *)
theory SharedProps
  imports SharedHeap ThreadExample
begin

text \<open>
  The theorems about the heap under concurrent use, with two threads of \<open>ThreadExample\<close> that share it.
\<close>

section \<open>Two threads and one heap\<close>

text \<open>
  The main thread takes the heap lock, allocates twice and gives up the processor in the middle of its
  critical section; the second thread runs.
\<close>

abbreviation heap_lock :: u32 where "heap_lock \<equiv> 0x120040"

definition ex_locked :: system where
  "ex_locked = note_return t_main (note_call t_main (Call_acquire heap_lock)
     ((start_system (ex_kern P_ready))\<lparr>doing := mutex_acquire heap_lock (ex_kern P_ready)\<rparr>))"

definition ex_locked_kern :: kern where
  "ex_locked_kern = upd_mutex heap_lock (\<lambda>_. \<lparr>holder = t_main, recursion_count = 1\<rparr>) (set_count heap_lock 0
     (set_blocker t_main heap_lock BlockerType_Mutex (ex_kern P_ready)))"

lemma ex_locked_doing: "doing ex_locked = Return () ex_locked_kern" "owns ex_locked = Map.empty" "contexts ex_locked = contexts (start_system (ex_kern P_ready))"
proof -
  have "mutex_acquire heap_lock (ex_kern P_ready) = Return () ex_locked_kern"
    using mutex_acquire_free [OF ex_kinv [of P_ready], of heap_lock] by (simp add: free_mutex_def ex_locked_kern_def)
  then show "doing ex_locked = Return () ex_locked_kern" "owns ex_locked = Map.empty"
    "contexts ex_locked = contexts (start_system (ex_kern P_ready))"
    by (simp_all add: ex_locked_def note_return_def start_system_def)
qed

lemma ex_locked_reach: "reach {heap_lock} (start_system (ex_kern P_ready)) ex_locked"
proof -
  have "sstep {heap_lock} (start_system (ex_kern P_ready)) ex_locked"
    using sstep.call [of "start_system (ex_kern P_ready)" "ex_kern P_ready" "{heap_lock}" "Call_acquire heap_lock"]
    by (simp add: ex_locked_def start_system_def free_mutex_def)
  then show ?thesis by (rule reach.step [OF reach.start])
qed

lemma ex_locked_fields [simp]:
  "heap ex_locked_kern = ex_heap" "current_thread ex_locked_kern = t_main" "image ex_locked_kern = ex_image"
  "mutexes ex_locked_kern heap_lock = \<lparr>holder = t_main, recursion_count = 1\<rparr>"
  by (simp_all add: ex_locked_kern_def upd_mutex_def set_blocker_def upd_tcb_def)

text \<open>A request of the thread that holds the heap lock.\<close>

lemma ex_malloc:
  assumes "reach {heap_lock} (start_system (ex_kern P_ready)) x" "doing x = Return () s" "room_for (heap s) sz"
    "holder (mutexes s (free_list_lock (image s))) = current_thread s"
  shows "\<exists>p h. reach {heap_lock} (start_system (ex_kern P_ready)) (heap_step (OpMalloc sz) s x) \<and>
     doing (heap_step (OpMalloc sz) s x) = Return () (s\<lparr>heap := h\<rparr>) \<and> owns x p = None \<and>
     owns (heap_step (OpMalloc sz) s x) = (owns x)(p \<mapsto> (current_thread s, sz)) \<and>
     kmalloc_unsafe (heap s) sz = Inr (p, h)"
proof -
  have al: "heap_allowed s (owns x) (OpMalloc sz)" using assms(3,4) by simp
  have ok: "system_ok {heap_lock} x" by (rule sys_reach [OF assms(1) initial_ok [OF ex_initial]])
  then obtain v g X where g: "good {heap_lock} s v g X x" using assms(2) by (auto simp: system_ok_def)
  obtain p h g' where h: "heap_call (OpMalloc sz) (heap s) = Inr (p, h)"
    using good_heap_step [OF g al] by blast
  have hi: "heap_inv (heap s) g" and cov: "covers (handed_out g) (owns x)"
    using good_heap [OF g] good_owners [OF g] by (simp_all add: heap_ok_def owners_ok_def)
  have "owns x p = None"
  proof (rule ccontr)
    assume "owns x p \<noteq> None"
    then obtain k where k: "(unat p, k) \<in> handed_out g" using coversD [OF cov] by fastforce
    then show False
      using kheap.alloc_distinct(2) [OF hi room_serviceable [OF assms(3)], of p h "unat p" k] h by simp
  qed
  then show ?thesis
    using h reach.step [OF assms(1) sstep.heap [OF assms(2) al]] by (auto simp: heap_step_def)
qed

lemma ex_room: "room_for ex_heap 16"
  by (simp add: room_for_def ex_heap_def heap0_def round_up_def block_size_def)

lemma ex_blocks_alloc:
  "alloc_blocks (block_size (unat (16 :: u32))) (unat (kheap_end ex_heap)) ex_blocks =
     (0x2100B0, 0x214000, [(0x200000, 0x50, True), (0x200050, 0x50, True), (0x2000A0, 0x10010, True), (0x2100B0, 0x20, True), (0x2100D0, 0x3F30, False)])"
  by (simp add: alloc_blocks_def size_eval carve_def ex_heap_def heap0_def)

lemma ex_room_after: "kmalloc_unsafe ex_heap 16 = Inr (p, h) \<Longrightarrow> room_for h 16"
proof -
  assume h: "kmalloc_unsafe ex_heap 16 = Inr (p, h)"
  obtain s' where "kmalloc_unsafe ex_heap 16 = Inr (of_nat (0x2100B0 + 16), s')" "unat (kheap_end s') = 0x214000"
    "kheap_max_end s' = kheap_max_end ex_heap"
    using kmalloc_refines [OF ex_heap_inv room_serviceable [OF ex_room] ex_blocks_alloc] by blast
  then show ?thesis using h by (simp add: room_for_def ex_heap_def heap0_def round_up_def block_size_def)
qed

lemma ex_two_regions:
  "\<exists>x p q s. reach {heap_lock} (start_system (ex_kern P_ready)) x \<and> doing x = Return () s \<and> p \<noteq> q \<and>
     owns x p = Some (t_main, 16) \<and> owns x q = Some (t_main, 16) \<and>
     (\<exists>h. s = ex_locked_kern\<lparr>heap := h\<rparr>) \<and> contexts x = contexts (start_system (ex_kern P_ready))"
proof -
  let ?x1 = "heap_step (OpMalloc 16) ex_locked_kern ex_locked"
  obtain p h where a: "reach {heap_lock} (start_system (ex_kern P_ready)) ?x1" "doing ?x1 = Return () (ex_locked_kern\<lparr>heap := h\<rparr>)"
    "owns ?x1 = [p \<mapsto> (t_main, 16)]" "kmalloc_unsafe ex_heap 16 = Inr (p, h)"
    using ex_malloc [OF ex_locked_reach ex_locked_doing(1), of 16] ex_room ex_locked_doing(2) by auto
  let ?s1 = "ex_locked_kern\<lparr>heap := h\<rparr>" and ?x2 = "heap_step (OpMalloc 16) (ex_locked_kern\<lparr>heap := h\<rparr>) ?x1"
  obtain q h2 where b: "reach {heap_lock} (start_system (ex_kern P_ready)) ?x2" "doing ?x2 = Return () (?s1\<lparr>heap := h2\<rparr>)"
    "owns ?x1 q = None" "owns ?x2 = (owns ?x1)(q \<mapsto> (t_main, 16))"
    using ex_malloc [OF a(1,2), of 16] ex_room_after [OF a(4)] by auto
  have "contexts ?x2 = contexts ex_locked" by (simp add: heap_step_def split: sum.splits prod.splits)
  moreover have "p \<noteq> q" using a(3) b(3) by auto
  ultimately show ?thesis
    using a(3) b(1,2,4) ex_locked_doing(3) by (intro exI [of _ ?x2] exI [of _ p] exI [of _ q]) auto
qed

section \<open>The theorems\<close>

text \<open>C9. Memory handed out by the heap under concurrent use never overlaps: in every interleaving of threads
  that take the heap lock around the heap routines, any two regions that threads hold lie apart,
  headers included, whoever holds them, and no region wraps around the address space.\<close>

theorem concurrent_heap_disjoint:
  assumes "initial M s v g" "reach M (start_system s) x" "owns x p = Some (t, n)" "owns x q = Some (u, k)" "p \<noteq> q"
  shows "p \<noteq> 0 \<and> unat p + unat n < 4294967296 \<and>
     (unat p + unat n + 16 \<le> unat q \<or> unat q + unat k + 16 \<le> unat p)"
proof -
  have "system_ok M x" by (rule sys_reach [OF assms(2) initial_ok [OF assms(1)]])
  then show ?thesis using owners_apart [OF _ assms(3-5)] owners_range [OF _ assms(3)] by blast
qed

theorem concurrent_heap_disjoint_witness:
  "\<exists>x p q. reach {heap_lock} (start_system (ex_kern P_ready)) x \<and> owns x p = Some (t_main, 16) \<and> owns x q = Some (t_main, 16) \<and>
     (unat p + 32 \<le> unat q \<or> unat q + 32 \<le> unat p)"
proof -
  obtain x p q where x: "reach {heap_lock} (start_system (ex_kern P_ready)) x" "owns x p = Some (t_main, 16)"
    "owns x q = Some (t_main, 16)" "p \<noteq> q"
    using ex_two_regions by blast
  then show ?thesis
    using concurrent_heap_disjoint [OF ex_initial x(1-4)] by (intro exI [of _ x] exI [of _ p] exI [of _ q]) auto
qed

text \<open>C10. Memory handed out to a thread is private: whatever happens next - a heap routine or a write of another thread, a
  synchronisation call of any thread, a timer interrupt that strikes the thread itself or another - the thread keeps its
  region and the bytes in it do not change, unless the step is the thread's own heap call or write on that region.
  While the heap lock is in use no thread exits, so no dead thread is freed meanwhile.\<close>

theorem concurrent_heap_private:
  assumes "initial M s v g" "reach M (start_system s) x" "sstep M x x'" "owns x p = Some (t, n)"
  shows "(owns x' p = Some (t, n) \<and> bytes_of x' p n = bytes_of x p n) \<or> by_owner x t p x'"
  using step_isolated [OF assms(3) sys_reach [OF assms(2) initial_ok [OF assms(1)]] assms(4)] by blast

text \<open>The main thread yields with the heap lock held; the second thread continues.\<close>

lemma ex_switched:
  "\<exists>x p s. reach {heap_lock} (start_system (ex_kern P_ready)) x \<and> owns x p = Some (t_main, 16) \<and>
     doing x = Return () s \<and> current_thread s \<noteq> t_main"
proof -
  obtain x p h where x: "reach {heap_lock} (start_system (ex_kern P_ready)) x" "owns x p = Some (t_main, 16)"
    "doing x = Return () (ex_locked_kern\<lparr>heap := h\<rparr>)" "contexts x = contexts (start_system (ex_kern P_ready))"
    using ex_two_regions by blast
  let ?s = "ex_locked_kern\<lparr>heap := h\<rparr>"
  let ?y = "note_return (current_thread ?s) (note_call (current_thread ?s) Call_yield (x\<lparr>doing := perform Call_yield ?s\<rparr>))"
  have y: "reach {heap_lock} (start_system (ex_kern P_ready)) ?y" by (rule reach.step [OF x(1) sstep.call [OF x(3)]]) simp
  have dy: "doing ?y = Yield ?s (Return ())" unfolding note_fields by (simp add: thread_yield_def)
  have "contexts (note_return t z) = contexts z" for t z by (simp add: note_return_def split: act.splits option.splits)
  then have cy: "contexts ?y = contexts x" "owns ?y = owns x" by simp_all
  let ?z = "switch ?s (Return ()) ?y"
  have z: "reach {heap_lock} (start_system (ex_kern P_ready)) ?z" by (rule reach.step [OF y sstep.interrupt [OF dy]])
  have ky: "kern_of ?y = ?s" unfolding kern_of_def dy by simp
  obtain v g X where "good {heap_lock} (kern_of ?y) v g X ?y"
    by (rule system_ok_kern [OF sys_reach [OF y initial_ok [OF ex_initial]]])
  then have g: "good {heap_lock} ?s v g X ?y" unfolding ky .
  obtain s' where i: "isr_IRQ0 ?s = Inr s'" "current_thread s' = pick ?s (ticked_view ?s v)"
    using isr_IRQ0_ok [OF good_kinv [OF g] good_heap [OF g] good_can_clean [OF g]] by blast
  have "ready_threads ?s \<noteq> 0" by (simp add: ex_locked_kern_def upd_sem_def upd_mutex_def set_blocker_def upd_tcb_def ex_kern_def ex_queue_def)
  then have "v_ready v \<noteq> []" using root_empty [OF kinv_lists [OF good_kinv [OF g]], of P_ready] by auto
  then have "pick ?s (ticked_view ?s v) \<in> set (v_ready v)" by (simp add: pick_def ticked_view_def tick_view_def)
  then have n: "current_thread s' \<noteq> t_main" using i(2) kinv_cur_place [OF good_kinv [OF g], of P_ready] by auto
  have "doing ?z = Return () (s'\<lparr>hw := eflags_set EFLAGS_DEFAULT (hw s')\<rparr>)" "owns ?z = owns x"
    using i(1) n cy x(4) by (simp_all add: switch_def Let_def case_prod_beta start_system_def)
  then show ?thesis using z x(2) n by (intro exI [of _ ?z]) auto
qed

theorem concurrent_heap_private_witness:
  "\<exists>x x' p. reach {heap_lock} (start_system (ex_kern P_ready)) x \<and> sstep {heap_lock} x x' \<and>
     owns x' p = Some (t_main, 16) \<and> bytes_of x' p 16 = bytes_of x p 16"
proof -
  obtain x p s where x: "reach {heap_lock} (start_system (ex_kern P_ready)) x" "owns x p = Some (t_main, 16)"
    "doing x = Return () s" "current_thread s \<noteq> t_main"
    using ex_switched by blast
  have "allowed {heap_lock} s Call_yield" by simp
  note st = sstep.call [OF x(3) this]
  have "\<not> by_owner x t_main p x'" for x' using x(3,4) by (auto simp: by_owner_def)
  then show ?thesis using concurrent_heap_private [OF ex_initial x(1) st x(2)] x(1) st by blast
qed

end
