(* ===== verification/Boot.thy ===== *)
theory Boot
  imports SystemSafety ThreadCreate Timer Terminal KmallocProps
begin

text \<open>
  The start of the kernel: \<^verbatim>\<open>kernel_main\<close> of \<^verbatim>\<open>src/kernel/kernel.c\<close> calls the initialisation of every part
  in turn, enables interrupts and becomes the idling main thread (\<^verbatim>\<open>src/cpu/cpu.c\<close>). The whole computer
  is the kernel state with the descriptor tables and the screen beside it.
\<close>

section \<open>The computer\<close>

record computer =
  kernel :: kern
  segments :: "unit gdt_state_ext"
  gates :: "unit idt_state_ext"
  screen :: terminal
  main_inited :: bool

text \<open>What the linker and the hardware provide.\<close>

record boot_env =
  gdt_addr :: u32
  tss_addr :: u32
  isr_addr :: "string \<Rightarrow> u32"
  idt_addr :: u32
  kernel_end_addr :: u32
  devices :: device

primrec on_kern :: "(kern, 'a) act \<Rightarrow> computer \<Rightarrow> (computer, 'a) act" where
  "on_kern (Return x s) = (\<lambda>c. Return x (c\<lparr>kernel := s\<rparr>))"
| "on_kern (Yield s k) = (\<lambda>c. Yield (c\<lparr>kernel := s\<rparr>) (\<lambda>c'. on_kern (k (kernel c')) c'))"
| "on_kern (Stop e) = (\<lambda>_. Stop e)"

definition set_hw :: "machine \<Rightarrow> computer \<Rightarrow> computer" where
  "set_hw h c = c\<lparr>kernel := (kernel c)\<lparr>hw := h\<rparr>\<rparr>"

definition with_segments :: "(gdt_state \<Rightarrow> gdt_state outcome) \<Rightarrow> computer \<Rightarrow> computer outcome" where
  "with_segments f c = andthen (f (machine.extend (hw (kernel c)) (segments c))) (\<lambda>s.
     Inr (set_hw (machine.truncate s) (c\<lparr>segments := machine.more s\<rparr>)))"

definition with_gates :: "(idt_state \<Rightarrow> idt_state outcome) \<Rightarrow> computer \<Rightarrow> computer outcome" where
  "with_gates f c = andthen (f (machine.extend (hw (kernel c)) (gates c))) (\<lambda>s.
     Inr (set_hw (machine.truncate s) (c\<lparr>gates := machine.more s\<rparr>)))"

section \<open>Initialisation\<close>

definition kmalloc_init :: "u32 \<Rightarrow> u32 \<Rightarrow> kern \<Rightarrow> kern outcome" where
  "kmalloc_init mbinfo kernel_end s =
     andthen (kmalloc_init_heap (heap s) (interrupt_is_enabled (hw s)) mbinfo kernel_end) (\<lambda>h.
     Inr (mutex_init (free_list_lock (image s)) (s\<lparr>heap := h\<rparr>)))"

text \<open>The calls of \<^verbatim>\<open>kernel_main\<close> from \<^verbatim>\<open>io_serial_init\<close> to \<^verbatim>\<open>thread_main_init\<close>.\<close>

definition initialize :: "boot_env \<Rightarrow> u32 \<Rightarrow> computer \<Rightarrow> computer outcome" where
  "initialize env mbinfo c =
     (let c1 = c\<lparr>kernel := io_serial_init COMPort_1 3 COMDataBits_7 COMStopBits_1 COMParityBits_NONE (kernel c)\<rparr>
      in andthen (with_segments (gdt_init (gdt_addr env) (tss_addr env)) c1) (\<lambda>c2.
         andthen (with_gates (idt_init (isr_addr env) (idt_addr env)) c2) (\<lambda>c3.
         andthen (kmalloc_init mbinfo (kernel_end_addr env) (kernel c3)) (\<lambda>s4.
         let c5 = c3\<lparr>kernel := s4, screen := terminal_init (screen c3)\<rparr>;
             c6 = set_hw (timer_init (devices env) (hw (kernel c5))) c5
         in andthen (thread_main_init (kernel c6)) (\<lambda>s7. Inr (c6\<lparr>kernel := s7\<rparr>))))))"

text \<open>The two assertions about the interrupt flag, each around the call it checks.\<close>

definition check_flags :: "kern \<Rightarrow> kern outcome" where
  "check_flags s =
     (case interrupt_disable (hw s) of (was, h1) \<Rightarrow>
        andthen (kernel_assert was ''Expect interrupts to have been enabled'') (\<lambda>_.
        case interrupt_enable h1 of (was2, h2) \<Rightarrow>
          andthen (kernel_assert (\<not> was2) ''Expect interrupts to have been disabled'') (\<lambda>_. Inr (s\<lparr>hw := h2\<rparr>))))"

text \<open>
  A number of rounds of the endless loop: \<^verbatim>\<open>sti; hlt\<close> waits for an interrupt, \<^verbatim>\<open>cli\<close> and a yield follow.
  The loop never returns, so running out of rounds is not a return.
\<close>

fun cpu_idle_loop :: "nat \<Rightarrow> kern \<Rightarrow> unit routine" where
  "cpu_idle_loop 0 s = Stop Diverge"
| "cpu_idle_loop (Suc n) s =
     Yield (s\<lparr>hw := sti (hw s)\<rparr>) (\<lambda>s1. bind_act (thread_yield (s1\<lparr>hw := cli (hw s1)\<rparr>)) (\<lambda>_ s2. cpu_idle_loop n s2))"

text \<open>\<^verbatim>\<open>terminal_printf\<close> with a literal that has no conversions.\<close>

definition terminal_say :: "string \<Rightarrow> terminal \<Rightarrow> terminal" where
  "terminal_say txt t = fold terminal_putchar (literal txt) t"

definition kernel_main :: "boot_env \<Rightarrow> nat \<Rightarrow> u32 \<Rightarrow> u32 \<Rightarrow> computer \<Rightarrow> (computer, unit) act" where
  "kernel_main env rounds magic mbinfo c =
     (if main_inited c then Stop (Panic ''kernel_main() - Already initialized.'')
      else
        let c1 = c\<lparr>main_inited := True\<rparr>
        in if magic \<noteq> 0x2BADB002 then Return () c1
           else
             bind_act (lift_unit (initialize env mbinfo c1)) (\<lambda>_ c2.
             let c3 = set_hw (snd (interrupt_enable (hw (kernel c2)))) c2
             in bind_act (on_kern (printf ''Kernel Initialize Completed\<newline>'' [] (kernel c3)) c3) (\<lambda>_ c4.
                let c5 = c4\<lparr>screen := terminal_say ''Welcome to AlienOS\<newline>'' (screen c4)\<rparr>
                in bind_act (on_kern (lift_unit (check_flags (kernel c5))) c5) (\<lambda>_ c6.
                   bind_act (on_kern (printf ''Kernel Main Thread Idling\<newline>'' [] (kernel c6)) c6) (\<lambda>_ c7.
                   on_kern (cpu_idle_loop rounds (kernel c7)) c7)))))"

section \<open>One part at a time\<close>

lemma terminal_say_is_printf:
  assumes "cstring m f (literal txt)" "of_char CHR ''%'' \<notin> set (literal txt)"
  shows "terminal_printf m f [] t = Inr (terminal_say txt t)"
  using io_printf_text [OF assms(1) fmt_text_plain [OF assms(2)], of "[]" "[]"] by (simp add: terminal_printf_def terminal_say_def)

lemma eflags_truncate [simp]: "eflags (machine.truncate s) = eflags s" "eflags (machine.extend h x) = eflags h"
  by (simp_all add: machine.defs)

lemma extend_change: "machine.extend h y = (machine.extend h' y)\<lparr>io_trace := io_trace h, eflags := eflags h\<rparr>"
  by (simp add: machine.defs)

lemma inited_extend: "gdt_inited (machine.extend h y) = gdt_inited (machine.extend h' y)"
  "idt_inited (machine.extend h z) = idt_inited (machine.extend h' z)"
  "gdt (machine.extend h y) = gdt (machine.extend h' y)" "idt (machine.extend h z) = idt (machine.extend h' z)"
  by (simp_all add: extend_change [of h _ h'])

lemma extend_truncate: "machine.extend (machine.truncate s) (machine.more s) = s"
  by (simp add: machine.defs)

lemma enabled_cong: "eflags h' = eflags h \<Longrightarrow> interrupt_is_enabled h' = interrupt_is_enabled h" for h h' :: machine
  by (simp add: interrupt_is_enabled_bit)

lemma unsafe_printf_eflags [simp]: "eflags (io_serial_unsafe_printf p f args h) = eflags h"
  using putc_trace [of p _ h] by (simp add: io_serial_unsafe_printf_def split: option.splits)

lemma printf_run:
  assumes "current_thread s \<noteq> 0" "interrupt_is_enabled (hw s)" "serial_locks_initialized s COMPort_1"
    "lock_free s (serial_lock (image s) COMPort_1)"
  shows "printf f args s = Return () (set_blocker (current_thread s) (serial_lock (image s) COMPort_1) BlockerType_Mutex
     (s\<lparr>hw := io_serial_unsafe_printf COMPort_1 f args (hw s)\<rparr>))"
proof -
  let ?m = "serial_lock (image s) COMPort_1" and ?h = "io_serial_unsafe_printf COMPort_1 f args (hw s)"
  have hwt: "hw (taken ?m s) = hw s" by (simp add: taken_def)
  have lh: "lock_free (s\<lparr>hw := ?h\<rparr>) ?m" using assms(4) by (simp add: lock_free_def)
  have "mutex_release ?m ((taken ?m s)\<lparr>hw := ?h\<rparr>) = Inr (set_blocker (current_thread s) ?m BlockerType_Mutex (s\<lparr>hw := ?h\<rparr>))"
    using assms(1) lh by (intro release_taken_lock) (simp_all add: taken_def upd_mutex_def upd_sem_def set_blocker_def upd_tcb_def)
  then show ?thesis
    using acquire_free_lock [OF assms(1,4)] assms(2,3) hwt
    by (simp add: printf_def io_serial_printf_def with_port_def Let_def)
qed

definition same_thread_state :: "kern \<Rightarrow> kern \<Rightarrow> bool" where
  "same_thread_state s s' \<longleftrightarrow> image s' = image s \<and> heap s' = heap s \<and> esp_reg s' = esp_reg s \<and> next_tid s' = next_tid s \<and>
     threads_inited s' = threads_inited s \<and> (bare s \<longrightarrow> bare s') \<and> (\<forall>a. 0 \<le> level s a \<longrightarrow> 0 \<le> level s' a) \<and>
     (\<forall>l. lock_free s l \<longrightarrow> lock_free s' l)"

lemma serial_init_ok:
  assumes s'_def: "s' = io_serial_init COMPort_1 d db sb pb s"
  shows "same_thread_state s s'" "eflags (hw s') = eflags (hw s)" "serial_locks_initialized s' COMPort_1"
    "lock_free s' (serial_lock (image s) COMPort_1)"
proof -
  let ?s2 = "mutex_init (serial_lock (image s) COMPort_1) (s\<lparr>hw := io_serial_init_regs COMPort_1 d db sb pb (hw s)\<rparr>)"
  have e: "s' = say ''Initialized COM%u port\<newline>'' [Val 0] (?s2\<lparr>serial_locks_initialized := (serial_locks_initialized ?s2)(COMPort_1 := True)\<rparr>)"
    by (simp add: s'_def io_serial_init_def Let_def)
  have reg: "eflags (io_serial_init_regs COMPort_1 d db sb pb h) = eflags h" for h
    by (simp add: io_serial_init_regs_def internal_io_outb_def Let_def)
  show "eflags (hw s') = eflags (hw s)" unfolding e by (simp add: reg)
  show "serial_locks_initialized s' COMPort_1" unfolding e by (simp add: say_def)
  show "lock_free s' (serial_lock (image s) COMPort_1)"
    unfolding e by (simp add: lock_free_def mutex_init_def semaphore_init_def upd_mutex_def upd_sem_def free_mutex_def)
  show "same_thread_state s s'"
    unfolding e same_thread_state_def
    by (simp add: bare_def lock_free_def mutex_init_def semaphore_init_def upd_mutex_def upd_sem_def free_mutex_def say_def)
qed

lemma hw_same_state [simp]: "same_thread_state s (s\<lparr>hw := h\<rparr>)"
  by (simp add: same_thread_state_def bare_def lock_free_def)

lemma segments_ok:
  assumes "\<not> gdt_inited (machine.extend (hw (kernel c)) (segments c))"
  shows "\<exists>h x. with_segments (gdt_init a b) c = Inr (set_hw h (c\<lparr>segments := x\<rparr>)) \<and> eflags h = eflags (hw (kernel c)) \<and>
     length (gdt (machine.extend h x)) = 6"
proof -
  obtain s' where s': "gdt_init a b (machine.extend (hw (kernel c)) (segments c)) = Inr s'" "length (gdt s') = 6"
    using gdt_init_ok [OF assms] by blast
  moreover have "eflags s' = eflags (hw (kernel c))" using s'(1) by (auto simp: gdt_init_def Let_def)
  ultimately show ?thesis
    by (intro exI [of _ "machine.truncate s'"] exI [of _ "machine.more s'"]) (simp add: with_segments_def extend_truncate)
qed

lemma gates_ok:
  assumes "\<not> idt_inited (machine.extend (hw (kernel c)) (gates c))"
  shows "\<exists>h x. with_gates (idt_init isr a) c = Inr (set_hw h (c\<lparr>gates := x\<rparr>)) \<and> eflags h = eflags (hw (kernel c)) \<and>
     length (idt (machine.extend h x)) = 256 \<and>
     (\<forall>i < 256. gate_present (idt (machine.extend h x) ! i) \<and> gate_offset (idt (machine.extend h x) ! i) = isr (vector_name i))"
proof -
  obtain s' where s': "idt_init isr a (machine.extend (hw (kernel c)) (gates c)) = Inr s'" "length (idt s') = 256"
    "\<forall>i < 256. gate_present (idt s' ! i) \<and> gate_offset (idt s' ! i) = isr (vector_name i)"
    using idt_init_ok [OF assms] by blast
  moreover have "eflags s' = eflags (hw (kernel c))" using s'(1) by (auto simp: idt_init_def Let_def)
  ultimately show ?thesis
    by (intro exI [of _ "machine.truncate s'"] exI [of _ "machine.more s'"]) (simp add: with_gates_def extend_truncate)
qed

lemma thread_main_init_keeps:
  assumes "thread_main_init s = Inr s'"
  shows "serial_locks_initialized s' = serial_locks_initialized s" "(\<forall>a. 0 \<le> level s a) \<Longrightarrow> 0 \<le> level s' a"
proof -
  have one: "sint (1 :: u32) = 1" by simp
  have init: "serial_locks_initialized y = serial_locks_initialized x \<and> sems y = sems x"
    if "internal_thread_init e ar stk sp t x = Inr y" for e ar stk sp t x y
    using that by (auto simp: internal_thread_init_def Let_def upd_tcb_def init_nodes_def say_def split: prod.splits)
  from assms show "serial_locks_initialized s' = serial_locks_initialized s"
    by (auto simp: thread_main_init_def Let_def upd_tcb_def init_nodes_def all_add_def mutex_init_def semaphore_init_def
        upd_mutex_def upd_sem_def case_prod_beta dest!: init)
  from assms show "(\<forall>a. 0 \<le> level s a) \<Longrightarrow> 0 \<le> level s' a"
    by (auto simp: thread_main_init_def Let_def upd_tcb_def init_nodes_def all_add_def mutex_init_def semaphore_init_def
        upd_mutex_def upd_sem_def case_prod_beta dest!: init)
qed

lemma terminal_init_on_screen: "on_screen (terminal_init t)"
proof -
  have inner: "terminal_row (fold (\<lambda>x t. t\<lparr>terminal_buffer := f x t\<rparr>) xs t) = terminal_row t \<and>
     terminal_column (fold (\<lambda>x t. t\<lparr>terminal_buffer := f x t\<rparr>) xs t) = terminal_column t" for f :: "nat \<Rightarrow> terminal \<Rightarrow> u32 \<Rightarrow> u16" and xs t
    by (induction xs arbitrary: t) auto
  have "terminal_row (fold (\<lambda>y. fold (\<lambda>x t. t\<lparr>terminal_buffer := f y x t\<rparr>) xs) ys t) = terminal_row t \<and>
     terminal_column (fold (\<lambda>y. fold (\<lambda>x t. t\<lparr>terminal_buffer := f y x t\<rparr>) xs) ys t) = terminal_column t" for f :: "nat \<Rightarrow> nat \<Rightarrow> terminal \<Rightarrow> u32 \<Rightarrow> u16" and ys xs t
    by (induction ys arbitrary: t) (auto simp: inner)
  then show ?thesis by (simp add: terminal_init_def on_screen_def Let_def)
qed

lemma check_flags_ok: "interrupt_is_enabled (hw s) \<Longrightarrow> check_flags s = Inr (s\<lparr>hw := sti (cli (hw s))\<rparr>)"
  by (simp add: check_flags_def interrupt_disable_def interrupt_enable_def)

section \<open>The start\<close>

text \<open>
  What the boot loader leaves: an image whose data is zero but for its initialisers, interrupts off, and a
  memory map with a region that holds the kernel and room behind it.
\<close>

definition loaded :: "boot_env \<Rightarrow> u32 \<Rightarrow> computer \<Rightarrow> bool" where
  "loaded env mbinfo c \<longleftrightarrow> (let s = kernel c; ke = unat (kernel_end_addr env) in
     bare s \<and> \<not> threads_inited s \<and> next_tid s = 1 \<and> (\<forall>a. sem_count (sems s a) = 0) \<and>
     \<not> interrupt_is_enabled (hw s) \<and> \<not> gdt_inited (machine.extend (hw s) (segments c)) \<and>
     \<not> idt_inited (machine.extend (hw s) (gates c)) \<and> \<not> kmalloc_inited (heap s) \<and> free_list (heap s) = 0 \<and>
     (\<exists>es st ln ty. boot_map (mem (heap s)) mbinfo es \<and> find (holds_kernel (kernel_end_addr env)) es = Some (st, ln, ty) \<and>
        round_up 4096 ke + 16384 \<le> unat (st + ln)) \<and>
     idle_thread s \<noteq> 0 \<and> unat (idle_thread s) + 56 \<le> ke \<and> unat (idle_stack (image s)) + 65536 \<le> ke)"

lemma kmalloc_init_ok:
  assumes "boot_map (mem (heap s)) mbinfo es" "find (holds_kernel ke) es = Some (st, ln, ty)" "\<not> kmalloc_inited (heap s)"
    "free_list (heap s) = 0" "0 < ke" "round_up 4096 (unat ke) + 16384 \<le> unat (st + ln)" "\<not> interrupt_is_enabled (hw s)"
  shows "\<exists>h. kmalloc_init mbinfo ke s = Inr (mutex_init (free_list_lock (image s)) (s\<lparr>heap := h\<rparr>)) \<and>
     heap_inv h [(round_up 4096 (unat ke), 16384, False)] \<and> serviceable h [(round_up 4096 (unat ke), 16384, False)] sizeof_thread_t \<and>
     unat ke \<le> unat (kheap_begin h)"
proof -
  let ?k = "round_up 4096 (unat ke)"
  obtain h where h: "kmalloc_init_heap (heap s) False mbinfo ke = Inr h" "heap_inv h [(?k, 16384, False)]"
    using init_heap [OF assms(1-6)] by blast
  have "unat (kheap_begin h) = ?k" using h(2) by (simp add: heap_inv_def)
  then have "unat ke \<le> unat (kheap_begin h)" using round_up_ge [of 4096 "unat ke"] by simp
  moreover have "serviceable h [(?k, 16384, False)] sizeof_thread_t" by (simp add: size_eval)
  ultimately show ?thesis using h assms(7) by (intro exI [of _ h]) (simp add: kmalloc_init_def)
qed

text \<open>The kernel just before its threads are made.\<close>

lemma before_threads:
  assumes st: "same_thread_state s s3" and ld: "bare s" "\<not> threads_inited s" "next_tid s = 1" "\<And>a. sem_count (sems s a) = 0"
    and ser: "serial_locks_initialized s3 COMPort_1" "lock_free s3 (serial_lock (image s) COMPort_1)"
    and s6: "s6 = (mutex_init (free_list_lock (image s)) (s3\<lparr>heap := h\<rparr>))\<lparr>hw := hh\<rparr>"
  shows "bare s6" "\<not> threads_inited s6" "next_tid s6 = 1" "image s6 = image s" "heap s6 = h" "0 \<le> level s6 a"
    "serial_locks_initialized s6 COMPort_1" "esp_reg s6 = esp_reg s"
    "l = free_list_lock (image s) \<or> l = serial_lock (image s) COMPort_1 \<Longrightarrow> lock_free s6 l"
proof -
  let ?s4 = "mutex_init (free_list_lock (image s)) (s3\<lparr>heap := h\<rparr>)"
  have "bare s3" using st ld(1) by (simp add: same_thread_state_def)
  then show "bare s6" by (simp add: s6 bare_def mutex_init_def semaphore_init_def upd_mutex_def upd_sem_def)
  have "threads_inited ?s4 = threads_inited s3" "serial_locks_initialized ?s4 = serial_locks_initialized s3"
    by (simp_all add: mutex_init_def semaphore_init_def upd_mutex_def upd_sem_def)
  then show "\<not> threads_inited s6" "serial_locks_initialized s6 COMPort_1"
    using st ld(2) ser(1) by (simp_all add: s6 same_thread_state_def)
  show "next_tid s6 = 1" "image s6 = image s" "heap s6 = h" "esp_reg s6 = esp_reg s" using st ld(3) by (simp_all add: s6 same_thread_state_def)
  have "0 \<le> level s3 a" for a using st ld(4) by (simp add: same_thread_state_def)
  then show "0 \<le> level s6 a" by (simp add: s6 mutex_init_def semaphore_init_def upd_mutex_def upd_sem_def)
  have "lock_free (x\<lparr>hw := hh\<rparr>) l = lock_free x l" for x hh by (simp add: lock_free_def)
  then show "lock_free s6 l" if "l = free_list_lock (image s) \<or> l = serial_lock (image s) COMPort_1"
    using that ser(2) by (auto simp: s6 lock_free_init)
qed

lemma initialize_ok:
  assumes ld: "loaded env mbinfo c"
  defines "i \<equiv> idle_thread (kernel c)"
  shows "\<exists>c' g. initialize env mbinfo c = Inr c' \<and> running (kernel c') \<and> image (kernel c') = image (kernel c) \<and>
     kinv (kernel c') \<lparr>v_all = [i, current_thread (kernel c')], v_at = (\<lambda>_. [])\<rparr> \<and>
     heap_ok (kernel c') \<lparr>v_all = [i, current_thread (kernel c')], v_at = (\<lambda>_. [])\<rparr> g \<and>
     (\<forall>l \<in> {free_list_lock (image (kernel c)), all_threads_lock (image (kernel c)), local_threads_lock (image (kernel c)),
        serial_lock (image (kernel c)) COMPort_1}. lock_free (kernel c') l) \<and>
     serial_locks_initialized (kernel c') COMPort_1 \<and> (\<forall>a. 0 \<le> level (kernel c') a) \<and> on_screen (screen c') \<and>
     length (gdt (machine.extend (hw (kernel c')) (segments c'))) = 6 \<and>
     (\<forall>n < 256. gate_present (idt (machine.extend (hw (kernel c')) (gates c')) ! n) \<and>
        gate_offset (idt (machine.extend (hw (kernel c')) (gates c')) ! n) = isr_addr env (vector_name n)) \<and>
     idle_made (kernel c) (kernel c') \<and> unat (kernel_end_addr env) \<le> unat (kheap_begin (heap (kernel c')))"
proof -
  let ?s = "kernel c" and ?ke = "kernel_end_addr env" and ?im = "image (kernel c)"
  obtain es st ln ty where ld': "bare ?s" "\<not> threads_inited ?s" "next_tid ?s = 1" "\<And>a. sem_count (sems ?s a) = 0"
    "\<not> interrupt_is_enabled (hw ?s)" "\<not> gdt_inited (machine.extend (hw ?s) (segments c))"
    "\<not> idt_inited (machine.extend (hw ?s) (gates c))" "\<not> kmalloc_inited (heap ?s)" "free_list (heap ?s) = 0"
    "boot_map (mem (heap ?s)) mbinfo es" "find (holds_kernel ?ke) es = Some (st, ln, ty)"
    "round_up 4096 (unat ?ke) + 16384 \<le> unat (st + ln)"
    "idle_thread ?s \<noteq> 0" "unat (idle_thread ?s) + 56 \<le> unat ?ke" "unat (idle_stack ?im) + 65536 \<le> unat ?ke"
    using ld by (auto simp: loaded_def Let_def)
  define s1 where "s1 = io_serial_init COMPort_1 3 COMDataBits_7 COMStopBits_1 COMParityBits_NONE ?s"
  note si = serial_init_ok [OF s1_def]
  let ?c1 = "c\<lparr>kernel := s1\<rparr>"
  obtain h2 x2 where g: "with_segments (gdt_init (gdt_addr env) (tss_addr env)) ?c1 = Inr (set_hw h2 (?c1\<lparr>segments := x2\<rparr>))"
    "eflags h2 = eflags (hw s1)" "length (gdt (machine.extend h2 x2)) = 6"
    using segments_ok [of ?c1 "gdt_addr env" "tss_addr env"] ld'(6) inited_extend(1) [of "hw s1" "segments c" "hw ?s"] by auto
  let ?c2 = "set_hw h2 (?c1\<lparr>segments := x2\<rparr>)"
  obtain h3 x3 where d: "with_gates (idt_init (isr_addr env) (idt_addr env)) ?c2 = Inr (set_hw h3 (?c2\<lparr>gates := x3\<rparr>))"
    "eflags h3 = eflags h2"
    "\<forall>n < 256. gate_present (idt (machine.extend h3 x3) ! n) \<and> gate_offset (idt (machine.extend h3 x3) ! n) = isr_addr env (vector_name n)"
    using gates_ok [of ?c2 "isr_addr env" "idt_addr env"] ld'(7) inited_extend(2) [of h2 "gates c" "hw ?s"] by (auto simp: set_hw_def)
  let ?c3 = "set_hw h3 (?c2\<lparr>gates := x3\<rparr>)" and ?s3 = "s1\<lparr>hw := h3\<rparr>"
  have k3: "kernel ?c3 = ?s3" by (simp add: set_hw_def)
  have st: "same_thread_state ?s ?s3" using si(1) by (simp add: same_thread_state_def bare_def lock_free_def)
  have "eflags h3 = eflags (hw ?s)" using d(2) g(2) si(2) by simp
  then have off: "\<not> interrupt_is_enabled (hw ?s3)" using ld'(5) enabled_cong [of h3 "hw ?s"] by simp
  have "0 < ?ke" using ld'(14) by (simp add: word_less_nat_alt)
  then obtain h where k: "kmalloc_init mbinfo ?ke ?s3 = Inr (mutex_init (free_list_lock ?im) (?s3\<lparr>heap := h\<rparr>))"
    "heap_inv h [(round_up 4096 (unat ?ke), 16384, False)]" "serviceable h [(round_up 4096 (unat ?ke), 16384, False)] sizeof_thread_t"
    "unat ?ke \<le> unat (kheap_begin h)"
    using kmalloc_init_ok [of ?s3 mbinfo es ?ke st ln ty] ld'(8-12) st off by (auto simp: same_thread_state_def)
  let ?s4 = "mutex_init (free_list_lock ?im) (?s3\<lparr>heap := h\<rparr>)"
  define s6 where "s6 = ?s4\<lparr>hw := timer_init (devices env) (hw ?s4)\<rparr>"
  have "serial_locks_initialized ?s3 COMPort_1" "lock_free ?s3 (serial_lock ?im COMPort_1)"
    using si(3,4) by (simp_all add: lock_free_def)
  note s6 = before_threads [OF st ld'(1-4) this s6_def]
  have "image_ok s6" using ld'(13-15) k(4) s6(4,5) by (simp add: image_ok_def)
  then obtain s7 g7 where r: "thread_main_init s6 = Inr s7" "running s7" "image s7 = ?im"
    "kinv s7 \<lparr>v_all = [i, current_thread s7], v_at = (\<lambda>_. [])\<rparr>" "heap_ok s7 \<lparr>v_all = [i, current_thread s7], v_at = (\<lambda>_. [])\<rparr> g7"
    "lock_free s7 (all_threads_lock ?im)" "lock_free s7 (local_threads_lock ?im)" "\<And>l. lock_free s6 l \<Longrightarrow> lock_free s7 l"
    "idle_made s6 s7" "kheap_begin (heap s7) = kheap_begin h"
    using thread_main_init_ok [OF s6(1-3), of "[(round_up 4096 (unat ?ke), 16384, False)]"] s6(4,5) k(2,3) unfolding i_def by auto
  note keeps = thread_main_init_keeps [OF r(1)]
  have "idle_made ?s s7" "unat ?ke \<le> unat (kheap_begin (heap s7))"
    using r(9,10) s6(4,8) k(4) by (simp_all add: idle_made_def)
  note made = this
  let ?c7 = "(set_hw (timer_init (devices env) (hw ?s4)) (?c3\<lparr>kernel := ?s4, screen := terminal_init (screen ?c3)\<rparr>))\<lparr>kernel := s7\<rparr>"
  have "initialize env mbinfo c = Inr ?c7"
    using g(1) d(1) k(1) r(1) k3
    by (simp add: initialize_def Let_def s1_def [symmetric] s6_def set_hw_def del: andthen_eq_Inr)
  moreover have "segments ?c7 = x2" "gates ?c7 = x3" "kernel ?c7 = s7" "screen ?c7 = terminal_init (screen c)"
    by (simp_all add: set_hw_def)
  ultimately show ?thesis
    using r s6 keeps made g(3) d(3) inited_extend(3) [of "hw s7" x2 h2] inited_extend(4) [of "hw s7" x3 h3] terminal_init_on_screen
    by (intro exI [of _ ?c7] exI [of _ g7]) auto
qed

text \<open>What the invariants say of a state is not changed by output and blocker notes of the main thread.\<close>

definition quiet :: "kern \<Rightarrow> kern \<Rightarrow> bool" where
  "quiet s s' \<longleftrightarrow> (\<exists>ob ty. s' = set_blocker (current_thread s) ob ty (s\<lparr>hw := hw s'\<rparr>)) \<and> interrupt_is_enabled (hw s')"

lemma quiet_keeps:
  assumes "quiet s s'"
  shows "current_thread s' = current_thread s" "image s' = image s" "kinv s' v = kinv s v" "running s' = running s"
    "heap_ok s' v g = heap_ok s v g" "lock_free s' l = lock_free s l" "serial_locks_initialized s' = serial_locks_initialized s"
    "level s' a = level s a" "mutexes s' = mutexes s" "interrupt_is_enabled (hw s')" "heap s' = heap s" "idle_made s0 s' = idle_made s0 s"
proof -
  obtain ob ty where e: "s' = set_blocker (current_thread s) ob ty (s\<lparr>hw := hw s'\<rparr>)" using assms by (auto simp: quiet_def)
  have [simp]: "lock_free (s\<lparr>hw := h\<rparr>) l = lock_free s l" for h by (simp add: lock_free_def)
  show "current_thread s' = current_thread s" "kinv s' v = kinv s v" "running s' = running s"
    "lock_free s' l = lock_free s l" "level s' a = level s a" "mutexes s' = mutexes s"
    by (subst e, simp)+
  show i: "image s' = image s" by (subst e) simp
  show "serial_locks_initialized s' = serial_locks_initialized s" by (subst e) (simp add: set_blocker_def upd_tcb_def)
  have sb: "stack_base (tcbs s' t) = stack_base (tcbs s t)" for t by (subst e) (simp add: set_blocker_def upd_tcb_def)
  show h: "heap s' = heap s" by (subst e) simp
  have "esp (tcbs s' t) = esp (tcbs s t)" for t by (subst e) (simp add: set_blocker_def upd_tcb_def)
  moreover have "esp_reg s' = esp_reg s" "current_thread s' = current_thread s" by (subst e, simp add: set_blocker_def upd_tcb_def)+
  ultimately show "idle_made s0 s' = idle_made s0 s" using sb h by (simp add: idle_made_def)
  from h show "heap_ok s' v g = heap_ok s v g" using owned_by_cong [OF i sb] by (simp add: heap_ok_def)
  show "interrupt_is_enabled (hw s')" using assms by (simp add: quiet_def)
qed

lemma idle_made_hw [simp]: "idle_made s0 (s\<lparr>hw := h\<rparr>) = idle_made s0 s"
  by (simp add: idle_made_def)

lemma printf_quiet:
  assumes "current_thread s \<noteq> 0" "interrupt_is_enabled (hw s)" "serial_locks_initialized s COMPort_1"
    "lock_free s (serial_lock (image s) COMPort_1)"
  shows "\<exists>s'. printf f args s = Return () s' \<and> quiet s s'"
proof -
  let ?s' = "set_blocker (current_thread s) (serial_lock (image s) COMPort_1) BlockerType_Mutex
     (s\<lparr>hw := io_serial_unsafe_printf COMPort_1 f args (hw s)\<rparr>)"
  have "quiet s ?s'"
    using assms(2) enabled_cong [of "io_serial_unsafe_printf COMPort_1 f args (hw s)" "hw s"] by (auto simp: quiet_def)
  then show ?thesis using printf_run [OF assms] by blast
qed

lemma kernel_main_idles:
  assumes ld: "loaded env mbinfo c" and first: "\<not> main_inited c"
  defines "i \<equiv> idle_thread (kernel c)" and "im \<equiv> image (kernel c)"
  shows "\<exists>c' g. kernel_main env n 0x2BADB002 mbinfo c = on_kern (cpu_idle_loop n (kernel c')) c' \<and>
     initial {free_list_lock im, all_threads_lock im, local_threads_lock im, serial_lock im COMPort_1}
       (kernel c') \<lparr>v_all = [i, current_thread (kernel c')], v_at = (\<lambda>_. [])\<rparr> g \<and>
     interrupt_is_enabled (hw (kernel c')) \<and> on_screen (screen c') \<and>
     length (gdt (machine.extend (hw (kernel c')) (segments c'))) = 6 \<and>
     (\<forall>k < 256. gate_present (idt (machine.extend (hw (kernel c')) (gates c')) ! k) \<and>
        gate_offset (idt (machine.extend (hw (kernel c')) (gates c')) ! k) = isr_addr env (vector_name k)) \<and>
     idle_made (kernel c) (kernel c') \<and> image (kernel c') = im \<and> unat (kernel_end_addr env) \<le> unat (kheap_begin (heap (kernel c')))"
proof -
  let ?c1 = "c\<lparr>main_inited := True\<rparr>"
  have "loaded env mbinfo ?c1" using ld by (simp add: loaded_def)
  then obtain c2 g where init: "initialize env mbinfo ?c1 = Inr c2" "running (kernel c2)" "image (kernel c2) = im"
    "kinv (kernel c2) \<lparr>v_all = [i, current_thread (kernel c2)], v_at = (\<lambda>_. [])\<rparr>"
    "heap_ok (kernel c2) \<lparr>v_all = [i, current_thread (kernel c2)], v_at = (\<lambda>_. [])\<rparr> g"
    "\<And>l. l \<in> {free_list_lock im, all_threads_lock im, local_threads_lock im, serial_lock im COMPort_1} \<Longrightarrow> lock_free (kernel c2) l"
    "serial_locks_initialized (kernel c2) COMPort_1" "\<And>a. 0 \<le> level (kernel c2) a" "on_screen (screen c2)"
    "length (gdt (machine.extend (hw (kernel c2)) (segments c2))) = 6"
    "\<And>k. k < 256 \<Longrightarrow> gate_present (idt (machine.extend (hw (kernel c2)) (gates c2)) ! k) \<and>
        gate_offset (idt (machine.extend (hw (kernel c2)) (gates c2)) ! k) = isr_addr env (vector_name k)"
    "idle_made (kernel c) (kernel c2)" "unat (kernel_end_addr env) \<le> unat (kheap_begin (heap (kernel c2)))"
    using initialize_ok [of env mbinfo ?c1] unfolding i_def im_def by auto
  let ?s3 = "(kernel c2)\<lparr>hw := sti (hw (kernel c2))\<rparr>"
  have c0: "current_thread (kernel c2) \<noteq> 0" by (rule kinv_cur_nonnull [OF init(4)])
  have "lock_free (x\<lparr>hw := h\<rparr>) l = lock_free x l" for x h l by (simp add: lock_free_def)
  note lf [simp] = this
  obtain s4 where p4: "printf ''Kernel Initialize Completed\<newline>'' [] ?s3 = Return () s4" "quiet ?s3 s4"
    using printf_quiet [of ?s3 "''Kernel Initialize Completed\<newline>''" "[]"] c0 init(3,6,7) by auto
  note q4 = quiet_keeps [OF p4(2)]
  let ?s6 = "s4\<lparr>hw := sti (cli (hw s4))\<rparr>"
  have f6: "check_flags s4 = Inr ?s6" by (rule check_flags_ok [OF q4(10)])
  obtain s7 where p7: "printf ''Kernel Main Thread Idling\<newline>'' [] ?s6 = Return () s7" "quiet ?s6 s7"
    using printf_quiet [of ?s6 "''Kernel Main Thread Idling\<newline>''" "[]"] c0 init(3,6,7) q4 by auto
  note q7 = quiet_keeps [OF p7(2)]
  let ?c7 = "c2\<lparr>screen := terminal_say ''Welcome to AlienOS\<newline>'' (screen c2), kernel := s7\<rparr>"
  have run: "kernel_main env n 0x2BADB002 mbinfo c = on_kern (cpu_idle_loop n (kernel ?c7)) ?c7"
    using first init(1) p4(1) f6 p7(1) by (simp add: kernel_main_def Let_def set_hw_def interrupt_enable_def)
  have h7: "heap_ok (x\<lparr>hw := h\<rparr>) v g = heap_ok x v g" for x h v
    using owned_by_cong [of "x\<lparr>hw := h\<rparr>" x] by (simp add: heap_ok_def)
  have l7: "lock_free s7 l" if "l \<in> {free_list_lock im, all_threads_lock im, local_threads_lock im, serial_lock im COMPort_1}" for l
    using init(6) [OF that] q4 q7 by simp
  have "initial {free_list_lock im, all_threads_lock im, local_threads_lock im, serial_lock im COMPort_1}
      s7 \<lparr>v_all = [i, current_thread s7], v_at = (\<lambda>_. [])\<rparr> g"
    using init q4 q7 l7 h7 by (auto simp: initial_def lock_free_def)
  moreover have "idle_made (kernel c) s7" "image s7 = im" "heap s7 = heap (kernel c2)"
    using init(3,12) q4(2,11,12) q7(2,11,12) by simp_all
  moreover have "on_screen (screen ?c7)" using text_safe [OF init(9)] by (simp add: terminal_say_def)
  ultimately show ?thesis
    using run q7(10) init(10,11,13) inited_extend(3) [of "hw s7" "segments c2" "hw (kernel c2)"]
      inited_extend(4) [of "hw s7" "gates c2" "hw (kernel c2)"]
    by (intro exI [of _ ?c7] exI [of _ g]) simp
qed

section \<open>The booted kernel\<close>

text \<open>The kernel boots: from what the boot loader leaves, \<open>kernel_main\<close> initialises every part without an
  assertion failing and arrives in its idle loop with interrupts enabled, every gate of the
  interrupt table present and pointing to its handler, the cursor on the screen, and a thread
  system in its initial state, the main thread running and the idle thread behind it.\<close>

theorem kernel_main_boots:
  assumes "loaded env mbinfo c" "\<not> main_inited c"
  shows "\<exists>c' g. kernel_main env n 0x2BADB002 mbinfo c = on_kern (cpu_idle_loop n (kernel c')) c' \<and>
     initial {free_list_lock (image (kernel c)), all_threads_lock (image (kernel c)), local_threads_lock (image (kernel c)),
         serial_lock (image (kernel c)) COMPort_1}
       (kernel c') \<lparr>v_all = [idle_thread (kernel c), current_thread (kernel c')], v_at = (\<lambda>_. [])\<rparr> g \<and>
     interrupt_is_enabled (hw (kernel c')) \<and> on_screen (screen c') \<and>
     length (gdt (machine.extend (hw (kernel c')) (segments c'))) = 6 \<and>
     (\<forall>k < 256. gate_present (idt (machine.extend (hw (kernel c')) (gates c')) ! k) \<and>
        gate_offset (idt (machine.extend (hw (kernel c')) (gates c')) ! k) = isr_addr env (vector_name k))"
  using kernel_main_idles [OF assms] by blast

definition zero_kern :: kern where
  "zero_kern = \<lparr>image = \<lparr>idle_thread_addr = 0x105000, idle_stack = 0x106000, all_threads_lock = 0x120000,
       local_threads_lock = 0x120020, free_list_lock = 0x120040, serial_lock = (\<lambda>_. 0x120060),
       thread_exit_addr = 0x101000, cpu_idle_loop_addr = 0x101100\<rparr>,
     all_links = (\<lambda>_. \<lparr>thread = 0, nxt = 0, prev = 0\<rparr>), local_links = (\<lambda>_. \<lparr>thread = 0, nxt = 0, prev = 0\<rparr>),
     tcbs = (\<lambda>_. zero_tcb), all_threads = 0, ready_threads = 0, sleeping_threads = 0, zombie_threads = 0,
     current_thread = 0, next_tid = 1, threads_inited = False,
     sems = (\<lambda>_. \<lparr>sem_count = 0, sem_queue = \<lparr>wait_queue_head = 0, wait_queue_tail = 0\<rparr>\<rparr>),
     mutexes = (\<lambda>_. free_mutex), condvars = (\<lambda>_. \<lparr>wait_queue_head = 0, wait_queue_tail = 0\<rparr>),
     serial_locks_initialized = (\<lambda>_. False), timer_ticks = 0, first_tick = True, esp_reg = 0x90000,
     heap = booted, hw = \<lparr>io_trace = [], eflags = 2\<rparr>\<rparr>"

definition off_computer :: computer where
  "off_computer = \<lparr>kernel = zero_kern,
     segments = machine.more \<lparr>io_trace = [], eflags = 2, gdt = [], gdt_inited = False, gdtr = (0, 0), task_register = 0\<rparr>,
     gates = machine.more \<lparr>io_trace = [], eflags = 2, idt = [], idt_inited = False, idtr = (0, 0)\<rparr>,
     screen = \<lparr>terminal_row = 0, terminal_column = 0, terminal_color = 0, terminal_buffer = (\<lambda>_. 0)\<rparr>, main_inited = False\<rparr>"

definition some_env :: boot_env where
  "some_env = \<lparr>gdt_addr = 0x110000, tss_addr = 0x111000, isr_addr = (\<lambda>_. 0x100100), idt_addr = 0x112000,
     kernel_end_addr = 0x1FF123, devices = last_out\<rparr>"

lemma off_computer_loaded: "loaded some_env 0x1000 off_computer"
proof -
  have map: "boot_map (mem booted) 0x1000 [(0x100000, 0x700000, 1)]"
    by (simp add: boot_map_def booted_def boot_info_words)
  have "find (holds_kernel 0x1FF123) [(0x100000, 0x700000, 1)] = Some (0x100000, 0x700000, 1)"
    by simp
  moreover have "round_up 4096 (unat (0x1FF123 :: u32)) + 16384 \<le> unat (0x100000 + 0x700000 :: u32)"
    by (simp add: round_up_def)
  ultimately have ex: "\<exists>es st ln ty. boot_map (mem booted) 0x1000 es \<and> find (holds_kernel 0x1FF123) es = Some (st, ln, ty) \<and>
      round_up 4096 (unat (0x1FF123 :: u32)) + 16384 \<le> unat (st + ln)" using map by blast
  have "\<not> kmalloc_inited booted" "free_list booted = 0" by (simp_all add: booted_def)
  then show ?thesis
    using ex by (simp add: loaded_def off_computer_def zero_kern_def some_env_def bare_def machine.defs interrupt_is_enabled_bit)
qed

theorem kernel_main_boots_witness:
  "\<exists>c' g. kernel_main some_env 7 0x2BADB002 0x1000 off_computer = on_kern (cpu_idle_loop 7 (kernel c')) c' \<and>
     initial {0x120040, 0x120000, 0x120020, 0x120060} (kernel c') \<lparr>v_all = [0x105000, current_thread (kernel c')], v_at = (\<lambda>_. [])\<rparr> g"
proof -
  have "\<not> main_inited off_computer" by (simp add: off_computer_def)
  from kernel_main_boots [OF off_computer_loaded this, of 7] show ?thesis by (auto simp: off_computer_def zero_kern_def)
qed

end
