(* ===== verification/ContextSwitch.thy ===== *)
theory ContextSwitch
  imports ThreadCreate
begin

text \<open>
  The context switch at the level of registers: \<^verbatim>\<open>isr_IRQ0\<close> of \<^verbatim>\<open>src/io/interruptasm.s\<close> instruction by instruction,
  on the stack in memory. The registers a thread has when the interrupt strikes are pushed onto its
  stack, the stack pointer goes into its control block, and the same instructions in reverse take the
  registers of the next thread off that thread's stack.
\<close>

section \<open>Registers and the stack\<close>

text \<open>The stack pointer and the flags are part of the kernel state (\<open>esp_reg\<close>, \<open>hw\<close>).\<close>

record cpu =
  eax :: u32
  ecx :: u32
  edx :: u32
  ebx :: u32
  ebp :: u32
  esi :: u32
  edi :: u32
  ds_reg :: u16
  es_reg :: u16
  fs_reg :: u16
  gs_reg :: u16
  cs_reg :: u16
  eip :: u32

definition pushl :: "u32 \<Rightarrow> kern \<Rightarrow> kern" where
  "pushl w s = s\<lparr>heap := (heap s)\<lparr>mem := store32 (mem (heap s)) (esp_reg s - 4) w\<rparr>, esp_reg := esp_reg s - 4\<rparr>"

definition popl :: "kern \<Rightarrow> u32 \<times> kern" where
  "popl s = (load32 (mem (heap s)) (esp_reg s), s\<lparr>esp_reg := esp_reg s + 4\<rparr>)"

text \<open>What the processor does on an interrupt, and what \<^verbatim>\<open>iret\<close> does.\<close>

definition interrupt_entry :: "cpu \<Rightarrow> kern \<Rightarrow> kern" where
  "interrupt_entry c s =
     (let s1 = pushl (eip c) (pushl (ucast (cs_reg c)) (pushl (eflags (hw s)) s))
      in s1\<lparr>hw := cli (hw s1)\<rparr>)"

definition iret :: "cpu \<Rightarrow> kern \<Rightarrow> cpu \<times> kern" where
  "iret c s =
     (let (ip, s1) = popl s; (cs, s2) = popl s1; (fl, s3) = popl s2
      in (c\<lparr>eip := ip, cs_reg := ucast cs\<rparr>, s3\<lparr>hw := eflags_set fl (hw s3)\<rparr>))"

definition save_registers :: "cpu \<Rightarrow> kern \<Rightarrow> kern" where
  "save_registers c s =
     (let s1 = pushl (eax c) s; s2 = pushl (ecx c) s1; s3 = pushl (edx c) s2; s4 = pushl (ebx c) s3;
          s5 = pushl (ebp c) s4; s6 = pushl (esi c) s5; s7 = pushl (edi c) s6;
          s8 = pushl (ucast (ds_reg c)) s7; s9 = pushl (ucast (es_reg c)) s8; s10 = pushl (ucast (fs_reg c)) s9
      in pushl (ucast (gs_reg c)) s10)"

definition restore_registers :: "cpu \<Rightarrow> kern \<Rightarrow> cpu \<times> kern" where
  "restore_registers c s =
     (let (gs, s1) = popl s; (fs, s2) = popl s1; (es, s3) = popl s2; (ds, s4) = popl s3;
          (di, s5) = popl s4; (si, s6) = popl s5; (bp, s7) = popl s6; (bx, s8) = popl s7;
          (dx, s9) = popl s8; (cx, s10) = popl s9; (ax, s11) = popl s10
      in (c\<lparr>gs_reg := ucast gs, fs_reg := ucast fs, es_reg := ucast es, ds_reg := ucast ds, edi := di, esi := si,
            ebp := bp, ebx := bx, edx := dx, ecx := cx, eax := ax\<rparr>, s11))"

text \<open>
  The whole handler. The argument \<open>junk\<close> holds whatever the compiled C routines leave in the
  registers; what they use of the stack lies below the saved registers and is left out.
\<close>

definition isr_IRQ0_asm :: "cpu \<Rightarrow> cpu \<Rightarrow> kern \<Rightarrow> (cpu \<times> kern) outcome" where
  "isr_IRQ0_asm junk c s =
     andthen (timer_callback (save_registers c (interrupt_entry c s))) (\<lambda>s1.
     let s2 = upd_tcb (current_thread s1) (\<lambda>t. t\<lparr>esp := esp_reg s1\<rparr>) s1;
         s3 = s2\<lparr>hw := io_outb 0x20 0x20 (hw s2)\<rparr>
     in andthen (scheduler_next s3) (\<lambda>s4.
        let (c5, s5) = restore_registers junk (s4\<lparr>esp_reg := esp (tcbs s4 (current_thread s4))\<rparr>)
        in Inr (iret c5 s5)))"

section \<open>The frame\<close>

text \<open>The words of a saved context in the order in which they are pushed.\<close>

definition frame_words :: "cpu \<Rightarrow> u32 \<Rightarrow> u32 list" where
  "frame_words c fl = [fl, ucast (cs_reg c), eip c, eax c, ecx c, edx c, ebx c, ebp c, esi c, edi c,
     ucast (ds_reg c), ucast (es_reg c), ucast (fs_reg c), ucast (gs_reg c)]"

definition with_frame :: "cpu \<Rightarrow> kern \<Rightarrow> kern" where
  "with_frame c s = s\<lparr>heap := (heap s)\<lparr>mem := fst (push_words (mem (heap s)) (esp_reg s) (frame_words c (eflags (hw s))))\<rparr>\<rparr>"

definition holds_frame :: "memory \<Rightarrow> u32 \<Rightarrow> cpu \<Rightarrow> u32 \<Rightarrow> bool" where
  "holds_frame m a c fl \<longleftrightarrow> (\<forall>i < 14. load32 m (a - of_nat (4 * (i + 1))) = frame_words c fl ! i)"

lemma save_is_frame:
  "save_registers c (interrupt_entry c s) = (with_frame c s)\<lparr>hw := cli (hw s), esp_reg := esp_reg s - 56\<rparr>"
  by (simp add: save_registers_def interrupt_entry_def pushl_def with_frame_def frame_words_def Let_def)

lemma selector_back [simp]: "ucast (ucast (x :: u16) :: u32) = x"
  by (rule bit_word_eqI) (simp add: bit_simps)

text \<open>Taking a frame off the stack gives back the registers and the flags it was made from.\<close>

lemma frame_popped:
  assumes "holds_frame (mem (heap s)) a c fl" "esp_reg s = a - 56"
  shows "(let (c1, s1) = restore_registers j s in iret c1 s1) = (c, s\<lparr>esp_reg := a, hw := eflags_set fl (hw s)\<rparr>)"
proof -
  have w: "load32 (mem (heap s)) (a - of_nat (4 * (i + 1))) = frame_words c fl ! i" if "i < 14" for i
    using assms(1) that by (simp add: holds_frame_def)
  show ?thesis
    using w [of 0] w [of 1] w [of 2] w [of 3] w [of 4] w [of 5] w [of 6] w [of 7] w [of 8] w [of 9] w [of 10] w [of 11]
      w [of 12] w [of 13] assms(2)
    by (simp add: restore_registers_def iret_def popl_def frame_words_def Let_def case_prod_beta)
qed

text \<open>The handler is the one of the scheduler's model, on a state in which the frame is on the stack.\<close>

definition pop_frame :: "cpu \<Rightarrow> kern \<Rightarrow> cpu \<times> kern" where
  "pop_frame junk s = (let (c1, s1) = restore_registers junk s in iret c1 s1)"

lemma pop_frame_current [simp]: "current_thread (snd (pop_frame junk s)) = current_thread s"
  by (simp add: pop_frame_def restore_registers_def iret_def popl_def Let_def)

lemma isr_IRQ0_asm_eq:
  "isr_IRQ0_asm junk c s = andthen (isr_IRQ0 (with_frame c s)) (\<lambda>s'. Inr (pop_frame junk (s'\<lparr>esp_reg := esp_reg s' - 56\<rparr>)))"
proof -
  let ?s = "(with_frame c s)\<lparr>hw := cli (hw s), esp_reg := esp_reg s - 56\<rparr>"
  have f: "hw (with_frame c s) = hw s" "esp_reg (with_frame c s) = esp_reg s" by (simp_all add: with_frame_def)
  show ?thesis
  proof (cases "timer_callback ?s")
    case (Inr s1)
    let ?s3 = "let s2 = upd_tcb (current_thread s1) (\<lambda>t. t\<lparr>esp := esp_reg s1\<rparr>) s1 in s2\<lparr>hw := io_outb 0x20 0x20 (hw s2)\<rparr>"
    show ?thesis
      using Inr by (cases "scheduler_next ?s3")
        (simp_all add: isr_IRQ0_asm_def isr_IRQ0_def save_is_frame f pop_frame_def Let_def case_prod_beta)
  qed (simp add: isr_IRQ0_asm_def isr_IRQ0_def save_is_frame f)
qed

lemma isr_IRQ0_asm_runs:
  assumes "isr_IRQ0 (with_frame c s) = Inr s'" "holds_frame (mem (heap s')) (esp_reg s') c' fl"
  shows "isr_IRQ0_asm junk c s = Inr (c', s'\<lparr>hw := eflags_set fl (hw s')\<rparr>)"
proof -
  let ?s = "s'\<lparr>esp_reg := esp_reg s' - 56\<rparr>"
  have "holds_frame (mem (heap ?s)) (esp_reg s') c' fl" "esp_reg ?s = esp_reg s' - 56" using assms(2) by simp_all
  from frame_popped [OF this, of junk] show ?thesis using assms(1) by (simp add: isr_IRQ0_asm_eq pop_frame_def)
qed

section \<open>The frame of a new thread\<close>

definition entry_regs :: "u32 \<Rightarrow> cpu" where
  "entry_regs entry = \<lparr>eax = 0, ecx = 0, edx = 0, ebx = 0, ebp = 0, esi = 0, edi = 0, ds_reg = 0x10, es_reg = 0x10, fs_reg = 0x10,
     gs_reg = 0x10, cs_reg = 8, eip = entry\<rparr>"

lemma initial_frame_entry: "initial_frame x entry arg = arg # x # frame_words (entry_regs entry) EFLAGS_DEFAULT"
proof -
  have "segselector_init SegmentKernelCode TableIndex_GDT SegmentPrivilege_Ring0 = 8"
    "segselector_init SegmentKernelData TableIndex_GDT SegmentPrivilege_Ring0 = 0x10" by code_simp+
  then show ?thesis by (simp add: initial_frame_def frame_words_def entry_regs_def Let_def)
qed

text \<open>The words \<open>internal_thread_init\<close> writes are the frame of a thread about to enter its function.\<close>

lemma initial_words_frame:
  assumes w: "\<forall>i < 16. load32 m (stack - of_nat (4 * (i + 1))) = initial_frame x entry arg ! i"
  shows "holds_frame m (stack - 8) (entry_regs entry) EFLAGS_DEFAULT" "load32 m (stack - 4) = arg" "load32 m (stack - 8) = x"
proof -
  have "load32 m (stack - 8 - of_nat (4 * (i + 1))) = frame_words (entry_regs entry) EFLAGS_DEFAULT ! i" if "i < 14" for i
    using w [rule_format, of "i + 2"] that by (simp add: initial_frame_entry algebra_simps)
  then show "holds_frame m (stack - 8) (entry_regs entry) EFLAGS_DEFAULT" by (simp add: holds_frame_def)
  show "load32 m (stack - 4) = arg" "load32 m (stack - 8) = x"
    using w [rule_format, of 0] w [rule_format, of 1] by (simp_all add: initial_frame_entry)
qed

lemma new_frame:
  assumes "64 \<le> unat stack"
  shows "holds_frame (fst (push_words m stack (initial_frame x entry arg))) (stack - 8) (entry_regs entry) EFLAGS_DEFAULT"
proof (rule initial_words_frame(1))
  have len: "length (initial_frame x entry arg) = 16" by (simp add: initial_frame_def Let_def)
  show "\<forall>i < 16. load32 (fst (push_words m stack (initial_frame x entry arg))) (stack - of_nat (4 * (i + 1))) = initial_frame x entry arg ! i"
    using push_words_spec [of "initial_frame x entry arg" stack m] assms unfolding len by simp
qed

end
