(* ===== verification/Stacks.thy ===== *)
theory Stacks
  imports ContextSwitch SharedHeap
begin

text \<open>
  The stacks of the threads: where they are, that they lie apart from each other and from the memory of
  the allocator, and that a frame on one of them outlives whatever happens elsewhere.
\<close>

section \<open>The layout is determined by the state\<close>

lemma tiling_unique:
  assumes "tiled lo g hi" "tiled lo g' hi" "hi < 4294967296" "\<forall>b \<in> set g. hdr_ok m b" "\<forall>b \<in> set g'. hdr_ok m b"
  shows "g = g'"
  using assms
proof (induction g arbitrary: lo g')
  case Nil
  then show ?case by (cases g') (fastforce dest: tiled_le)+
next
  case (Cons b g)
  obtain a n al where b: "b = (a, n, al)" by (cases b)
  then have "lo < hi" using Cons.prems(1) tiled_le [of "lo + n" g hi] by auto
  then obtain a' n' al' h where g': "g' = (a', n', al') # h" using Cons.prems(2) by (cases g') auto
  have le: "lo + n \<le> hi" "lo + n' \<le> hi" using Cons.prems(1,2) b g' by (auto dest: tiled_le)
  have "hdr_ok m (lo, n, al)" "hdr_ok m (lo, n', al')" using Cons.prems b g' by auto
  then have "(of_nat n :: u32) = of_nat n'" "al = al'" by (simp_all add: hdr_ok_def)
  then have "n = n'" "al = al'" using le Cons.prems(3) by (simp_all add: of_nat32_eq)
  then show ?case using Cons.IH [of "lo + n" h] Cons.prems b g' by auto
qed

lemma heap_unique: "heap_inv h g \<Longrightarrow> heap_inv h g' \<Longrightarrow> g = g'"
  using tiling_unique [of "unat (kheap_begin h)" g "unat (kheap_end h)" g' "mem h"] by (simp add: heap_inv_def)

lemma all_unique: "lists_ok s v \<Longrightarrow> lists_ok s' v' \<Longrightarrow> all_links s' = all_links s \<Longrightarrow> all_threads s' = all_threads s \<Longrightarrow> v_all v' = v_all v"
proof -
  assume "lists_ok s v" "lists_ok s' v'" "all_links s' = all_links s" "all_threads s' = all_threads s"
  then have "map all_node (v_all v') = map all_node (v_all v)"
    using dll_unique lists_all [of s v] lists_all [of s' v'] by fastforce
  then show ?thesis by (simp add: inj_map_eq_map inj_def)
qed

section \<open>Where the stacks are\<close>

text \<open>
  The boot stack, on which the main thread runs (the pair \<open>bs\<close>, from \<^verbatim>\<open>bootasm.s\<close>), the static stack of the
  idle thread, and one block of the heap for every other thread.
\<close>

definition stack_range :: "nat \<times> nat \<Rightarrow> kern \<Rightarrow> u32 \<Rightarrow> nat \<times> nat" where
  "stack_range bs s t =
     (if t = idle_thread s then (unat (idle_stack (image s)), unat (idle_stack (image s)) + 65536)
      else if stack_base (tcbs s t) = 0 then bs
      else (unat (stack_base (tcbs s t)), unat (stack_base (tcbs s t)) + 65536))"

definition apart :: "nat \<times> nat \<Rightarrow> nat \<times> nat \<Rightarrow> bool" where
  "apart r q \<longleftrightarrow> snd r \<le> fst q \<or> snd q \<le> fst r"

definition off_heap :: "km_state \<Rightarrow> nat \<times> nat \<Rightarrow> bool" where
  "off_heap h r \<longleftrightarrow> snd r < 4294967296 \<and> apart r (unat (kheap_begin h), unat (kheap_max_end h))"

definition stacks_ok :: "nat \<times> nat \<Rightarrow> kern \<Rightarrow> u32 list \<Rightarrow> block list \<Rightarrow> bool" where
  "stacks_ok bs s ts g \<longleftrightarrow>
     off_heap (heap s) bs \<and> off_heap (heap s) (stack_range bs s (idle_thread s)) \<and> apart bs (stack_range bs s (idle_thread s)) \<and>
     (\<forall>t \<in> set ts. t \<noteq> idle_thread s \<and> stack_base (tcbs s t) \<noteq> 0 \<longrightarrow>
        (\<exists>k \<ge> 65536. (unat (stack_base (tcbs s t)), k) \<in> handed_out g)) \<and>
     (\<forall>t \<in> set ts. \<forall>u \<in> set ts. t \<noteq> idle_thread s \<and> u \<noteq> idle_thread s \<and> stack_base (tcbs s t) = 0 \<and>
        stack_base (tcbs s u) = 0 \<longrightarrow> t = u)"

lemma handed_out_bounds:
  assumes "heap_inv h g" "(p, k) \<in> handed_out g"
  shows "unat (kheap_begin h) \<le> p" "p + k \<le> unat (kheap_max_end h)"
proof -
  have t: "tiled (unat (kheap_begin h)) g (unat (kheap_end h))" "region_ok h" using assms(1) by (simp_all add: heap_inv_def)
  obtain a n where a: "(a, n, True) \<in> set g" "p = a + 16" "k = n - 16" using assms(2) by (auto simp: handed_out_def)
  show "unat (kheap_begin h) \<le> p" "p + k \<le> unat (kheap_max_end h)"
    using tiled_member [OF t(1) a(1)] a(2,3) t(2) by (auto simp: region_ok_def word_le_nat_alt)
qed

lemma owned_mem: "t \<in> set ts \<Longrightarrow> t \<noteq> idle_thread s \<Longrightarrow> set (owned s t) \<subseteq> set (owned_by s ts)"
  by (auto simp: owned_by_def)

lemma owned_distinct:
  "distinct (owned_by s ts) \<Longrightarrow> t \<in> set ts \<Longrightarrow> u \<in> set ts \<Longrightarrow> t \<noteq> u \<Longrightarrow> t \<noteq> idle_thread s \<Longrightarrow> u \<noteq> idle_thread s \<Longrightarrow>
     set (owned s t) \<inter> set (owned s u) = {}"
proof (induction ts)
  case (Cons w ts)
  have d: "distinct (owned_by s ts)" "w \<noteq> idle_thread s \<Longrightarrow> set (owned s w) \<inter> set (owned_by s ts) = {}"
    using Cons.prems(1) by (auto simp: owned_by_def split: if_splits)
  have m: "x \<in> set ts \<Longrightarrow> x \<noteq> idle_thread s \<Longrightarrow> set (owned s x) \<subseteq> set (owned_by s ts)" for x by (rule owned_mem)
  show ?case
  proof (cases "t = w \<or> u = w")
    case True
    then show ?thesis using Cons.prems d(2) m [of t] m [of u] by auto
  next
    case False
    then show ?thesis using Cons d(1) by simp
  qed
qed simp

text \<open>The stack of a thread: off the heap, or inside a block of its own.\<close>

lemma stack_cases:
  assumes ok: "stacks_ok bs s ts g" and t: "t \<in> set ts"
  obtains (off) "off_heap (heap s) (stack_range bs s t)" "t = idle_thread s \<or> stack_base (tcbs s t) = 0"
  | (block) k where "t \<noteq> idle_thread s" "stack_base (tcbs s t) \<noteq> 0" "(unat (stack_base (tcbs s t)), k) \<in> handed_out g" "65536 \<le> k"
      "stack_range bs s t = (unat (stack_base (tcbs s t)), unat (stack_base (tcbs s t)) + 65536)"
proof (cases "t = idle_thread s \<or> stack_base (tcbs s t) = 0")
  case True
  then have "off_heap (heap s) (stack_range bs s t)" using ok by (auto simp: stacks_ok_def stack_range_def)
  then show ?thesis using that(1) True by blast
next
  case False
  then obtain k where "(unat (stack_base (tcbs s t)), k) \<in> handed_out g" "65536 \<le> k" using ok t unfolding stacks_ok_def by blast
  then show ?thesis using that(2) [of k] False by (simp add: stack_range_def)
qed

lemma stacks_apart:
  assumes ok: "stacks_ok bs s ts g" and inv: "heap_inv (heap s) g" and own: "distinct (owned_by s ts)"
    and t: "t \<in> set ts" and u: "u \<in> set ts" "t \<noteq> u"
  shows "apart (stack_range bs s t) (stack_range bs s u)"
  using ok t
proof (cases rule: stack_cases)
  case tb: (block k)
  show ?thesis
    using ok u(1)
  proof (cases rule: stack_cases)
    case ub: (block j)
    have "stack_base (tcbs s t) \<noteq> stack_base (tcbs s u)"
      using owned_distinct [OF own t u tb(1) ub(1)] tb(2) ub(2) by (auto simp: owned_def)
    then show ?thesis
      using kheap.live_disjoint [OF inv tb(3) ub(3)] tb(4,5) ub(4,5) by (auto simp: apart_def word_unat_eq_iff)
  next
    case off
    then show ?thesis using handed_out_bounds [OF inv tb(3)] tb(4,5) by (auto simp: apart_def off_heap_def)
  qed
next
  case to: off
  show ?thesis
    using ok u(1)
  proof (cases rule: stack_cases)
    case ub: (block j)
    then show ?thesis using to handed_out_bounds [OF inv ub(3)] by (auto simp: apart_def off_heap_def)
  next
    case uo: off
    have "apart bs (stack_range bs s (idle_thread s))" using ok by (simp add: stacks_ok_def)
    moreover have "t = idle_thread s \<or> u = idle_thread s" using ok t u to(2) uo(2) unfolding stacks_ok_def by blast
    ultimately show ?thesis using u(2) to(2) uo(2) by (auto simp: stack_range_def apart_def)
  qed
qed

lemma stack_bound:
  assumes ok: "stacks_ok bs s ts g" and inv: "heap_inv (heap s) g" and t: "t \<in> set ts"
  shows "snd (stack_range bs s t) < 4294967296"
  using ok t
proof (cases rule: stack_cases)
  case (block k)
  then show ?thesis using kheap.live_range [OF inv block(3)] by simp
qed (simp add: off_heap_def)

section \<open>What is kept of a stack\<close>

definition stack_kept :: "nat \<times> nat \<Rightarrow> memory \<Rightarrow> memory \<Rightarrow> bool" where
  "stack_kept r m m' \<longleftrightarrow> (\<forall>x. fst r \<le> unat x \<and> unat x < snd r \<longrightarrow> m' x = m x)"

definition esp_in :: "nat \<times> nat \<Rightarrow> u32 \<Rightarrow> bool" where
  "esp_in r e \<longleftrightarrow> fst r + 56 \<le> unat e \<and> unat e \<le> snd r"

lemma off_heap_kept: "off_heap h r \<Longrightarrow> outside_kept h h' \<Longrightarrow> stack_kept r (mem h) (mem h')"
  by (auto simp: off_heap_def apart_def outside_kept_def stack_kept_def)

lemma stack_kept_by_regions:
  assumes ok: "stacks_ok bs s ts g" and t: "t \<in> set ts" and out: "outside_kept (heap s) h'"
    and blk: "\<And>k. t \<noteq> idle_thread s \<Longrightarrow> stack_base (tcbs s t) \<noteq> 0 \<Longrightarrow> (unat (stack_base (tcbs s t)), k) \<in> handed_out g \<Longrightarrow>
      region_kept (unat (stack_base (tcbs s t)), k) (mem (heap s)) (mem h')"
  shows "stack_kept (stack_range bs s t) (mem (heap s)) (mem h')"
  using ok t
proof (cases rule: stack_cases)
  case off
  then show ?thesis using out by (intro off_heap_kept)
next
  case (block k)
  then show ?thesis using blk [of k] by (auto simp: stack_kept_def region_kept_def)
qed

lemma load_kept:
  assumes k: "stack_kept r m m'" and a: "fst r \<le> unat a" "unat a + 4 \<le> snd r" "unat a + 4 \<le> 4294967296"
  shows "load32 m' a = load32 m a"
proof (rule load32_cong)
  fix x assume "within a 4 x"
  then have "within (of_nat (unat a)) (of_nat 4) x" by simp
  then have "unat a \<le> unat x" "unat x < unat a + 4" using within_of_nat [of "unat a" 4 x] a(3) by simp_all
  then have "fst r \<le> unat x" "unat x < snd r" using a(1,2) by simp_all
  then show "m' x = m x" using k by (simp add: stack_kept_def)
qed

lemma frame_kept:
  assumes k: "stack_kept r m m'" and e: "esp_in r e" and f: "holds_frame m e c fl"
  shows "holds_frame m' e c fl"
proof -
  have "load32 m' (e - of_nat (4 * (i + 1))) = load32 m (e - of_nat (4 * (i + 1)))" if i: "i < 14" for i
  proof -
    have le: "of_nat (4 * (i + 1)) \<le> e" "unat (of_nat (4 * (i + 1)) :: u32) = 4 * (i + 1)"
      using i e by (simp_all add: esp_in_def word_le_nat_alt unat_of_nat32 del: of_nat_add of_nat_mult of_nat_Suc)
    then have "unat (e - of_nat (4 * (i + 1))) = unat e - 4 * (i + 1)" by (simp add: unat_sub del: of_nat_add of_nat_mult of_nat_Suc)
    then show ?thesis using e i unat32_bound [of e] by (intro load_kept [OF k]) (auto simp: esp_in_def simp del: unat32_bound)
  qed
  then show ?thesis using f by (simp add: holds_frame_def)
qed

end
