(* ===== verification/RegisterSystem.thy ===== *)
theory RegisterSystem
  imports Stacks
begin

text \<open>
  The concurrent system on real stacks: the state of \<open>ThreadSystem\<close> together with the registers of the processor.
  Between calls, and inside them, the current thread computes: it changes its registers, moves its
  stack pointer and writes its stack. The timer interrupt runs \<^verbatim>\<open>isr_IRQ0\<close> instruction by instruction.
\<close>

section \<open>Steps of the machine\<close>

text \<open>\<open>saved\<close> records the registers and the stack pointer of each thread when it was last interrupted.\<close>

record mach =
  sys :: system
  regs :: cpu
  saved :: "u32 \<Rightarrow> cpu \<times> u32"

fun set_kern :: "kern \<Rightarrow> unit routine \<Rightarrow> unit routine" where
  "set_kern s (Return u _) = Return u s"
| "set_kern s (Yield _ k) = Yield s k"
| "set_kern s (Stop e) = Stop e"

definition computed :: "memory \<Rightarrow> u32 \<Rightarrow> kern \<Rightarrow> kern" where
  "computed m e s = s\<lparr>heap := (heap s)\<lparr>mem := m\<rparr>, esp_reg := e\<rparr>"

definition own_stack :: "nat \<times> nat \<Rightarrow> kern \<Rightarrow> memory \<Rightarrow> bool" where
  "own_stack bs s m \<longleftrightarrow> (\<forall>x. unat x < fst (stack_range bs s (current_thread s)) \<or>
     snd (stack_range bs s (current_thread s)) \<le> unat x \<longrightarrow> m x = mem (heap s) x)"

definition real_switch :: "cpu \<Rightarrow> kern \<Rightarrow> (kern \<Rightarrow> unit routine) \<Rightarrow> mach \<Rightarrow> mach" where
  "real_switch junk s k y =
     (let x = sys y; ctx = (contexts x)(current_thread s := (eflags (hw s), k))
      in case isr_IRQ0_asm junk (regs y) s of
           Inl e \<Rightarrow> y\<lparr>sys := x\<lparr>doing := Stop e\<rparr>\<rparr>
         | Inr (c, s1) \<Rightarrow> (let n = current_thread s1
             in y\<lparr>sys := note_return n (x\<lparr>doing := snd (ctx n) s1, contexts := ctx\<rparr>), regs := c,
                  saved := (saved y)(current_thread s := (regs y, esp_reg s))\<rparr>))"

inductive mstep :: "u32 set \<Rightarrow> nat \<times> nat \<Rightarrow> mach \<Rightarrow> mach \<Rightarrow> bool" for M bs where
  compute: "s = kern_of (sys y) \<Longrightarrow> own_stack bs s m \<Longrightarrow> esp_in (stack_range bs s (current_thread s)) e \<Longrightarrow>
     mstep M bs y (y\<lparr>sys := (sys y)\<lparr>doing := set_kern (computed m e s) (doing (sys y))\<rparr>, regs := c\<rparr>)"
| call: "doing (sys y) = Return () s \<Longrightarrow> sstep M (sys y) x \<Longrightarrow> mstep M bs y (y\<lparr>sys := x, regs := c\<rparr>)"
| interrupt: "doing (sys y) = Yield s k \<Longrightarrow> mstep M bs y (real_switch junk s k y)"

inductive mreach :: "u32 set \<Rightarrow> nat \<times> nat \<Rightarrow> mach \<Rightarrow> mach \<Rightarrow> bool" for M bs y0 where
  start: "mreach M bs y0 y0"
| step: "mreach M bs y0 y \<Longrightarrow> mstep M bs y y' \<Longrightarrow> mreach M bs y0 y'"

section \<open>The invariant\<close>

definition framed :: "nat \<times> nat \<Rightarrow> kern \<Rightarrow> u32 \<Rightarrow> cpu \<times> u32 \<Rightarrow> u32 \<Rightarrow> bool" where
  "framed bs s t ce fl \<longleftrightarrow> esp_in (stack_range bs s t) (snd ce) \<and> esp (tcbs s t) = snd ce - 56 \<and>
     holds_frame (mem (heap s)) (snd ce) (fst ce) fl"

definition frames_at :: "nat \<times> nat \<Rightarrow> kern \<Rightarrow> u32 list \<Rightarrow> block list \<Rightarrow> (u32 \<Rightarrow> cpu \<times> u32) \<Rightarrow> (u32 \<Rightarrow> u32) \<Rightarrow> bool" where
  "frames_at bs s ts g sv fl \<longleftrightarrow> stacks_ok bs s ts g \<and> esp_in (stack_range bs s (current_thread s)) (esp_reg s) \<and>
     (\<forall>t \<in> set ts. t \<noteq> current_thread s \<longrightarrow> framed bs s t (sv t) (fl t))"

definition frames_ok :: "nat \<times> nat \<Rightarrow> mach \<Rightarrow> bool" where
  "frames_ok bs y \<longleftrightarrow> (\<exists>v g. kinv (kern_of (sys y)) v \<and> heap_ok (kern_of (sys y)) v g \<and>
     frames_at bs (kern_of (sys y)) (v_all v) g (saved y) (\<lambda>t. fst (contexts (sys y) t)))"

definition mach_ok :: "u32 set \<Rightarrow> nat \<times> nat \<Rightarrow> mach \<Rightarrow> bool" where
  "mach_ok M bs y \<longleftrightarrow> system_ok M (sys y) \<and> frames_ok bs y"

text \<open>What a step leaves of the stacks of threads that do not run and are still there after it.\<close>

definition alive :: "mach \<Rightarrow> u32 \<Rightarrow> bool" where
  "alive y t \<longleftrightarrow> (\<exists>v. kinv (kern_of (sys y)) v \<and> t \<in> set (v_all v))"

definition mem_of :: "mach \<Rightarrow> memory" where
  "mem_of y = mem (heap (kern_of (sys y)))"

definition stacks_kept :: "nat \<times> nat \<Rightarrow> mach \<Rightarrow> mach \<Rightarrow> bool" where
  "stacks_kept bs y y' \<longleftrightarrow> (\<forall>t. t \<noteq> current_thread (kern_of (sys y)) \<and> alive y' t \<longrightarrow> alive y t \<and>
     stack_range bs (kern_of (sys y')) t = stack_range bs (kern_of (sys y)) t \<and>
     stack_kept (stack_range bs (kern_of (sys y)) t) (mem_of y) (mem_of y'))"

lemma alive_view: "alive y t \<Longrightarrow> kinv (kern_of (sys y)) v \<Longrightarrow> t \<in> set (v_all v)"
  unfolding alive_def using all_unique [OF kinv_lists kinv_lists] by metis

lemma aliveI: "kinv (kern_of (sys y)) v \<Longrightarrow> t \<in> set (v_all v) \<Longrightarrow> alive y t"
  by (auto simp: alive_def)

lemma frames_here:
  assumes "frames_ok bs y" "kinv (kern_of (sys y)) v" "heap_ok (kern_of (sys y)) v g"
  shows "frames_at bs (kern_of (sys y)) (v_all v) g (saved y) (\<lambda>t. fst (contexts (sys y) t))"
proof -
  obtain w f where w: "kinv (kern_of (sys y)) w" "heap_ok (kern_of (sys y)) w f"
    "frames_at bs (kern_of (sys y)) (v_all w) f (saved y) (\<lambda>t. fst (contexts (sys y) t))"
    using assms(1) by (auto simp: frames_ok_def)
  have "v_all w = v_all v" by (rule all_unique [OF kinv_lists [OF assms(2)] kinv_lists [OF w(1)]]) simp_all
  moreover have "f = g" using heap_unique w(2) assms(3) by (auto simp: heap_ok_def)
  ultimately show ?thesis using w(3) by simp
qed

lemma stack_range_cong:
  "image s' = image s \<Longrightarrow> (\<And>t. stack_base (tcbs s' t) = stack_base (tcbs s t)) \<Longrightarrow> stack_range bs s' = stack_range bs s"
  by (auto simp: stack_range_def fun_eq_iff)

lemma stacks_ok_step:
  assumes ok: "stacks_ok bs s ts g" and im: "image s' = image s" and sb: "\<And>t. stack_base (tcbs s' t) = stack_base (tcbs s t)"
    and b: "kheap_begin (heap s') = kheap_begin (heap s)" "kheap_max_end (heap s') = kheap_max_end (heap s)"
    and ts: "set ts' \<subseteq> set ts"
    and blk: "\<And>t k. t \<in> set ts' \<Longrightarrow> t \<noteq> idle_thread s \<Longrightarrow> stack_base (tcbs s t) \<noteq> 0 \<Longrightarrow>
      (unat (stack_base (tcbs s t)), k) \<in> handed_out g \<Longrightarrow> (unat (stack_base (tcbs s t)), k) \<in> handed_out g'"
  shows "stacks_ok bs s' ts' g'"
proof -
  have "\<exists>k \<ge> 65536. (unat (stack_base (tcbs s t)), k) \<in> handed_out g'"
    if t: "t \<in> set ts'" "t \<noteq> idle_thread s" "stack_base (tcbs s t) \<noteq> 0" for t
    using ok t ts blk [OF t] unfolding stacks_ok_def by blast
  moreover have "t = u" if "t \<in> set ts'" "u \<in> set ts'" "t \<noteq> idle_thread s" "u \<noteq> idle_thread s"
    "stack_base (tcbs s t) = 0" "stack_base (tcbs s u) = 0" for t u
    using ok that ts unfolding stacks_ok_def by blast
  ultimately show ?thesis
    using ok im sb b stack_range_cong [OF im sb] by (simp add: stacks_ok_def off_heap_def)
qed

lemma frames_at_step:
  assumes f: "frames_at bs s ts g sv fl" and im: "image s' = image s" "current_thread s' = current_thread s"
    and sb: "\<And>t. stack_base (tcbs s' t) = stack_base (tcbs s t)" "\<And>t. esp (tcbs s' t) = esp (tcbs s t)"
    and b: "kheap_begin (heap s') = kheap_begin (heap s)" "kheap_max_end (heap s') = kheap_max_end (heap s)"
    and blk: "\<And>t k. t \<in> set ts \<Longrightarrow> t \<noteq> idle_thread s \<Longrightarrow> stack_base (tcbs s t) \<noteq> 0 \<Longrightarrow>
      (unat (stack_base (tcbs s t)), k) \<in> handed_out g \<Longrightarrow> (unat (stack_base (tcbs s t)), k) \<in> handed_out g'"
    and e: "esp_in (stack_range bs s (current_thread s)) (esp_reg s')"
    and kept: "\<And>t. t \<in> set ts \<Longrightarrow> t \<noteq> current_thread s \<Longrightarrow> stack_kept (stack_range bs s t) (mem (heap s)) (mem (heap s'))"
  shows "frames_at bs s' ts g' sv fl"
proof -
  have "stacks_ok bs s ts g" using f by (simp add: frames_at_def)
  then have "stacks_ok bs s' ts g'" by (rule stacks_ok_step [OF _ im(1) sb(1) b]) (auto simp: blk)
  moreover have "framed bs s' t (sv t) (fl t)" if t: "t \<in> set ts" "t \<noteq> current_thread s" for t
    using f t sb(2) frame_kept [OF kept [OF t]] stack_range_cong [OF im(1) sb(1)] by (auto simp: frames_at_def framed_def)
  ultimately show ?thesis using im e stack_range_cong [OF im(1) sb(1)] by (simp add: frames_at_def)
qed

section \<open>Calls\<close>

lemma note_contexts [simp]: "contexts (note_return t x) = contexts x" "contexts (note_call t c x) = contexts x"
  by (simp_all add: note_return_def split: act.splits option.splits) (cases c; simp)

lemma frames_same_base:
  assumes f: "frames_ok bs y" and ok: "system_ok M (sys y)" "system_ok M x"
    and b: "base_state (kern_of x) = base_state (kern_of (sys y))" and c: "contexts x = contexts (sys y)"
  shows "frames_ok bs (y\<lparr>sys := x, regs := r\<rparr>) \<and> stacks_kept bs y (y\<lparr>sys := x, regs := r\<rparr>)"
  using ok(1)
proof (cases rule: system_ok_kern)
  case g: (1 v g X)
  note here = frames_here [OF f good_kinv [OF g] good_heap [OF g]]
  obtain v' g' X' where g': "good M (kern_of x) v' g' X' x" by (rule system_ok_kern [OF ok(2)])
  note bd = baseD [OF b]
  have "v_all v' = v_all v" by (rule all_unique [OF kinv_lists [OF good_kinv [OF g]] kinv_lists [OF good_kinv [OF g']] bd(6,5)])
  moreover have "g' = g" using heap_unique [of "heap (kern_of x)"] good_heap [OF g] good_heap [OF g'] bd(1) by (auto simp: heap_ok_def)
  moreover have "frames_at bs (kern_of x) (v_all v) g (saved y) (\<lambda>t. fst (contexts (sys y) t))"
    using here bd by (intro frames_at_step [OF here]) (auto simp: frames_at_def stack_kept_def)
  ultimately have "frames_ok bs (y\<lparr>sys := x, regs := r\<rparr>)"
    using good_kinv [OF g'] good_heap [OF g'] c unfolding frames_ok_def by (intro exI [of _ v'] exI [of _ g]) simp
  moreover have "alive y t" if "alive (y\<lparr>sys := x, regs := r\<rparr>) t" for t
    using alive_view [OF that, of v'] good_kinv [OF g'] aliveI [OF good_kinv [OF g]] \<open>v_all v' = v_all v\<close> by simp
  then have "stacks_kept bs y (y\<lparr>sys := x, regs := r\<rparr>)"
    using stack_range_cong [OF bd(2,8)] bd(1) by (simp add: stacks_kept_def mem_of_def stack_kept_def)
  ultimately show ?thesis ..
qed

lemma frames_heap:
  assumes f: "frames_ok bs y" and s: "doing (sys y) = Return () s" and ok: "system_ok M (sys y)" and al: "heap_allowed s (owns (sys y)) op"
  shows "frames_ok bs (y\<lparr>sys := heap_step op s (sys y), regs := r\<rparr>) \<and>
     stacks_kept bs y (y\<lparr>sys := heap_step op s (sys y), regs := r\<rparr>)"
proof -
  let ?x = "sys y"
  have ks: "kern_of ?x = s" using s by (simp add: kern_of_def)
  obtain v g X where g: "good M s v g X ?x" using ok s by (auto simp: system_ok_def)
  note here = frames_here [OF f, unfolded ks, OF good_kinv [OF g] good_heap [OF g]]
  obtain p h g' where h: "heap_call op (heap s) = Inr (p, h)"
    "shared_step (owns ?x) op g g' (mem (heap s)) (mem h) (new_owners (current_thread s) op p (owns ?x))"
    "good M (s\<lparr>heap := h\<rparr>) v g' X (heap_step op s ?x)"
    using good_heap_step [OF g al] by blast
  have hi: "heap_inv (heap s) g" and cov: "covers (handed_out g) (owns ?x)"
    and ow: "\<And>p. owns ?x p \<noteq> None \<Longrightarrow> p \<notin> set (owned_by s (v_all v))"
    using good_heap [OF g] good_owners [OF g] by (simp_all add: heap_ok_def owners_ok_def)
  have rule: "heap_rule (heap s) (current_thread s) (owns ?x) op" using al by (cases op) simp_all
  have out: "outside_kept (heap s) h" by (rule heap_call_outside [OF hi cov rule h(1)])
  have free: "\<not> affects (owns ?x) op (stack_base (tcbs s t))" if "t \<in> set (v_all v)" "t \<noteq> idle_thread s" "stack_base (tcbs s t) \<noteq> 0" for t
  proof -
    have "stack_base (tcbs s t) \<in> set (owned_by s (v_all v))" using that owned_mem [of t "v_all v" s] by (auto simp: owned_def)
    then show ?thesis using affects_owned [OF rule] ow by blast
  qed
  have kept: "(unat (stack_base (tcbs s t)), k) \<in> handed_out g' \<and> region_kept (unat (stack_base (tcbs s t)), k) (mem (heap s)) (mem h)"
    if "t \<in> set (v_all v)" "t \<noteq> idle_thread s" "stack_base (tcbs s t) \<noteq> 0" "(unat (stack_base (tcbs s t)), k) \<in> handed_out g" for t k
    using h(2) free [OF that(1-3)] that(4) unfolding shared_step_def by blast
  have so: "stacks_ok bs s (v_all v) g" using here by (simp add: frames_at_def)
  have sk: "stack_kept (stack_range bs s t) (mem (heap s)) (mem h)" if t: "t \<in> set (v_all v)" for t
    using stack_kept_by_regions [OF so t out] kept [OF t] by simp
  have "frames_at bs (s\<lparr>heap := h\<rparr>) (v_all v) g' (saved y) (\<lambda>t. fst (contexts ?x t))"
    by (rule frames_at_step [OF here]) (use here out kept sk in \<open>auto simp: frames_at_def outside_kept_def\<close>)
  moreover have x': "kern_of (heap_step op s ?x) = s\<lparr>heap := h\<rparr>" "contexts (heap_step op s ?x) = contexts ?x"
    using h(1) by (simp_all add: heap_step_def kern_of_def)
  ultimately have "frames_ok bs (y\<lparr>sys := heap_step op s ?x, regs := r\<rparr>)"
    using good_kinv [OF h(3)] good_heap [OF h(3)] by (auto simp: frames_ok_def)
  moreover have "t \<in> set (v_all v)" if "alive (y\<lparr>sys := heap_step op s ?x, regs := r\<rparr>) t" for t
    using alive_view [OF that] good_kinv [OF h(3)] x'(1) by simp
  then have "stacks_kept bs y (y\<lparr>sys := heap_step op s ?x, regs := r\<rparr>)"
    using sk ks x'(1) good_kinv [OF g] aliveI [of y v] by (simp add: stacks_kept_def mem_of_def stack_range_def)
  ultimately show ?thesis ..
qed


section \<open>Computation\<close>

lemma own_stack_heap:
  assumes f: "stacks_ok bs s (v_all v) g" and inv: "heap_inv (heap s) g" and c: "current_thread s \<in> set (v_all v)" and o: "own_stack bs s m"
  shows "heap_inv ((heap s)\<lparr>mem := m\<rparr>) g"
  using f c
proof (cases rule: stack_cases)
  case off
  have "region_ok (heap s)" using inv by (simp add: heap_inv_def)
  then show ?thesis
    using off o by (intro heap_inv_outside [OF inv]) (auto simp: off_heap_def apart_def own_stack_def region_ok_def word_le_nat_alt)
next
  case (block k)
  have "tiled (unat (kheap_begin (heap s))) g (unat (kheap_end (heap s)))" using inv by (simp add: heap_inv_def)
  then have "16 \<le> unat (stack_base (tcbs s (current_thread s)))"
    "(unat (stack_base (tcbs s (current_thread s))) - 16, k + 16, True) \<in> set g"
    using handed_out_mem block(3) by auto
  then show ?thesis using block o by (intro handed_out_write [OF inv, of "unat (stack_base (tcbs s (current_thread s)))" k]) (auto simp: own_stack_def)
qed

lemma computed_fields [simp]:
  "image (computed m e s) = image s" "current_thread (computed m e s) = current_thread s" "tcbs (computed m e s) = tcbs s"
  "heap (computed m e s) = (heap s)\<lparr>mem := m\<rparr>" "esp_reg (computed m e s) = e" "hw (computed m e s) = hw s"
  "mutexes (computed m e s) = mutexes s" "sems (computed m e s) = sems s"
  by (simp_all add: computed_def)

lemma good_computed:
  assumes g: "good M s v g X x" and f: "stacks_ok bs s (v_all v) g" and o: "own_stack bs s m"
  shows "good M (computed m e s) v g X x"
proof -
  have hi: "heap_inv (heap s) g" using good_heap [OF g] by (simp add: heap_ok_def)
  have inv: "heap_inv ((heap s)\<lparr>mem := m\<rparr>) g" by (rule own_stack_heap [OF f hi kinv_cur [OF good_kinv [OF g]] o])
  have ob: "owned_by (computed m e s) = owned_by s" by (rule owned_by_cong) simp_all
  have "kinv (computed m e s) v" using good_kinv [OF g] by (simp add: computed_def)
  moreover have "quiet M (computed m e s) v" using good_quiet [OF g] by (simp add: quiet_def lock_free_def split: if_splits)
  ultimately show ?thesis
    using g inv ob by (simp add: good_def sem_ok_def kind_ok_def mutex_ok_def heap_ok_def owners_ok_def)
qed

lemma running_computed [simp]: "running (computed m e s) = running s"
  by (simp add: running_def)

lemma system_computed:
  assumes ok: "system_ok M x" and s: "s = kern_of x" and f: "\<And>v g X. good M s v g X x \<Longrightarrow> stacks_ok bs s (v_all v) g"
    and o: "own_stack bs s m"
  shows "system_ok M (x\<lparr>doing := set_kern (computed m e s) (doing x)\<rparr>)" "kern_of (x\<lparr>doing := set_kern (computed m e s) (doing x)\<rparr>) = computed m e s"
proof -
  let ?x = "x\<lparr>doing := set_kern (computed m e s) (doing x)\<rparr>"
  have "system_ok M ?x \<and> kern_of ?x = computed m e s"
  proof (cases "doing x")
    case (Return u s0)
    then have s0: "s0 = s" using s by (simp add: kern_of_def)
    obtain v g X where g: "good M s v g X x" "running s" "X (current_thread s) = K_plain" using ok Return s0 by (auto simp: system_ok_def)
    have "system_ok M ?x"
      by (rule system_ok_return [of _ "computed m e s" M v g X]) (use Return g good_computed [OF g(1) f [OF g(1)] o] in simp_all)
    then show ?thesis using Return by (simp add: kern_of_def)
  next
    case (Yield s0 k)
    then have s0: "s0 = s" using s by (simp add: kern_of_def)
    obtain v g X where g: "good M s v g X x" "k = code (X (current_thread s))" using ok Yield s0 by (auto simp: system_ok_def)
    have "system_ok M ?x"
      by (rule system_ok_yield [of _ "computed m e s" k M v g X]) (use Yield g good_computed [OF g(1) f [OF g(1)] o] in simp_all)
    then show ?thesis using Yield by (simp add: kern_of_def)
  qed (use ok in \<open>simp add: system_ok_def\<close>)
  then show "system_ok M ?x" "kern_of ?x = computed m e s" by auto
qed

lemma frames_stacks:
  "frames_ok bs y \<Longrightarrow> good M (kern_of (sys y)) v g X x \<Longrightarrow> stacks_ok bs (kern_of (sys y)) (v_all v) g"
  using frames_here [OF _ good_kinv good_heap] by (auto simp: frames_at_def)

lemma compute_ok:
  assumes ok: "mach_ok M bs y" and s: "s = kern_of (sys y)" and o: "own_stack bs s m"
    and e: "esp_in (stack_range bs s (current_thread s)) e"
    and y'_def: "y' = y\<lparr>sys := (sys y)\<lparr>doing := set_kern (computed m e s) (doing (sys y))\<rparr>, regs := c\<rparr>"
  shows "mach_ok M bs y' \<and> stacks_kept bs y y'"
proof -
  have f: "frames_ok bs y" and so: "system_ok M (sys y)" using ok by (simp_all add: mach_ok_def)
  let ?x = "(sys y)\<lparr>doing := set_kern (computed m e s) (doing (sys y))\<rparr>"
  have st: "stacks_ok bs s (v_all v) g" if "good M s v g X (sys y)" for v g X using frames_stacks [OF f] that s by blast
  note x = system_computed [where e = e, OF so s st o]
  obtain v g X where g: "good M s v g X (sys y)" using so s by (rule_tac system_ok_kern) auto
  note here = frames_here [OF f, folded s, OF good_kinv [OF g] good_heap [OF g]]
  have hi: "heap_inv (heap s) g" and ow: "distinct (owned_by s (v_all v))" using good_heap [OF g] by (simp_all add: heap_ok_def)
  note cur = kinv_cur [OF good_kinv [OF g]]
  have sk: "stack_kept (stack_range bs s t) (mem (heap s)) m" if t: "t \<in> set (v_all v)" "t \<noteq> current_thread s" for t
    using stacks_apart [OF st [OF g] hi ow t(1) cur t(2)] o by (auto simp: apart_def stack_kept_def own_stack_def)
  have "frames_at bs (computed m e s) (v_all v) g (saved y) (\<lambda>t. fst (contexts (sys y) t))"
    by (rule frames_at_step [OF here]) (use e sk in simp_all)
  moreover note gc = good_computed [OF g st [OF g] o, of e]
  ultimately have "frames_ok bs y'"
    using x(2) good_kinv good_heap unfolding frames_ok_def y'_def by (intro exI [of _ v] exI [of _ g]) auto
  moreover have "t \<in> set (v_all v)" if "alive y' t" for t
    using alive_view [OF that] good_kinv [OF gc] x(2) by (simp add: y'_def)
  then have "stacks_kept bs y y'"
    using sk x(2) aliveI [of y v] good_kinv [OF g] s by (simp add: stacks_kept_def mem_of_def stack_range_def y'_def)
  ultimately show ?thesis using x(1) by (simp add: mach_ok_def y'_def)
qed

end
