(* ===== verification/RegisterSwitch.thy ===== *)
theory RegisterSwitch
  imports RegisterSystem
begin

text \<open>
  The interrupt on real stacks does what the interrupt of \<open>ThreadSystem\<close> does, and gives the thread that continues its
  registers, its stack pointer and its flags back.
\<close>

section \<open>Pushing the frame\<close>

definition frame_mem :: "cpu \<Rightarrow> kern \<Rightarrow> memory" where
  "frame_mem c s = fst (push_words (mem (heap s)) (esp_reg s) (frame_words c (eflags (hw s))))"

lemma with_frame_computed: "with_frame c s = computed (frame_mem c s) (esp_reg s) s"
  by (simp add: with_frame_def frame_mem_def computed_def)

lemma frame_pushed:
  assumes "esp_in r (esp_reg s)"
  shows "\<And>x. unat x < fst r \<or> snd r \<le> unat x \<Longrightarrow> frame_mem c s x = mem (heap s) x"
    and "holds_frame (frame_mem c s) (esp_reg s) c (eflags (hw s))"
proof -
  let ?ws = "frame_words c (eflags (hw s))"
  have len: "length ?ws = 14" by (simp add: frame_words_def)
  have le: "4 * length ?ws \<le> unat (esp_reg s)" using assms by (simp add: len esp_in_def)
  note sp = push_words_spec [OF le, of "mem (heap s)", unfolded len, folded frame_mem_def]
  show "frame_mem c s x = mem (heap s) x" if "unat x < fst r \<or> snd r \<le> unat x" for x
    using sp that assms by (auto simp: esp_in_def)
  show "holds_frame (frame_mem c s) (esp_reg s) c (eflags (hw s))" using sp by (simp add: holds_frame_def)
qed

section \<open>The switch\<close>

lemma zombie_stack:
  assumes own: "distinct (owned_by s ts)" and t: "t \<in> set ts" "t \<noteq> idle_thread s" "stack_base (tcbs s t) \<noteq> 0"
    and z: "set zs \<subseteq> set ts" "t \<notin> set zs"
  shows "unat (stack_base (tcbs s t)) \<notin> unat ` set (owned_by s zs)"
proof
  assume "unat (stack_base (tcbs s t)) \<in> unat ` set (owned_by s zs)"
  then have "stack_base (tcbs s t) \<in> set (owned_by s zs)" by (auto simp: word_unat_eq_iff [symmetric])
  then obtain u where u: "u \<in> set zs" "u \<noteq> idle_thread s" "stack_base (tcbs s t) \<in> set (owned s u)" by (auto simp: owned_by_def)
  moreover have "stack_base (tcbs s t) \<in> set (owned s t)" using t(3) by (simp add: owned_def)
  moreover have "u \<noteq> t" "u \<in> set ts" using u(1) z by auto
  ultimately show False using owned_distinct [OF own t(1), of u] t(2) by blast
qed

definition saved_at :: "kern \<Rightarrow> mach \<Rightarrow> u32 \<Rightarrow> cpu \<times> u32" where
  "saved_at s y = (saved y)(current_thread s := (regs y, esp_reg s))"

definition flags_at :: "kern \<Rightarrow> mach \<Rightarrow> u32 \<Rightarrow> u32" where
  "flags_at s y = (\<lambda>t. fst (contexts (sys y) t))(current_thread s := eflags (hw s))"

text \<open>After the interrupt every thread that is left, the one that continues included, has its frame.\<close>

lemma switch_frames:
  assumes g: "good M (with_frame (regs y) s) v g X x" and f: "frames_at bs s (v_all v) g (saved y) (\<lambda>t. fst (contexts (sys y) t))"
  defines "w \<equiv> sched_view (with_frame (regs y) s) (ticked_view (with_frame (regs y) s) v)"
  shows "\<exists>s' g'. isr_IRQ0 (with_frame (regs y) s) = Inr s' \<and> kinv s' w \<and> heap_ok s' w g' \<and> set (v_all w) \<subseteq> set (v_all v) \<and>
     stacks_ok bs s' (v_all w) g' \<and> (\<forall>t \<in> set (v_all w). framed bs s' t (saved_at s y t) (flags_at s y t)) \<and>
     esp_reg s' = snd (saved_at s y (current_thread s')) \<and> stack_range bs s' = stack_range bs s \<and>
     (\<forall>t \<in> set (v_all w). t \<noteq> current_thread s \<longrightarrow> stack_kept (stack_range bs s t) (mem (heap s)) (mem (heap s')))"
proof -
  let ?s = "with_frame (regs y) s" and ?c = "current_thread s" and ?m = "frame_mem (regs y) s"
  have eq: "image ?s = image s" "tcbs ?s = tcbs s" "current_thread ?s = ?c" "esp_reg ?s = esp_reg s" "mem (heap ?s) = ?m"
    "kheap_begin (heap ?s) = kheap_begin (heap s)" "kheap_max_end (heap ?s) = kheap_max_end (heap s)"
    by (simp_all add: with_frame_computed)
  have so: "stacks_ok bs s (v_all v) g" and ein: "esp_in (stack_range bs s ?c) (esp_reg s)"
    and fr: "\<And>t. t \<in> set (v_all v) \<Longrightarrow> t \<noteq> ?c \<Longrightarrow> framed bs s t (saved y t) (fst (contexts (sys y) t))"
    using f by (simp_all add: frames_at_def)
  note push = frame_pushed [where c = "regs y", OF ein]
  have sr: "stack_range bs ?s = stack_range bs s" by (rule stack_range_cong) (simp_all add: eq)
  have so0: "stacks_ok bs ?s (v_all v) g" by (rule stacks_ok_step [OF so]) (simp_all add: eq)
  have hp: "heap_inv (heap ?s) g" "distinct (owned_by ?s (v_all v))" using good_heap [OF g] by (simp_all add: heap_ok_def)
  note kv = good_kinv [OF g]
  have cur: "?c \<in> set (v_all v)" using kinv_cur [OF kv] eq(3) by simp
  have sk0: "stack_kept (stack_range bs s t) (mem (heap s)) ?m" if t: "t \<in> set (v_all v)" "t \<noteq> ?c" for t
    using stacks_apart [OF so0 hp t(1) cur t(2)] push(1) by (auto simp: apart_def stack_kept_def sr)
  have fr0: "framed bs ?s t (saved y t) (fst (contexts (sys y) t))" if t: "t \<in> set (v_all v)" "t \<noteq> ?c" for t
    using fr [OF t] frame_kept [OF sk0 [OF t]] eq sr by (auto simp: framed_def)
  obtain s' g' where i: "isr_IRQ0 ?s = Inr s'" "kinv s' w" "heap_ok s' w g'" "image s' = image ?s"
    "\<And>t. esp (tcbs s' t) = (if t = current_thread ?s then esp_reg ?s - 56 else esp (tcbs ?s t))"
    "\<And>t. stack_base (tcbs s' t) = stack_base (tcbs ?s t)" "esp_reg s' = esp (tcbs s' (current_thread s')) + 56"
    "handed_out g' = {r \<in> handed_out g. fst r \<notin> unat ` set (owned_by ?s (v_zombie v))}" "regions_kept g' (heap ?s) (heap s')"
    using isr_IRQ0_ok [OF kv good_heap [OF g] good_can_clean [OF g]] unfolding w_def by blast
  have all: "v_all w = filter (\<lambda>t. t \<notin> set (v_zombie v)) (v_all v)"
    unfolding w_def by (simp add: sched_view_all [OF kv] ticked_view_at)
  have zs: "set (v_zombie v) \<subseteq> set (v_all v)" using lists_member [OF kinv_lists [OF kv], of _ P_zombie] by auto
  have blk: "(unat (stack_base (tcbs ?s t)), k) \<in> handed_out g'"
    if "t \<in> set (v_all w)" "t \<noteq> idle_thread ?s" "stack_base (tcbs ?s t) \<noteq> 0" "(unat (stack_base (tcbs ?s t)), k) \<in> handed_out g" for t k
    using zombie_stack [OF hp(2), of t "v_zombie v"] that zs unfolding i(8) all by auto
  have out: "outside_kept (heap ?s) (heap s')" using i(9) by (simp add: regions_kept_def)
  have so1: "stacks_ok bs s' (v_all w) g'"
    by (rule stacks_ok_step [OF so0 i(4,6)]) (use out blk all in \<open>auto simp: outside_kept_def\<close>)
  have sr1: "stack_range bs s' = stack_range bs s" using stack_range_cong [OF i(4,6)] sr by simp
  have tv: "t \<in> set (v_all v)" if "t \<in> set (v_all w)" for t using that by (simp add: all)
  have k: "stack_kept (stack_range bs s t) ?m (mem (heap s'))" if t: "t \<in> set (v_all w)" for t
    using stack_kept_by_regions [OF so0 tv [OF t] out] blk [OF t] i(9) unfolding sr eq(5) regions_kept_def by blast
  have sk: "stack_kept (stack_range bs s t) (mem (heap s)) (mem (heap s'))" if "t \<in> set (v_all w)" "t \<noteq> ?c" for t
    using sk0 [OF tv] k that by (simp add: stack_kept_def)
  have fr1: "framed bs s' t (saved_at s y t) (flags_at s y t)" if t: "t \<in> set (v_all w)" for t
  proof -
    show ?thesis
    proof (cases "t = ?c")
      case True
      then show ?thesis using frame_kept [OF k [OF t] _ push(2)] ein i(5) eq sr1 by (simp add: framed_def saved_at_def flags_at_def)
    next
      case False
      then show ?thesis using fr0 [OF tv [OF t] False] frame_kept [OF k [OF t]] i(5) eq sr sr1 by (simp add: framed_def saved_at_def flags_at_def)
    qed
  qed
  have "esp (tcbs s' (current_thread s')) = snd (saved_at s y (current_thread s')) - 56"
    using fr1 [OF kinv_cur [OF i(2)]] by (simp add: framed_def)
  then have "esp_reg s' = snd (saved_at s y (current_thread s'))" using i(7) by simp
  moreover have "set (v_all w) \<subseteq> set (v_all v)" by (auto simp: all)
  ultimately show ?thesis using i(1-3) so1 fr1 sr1 sk by blast
qed

lemma real_interrupt:
  assumes ok: "mach_ok M bs y" and s: "doing (sys y) = Yield s k"
  shows "\<exists>s'. isr_IRQ0_asm junk (regs y) s = Inr (fst (saved_at s y (current_thread s')), s') \<and>
     esp_reg s' = snd (saved_at s y (current_thread s')) \<and> eflags (hw s') = flags_at s y (current_thread s') \<and>
     sys (real_switch junk s k y) = switch (with_frame (regs y) s) k (sys y) \<and>
     base_state (kern_of (sys (real_switch junk s k y))) = base_state s' \<and>
     mach_ok M bs (real_switch junk s k y) \<and> stacks_kept bs y (real_switch junk s k y)"
proof -
  let ?c = "regs y" and ?sf = "with_frame (regs y) s" and ?x = "sys y"
  let ?m = "frame_mem ?c s"
  have ks: "s = kern_of ?x" using s by (simp add: kern_of_def)
  have f: "frames_ok bs y" and so: "system_ok M ?x" using ok by (simp_all add: mach_ok_def)
  obtain v g X where g: "good M s v g X ?x" and k: "k = code (X (current_thread s))" using so s by (auto simp: system_ok_def)
  note here = frames_here [OF f, folded ks, OF good_kinv [OF g] good_heap [OF g]]
  have ein: "esp_in (stack_range bs s (current_thread s)) (esp_reg s)" using here by (simp add: frames_at_def)
  have own: "own_stack bs s ?m" using frame_pushed(1) [OF ein] by (simp add: own_stack_def)
  have st: "stacks_ok bs s (v_all v) g" if "good M s v g X ?x" for v g X using frames_stacks [OF f] that ks by blast
  let ?xf = "?x\<lparr>doing := set_kern ?sf (doing ?x)\<rparr>"
  have g0: "good M ?sf v g X ?x" using good_computed [OF g st [OF g] own] by (simp add: with_frame_computed)
  have x0: "system_ok M ?xf" using system_computed(1) [OF so ks st own] by (simp add: with_frame_computed)
  have d0: "doing ?xf = Yield ?sf k" using s by simp
  let ?w = "sched_view ?sf (ticked_view ?sf v)"
  obtain s' g' where i: "isr_IRQ0 ?sf = Inr s'" "kinv s' ?w" "heap_ok s' ?w g'" "set (v_all ?w) \<subseteq> set (v_all v)"
    "stacks_ok bs s' (v_all ?w) g'" "\<forall>t \<in> set (v_all ?w). framed bs s' t (saved_at s y t) (flags_at s y t)"
    "esp_reg s' = snd (saved_at s y (current_thread s'))" "stack_range bs s' = stack_range bs s"
    "\<forall>t \<in> set (v_all ?w). t \<noteq> current_thread s \<longrightarrow> stack_kept (stack_range bs s t) (mem (heap s)) (mem (heap s'))"
    using switch_frames [OF g0 here] by blast
  let ?n = "current_thread s'" and ?ctx = "(contexts ?x)(current_thread s := (eflags (hw s), k))"
  let ?s1 = "s'\<lparr>hw := eflags_set (flags_at s y ?n) (hw s')\<rparr>"
  have fn: "framed bs s' ?n (saved_at s y ?n) (flags_at s y ?n)" using i(6) kinv_cur [OF i(2)] by blast
  then have a: "isr_IRQ0_asm junk ?c s = Inr (fst (saved_at s y ?n), ?s1)"
    using isr_IRQ0_asm_runs [OF i(1)] i(7) by (simp add: framed_def)
  have fl: "flags_at s y ?n = fst (?ctx ?n)" by (simp add: flags_at_def)
  have sw: "sys (real_switch junk s k y) = switch ?sf k ?x"
    using a i(1) fl by (simp add: real_switch_def switch_def Let_def case_prod_beta with_frame_computed)
  have sv: "saved (real_switch junk s k y) = saved_at s y" using a by (simp add: real_switch_def saved_at_def Let_def)
  have sw0: "switch ?sf k ?xf = switch ?sf k ?x" by (simp add: switch_def Let_def case_prod_beta i(1))
  have ok': "system_ok M (switch ?sf k ?x)" by (rule subst [OF sw0, of "system_ok M"]) (rule sys_interrupt [OF x0 d0])
  have ctx: "contexts (switch ?sf k ?x) = ?ctx" using i(1) by (simp add: switch_def Let_def case_prod_beta with_frame_computed)
  have n: "?n \<in> set (v_all v)" using i(4) kinv_cur [OF i(2)] by blast
  have "doing (switch ?sf k ?x) = snd (?ctx ?n) ?s1"
    using i(1) fl by (simp add: switch_def Let_def case_prod_beta with_frame_computed)
  moreover have "snd (?ctx ?n) = code (X ?n)" using good_context [OF g n] k by simp
  ultimately have "doing (switch ?sf k ?x) = code (X ?n) ?s1" by (simp only:)
  then have b1: "base_state (kern_of (switch ?sf k ?x)) = base_state ?s1"
    using keeps_kern [OF ok'] code_keeps [of ?s1 "X ?n"] by simp
  then have b: "base_state (kern_of (switch ?sf k ?x)) = base_state s'" by simp
  note bd = baseD [OF b]
  obtain v2 g2 X2 where g2: "good M (kern_of (switch ?sf k ?x)) v2 g2 X2 (switch ?sf k ?x)" by (rule system_ok_kern [OF ok'])
  have v2: "v_all v2 = v_all ?w" by (rule all_unique [OF kinv_lists [OF i(2)] kinv_lists [OF good_kinv [OF g2]] bd(6,5)])
  have gg: "g2 = g'" using heap_unique [of "heap s'"] good_heap [OF g2] i(3) bd(1) by (auto simp: heap_ok_def)
  have "frames_at bs s' (v_all ?w) g' (saved_at s y) (flags_at s y)"
    using i(5-8) fn by (simp add: frames_at_def framed_def)
  then have "frames_at bs (kern_of (switch ?sf k ?x)) (v_all ?w) g' (saved_at s y) (flags_at s y)"
    by (rule frames_at_step) (use bd i(7) fn in \<open>auto simp: stack_kept_def framed_def\<close>)
  moreover have "(\<lambda>t. fst (?ctx t)) = flags_at s y" by (auto simp: flags_at_def fun_eq_iff)
  ultimately have "frames_ok bs (real_switch junk s k y)"
    using good_kinv [OF g2] good_heap [OF g2] sw sv ctx v2 gg unfolding frames_ok_def by (intro exI [of _ v2] exI [of _ g']) simp
  then have "mach_ok M bs (real_switch junk s k y)" using ok' sw by (simp add: mach_ok_def)
  moreover have "t \<in> set (v_all ?w)" if "alive (real_switch junk s k y) t" for t
    using alive_view [OF that, of v2] good_kinv [OF g2] v2 by (simp add: sw)
  then have "stacks_kept bs y (real_switch junk s k y)"
    using i(4,9) bd(1) stack_range_cong [OF bd(2,8)] i(8) aliveI [of y v] good_kinv [OF g]
    by (simp add: stacks_kept_def mem_of_def sw ks [symmetric] subset_iff)
  ultimately show ?thesis using a i(7) sw b1 by (intro exI [of _ ?s1]) (simp add: eflags_set_def)
qed

section \<open>Every step\<close>

inductive_cases mstep_elims: "mstep M bs y y'"

lemma call_kern:
  assumes ok: "system_ok M x" and s: "doing x = Return () s" and al: "allowed M s c"
  defines "x' \<equiv> note_return (current_thread s) (note_call (current_thread s) c (x\<lparr>doing := perform c s\<rparr>))"
  shows "base_state (kern_of x') = base_state (kern_of x)" "contexts x' = contexts x"
proof -
  have "system_ok M x'" unfolding x'_def by (rule sys_step [OF sstep.call [OF s al] ok])
  moreover have "keeps_base s (doing x')" using perform_keeps by (simp add: x'_def)
  ultimately show "base_state (kern_of x') = base_state (kern_of x)" using keeps_kern s by (simp add: kern_of_def)
  show "contexts x' = contexts x" by (simp add: x'_def)
qed

lemma call_ok:
  assumes ok: "mach_ok M bs y" and s: "doing (sys y) = Return () s" and st: "sstep M (sys y) x"
  shows "mach_ok M bs (y\<lparr>sys := x, regs := r\<rparr>)" "contexts x = contexts (sys y)" "stacks_kept bs y (y\<lparr>sys := x, regs := r\<rparr>)"
proof -
  have f: "frames_ok bs y" and so: "system_ok M (sys y)" using ok by (simp_all add: mach_ok_def)
  have so': "system_ok M x" by (rule sys_step [OF st so])
  have "(frames_ok bs (y\<lparr>sys := x, regs := r\<rparr>) \<and> stacks_kept bs y (y\<lparr>sys := x, regs := r\<rparr>)) \<and> contexts x = contexts (sys y)"
  proof (rule sstep_elims [OF st])
    fix s' c assume x: "x = note_return (current_thread s') (note_call (current_thread s') c ((sys y)\<lparr>doing := perform c s'\<rparr>))"
      "doing (sys y) = Return () s'" "allowed M s' c"
    show ?thesis using frames_same_base [OF f so so'] call_kern [OF so x(2,3)] x(1) by blast
  next
    fix s' op assume x: "x = heap_step op s' (sys y)" "doing (sys y) = Return () s'" "heap_allowed s' (owns (sys y)) op"
    have "contexts x = contexts (sys y)" using x(1) by (simp add: heap_step_def split: sum.splits prod.splits)
    then show ?thesis using frames_heap [OF f x(2) so x(3)] x(1) by blast
  next
    fix s' assume x: "x = (sys y)\<lparr>doing := thread_yield s'\<rparr>" "doing (sys y) = Return () s'"
    have "kern_of x = kern_of (sys y)" unfolding x(1) kern_of_def x(2) by (simp add: thread_yield_def)
    moreover have "contexts x = contexts (sys y)" using x(1) by simp
    ultimately show ?thesis using frames_same_base [OF f so so'] by metis
  next
    fix s' k assume "doing (sys y) = Yield s' k"
    then show ?thesis using s by simp
  qed
  then show "mach_ok M bs (y\<lparr>sys := x, regs := r\<rparr>)" "contexts x = contexts (sys y)" "stacks_kept bs y (y\<lparr>sys := x, regs := r\<rparr>)"
    using so' by (simp_all add: mach_ok_def)
qed

lemma mach_step_ok:
  assumes st: "mstep M bs y y'" and ok: "mach_ok M bs y"
  shows "mach_ok M bs y' \<and> stacks_kept bs y y' \<and> (\<forall>t. t \<noteq> current_thread (kern_of (sys y)) \<longrightarrow>
     saved y' t = saved y t \<and> fst (contexts (sys y') t) = fst (contexts (sys y) t))"
proof (rule mstep_elims [OF st])
  let ?s = "kern_of (sys y)"
  fix m e c assume x: "y' = y\<lparr>sys := (sys y)\<lparr>doing := set_kern (computed m e ?s) (doing (sys y))\<rparr>, regs := c\<rparr>"
    "own_stack bs ?s m" "esp_in (stack_range bs ?s (current_thread ?s)) e"
  show ?thesis using compute_ok [OF ok refl x(2,3,1)] by (simp add: x(1))
next
  fix s x c assume x: "y' = y\<lparr>sys := x, regs := c\<rparr>" "doing (sys y) = Return () s" "sstep M (sys y) x"
  show ?thesis using call_ok [OF ok x(2,3)] x(1) by simp
next
  fix s k junk assume x: "y' = real_switch junk s k y" "doing (sys y) = Yield s k"
  obtain s' where s': "isr_IRQ0_asm junk (regs y) s = Inr (fst (saved_at s y (current_thread s')), s')" "mach_ok M bs y'" "stacks_kept bs y y'"
    using real_interrupt [OF ok x(2)] x(1) by blast
  have "current_thread (kern_of (sys y)) = current_thread s" using x(2) by (simp add: kern_of_def)
  then show ?thesis using s' x(1) by (simp add: real_switch_def Let_def)
qed

lemma mach_reach_ok: "mreach M bs y0 y \<Longrightarrow> mach_ok M bs y0 \<Longrightarrow> mach_ok M bs y"
  by (induction rule: mreach.induct) (auto dest: mach_step_ok)

text \<open>What happens while the thread \<open>t\<close> does not run.\<close>

inductive away :: "u32 set \<Rightarrow> nat \<times> nat \<Rightarrow> u32 \<Rightarrow> mach \<Rightarrow> mach \<Rightarrow> bool" for M bs t y0 where
  start: "away M bs t y0 y0"
| step: "away M bs t y0 y \<Longrightarrow> current_thread (kern_of (sys y)) \<noteq> t \<Longrightarrow> mstep M bs y y' \<Longrightarrow> away M bs t y0 y'"

lemma away_keeps:
  "away M bs t y0 y \<Longrightarrow> mach_ok M bs y0 \<Longrightarrow>
     mach_ok M bs y \<and> saved y t = saved y0 t \<and> fst (contexts (sys y) t) = fst (contexts (sys y0) t)"
  by (induction rule: away.induct) (use mach_step_ok in fastforce)+

lemma away_stack:
  "away M bs t y0 y \<Longrightarrow> mach_ok M bs y0 \<Longrightarrow> alive y t \<Longrightarrow>
     stack_range bs (kern_of (sys y)) t = stack_range bs (kern_of (sys y0)) t \<and>
     stack_kept (stack_range bs (kern_of (sys y0)) t) (mem_of y0) (mem_of y)"
proof (induction rule: away.induct)
  case (step y y')
  have k: "stacks_kept bs y y'" using mach_step_ok [OF step.hyps(3)] away_keeps [OF step.hyps(1) step.prems(1)] by blast
  then have "alive y t" "stack_range bs (kern_of (sys y')) t = stack_range bs (kern_of (sys y)) t"
    "stack_kept (stack_range bs (kern_of (sys y)) t) (mem_of y) (mem_of y')"
    using step.hyps(2) step.prems(2) by (auto simp: stacks_kept_def)
  then show ?case using step.IH [OF step.prems(1)] by (simp add: stack_kept_def)
qed (simp add: stack_kept_def)

text \<open>The thread \<open>t\<close> is interrupted, others run, and the scheduler picks it again.\<close>

lemma registers_return:
  assumes ok: "mach_ok M bs y" and s: "doing (sys y) = Yield s k" and aw: "away M bs (current_thread s) (real_switch junk s k y) y'"
    and s': "doing (sys y') = Yield s' k'" "current_thread s' \<noteq> current_thread s"
  shows "\<exists>c s2. isr_IRQ0_asm junk' (regs y') s' = Inr (c, s2) \<and>
     (current_thread s2 = current_thread s \<longrightarrow> c = regs y \<and> esp_reg s2 = esp_reg s \<and> eflags (hw s2) = eflags (hw s))"
proof -
  obtain s1 where s1: "isr_IRQ0_asm junk (regs y) s = Inr (fst (saved_at s y (current_thread s1)), s1)" "mach_ok M bs (real_switch junk s k y)"
    using real_interrupt [OF ok s] by blast
  have sv: "saved (real_switch junk s k y) (current_thread s) = (regs y, esp_reg s)"
    "fst (contexts (sys (real_switch junk s k y)) (current_thread s)) = eflags (hw s)"
    using s1(1) by (simp_all add: real_switch_def Let_def)
  note k = away_keeps [OF aw s1(2)]
  obtain s2 where "isr_IRQ0_asm junk' (regs y') s' = Inr (fst (saved_at s' y' (current_thread s2)), s2)"
    "esp_reg s2 = snd (saved_at s' y' (current_thread s2))" "eflags (hw s2) = flags_at s' y' (current_thread s2)"
    using real_interrupt [OF conjunct1 [OF k] s'(1)] by blast
  then show ?thesis using k sv s'(2) by (auto simp: saved_at_def flags_at_def)
qed

end
