(* ===== verification/RegisterProps.thy ===== *)
theory RegisterProps
  imports RegisterSwitch ThreadExample
begin

text \<open>
  The theorems about the context switch, with the threads of \<open>ThreadExample\<close> on their stacks.
\<close>

section \<open>A machine that starts\<close>

definition machine_at :: "kern \<Rightarrow> cpu \<Rightarrow> (u32 \<Rightarrow> cpu \<times> u32) \<Rightarrow> mach" where
  "machine_at s c sv = \<lparr>sys = start_system s, regs = c, saved = sv\<rparr>"

text \<open>
  The kernel is as in \<open>initial\<close>, and every thread but the current one has a frame on its stack from which it can
  continue, with interrupts enabled.
\<close>

definition machine_ready :: "u32 set \<Rightarrow> nat \<times> nat \<Rightarrow> kern \<Rightarrow> view \<Rightarrow> block list \<Rightarrow> (u32 \<Rightarrow> cpu \<times> u32) \<Rightarrow> bool" where
  "machine_ready M bs s v g sv \<longleftrightarrow> initial M s v g \<and> frames_at bs s (v_all v) g sv (\<lambda>_. EFLAGS_DEFAULT)"

lemma kern_start [simp]: "kern_of (start_system s) = s"
  by (simp add: kern_of_def start_system_def)

lemma ready_ok: "machine_ready M bs s v g sv \<Longrightarrow> mach_ok M bs (machine_at s c sv)"
  using initial_ok [of M s v g]
  by (auto simp: machine_ready_def mach_ok_def machine_at_def frames_ok_def initial_def start_system_def kern_of_def)

section \<open>The example\<close>

abbreviation boot_stack :: "nat \<times> nat" where "boot_stack \<equiv> (0x8C000, 0x90000)"

definition ex_saved :: "u32 \<Rightarrow> cpu \<times> u32" where
  "ex_saved t = (if t = t_two then (entry_regs 0x102000, 0x2100A8) else (entry_regs 0x101100, 0x115FF8))"

lemma ex_ranges [simp]:
  "stack_range boot_stack (ex_kern P_ready) t_main = boot_stack"
  "stack_range boot_stack (ex_kern P_ready) t_idle = (0x106000, 0x116000)"
  "stack_range boot_stack (ex_kern P_ready) t_two = (0x2000B0, 0x2100B0)"
  by (simp_all add: stack_range_def ex_tcb_def ex_image_def)

lemma ex_stacks: "stacks_ok boot_stack (ex_kern P_ready) (v_all (ex_view P_ready)) ex_blocks"
proof -
  have "(0x2000B0, 0x10000) \<in> handed_out ex_blocks" by (force simp: handed_out_def)
  then have "\<exists>k \<ge> 65536. (0x2000B0, k) \<in> handed_out ex_blocks" by force
  then show ?thesis by (auto simp: stacks_ok_def off_heap_def apart_def ex_heap_def heap0_def ex_tcb_def)
qed

lemma ex_frame_two: "holds_frame ex_mem 0x2100A8 (entry_regs 0x102000) EFLAGS_DEFAULT"
proof -
  let ?m = "fst (push_words ex_headers 0x2100B0 (initial_frame 0x101000 0x102000 7))"
  have f: "holds_frame ?m 0x2100A8 (entry_regs 0x102000) EFLAGS_DEFAULT" using new_frame [of "0x2100B0" ex_headers] by simp
  have k: "stack_kept (0x2000B0, 0x2100B0) ?m ex_mem"
    using push_words_spec [of "initial_frame 0x101000 0x101100 0" "0x116000" ?m] by (auto simp: stack_kept_def ex_mem_def)
  show ?thesis by (rule frame_kept [OF k _ f]) (simp add: esp_in_def)
qed

lemma ex_frame_idle: "holds_frame ex_mem 0x115FF8 (entry_regs 0x101100) EFLAGS_DEFAULT"
  unfolding ex_mem_def using new_frame [of "0x116000"] by simp

lemma ex_ready: "machine_ready M boot_stack (ex_kern P_ready) (ex_view P_ready) ex_blocks ex_saved"
proof -
  have "framed boot_stack (ex_kern P_ready) t_two (ex_saved t_two) EFLAGS_DEFAULT"
    "framed boot_stack (ex_kern P_ready) t_idle (ex_saved t_idle) EFLAGS_DEFAULT"
    using ex_frame_two ex_frame_idle by (simp_all add: framed_def ex_saved_def esp_in_def ex_heap_def ex_tcb_def)
  moreover have "esp_in boot_stack (esp_reg (ex_kern P_ready))" by (simp add: ex_kern_def esp_in_def)
  ultimately show ?thesis using ex_stacks ex_initial by (auto simp: machine_ready_def frames_at_def)
qed

text \<open>Which thread the handler continues with.\<close>

lemma pop_frame_kern: "\<exists>e fl. snd (pop_frame junk s) = s\<lparr>esp_reg := e, hw := eflags_set fl (hw s)\<rparr>"
  by (simp add: pop_frame_def restore_registers_def iret_def popl_def Let_def) blast

lemma switch_current:
  assumes ok: "mach_ok M bs y" and s: "doing (sys y) = Yield s k" and inv: "kinv s v" "heap_ok s v g" "can_clean s v"
  shows "\<exists>c s' g'. isr_IRQ0_asm junk (regs y) s = Inr (c, s') \<and> current_thread s' = pick s (ticked_view s v) \<and>
     kinv s' (sched_view s (ticked_view s v)) \<and> heap_ok s' (sched_view s (ticked_view s v)) g' \<and> running s' \<and>
     eflags (hw s') = flags_at s y (current_thread s') \<and> image s' = image s \<and> mach_ok M bs (real_switch junk s k y)"
proof -
  let ?s = "with_frame (regs y) s"
  have f: "frames_ok bs y" and ks: "s = kern_of (sys y)" using ok s by (simp_all add: mach_ok_def kern_of_def)
  note here = frames_here [OF f, folded ks, OF inv(1,2)]
  have st: "stacks_ok bs s (v_all v) g" and e: "esp_in (stack_range bs s (current_thread s)) (esp_reg s)"
    using here by (simp_all add: frames_at_def)
  have own: "own_stack bs s (frame_mem (regs y) s)" using frame_pushed(1) [OF e] by (simp add: own_stack_def)
  have "heap_inv (heap ?s) g"
    using own_stack_heap [OF st _ kinv_cur [OF inv(1)] own] inv(2) by (simp add: heap_ok_def with_frame_computed)
  moreover have "owned_by ?s = owned_by s" by (rule owned_by_cong) (simp_all add: with_frame_computed)
  ultimately have "heap_ok ?s v g" using inv(2) by (simp add: heap_ok_def)
  moreover have "kinv ?s v" "can_clean ?s v" using inv by (simp_all add: with_frame_def can_clean_def lock_free_def)
  ultimately obtain s' g' where i: "isr_IRQ0 ?s = Inr s'" "kinv s' (sched_view ?s (ticked_view ?s v))" "running s'"
    "current_thread s' = pick ?s (ticked_view ?s v)" "heap_ok s' (sched_view ?s (ticked_view ?s v)) g'" "image s' = image ?s"
    using isr_IRQ0_ok by blast
  have views: "ticked_view ?s v = ticked_view s v" "pick ?s w = pick s w" "sched_view ?s w = sched_view s w" "image ?s = image s" for w
    by (simp_all add: with_frame_def ticked_view_def tick_view_def due_def [abs_def] pick_def running_def sched_view_def leave_view_def Let_def)
  obtain e fl where p: "snd (pop_frame junk (s'\<lparr>esp_reg := esp_reg s' - 56\<rparr>)) = s'\<lparr>esp_reg := e, hw := eflags_set fl (hw s')\<rparr>"
    using pop_frame_kern [of junk "s'\<lparr>esp_reg := esp_reg s' - 56\<rparr>"] by auto
  let ?s1 = "s'\<lparr>esp_reg := e, hw := eflags_set fl (hw s')\<rparr>"
  obtain c s2 where a: "isr_IRQ0_asm junk (regs y) s = Inr (c, s2)" "eflags (hw s2) = flags_at s y (current_thread s2)"
    "mach_ok M bs (real_switch junk s k y)" using real_interrupt [OF ok s] by blast
  have s2: "s2 = ?s1" using a(1) i(1) p by (cases "pop_frame junk (s'\<lparr>esp_reg := esp_reg s' - 56\<rparr>)") (simp add: isr_IRQ0_asm_eq)
  have ob: "owned_by ?s1 = owned_by s'" by (rule owned_by_cong) simp_all
  have "kinv ?s1 (sched_view s (ticked_view s v))" using i(2) unfolding views by simp
  moreover have "heap_ok ?s1 (sched_view s (ticked_view s v)) g'" using i(5) ob unfolding views by (simp add: heap_ok_def)
  ultimately show ?thesis using a i(3,4,6) views unfolding s2 by (intro exI [of _ c] exI [of _ ?s1] exI [of _ g']) (simp add: running_def)
qed

section \<open>Registers\<close>

text \<open>C13. The context switch is transparent: a thread that the timer interrupts continues, after any number of
  steps of other threads (computations on their own stacks, synchronisation and heap calls, further
  interrupts), with exactly the registers, the stack pointer and the flags it had. The handler never fails,
  and it does not matter what the compiled C code leaves in the registers.\<close>

theorem context_switch_transparent:
  assumes "machine_ready M bs s0 v g sv" "mreach M bs (machine_at s0 c0 sv) y" "doing (sys y) = Yield s k"
    "away M bs (current_thread s) (real_switch junk s k y) y'" "doing (sys y') = Yield s' k'" "current_thread s' \<noteq> current_thread s"
  shows "\<exists>c s2. isr_IRQ0_asm junk' (regs y') s' = Inr (c, s2) \<and>
     (current_thread s2 = current_thread s \<longrightarrow> c = regs y \<and> esp_reg s2 = esp_reg s \<and> eflags (hw s2) = eflags (hw s))"
  by (rule registers_return [OF mach_reach_ok [OF assms(2) ready_ok [OF assms(1)]] assms(3-6)])

text \<open>The main thread yields, the second thread runs and yields in turn, and the main thread is back.\<close>

definition ex_busy :: cpu where
  "ex_busy = (entry_regs 0x103000)\<lparr>eax := 0x11, ebx := 0x22, edi := 0x33\<rparr>"

abbreviation ex_one :: mach where
  "ex_one \<equiv> (machine_at (ex_kern P_ready) (entry_regs 0) ex_saved)\<lparr>sys := (start_system (ex_kern P_ready))\<lparr>doing := thread_yield (ex_kern P_ready)\<rparr>, regs := ex_busy\<rparr>"

lemma yields:
  assumes s: "doing (sys z) = Return () s"
  shows "mstep M bs z (z\<lparr>sys := (sys z)\<lparr>doing := thread_yield s\<rparr>, regs := c\<rparr>)"
proof -
  have "sstep M (sys z) ((sys z)\<lparr>doing := thread_yield s\<rparr>)"
    using sstep.call [OF s, of M Call_yield] by (simp add: note_return_def thread_yield_def)
  then show ?thesis by (rule mstep.call [OF s])
qed

lemma ex_one_reach: "mreach {} boot_stack (machine_at (ex_kern P_ready) (entry_regs 0) ex_saved) ex_one"
  using mreach.step [OF mreach.start yields, of "machine_at (ex_kern P_ready) (entry_regs 0) ex_saved" "ex_kern P_ready" "{}" boot_stack ex_busy]
  by (simp add: machine_at_def start_system_def)

text \<open>The switch to a thread that has made no call yet, which gives up the processor in turn.\<close>

lemma hop:
  assumes ok: "mach_ok M bs y" and d: "doing (sys y) = Yield s k" and inv: "kinv s v" "heap_ok s v g" "can_clean s v"
    and n: "pick s (ticked_view s v) = n" "n \<noteq> current_thread s" "contexts (sys y) n = (EFLAGS_DEFAULT, Return ())"
  shows "\<exists>s1 g1. let z = real_switch junk s k y; y' = z\<lparr>sys := (sys z)\<lparr>doing := thread_yield s1\<rparr>, regs := c'\<rparr> in
     mstep M bs y z \<and> mstep M bs z y' \<and> mach_ok M bs y' \<and> current_thread (kern_of (sys z)) = n \<and>
     doing (sys y') = Yield s1 (Return ()) \<and> current_thread s1 = n \<and>
     kinv s1 (sched_view s (ticked_view s v)) \<and> heap_ok s1 (sched_view s (ticked_view s v)) g1 \<and> running s1"
proof -
  let ?z = "real_switch junk s k y" and ?w = "sched_view s (ticked_view s v)"
  obtain c s1 g1 where a: "isr_IRQ0_asm junk (regs y) s = Inr (c, s1)" "current_thread s1 = n" "kinv s1 ?w" "heap_ok s1 ?w g1"
    "running s1" "eflags (hw s1) = flags_at s y n" "mach_ok M bs ?z"
    using switch_current [OF ok d inv, of junk] unfolding n(1) by auto
  have dz: "doing (sys ?z) = Return () s1" using a(1,2) n(2,3) by (simp add: real_switch_def Let_def)
  let ?y = "?z\<lparr>sys := (sys ?z)\<lparr>doing := thread_yield s1\<rparr>, regs := c'\<rparr>"
  have st: "mstep M bs ?z ?y" by (rule yields [OF dz])
  have "mach_ok M bs ?y" using mach_step_ok [OF st a(7)] by blast
  moreover have "doing (sys ?y) = Yield s1 (Return ())" by (simp add: thread_yield_def)
  moreover have "current_thread (kern_of (sys ?z)) = n" using dz a(2) by (simp add: kern_of_def)
  ultimately show ?thesis using st mstep.interrupt [OF d, of M bs junk] a(2-5) unfolding Let_def by blast
qed

lemma ex_round:
  "\<exists>s1 y c2. away {} boot_stack t_main (real_switch junk (ex_kern P_ready) (Return ()) ex_one) y \<and>
     doing (sys y) = Yield s1 (Return ()) \<and> current_thread s1 = t_two \<and>
     (\<exists>s2. isr_IRQ0_asm junk (regs y) s1 = Inr (c2, s2) \<and> current_thread s2 = t_main)"
proof -
  let ?s = "ex_kern P_ready" and ?v = "ex_view P_ready"
  let ?w = "sched_view ?s ?v" and ?z = "real_switch junk ?s (Return ()) ex_one"
  have ok: "mach_ok {} boot_stack ex_one" by (rule mach_reach_ok [OF ex_one_reach ready_ok [OF ex_ready]])
  have d: "doing (sys ex_one) = Yield ?s (Return ())" by (simp add: thread_yield_def)
  have cl: "can_clean ?s ?v" by (simp add: can_clean_def)
  have tv: "ticked_view ?s ?v = ?v" "pick ?s ?v = t_two"
    by (auto simp: ticked_view_def tick_view_def pick_def ex_view_def put_def fun_eq_iff)
  have w: "v_ready ?w = [t_main]" "v_sleep ?w = []" "v_zombie ?w = []"
    by (simp_all add: sched_view_def tv(2) leave_view_def ex_tcb_def clean_view_at)
  have "pick ?s (ticked_view ?s ?v) = t_two" "t_two \<noteq> current_thread ?s" "contexts (sys ex_one) t_two = (EFLAGS_DEFAULT, Return ())"
    by (simp_all add: tv) (simp add: start_system_def)
  from hop [OF ok d ex_kinv ex_heap_ok cl this, of junk "entry_regs 0x102010"] obtain s1 g1 y where
    h: "mstep {} boot_stack ?z y" "mach_ok {} boot_stack y" "current_thread (kern_of (sys ?z)) = t_two" "doing (sys y) = Yield s1 (Return ())"
      "current_thread s1 = t_two" "kinv s1 ?w" "heap_ok s1 ?w g1"
    unfolding tv Let_def by blast
  have "current_thread (kern_of (sys ?z)) \<noteq> t_main" using h(3) by simp
  then have aw: "away {} boot_stack t_main ?z y" by (rule away.step [OF away.start _ h(1)])
  have "can_clean s1 ?w" using w(3) by (simp add: can_clean_def)
  from switch_current [OF h(2,4,6,7) this, of junk] obtain c2 s2 where
    b: "isr_IRQ0_asm junk (regs y) s1 = Inr (c2, s2)" "current_thread s2 = pick s1 (ticked_view s1 ?w)" by blast
  have "pick s1 (ticked_view s1 ?w) = t_main" using w by (simp add: pick_def ticked_view_def tick_view_def)
  then have "current_thread s2 = t_main" using b(2) by simp
  with b(1) aw h(4,5) show ?thesis by blast
qed

theorem context_switch_transparent_witness:
  "\<exists>y s1 s2. away {} boot_stack t_main (real_switch ex_busy (ex_kern P_ready) (Return ()) ex_one) y \<and> doing (sys y) = Yield s1 (Return ()) \<and>
     isr_IRQ0_asm ex_busy (regs y) s1 = Inr (ex_busy, s2) \<and> current_thread s2 = t_main \<and> esp_reg s2 = 0x90000"
proof -
  obtain s1 y c2 s2 where r: "away {} boot_stack t_main (real_switch ex_busy (ex_kern P_ready) (Return ()) ex_one) y"
    "doing (sys y) = Yield s1 (Return ())" "current_thread s1 = t_two" "isr_IRQ0_asm ex_busy (regs y) s1 = Inr (c2, s2)" "current_thread s2 = t_main"
    using ex_round by blast
  have d: "doing (sys ex_one) = Yield (ex_kern P_ready) (Return ())" by (simp add: thread_yield_def)
  have "esp_reg (ex_kern P_ready) = 0x90000" by (simp add: ex_kern_def)
  moreover have cur: "current_thread (ex_kern P_ready) = t_main" by simp
  have "current_thread s1 \<noteq> t_main" using r(3) by simp
  from context_switch_transparent [OF ex_ready ex_one_reach d, unfolded cur, OF r(1,2) this, of ex_busy]
  have "c2 = regs ex_one \<and> esp_reg s2 = esp_reg (ex_kern P_ready)" using r(4,5) by simp
  moreover have "regs ex_one = ex_busy" by simp
  ultimately show ?thesis using r(1,2,4,5) by metis
qed

end
