(* ===== verification/ThreadStart.thy ===== *)
theory ThreadStart
  imports RegisterProps
begin

text \<open>
  From \<open>thread_create_arg\<close> to the first instruction of the new thread: the stack that is written at the creation is the
  frame that the first switch to the thread takes off.
\<close>

section \<open>The machine after the creation\<close>

lemma created_frame:
  assumes w: "\<forall>i < 16. load32 m (sp + of_nat (4 * i)) = rev (initial_frame x entry arg) ! i"
  shows "holds_frame m (sp + 56) (entry_regs entry) EFLAGS_DEFAULT" "load32 m (sp + 56) = x" "load32 m (sp + 60) = arg"
proof -
  let ?f = "frame_words (entry_regs entry) EFLAGS_DEFAULT"
  have len: "length ?f = 14" by (simp add: frame_words_def)
  have "load32 m (sp + 56 - of_nat (4 * (i + 1))) = ?f ! i" if i: "i < 14" for i
  proof -
    have "sp + 56 - of_nat (4 * (i + 1)) = sp + of_nat (4 * (13 - i))" using i by (simp add: of_nat_diff algebra_simps)
    moreover have "rev (initial_frame x entry arg) ! (13 - i) = ?f ! i"
      using i by (auto simp: initial_frame_entry rev_nth nth_append len)
    moreover have "13 - i < 16" by simp
    then have "load32 m (sp + of_nat (4 * (13 - i))) = rev (initial_frame x entry arg) ! (13 - i)" using w by blast
    ultimately show ?thesis by (simp only:)
  qed
  then show "holds_frame m (sp + 56) (entry_regs entry) EFLAGS_DEFAULT" by (simp add: holds_frame_def)
  have "rev (initial_frame x entry arg) ! 14 = x" "rev (initial_frame x entry arg) ! 15 = arg"
    by (simp_all add: initial_frame_entry nth_append len)
  moreover have "load32 m (sp + of_nat (4 * 14)) = rev (initial_frame x entry arg) ! 14"
    "load32 m (sp + of_nat (4 * 15)) = rev (initial_frame x entry arg) ! 15" using w [rule_format, of 14] w [rule_format, of 15] by simp_all
  ultimately show "load32 m (sp + 56) = x" "load32 m (sp + 60) = arg" by simp_all
qed

lemma born_view_at [simp]:
  "v_all (born_view t v) = t # v_all v" "v_at (born_view t v) (P_wait w) = v_at v (P_wait w)" "v_zombie (born_view t v) = v_zombie v"
  by (simp_all add: born_view_def)

lemma created_initial:
  assumes i: "initial M s v g" and c: "created t g g' s s'" "kinv s' (born_view t v)" "heap_ok s' (born_view t v) g'"
    and t: "t \<notin> set (v_all v)" and len: "length (v_all v) + 1 < 2147483648"
  shows "initial M s' (born_view t v) g'"
proof -
  have "current_thread s \<noteq> t" using t kinv_cur [of s v] i by (auto simp: initial_def)
  then have "running s'" using i c(1) by (simp add: initial_def running_def created_def)
  then show ?thesis using i c len by (auto simp: initial_def created_def lock_free_def)
qed

lemma created_ready:
  assumes r: "machine_ready M bs s v g sv" and c: "created t g g' s s'" "kinv s' (born_view t v)" "heap_ok s' (born_view t v) g'" "handed_out g \<subseteq> handed_out g'"
    and t: "t \<notin> set (v_all v)" and len: "length (v_all v) + 1 < 2147483648"
    and w: "\<forall>i < 16. load32 (mem (heap s')) (esp (tcbs s' t) + of_nat (4 * i)) = rev (initial_frame x entry arg) ! i"
  shows "machine_ready M bs s' (born_view t v) g' (sv(t := (entry_regs entry, esp (tcbs s' t) + 56)))"
    and "stack_range bs s' t = (unat (stack_base (tcbs s' t)), unat (stack_base (tcbs s' t)) + 65536)"
    and "unat (esp (tcbs s' t)) = unat (stack_base (tcbs s' t)) + 65472" "unat (stack_base (tcbs s' t)) + 65536 < 4294967296"
proof -
  let ?b = "stack_base (tcbs s' t)" and ?sv = "sv(t := (entry_regs entry, esp (tcbs s' t) + 56))"
  have i: "initial M s v g" and f: "frames_at bs s (v_all v) g sv (\<lambda>_. EFLAGS_DEFAULT)" using r by (simp_all add: machine_ready_def)
  have k: "kinv s v" using i by (simp add: initial_def)
  have tn: "t \<noteq> idle_thread s" "t \<noteq> current_thread s" using t kinv_idle(1) [OF k] kinv_cur [OF k] by auto
  have out: "outside_kept (heap s) (heap s')" and reg: "\<And>r. r \<in> handed_out g \<Longrightarrow> region_kept r (mem (heap s)) (mem (heap s'))"
    and same: "image s' = image s" "current_thread s' = current_thread s" "esp_reg s' = esp_reg s"
    and u: "\<And>u. u \<noteq> t \<Longrightarrow> esp (tcbs s' u) = esp (tcbs s u) \<and> stack_base (tcbs s' u) = stack_base (tcbs s u)"
    and b: "?b \<noteq> 0" "esp (tcbs s' t) = ?b + THREAD_STACK_SPACE - 64"
    using c(1) by (auto simp: created_def regions_kept_def)
  obtain n where n: "65536 \<le> n" "(unat ?b, n) \<in> handed_out g'" using c(1) by (auto simp: created_def)
  have so: "stacks_ok bs s (v_all v) g" using f by (simp add: frames_at_def)
  have hi: "heap_inv (heap s') g'" using c(3) by (simp add: heap_ok_def)
  have lim: "unat ?b + 65536 < 4294967296" using kheap.live_range [OF hi n(2)] n(1) by simp
  then show "unat ?b + 65536 < 4294967296" .
  have "esp (tcbs s' t) = ?b + 65472" using b(2) by simp
  then show e: "unat (esp (tcbs s' t)) = unat ?b + 65472" using lim by (simp add: unat_word_ariths)
  have sr: "stack_range bs s' w = stack_range bs s w" if "w \<noteq> t" for w using u [OF that] same by (simp add: stack_range_def)
  show st: "stack_range bs s' t = (unat ?b, unat ?b + 65536)" using tn b(1) same by (simp add: stack_range_def)
  have ub: "stack_base (tcbs s' w) = stack_base (tcbs s w)" if "w \<in> set (v_all v)" for w using that t u [of w] by auto
  have "\<exists>k \<ge> 65536. (unat (stack_base (tcbs s' w)), k) \<in> handed_out g'"
    if "w \<in> set (v_all v)" "w \<noteq> idle_thread s" "stack_base (tcbs s' w) \<noteq> 0" for w
    using so that c(4) ub [OF that(1)] unfolding stacks_ok_def by fastforce
  moreover have "w = x" if "w \<in> set (v_all v)" "x \<in> set (v_all v)" "w \<noteq> idle_thread s" "x \<noteq> idle_thread s"
    "stack_base (tcbs s' w) = 0" "stack_base (tcbs s' x) = 0" for w x
    using so that ub [OF that(1)] ub [OF that(2)] unfolding stacks_ok_def by metis
  ultimately have "stacks_ok bs s' (t # v_all v) g'"
    using so out sr [of "idle_thread s"] tn(1) same(1) n b(1) by (auto simp: stacks_ok_def off_heap_def outside_kept_def)
  moreover have "framed bs s' w (sv w) EFLAGS_DEFAULT" if w: "w \<in> set (v_all v)" "w \<noteq> current_thread s" for w
  proof -
    have wt: "w \<noteq> t" using w(1) t by auto
    have "stack_kept (stack_range bs s w) (mem (heap s)) (mem (heap s'))" by (rule stack_kept_by_regions [OF so w(1) out reg])
    then show ?thesis using f w u [OF wt] sr [OF wt] frame_kept by (auto simp: frames_at_def framed_def)
  qed
  moreover have "framed bs s' t (entry_regs entry, esp (tcbs s' t) + 56) EFLAGS_DEFAULT"
  proof -
    have "unat (esp (tcbs s' t) + 56) = unat ?b + 65528" using e lim by (simp add: unat_word_ariths)
    then show ?thesis using created_frame(1) [OF w] st by (simp add: framed_def esp_in_def)
  qed
  ultimately have "frames_at bs s' (t # v_all v) g' ?sv (\<lambda>_. EFLAGS_DEFAULT)"
    using f same sr [of "current_thread s"] tn(2) t by (auto simp: frames_at_def)
  then show "machine_ready M bs s' (born_view t v) g' ?sv"
    using created_initial [OF i c(1-3) t len] by (simp add: machine_ready_def)
qed

section \<open>The first switch\<close>

text \<open>A thread that waits with a frame on its stack, seen from the switch that continues it.\<close>

lemma first_switch:
  assumes ok: "mach_ok M bs y0" and aw: "away M bs t y0 y" and s: "doing (sys y) = Yield s k" "current_thread s \<noteq> t"
  shows "\<exists>c s'. isr_IRQ0_asm junk (regs y) s = Inr (c, s') \<and>
     (current_thread s' = t \<longrightarrow> (c, esp_reg s') = saved y0 t \<and> eflags (hw s') = fst (contexts (sys y0) t) \<and>
        stack_kept (stack_range bs (kern_of (sys y0)) t) (mem_of y0) (mem (heap s')))"
proof -
  note k = away_keeps [OF aw ok]
  let ?z = "real_switch junk s k y"
  obtain s' where r: "isr_IRQ0_asm junk (regs y) s = Inr (fst (saved_at s y (current_thread s')), s')"
    "esp_reg s' = snd (saved_at s y (current_thread s'))" "eflags (hw s') = flags_at s y (current_thread s')"
    "base_state (kern_of (sys ?z)) = base_state s'" "mach_ok M bs ?z" "stacks_kept bs y ?z"
    using real_interrupt [OF conjunct1 [OF k] s(1)] by blast
  have "stack_kept (stack_range bs (kern_of (sys y0)) t) (mem_of y0) (mem (heap s'))" if t: "current_thread s' = t"
  proof -
    have "system_ok M (sys ?z)" using r(5) by (simp add: mach_ok_def)
    then obtain v g X where g: "good M (kern_of (sys ?z)) v g X (sys ?z)" by (rule system_ok_kern)
    have "alive ?z t" using aliveI [OF good_kinv [OF g]] kinv_cur [OF good_kinv [OF g]] baseD(3) [OF r(4)] t by simp
    moreover have "t \<noteq> current_thread (kern_of (sys y))" using s by (simp add: kern_of_def)
    ultimately have "alive y t" "stack_kept (stack_range bs (kern_of (sys y)) t) (mem_of y) (mem_of ?z)"
      using r(6) by (auto simp: stacks_kept_def)
    then show ?thesis using away_stack [OF aw ok] baseD(1) [OF r(4)] by (simp add: stack_kept_def mem_of_def)
  qed
  then show ?thesis using r(1-3) k s(2) by (auto simp: saved_at_def flags_at_def)
qed

text \<open>C14. A new thread starts as its creator asked: after \<open>thread_create_arg\<close>, whatever the other threads do, the first
  switch to the new thread enters the function given with zero registers and the kernel's segments, with
  interrupts enabled, and finds on its stack the return into \<open>thread_exit\<close> and the argument, as a C function expects.\<close>

theorem new_thread_starts:
  assumes "machine_ready M bs s v g sv" "next_tid s \<noteq> 0" "length (v_all v) + 1 < 2147483648"
    "lock_free s (all_threads_lock (image s))" "lock_free s (local_threads_lock (image s))"
    "unat (kheap_end (heap s)) + 0x12000 \<le> unat (kheap_max_end (heap s))" "unat (idle_thread s) \<le> unat (kheap_begin (heap s))"
  shows "\<exists>t s' g' sv'. thread_create_arg entry arg s = Return t s' \<and> machine_ready M bs s' (born_view t v) g' sv' \<and>
     (\<forall>c0 y s2 k junk. away M bs t (machine_at s' c0 sv') y \<and> doing (sys y) = Yield s2 k \<and> current_thread s2 \<noteq> t \<longrightarrow>
        (\<exists>c s3. isr_IRQ0_asm junk (regs y) s2 = Inr (c, s3) \<and>
           (current_thread s3 = t \<longrightarrow> c = entry_regs entry \<and> interrupt_is_enabled (hw s3) \<and>
              load32 (mem (heap s3)) (esp_reg s3) = thread_exit_addr (image s) \<and> load32 (mem (heap s3)) (esp_reg s3 + 4) = arg)))"
proof -
  have i: "kinv s v" "heap_ok s v g" "lock_free s (free_list_lock (image s))"
    using assms(1) by (simp_all add: machine_ready_def initial_def)
  obtain t s' g' where c: "thread_create_arg entry arg s = Return t s'" "t \<notin> set (v_all v)" "kinv s' (born_view t v)"
    "heap_ok s' (born_view t v) g'" "handed_out g \<subseteq> handed_out g'"
    "\<forall>i < 16. load32 (mem (heap s')) (esp (tcbs s' t) + of_nat (4 * i)) = rev (initial_frame (thread_exit_addr (image s)) entry arg) ! i"
    "created t g g' s s'"
    using thread_create_ok [OF i(1,2) assms(2) i(3) assms(4-7), of entry arg] by blast
  let ?e = "esp (tcbs s' t) + 56" and ?b = "unat (stack_base (tcbs s' t))"
  let ?sv = "sv(t := (entry_regs entry, ?e))"
  note r = created_ready [OF assms(1) c(7,3,4,5,2) assms(3) c(6)]
  have ue: "unat ?e = ?b + 65528" "unat (?e + 4) = ?b + 65532" using r(3,4) by (simp_all add: unat_word_ariths)
  have "\<exists>c s3. isr_IRQ0_asm junk (regs y) s2 = Inr (c, s3) \<and>
       (current_thread s3 = t \<longrightarrow> c = entry_regs entry \<and> interrupt_is_enabled (hw s3) \<and>
          load32 (mem (heap s3)) (esp_reg s3) = thread_exit_addr (image s) \<and> load32 (mem (heap s3)) (esp_reg s3 + 4) = arg)"
    if y: "away M bs t (machine_at s' c0 ?sv) y" "doing (sys y) = Yield s2 k" "current_thread s2 \<noteq> t" for c0 y s2 k junk
  proof -
    have m0: "kern_of (sys (machine_at s' c0 ?sv)) = s'" "mem_of (machine_at s' c0 ?sv) = mem (heap s')"
      "saved (machine_at s' c0 ?sv) t = (entry_regs entry, ?e)" "fst (contexts (sys (machine_at s' c0 ?sv)) t) = EFLAGS_DEFAULT"
      by (simp_all add: machine_at_def mem_of_def) (simp add: start_system_def)
    obtain c s3 where f: "isr_IRQ0_asm junk (regs y) s2 = Inr (c, s3)" "current_thread s3 = t \<Longrightarrow> c = entry_regs entry \<and> esp_reg s3 = ?e \<and>
        eflags (hw s3) = EFLAGS_DEFAULT \<and> stack_kept (?b, ?b + 65536) (mem (heap s')) (mem (heap s3))"
      using first_switch [OF ready_ok [OF r(1)] y, of junk] unfolding m0 r(2) by auto
    have "load32 (mem (heap s3)) ?e = load32 (mem (heap s')) ?e" "load32 (mem (heap s3)) (?e + 4) = load32 (mem (heap s')) (?e + 4)"
      if "current_thread s3 = t" using f(2) [OF that] r(4) ue by (auto intro!: load_kept)
    moreover have "load32 (mem (heap s')) ?e = thread_exit_addr (image s)" "load32 (mem (heap s')) (?e + 4) = arg"
      using created_frame(2,3) [OF c(6)] by (simp_all add: add.commute)
    ultimately show ?thesis using f by (intro exI [of _ c] exI [of _ s3]) (auto simp: interrupt_is_enabled_def eflags_checkflag_def eflags_get_def)
  qed
  then show ?thesis using c(1) r(1) by blast
qed

text \<open>The new thread is behind the second thread in the ready list: it runs after two interrupts.\<close>

lemma ex_new_runs:
  assumes r: "machine_ready {} boot_stack s (born_view t (ex_view P_ready)) g sv"
  shows "\<exists>y s2 c s3. away {} boot_stack t (machine_at s ex_busy sv) y \<and> doing (sys y) = Yield s2 (Return ()) \<and>
     current_thread s2 \<noteq> t \<and> isr_IRQ0_asm ex_busy (regs y) s2 = Inr (c, s3) \<and> current_thread s3 = t"
proof -
  let ?v = "born_view t (ex_view P_ready)" and ?y0 = "machine_at s ex_busy sv"
  have i: "kinv s ?v" "heap_ok s ?v g" "running s"
    using r by (simp_all add: machine_ready_def initial_def)
  have ready: "v_ready ?v = [t, t_two]" "v_sleep ?v = []" "v_zombie ?v = []" by (simp_all add: born_view_def)
  have t: "t \<noteq> t_two" using lists_distinct(2) [OF kinv_lists [OF i(1)], of P_ready] ready(1) by simp
  have cur: "current_thread s \<notin> set (v_ready ?v)" using cur_unplaced [OF i(1)] i(3) by (simp add: running_def)
  then have c: "current_thread s \<noteq> t" "t_two \<noteq> current_thread s" unfolding ready by auto
  have tv: "ticked_view s ?v = ?v" "pick s ?v = t_two"
    using ready by (auto simp: ticked_view_def tick_view_def pick_def put_def born_view_def ex_view_def fun_eq_iff)
  let ?y1 = "?y0\<lparr>sys := (sys ?y0)\<lparr>doing := thread_yield s\<rparr>, regs := ex_busy\<rparr>" and ?w = "sched_view s ?v"
  have d0: "doing (sys ?y0) = Return () s" by (simp add: machine_at_def start_system_def)
  have s1: "mstep {} boot_stack ?y0 ?y1" by (rule yields [OF d0])
  have ok: "mach_ok {} boot_stack ?y1" using mach_step_ok [OF s1 ready_ok [OF r]] by blast
  have d1: "doing (sys ?y1) = Yield s (Return ())" by (simp add: thread_yield_def)
  have cl: "can_clean s ?v" using ready(3) by (simp add: can_clean_def)
  have "pick s (ticked_view s ?v) = t_two" "contexts (sys ?y1) t_two = (EFLAGS_DEFAULT, Return ())"
    by (simp_all add: tv) (simp add: machine_at_def start_system_def)
  from hop [OF ok d1 i(1,2) cl this(1) c(2) this(2), of ex_busy "entry_regs 0x102010"] obtain s2 g2 z y where
    h: "mstep {} boot_stack ?y1 z" "mstep {} boot_stack z y" "mach_ok {} boot_stack y" "current_thread (kern_of (sys z)) = t_two"
      "doing (sys y) = Yield s2 (Return ())" "current_thread s2 = t_two" "kinv s2 ?w" "heap_ok s2 ?w g2"
    unfolding tv Let_def by blast
  have ky: "kern_of (sys ?y0) = s" "kern_of (sys ?y1) = s" by (simp_all add: machine_at_def kern_of_def thread_yield_def start_system_def)
  have k: "current_thread (kern_of (sys ?y0)) \<noteq> t" "current_thread (kern_of (sys ?y1)) \<noteq> t" "current_thread (kern_of (sys z)) \<noteq> t"
    "current_thread s2 \<noteq> t" unfolding ky using c(1) h(4,6) t by simp_all
  have aw: "away {} boot_stack t ?y0 y"
    by (rule away.step [OF away.step [OF away.step [OF away.start k(1) s1] k(2) h(1)] k(3) h(2)])
  have w: "last (v_ready ?w) = t" "v_ready ?w \<noteq> []" "v_sleep ?w = []" "v_zombie ?w = []"
    using ready i(3) tv(2) c(2) by (simp_all add: sched_view_def leave_view_def Let_def running_def clean_view_at)
  then have "can_clean s2 ?w" "pick s2 (ticked_view s2 ?w) = t" by (simp_all add: can_clean_def pick_def ticked_view_def tick_view_def)
  then show ?thesis using switch_current [OF h(3,5,7,8), of ex_busy] aw h(5) k(4) by metis
qed

theorem new_thread_starts_witness:
  "\<exists>t s' sv y s2 c s3. thread_create_arg 0x101500 42 (ex_kern P_ready) = Return t s' \<and>
     away {} boot_stack t (machine_at s' ex_busy sv) y \<and> doing (sys y) = Yield s2 (Return ()) \<and>
     isr_IRQ0_asm ex_busy (regs y) s2 = Inr (c, s3) \<and> current_thread s3 = t \<and> eip c = 0x101500 \<and>
     load32 (mem (heap s3)) (esp_reg s3) = 0x101000 \<and> load32 (mem (heap s3)) (esp_reg s3 + 4) = 42"
proof -
  let ?s = "ex_kern P_ready"
  have "next_tid ?s \<noteq> 0" "length (v_all (ex_view P_ready)) + 1 < 2147483648" "lock_free ?s (all_threads_lock (image ?s))"
    "lock_free ?s (local_threads_lock (image ?s))" "unat (kheap_end (heap ?s)) + 0x12000 \<le> unat (kheap_max_end (heap ?s))"
    "unat (idle_thread ?s) \<le> unat (kheap_begin (heap ?s))"
    by (simp_all add: ex_kern_def lock_free_def ex_queue_def ex_heap_def heap0_def ex_view_def ex_image_def)
  from new_thread_starts [where M = "{}" and entry = "0x101500" and arg = 42, OF ex_ready this] obtain t s' g sv where
    c: "thread_create_arg 0x101500 42 ?s = Return t s'" "machine_ready {} boot_stack s' (born_view t (ex_view P_ready)) g sv" and
    n: "\<forall>c0 y s2 k junk. away {} boot_stack t (machine_at s' c0 sv) y \<and> doing (sys y) = Yield s2 k \<and> current_thread s2 \<noteq> t \<longrightarrow>
        (\<exists>c s3. isr_IRQ0_asm junk (regs y) s2 = Inr (c, s3) \<and>
           (current_thread s3 = t \<longrightarrow> c = entry_regs 0x101500 \<and> interrupt_is_enabled (hw s3) \<and>
              load32 (mem (heap s3)) (esp_reg s3) = thread_exit_addr (image ?s) \<and> load32 (mem (heap s3)) (esp_reg s3 + 4) = 42))"
    by (elim exE conjE) (rule that)
  obtain y s2 c s3 where y: "away {} boot_stack t (machine_at s' ex_busy sv) y" "doing (sys y) = Yield s2 (Return ())" "current_thread s2 \<noteq> t"
    "isr_IRQ0_asm ex_busy (regs y) s2 = Inr (c, s3)" "current_thread s3 = t" using ex_new_runs [OF c(2)] by blast
  have "eip (entry_regs 0x101500) = 0x101500" "thread_exit_addr (image ?s) = 0x101000" by (simp_all add: entry_regs_def ex_image_def)
  moreover have "c = entry_regs 0x101500 \<and> load32 (mem (heap s3)) (esp_reg s3) = thread_exit_addr (image ?s) \<and>
      load32 (mem (heap s3)) (esp_reg s3 + 4) = 42" using n [rule_format, OF conjI [OF y(1) conjI [OF y(2,3)]], of ex_busy] y(4,5) by simp
  ultimately show ?thesis using c(1) y by metis
qed

end
