(* ===== verification/BootSwitch.thy ===== *)
theory BootSwitch
  imports Boot ThreadStart
begin

text \<open>
  The machine that \<^verbatim>\<open>kernel_main\<close> leaves satisfies what the theorems about the context switch start from: the idle
  thread has the frame of its first run on its stack, and the main thread runs on the boot stack.
\<close>

section \<open>The booted machine\<close>

text \<open>The stack of \<^verbatim>\<open>bootasm.s\<close> is part of the image, apart from the stack of the idle thread, and in use.\<close>

definition boot_stack_at :: "boot_env \<Rightarrow> computer \<Rightarrow> nat \<times> nat \<Rightarrow> bool" where
  "boot_stack_at env c bs \<longleftrightarrow> snd bs \<le> unat (kernel_end_addr env) \<and> esp_in bs (esp_reg (kernel c)) \<and>
     apart bs (unat (idle_stack (image (kernel c))), unat (idle_stack (image (kernel c))) + 65536)"

abbreviation boot_locks :: "kernel_image \<Rightarrow> u32 set" where
  "boot_locks im \<equiv> {free_list_lock im, all_threads_lock im, local_threads_lock im, serial_lock im COMPort_1}"

definition boot_saved :: "kernel_image \<Rightarrow> u32 \<Rightarrow> cpu \<times> u32" where
  "boot_saved im t = (entry_regs (cpu_idle_loop_addr im), idle_stack im + THREAD_STACK_SPACE - 8)"

lemma booted_ready:
  assumes ld: "loaded env mbinfo c" and bs: "boot_stack_at env c bs"
    and i: "initial M s \<lparr>v_all = [idle_thread (kernel c), current_thread s], v_at = (\<lambda>_. [])\<rparr> g"
    and m: "idle_made (kernel c) s" "image s = image (kernel c)" "unat (kernel_end_addr env) \<le> unat (kheap_begin (heap s))"
  shows "machine_ready M bs s \<lparr>v_all = [idle_thread s, current_thread s], v_at = (\<lambda>_. [])\<rparr> g (boot_saved (image s))"
proof -
  let ?i = "idle_thread s" and ?v = "\<lparr>v_all = [idle_thread s, current_thread s], v_at = (\<lambda>_. [])\<rparr> :: view"
  let ?b = "idle_stack (image s)" and ?ke = "unat (kernel_end_addr env)"
  have i': "initial M s ?v g" using i m(2) by simp
  have ke: "unat ?b + 65536 \<le> ?ke" using ld m(2) by (auto simp: loaded_def Let_def)
  have lim: "?ke < 4294967296" by simp
  have "distinct (v_all ?v)" using i' lists_distinct(1) [OF kinv_lists] unfolding initial_def by blast
  then have ne: "?i \<noteq> current_thread s" by simp
  have sb: "stack_base (tcbs s (current_thread s)) = 0" and er: "esp_reg s = esp_reg (kernel c)"
    and ei: "esp (tcbs s ?i) = ?b + THREAD_STACK_SPACE - 64" using m(1,2) by (simp_all add: idle_made_def)
  have ri: "stack_range bs s ?i = (unat ?b, unat ?b + 65536)" and rc: "stack_range bs s (current_thread s) = bs"
    using ne sb by (auto simp: stack_range_def)
  have top: "snd bs < 4294967296" "unat ?b + 65536 < 4294967296"
    using le_less_trans [OF _ lim] bs ke by (simp_all only: boot_stack_at_def)
  have "stacks_ok bs s (v_all ?v) g"
    using bs ri ne sb ke m(2,3) top unfolding stacks_ok_def off_heap_def apart_def boot_stack_at_def by auto
  moreover have "holds_frame (mem (heap s)) (?b + THREAD_STACK_SPACE - 8) (entry_regs (cpu_idle_loop_addr (image s))) EFLAGS_DEFAULT"
    using initial_words_frame(1) m(1,2) unfolding idle_made_def by metis
  moreover have "unat (?b + THREAD_STACK_SPACE - 8) = unat ?b + 65528" using top(2) by (simp add: unat_word_ariths)
  ultimately have "frames_at bs s (v_all ?v) g (boot_saved (image s)) (\<lambda>_. EFLAGS_DEFAULT)"
    using bs er ri rc ei by (auto simp: frames_at_def framed_def boot_saved_def boot_stack_at_def esp_in_def)
  then show ?thesis using i' by (simp add: machine_ready_def)
qed

text \<open>C11. The booted kernel switches threads transparently: from what the boot loader leaves, \<open>kernel_main\<close> arrives in its
  idle loop on a machine in which the timer interrupt never fails and every thread that it interrupts, whatever
  the threads do until it runs again, continues with the registers, the stack pointer and the flags it had.\<close>

theorem booted_switch_transparent:
  assumes "loaded env mbinfo c" "\<not> main_inited c" "boot_stack_at env c bs"
  shows "\<exists>c'. kernel_main env n 0x2BADB002 mbinfo c = on_kern (cpu_idle_loop n (kernel c')) c' \<and>
     (let M = boot_locks (image (kernel c)); y0 = (\<lambda>c0. machine_at (kernel c') c0 (boot_saved (image (kernel c)))) in
      \<forall>c0 y s k junk y' s' k' junk'. mreach M bs (y0 c0) y \<and> doing (sys y) = Yield s k \<and>
        away M bs (current_thread s) (real_switch junk s k y) y' \<and> doing (sys y') = Yield s' k' \<and>
        current_thread s' \<noteq> current_thread s \<longrightarrow>
        (\<exists>c2 s2. isr_IRQ0_asm junk' (regs y') s' = Inr (c2, s2) \<and>
           (current_thread s2 = current_thread s \<longrightarrow> c2 = regs y \<and> esp_reg s2 = esp_reg s \<and> eflags (hw s2) = eflags (hw s))))"
proof -
  obtain c' g where c': "kernel_main env n 0x2BADB002 mbinfo c = on_kern (cpu_idle_loop n (kernel c')) c'"
    "initial (boot_locks (image (kernel c))) (kernel c') \<lparr>v_all = [idle_thread (kernel c), current_thread (kernel c')], v_at = (\<lambda>_. [])\<rparr> g"
    "idle_made (kernel c) (kernel c')" "image (kernel c') = image (kernel c)" "unat (kernel_end_addr env) \<le> unat (kheap_begin (heap (kernel c')))"
    using kernel_main_idles [OF assms(1,2), of n] by blast
  have ready: "machine_ready (boot_locks (image (kernel c))) bs (kernel c')
      \<lparr>v_all = [idle_thread (kernel c'), current_thread (kernel c')], v_at = (\<lambda>_. [])\<rparr> g (boot_saved (image (kernel c)))"
    using booted_ready [OF assms(1,3) c'(2-5)] c'(4) by simp
  note ok = mach_reach_ok [OF _ ready_ok [OF ready]]
  show ?thesis unfolding Let_def using c'(1) registers_return [OF ok] by blast
qed

theorem booted_switch_transparent_witness:
  "\<exists>c'. kernel_main some_env 7 0x2BADB002 0x1000 off_computer = on_kern (cpu_idle_loop 7 (kernel c')) c' \<and>
     (\<forall>y s k y' s' k'. let M = boot_locks (image zero_kern); y0 = machine_at (kernel c') (entry_regs 0) (boot_saved (image zero_kern)) in
        mreach M boot_stack y0 y \<and> doing (sys y) = Yield s k \<and> away M boot_stack (current_thread s) (real_switch ex_busy s k y) y' \<and>
        doing (sys y') = Yield s' k' \<and> current_thread s' \<noteq> current_thread s \<longrightarrow>
        (\<exists>c2 s2. isr_IRQ0_asm ex_busy (regs y') s' = Inr (c2, s2)))"
proof -
  have "\<not> main_inited off_computer" "boot_stack_at some_env off_computer boot_stack"
    by (simp_all add: off_computer_def some_env_def zero_kern_def boot_stack_at_def esp_in_def apart_def)
  moreover have "kernel off_computer = zero_kern" by (simp add: off_computer_def)
  ultimately show ?thesis
    using booted_switch_transparent [OF off_computer_loaded, of boot_stack 7] unfolding Let_def by metis
qed

end
