(* ===== verification/InterruptStubs.thy ===== *)
theory InterruptStubs
  imports ContextSwitch Interrupt ThreadExample
begin

text \<open>
  The entry points of all other interrupts in \<^verbatim>\<open>src/io/interruptasm.s\<close>: the stubs that the macros \<^verbatim>\<open>isr\<close> and \<^verbatim>\<open>isrer\<close>
  generate, \<^verbatim>\<open>isr_wrapper\<close>, which builds the \<^verbatim>\<open>InterruptFrame\<close> on the stack and calls \<^verbatim>\<open>interrupt_handler\<close>, and the
  processor, which finds them through the descriptor table.
\<close>

section \<open>Stubs and wrapper\<close>

text \<open>\<open>Isr\<close> pushes a zero in place of an error code, \<open>Isrer\<close> relies on the one the processor has pushed.\<close>

datatype stub = Isr u32 | Isrer u32

definition stub_table :: "(string \<times> stub) list" where
  "stub_table =
     [(''ERR'', Isr 0xFF), (''DE'', Isr 0x00), (''DB'', Isr 0x01), (''NMI'', Isr 0x02), (''BP'', Isr 0x03), (''OF'', Isr 0x04),
      (''BR'', Isr 0x05), (''UD'', Isr 0x06), (''NM'', Isr 0x07), (''DF'', Isrer 0x08), (''MP'', Isr 0x09), (''TS'', Isrer 0x0A),
      (''NP'', Isrer 0x0B), (''SS'', Isrer 0x0C), (''GP'', Isrer 0x0D), (''PF'', Isrer 0x0E), (''MF'', Isr 0x10), (''AC'', Isrer 0x11),
      (''MC'', Isr 0x12), (''XM'', Isr 0x13), (''VE'', Isr 0x14), (''CP'', Isrer 0x15), (''HV'', Isr 0x1C), (''VC'', Isrer 0x1D),
      (''SX'', Isrer 0x1E), (''SYS'', Isr 0x80),
      (''IRQ1'', Isr 0x21), (''IRQ2'', Isr 0x22), (''IRQ3'', Isr 0x23), (''IRQ4'', Isr 0x24), (''IRQ5'', Isr 0x25),
      (''IRQ6'', Isr 0x26), (''IRQ7'', Isr 0x27), (''IRQ8'', Isr 0x28), (''IRQ9'', Isr 0x29), (''IRQ10'', Isr 0x2A),
      (''IRQ11'', Isr 0x2B), (''IRQ12'', Isr 0x2C), (''IRQ13'', Isr 0x2D), (''IRQ14'', Isr 0x2E), (''IRQ15'', Isr 0x2F)]"

fun isr_stub :: "stub \<Rightarrow> kern \<Rightarrow> kern" where
  "isr_stub (Isr intnum) s = pushl intnum (pushl 0 s)"
| "isr_stub (Isrer intnum) s = pushl intnum s"

definition pushal :: "cpu \<Rightarrow> kern \<Rightarrow> kern" where
  "pushal c s =
     (let s1 = pushl (eax c) s; s2 = pushl (ecx c) s1; s3 = pushl (edx c) s2; s4 = pushl (ebx c) s3;
          s5 = pushl (esp_reg s) s4; s6 = pushl (ebp c) s5; s7 = pushl (esi c) s6
      in pushl (edi c) s7)"

definition popal :: "cpu \<Rightarrow> kern \<Rightarrow> cpu \<times> kern" where
  "popal c s =
     (let (di, s1) = popl s; (si, s2) = popl s1; (bp, s3) = popl s2; (_, s4) = popl s3;
          (bx, s5) = popl s4; (dx, s6) = popl s5; (cx, s7) = popl s6; (ax, s8) = popl s7
      in (c\<lparr>edi := di, esi := si, ebp := bp, ebx := bx, edx := dx, ecx := cx, eax := ax\<rparr>, s8))"

definition cld :: "machine \<Rightarrow> machine" where
  "cld h = h\<lparr>eflags := eflags h AND NOT 0x400\<rparr>"

text \<open>The structure that a pointer of type \<^verbatim>\<open>struct InterruptFrame *\<close> points to.\<close>

definition read_frame :: "memory \<Rightarrow> u32 \<Rightarrow> InterruptFrame" where
  "read_frame m p =
     \<lparr>frame_edi = load32 m p, frame_esi = load32 m (p + 4), frame_ebp = load32 m (p + 8), frame_esp = load32 m (p + 12),
      frame_ebx = load32 m (p + 16), frame_edx = load32 m (p + 20), frame_ecx = load32 m (p + 24), frame_eax = load32 m (p + 28),
      intno = load32 m (p + 32), errcode = load32 m (p + 36), frame_eip = load32 m (p + 40), frame_cs = load32 m (p + 44),
      frame_eflags = load32 m (p + 48), frame_oldesp = load32 m (p + 52), frame_oldss = load32 m (p + 56)\<rparr>"

text \<open>
  The wrapper up to the call, with the pointer as the argument on the stack, and from the return on. What the
  compiled handler leaves in the general registers is \<open>junk\<close>; it does not change segment registers.
\<close>

definition wrapper_entry :: "cpu \<Rightarrow> kern \<Rightarrow> kern" where
  "wrapper_entry c s = (let s1 = pushal c s; s2 = pushl (esp_reg s1) s1 in s2\<lparr>hw := cld (hw s2)\<rparr>)"

definition wrapper_exit :: "cpu \<Rightarrow> cpu \<Rightarrow> kern \<Rightarrow> cpu \<times> kern" where
  "wrapper_exit junk c s =
     (let s1 = s\<lparr>esp_reg := esp_reg s + 4\<rparr>;
          (c2, s2) = popal (junk\<lparr>ds_reg := ds_reg c, es_reg := es_reg c, fs_reg := fs_reg c, gs_reg := gs_reg c\<rparr>) s1
      in iret c2 (s2\<lparr>esp_reg := esp_reg s2 + 8\<rparr>))"

definition isr_wrapper :: "device \<Rightarrow> cpu \<Rightarrow> cpu \<Rightarrow> kern \<Rightarrow> (cpu \<times> kern) outcome" where
  "isr_wrapper dev junk c s =
     (let s1 = wrapper_entry c s; frame = load32 (mem (heap s1)) (esp_reg s1)
      in andthen (interrupt_handler dev (read_frame (mem (heap s1)) frame) (hw s1)) (\<lambda>h.
         Inr (wrapper_exit junk c (s1\<lparr>hw := h\<rparr>))))"

section \<open>Delivery\<close>

text \<open>The vectors for which the processor pushes an error code, as the manuals of Intel and AMD document them.\<close>

definition has_errcode :: "nat \<Rightarrow> bool" where
  "has_errcode n \<longleftrightarrow> n \<in> {8, 10, 11, 12, 13, 14, 17, 21, 29, 30}"

definition entered :: "nat \<Rightarrow> u32 \<Rightarrow> cpu \<Rightarrow> kern \<Rightarrow> kern" where
  "entered n err c s = (if has_errcode n then pushl err (interrupt_entry c s) else interrupt_entry c s)"

text \<open>
  An interrupt on vector \<open>n\<close>. The gate of the vector leads to the stub named by \<open>vector_name\<close>; the timer has a handler of
  its own.
\<close>

definition deliver :: "device \<Rightarrow> cpu \<Rightarrow> nat \<Rightarrow> u32 \<Rightarrow> cpu \<Rightarrow> kern \<Rightarrow> (cpu \<times> kern) outcome" where
  "deliver dev junk n err c s =
     (case map_of stub_table (vector_name n) of
        None \<Rightarrow> isr_IRQ0_asm junk c s
      | Some st \<Rightarrow> isr_wrapper dev junk c (isr_stub st (entered n err c s)))"

text \<open>The number a vector is handled under: vectors without a gate of their own share \<^verbatim>\<open>isr_ERR\<close>.\<close>

definition handled_as :: "nat \<Rightarrow> u32" where
  "handled_as n = (if n = 0x80 \<or> map_of isr_table n \<noteq> None then of_nat n else 0xFF)"

lemma stub_names:
  "list_all (\<lambda>(i, name). i = 0x20 \<and> map_of stub_table name = None \<or>
     i \<noteq> 0x20 \<and> i \<noteq> 0x80 \<and> map_of stub_table name = Some ((if has_errcode i then Isrer else Isr) (of_nat i))) isr_table"
  by code_simp

lemma stubs_match:
  "map_of stub_table (vector_name n) =
     (if n = 0x20 then None else Some ((if has_errcode n then Isrer else Isr) (handled_as n)))"
proof (cases "map_of isr_table n")
  case None
  have "\<not> has_errcode n"
  proof
    assume "has_errcode n"
    then have "n \<in> set (map fst isr_table)" by (auto simp: has_errcode_def isr_table_def)
    then show False using None by (simp add: map_of_eq_None_iff)
  qed
  moreover have "n \<noteq> 0x20" using None by (auto simp: isr_table_def)
  ultimately show ?thesis using None by (auto simp: vector_name_def handled_as_def stub_table_def)
next
  case (Some name)
  then show ?thesis using stub_names map_of_SomeD [OF Some] by (auto simp: list_all_iff vector_name_def handled_as_def)
qed

text \<open>What is on the stack when \<^verbatim>\<open>interrupt_handler\<close> is called, in the order in which it was pushed.\<close>

definition entry_words :: "u32 \<Rightarrow> u32 \<Rightarrow> cpu \<Rightarrow> u32 \<Rightarrow> u32 \<Rightarrow> u32 list" where
  "entry_words num err c fl sp = [fl, ucast (cs_reg c), eip c, err, num, eax c, ecx c, edx c, ebx c, sp - 20, ebp c, esi c, edi c, sp - 52]"

definition entry_mem :: "nat \<Rightarrow> u32 \<Rightarrow> cpu \<Rightarrow> kern \<Rightarrow> memory" where
  "entry_mem n err c s =
     fst (push_words (mem (heap s)) (esp_reg s)
       (entry_words (handled_as n) (if has_errcode n then err else 0) c (eflags (hw s)) (esp_reg s)))"

definition called_state :: "nat \<Rightarrow> u32 \<Rightarrow> cpu \<Rightarrow> kern \<Rightarrow> kern" where
  "called_state n err c s =
     s\<lparr>heap := (heap s)\<lparr>mem := entry_mem n err c s\<rparr>, esp_reg := esp_reg s - 56, hw := cld (cli (hw s))\<rparr>"

lemma wrapper_called:
  assumes "st = (if has_errcode n then Isrer else Isr) (handled_as n)"
  shows "wrapper_entry c (isr_stub st (entered n err c s)) = called_state n err c s"
  unfolding assms
  by (simp add: wrapper_entry_def pushal_def entered_def interrupt_entry_def pushl_def called_state_def entry_mem_def entry_words_def Let_def)

definition called_frame :: "nat \<Rightarrow> u32 \<Rightarrow> cpu \<Rightarrow> kern \<Rightarrow> InterruptFrame" where
  "called_frame n err c s =
     \<lparr>frame_edi = edi c, frame_esi = esi c, frame_ebp = ebp c, frame_esp = esp_reg s - 20, frame_ebx = ebx c, frame_edx = edx c,
      frame_ecx = ecx c, frame_eax = eax c, intno = handled_as n, errcode = (if has_errcode n then err else 0), frame_eip = eip c,
      frame_cs = ucast (cs_reg c), frame_eflags = eflags (hw s), frame_oldesp = load32 (entry_mem n err c s) (esp_reg s),
      frame_oldss = load32 (entry_mem n err c s) (esp_reg s + 4)\<rparr>"

lemma entry_loads:
  assumes "56 \<le> unat (esp_reg s)"
  shows "\<forall>i < 14. load32 (entry_mem n err c s) (esp_reg s - of_nat (4 * (i + 1))) =
      entry_words (handled_as n) (if has_errcode n then err else 0) c (eflags (hw s)) (esp_reg s) ! i"
    and "unat x < unat (esp_reg s) - 56 \<or> unat (esp_reg s) \<le> unat x \<Longrightarrow> entry_mem n err c s x = mem (heap s) x"
proof -
  let ?w = "entry_words (handled_as n) (if has_errcode n then err else 0) c (eflags (hw s)) (esp_reg s)"
  have len: "length ?w = 14" by (simp add: entry_words_def)
  have "4 * length ?w \<le> unat (esp_reg s)" using assms len by simp
  moreover have "4 * 14 = (56 :: nat)" by simp
  ultimately have w: "\<forall>x. unat x < unat (esp_reg s) - 56 \<or> unat (esp_reg s) \<le> unat x \<longrightarrow> entry_mem n err c s x = mem (heap s) x"
    "\<forall>i < 14. load32 (entry_mem n err c s) (esp_reg s - of_nat (4 * (i + 1))) = ?w ! i"
    using push_words_spec [of ?w "esp_reg s" "mem (heap s)", folded entry_mem_def] unfolding len by metis+
  from w(2) show "\<forall>i < 14. load32 (entry_mem n err c s) (esp_reg s - of_nat (4 * (i + 1))) = ?w ! i" by blast
  from w(1) show "unat x < unat (esp_reg s) - 56 \<or> unat (esp_reg s) \<le> unat x \<Longrightarrow> entry_mem n err c s x = mem (heap s) x" by blast
qed

lemma entry_word:
  fixes n :: nat and err :: u32 and c :: cpu and s :: kern
  assumes "56 \<le> unat (esp_reg s)"
  defines "l k \<equiv> load32 (entry_mem n err c s) (esp_reg s - k)"
  shows "l 4 = eflags (hw s)" "l 8 = ucast (cs_reg c)" "l 12 = eip c" "l 16 = (if has_errcode n then err else 0)"
    "l 20 = handled_as n" "l 24 = eax c" "l 28 = ecx c" "l 32 = edx c" "l 36 = ebx c" "l 40 = esp_reg s - 20" "l 44 = ebp c"
    "l 48 = esi c" "l 52 = edi c" "l 56 = esp_reg s - 52"
  using entry_loads(1) [OF assms(1), rule_format, of 0] entry_loads(1) [OF assms(1), rule_format, of 1]
    entry_loads(1) [OF assms(1), rule_format, of 2] entry_loads(1) [OF assms(1), rule_format, of 3]
    entry_loads(1) [OF assms(1), rule_format, of 4] entry_loads(1) [OF assms(1), rule_format, of 5]
    entry_loads(1) [OF assms(1), rule_format, of 6] entry_loads(1) [OF assms(1), rule_format, of 7]
    entry_loads(1) [OF assms(1), rule_format, of 8] entry_loads(1) [OF assms(1), rule_format, of 9]
    entry_loads(1) [OF assms(1), rule_format, of 10] entry_loads(1) [OF assms(1), rule_format, of 11]
    entry_loads(1) [OF assms(1), rule_format, of 12] entry_loads(1) [OF assms(1), rule_format, of 13]
  unfolding l_def by (simp_all add: entry_words_def)

lemma frame_called:
  assumes "56 \<le> unat (esp_reg s)"
  shows "read_frame (entry_mem n err c s) (load32 (entry_mem n err c s) (esp_reg s - 56)) = called_frame n err c s"
  by (simp add: entry_word [OF assms] read_frame_def called_frame_def add.commute)

lemma wrapper_returns:
  assumes "56 \<le> unat (esp_reg s)"
  shows "wrapper_exit junk c ((called_state n err c s)\<lparr>hw := h\<rparr>) =
     (c, s\<lparr>heap := (heap s)\<lparr>mem := entry_mem n err c s\<rparr>, hw := eflags_set (eflags (hw s)) h\<rparr>)"
  by (simp add: wrapper_exit_def popal_def iret_def popl_def called_state_def entry_word [OF assms] Let_def)

lemma deliver_calls:
  assumes "n \<noteq> 0x20" "56 \<le> unat (esp_reg s)"
  shows "deliver dev junk n err c s =
     andthen (interrupt_handler dev (called_frame n err c s) (cld (cli (hw s)))) (\<lambda>h.
       Inr (c, s\<lparr>heap := (heap s)\<lparr>mem := entry_mem n err c s\<rparr>, hw := eflags_set (eflags (hw s)) h\<rparr>))"
proof -
  let ?st = "(if has_errcode n then Isrer else Isr) (handled_as n)"
  have "deliver dev junk n err c s = isr_wrapper dev junk c (isr_stub ?st (entered n err c s))"
    using stubs_match [of n] assms(1) by (simp add: deliver_def)
  also have "\<dots> = andthen (interrupt_handler dev (called_frame n err c s) (cld (cli (hw s)))) (\<lambda>h.
       Inr (wrapper_exit junk c ((called_state n err c s)\<lparr>hw := h\<rparr>)))"
    unfolding isr_wrapper_def Let_def wrapper_called [OF refl]
    by (simp add: called_state_def frame_called [OF assms(2)])
  finally show ?thesis by (simp only: wrapper_returns [OF assms(2)])
qed

section \<open>What the interrupted code sees\<close>



text \<open>C20. A hardware interrupt that cannot be spurious is transparent: it is acknowledged at exactly the controllers
  that raised it, and the interrupted code goes on with the registers, the stack pointer and the flags it
  had; only memory below its stack pointer has changed.\<close>

theorem irq_transparent:
  assumes "0x21 \<le> n" "n < 0x2F" "n \<noteq> 0x27" "56 \<le> unat (esp_reg s)"
  shows "\<exists>m h t. deliver dev junk n err c s = Inr (c, s\<lparr>heap := (heap s)\<lparr>mem := m\<rparr>, hw := h\<rparr>) \<and> eflags h = eflags (hw s) \<and>
     (\<forall>x. unat x < unat (esp_reg s) - 56 \<or> unat (esp_reg s) \<le> unat x \<longrightarrow> m x = mem (heap s) x) \<and>
     io_trace h = io_trace (hw s) @ map (OutB 0x3F8) t @
       (if 0x28 \<le> n then [OutB PIC2_COMMAND OCW2_EOI] else []) @ [OutB PIC1_COMMAND OCW2_EOI]"
proof -
  have "set [0x21..<0x2F] \<subseteq> set (map fst isr_table)" by code_simp
  moreover have "n \<in> set [0x21..<0x2F]" using assms(1,2) by (simp only: set_upt atLeastLessThan_iff)
  ultimately have "n \<in> set (map fst isr_table)" by blast
  then have as: "handled_as n = of_nat n" by (auto simp: handled_as_def map_of_eq_None_iff)
  have u: "unat (of_nat n :: u32) = n" using assms(2) by (simp add: unat_of_nat32)
  let ?f = "called_frame n err c s" and ?h = "cld (cli (hw s))"
  have i: "intno ?f = of_nat n" by (simp add: called_frame_def as)
  have le: "0x21 \<le> intno ?f" "intno ?f \<le> 0x2F" "intno ?f \<noteq> 0x27" "intno ?f \<noteq> 0x2F" "0x28 \<le> intno ?f \<longleftrightarrow> 0x28 \<le> n"
    using assms(1-3) u unfolding i by (auto simp: word_le_nat_alt word_unat_eq_iff)
  obtain h t where h: "interrupt_handler dev ?f ?h = Inr h"
    "io_trace h = io_trace ?h @ map (OutB 0x3F8) t @
       (if 0x28 \<le> intno ?f then [OutB PIC2_COMMAND OCW2_EOI] else []) @ [OutB PIC1_COMMAND OCW2_EOI]"
    using interrupt_handler_acknowledges [OF le(1-4)] by blast
  have "n \<noteq> 0x20" using assms(1) by simp
  from deliver_calls [OF this assms(4), of dev junk err c] h(1)
  have "deliver dev junk n err c s = Inr (c, s\<lparr>heap := (heap s)\<lparr>mem := entry_mem n err c s\<rparr>, hw := eflags_set (eflags (hw s)) h\<rparr>)" by simp
  moreover have "io_trace (eflags_set (eflags (hw s)) h) = io_trace (hw s) @ map (OutB 0x3F8) t @
       (if 0x28 \<le> n then [OutB PIC2_COMMAND OCW2_EOI] else []) @ [OutB PIC1_COMMAND OCW2_EOI]"
    using h(2) le(5) by (simp add: eflags_set_def cld_def)
  moreover have "eflags (eflags_set (eflags (hw s)) h) = eflags (hw s)" by (simp add: eflags_set_def)
  ultimately show ?thesis using entry_loads(2) [OF assms(4), of _ n err c] by blast
qed

theorem irq_transparent_witness:
  "\<exists>m h t. deliver (\<lambda>_ _. 0) (entry_regs 0) 0x2C 0 (entry_regs 0x102000) (ex_kern P_ready) =
       Inr (entry_regs 0x102000, (ex_kern P_ready)\<lparr>heap := ex_heap\<lparr>mem := m\<rparr>, hw := h\<rparr>) \<and> eflags h = 0x202 \<and>
     io_trace h = io_trace (hw (ex_kern P_ready)) @ map (OutB 0x3F8) t @ [OutB PIC2_COMMAND OCW2_EOI, OutB PIC1_COMMAND OCW2_EOI]"
proof -
  have e: "56 \<le> unat (esp_reg (ex_kern P_ready))" by (simp add: ex_kern_def)
  have "heap (ex_kern P_ready) = ex_heap" "eflags (hw (ex_kern P_ready)) = 0x202" by (simp_all add: ex_kern_def)
  then show ?thesis
    using irq_transparent [of "0x2C" "ex_kern P_ready" "\<lambda>_ _. 0" "entry_regs 0" 0 "entry_regs 0x102000", OF _ _ _ e] by auto
qed

end
