(* ===== verification/ThreadQuery.thy ===== *)
theory ThreadQuery
  imports Boot ThreadExample
begin

text \<open>
  The queries of \<^verbatim>\<open>src/kernel/thread.c\<close> (the counts and \<^verbatim>\<open>thread_get_by_tid\<close>) answer from the lists, and the debugging aids
  (\<^verbatim>\<open>print_threads\<close>, \<^verbatim>\<open>thread_debug_synch_dependencies\<close> and \<^verbatim>\<open>kmalloc_printdebug\<close>) print them.
\<close>

section \<open>Debugging aids\<close>

text \<open>
  The nodes are those of one of the two kinds of lists, given by \<open>links\<close>. The loops are given a bound on the
  number of nodes; running out of it is not a return.
\<close>

fun print_nodes :: "(kern \<Rightarrow> nodes) \<Rightarrow> nat \<Rightarrow> u32 \<Rightarrow> kern \<Rightarrow> unit routine" where
  "print_nodes links n head s =
     (if head = 0 then Return () s
      else case n of
          0 \<Rightarrow> Stop Diverge
        | Suc k \<Rightarrow>
            bind_act (printf ''%u'' [Val (tid (tcbs s (thread (links s head))))] s) (\<lambda>_ s1.
            bind_act
              (if nxt (links s1 head) \<noteq> 0 then
                 bind_act (printf '', '' [] s1) (\<lambda>_ s2.
                 if prev (links s2 (nxt (links s2 head))) = head then Return () s2
                 else Stop (Panic ''print_threads(): Failed linkage''))
               else Return () s1) (\<lambda>_ s3.
            print_nodes links k (nxt (links s3 head)) s3)))"

declare print_nodes.simps [simp del]

definition print_threads :: "(kern \<Rightarrow> nodes) \<Rightarrow> nat \<Rightarrow> u32 \<Rightarrow> kern \<Rightarrow> unit routine" where
  "print_threads links n head s =
     bind_act
       (if head = ready_threads s then printf ''ready threads: '' [] s
        else if head = sleeping_threads s then printf ''sleeping threads: '' [] s
        else if head = zombie_threads s then printf ''zombie threads: '' [] s
        else if head = all_threads s then printf ''all threads: '' [] s
        else Return () s) (\<lambda>_ s1.
     bind_act (printf ''['' [] s1) (\<lambda>_ s2.
     bind_act (print_nodes links n head s2) (\<lambda>_ s3.
     printf '']\<newline>'' [] s3)))"

definition print_blocker :: "u32 \<Rightarrow> kern \<Rightarrow> unit routine" where
  "print_blocker t s =
     (case blocker_type (tcbs s t) of
        BlockerType_Mutex \<Rightarrow>
          (let mutex = blocked_on (tcbs s t); h = holder (mutexes s mutex)
           in if h = 0 then Stop NullDeref
              else printf ''Mutex at %p (Owner: %u)\<newline>'' [Val mutex, Val (tid (tcbs s h))] s)
      | BlockerType_Semaphore \<Rightarrow> printf ''Semaphore at %p\<newline>'' [Val (blocked_on (tcbs s t))] s
      | BlockerType_CondVar \<Rightarrow> printf ''Condition Variable at %p\<newline>'' [Val (blocked_on (tcbs s t))] s
      | _ \<Rightarrow> Stop (Panic ''thread_debug_synch_dependences(): blocked thread is not blocked on synchronization primitive''))"

fun debug_nodes :: "nat \<Rightarrow> u32 \<Rightarrow> kern \<Rightarrow> unit routine" where
  "debug_nodes n node s =
     (if node = 0 then Return () s
      else case n of
          0 \<Rightarrow> Stop Diverge
        | Suc k \<Rightarrow>
            (let t = thread (all_links s node)
             in bind_act
                  (if status (tcbs s t) = ThreadStatus_Blocked then
                     bind_act (printf ''Thread %u is blocked on '' [Val (tid (tcbs s t))] s) (\<lambda>_ s1. print_blocker t s1)
                   else Return () s) (\<lambda>_ s2.
                debug_nodes k (nxt (all_links s2 node)) s2)))"

declare debug_nodes.simps [simp del]

definition thread_debug_synch_dependencies :: "nat \<Rightarrow> kern \<Rightarrow> unit routine" where
  "thread_debug_synch_dependencies n s =
     (let lock = all_threads_lock (image s)
      in bind_act (mutex_acquire lock s) (\<lambda>_ s1.
         bind_act (debug_nodes n (all_threads s1) s1) (\<lambda>_ s2.
         lift_unit (mutex_release lock s2))))"

text \<open>
  \<^verbatim>\<open>DEBUG\<close> of \<^verbatim>\<open>kmalloc.c\<close> prints in a kernel built with \<^verbatim>\<open>ALIENOS_TEST\<close> (the argument \<open>test\<close>) while printing is enabled, and
  is empty otherwise.
\<close>

definition DEBUG :: "bool \<Rightarrow> km_state \<Rightarrow> string \<Rightarrow> printf_arg list \<Rightarrow> machine \<Rightarrow> machine" where
  "DEBUG test k format args h = (if test \<and> enable_debug_print k then unsafe_printf format args h else h)"

partial_function (option) printdebug_from :: "bool \<Rightarrow> km_state \<Rightarrow> u32 \<Rightarrow> machine \<Rightarrow> machine option" where
  "printdebug_from test k cur h =
     (if cur \<noteq> 0 then
        let m = mem k;
            h1 = DEBUG test k ''> [%x,%x]\<newline>'' [Val cur, Val (cur + km_getsize m cur)] h;
            h2 = DEBUG test k (CHR 0x09 # ''> Allocated:%b, Valid Magic: %b, Size: %x\<newline>'')
                   [Val (of_bool (km_isalloc m cur)), Val (of_bool (km_checkmagic m cur)), Val (km_getsize m cur)] h1
        in printdebug_from test k (km_next m cur) h2
      else Some h)"

definition kmalloc_printdebug :: "bool \<Rightarrow> kern \<Rightarrow> unit routine" where
  "kmalloc_printdebug test s =
     (let lock = free_list_lock (image s)
      in bind_act (mutex_acquire lock s) (\<lambda>_ s1.
         let k = heap s1; st = kmalloc_stats k;
             h1 = DEBUG test k ''Kernel Heap: %u Allocations, %u Releases\<newline>'' [Val (allocation_cnt st), Val (free_cnt st)] (hw s1);
             h2 = DEBUG test k ''> Total Allocated Bytes: %u\<newline>> Total Freed Bytes: %u\<newline>''
                    [Val (allocation_bytes st), Val (free_bytes st)] h1
         in bind_act (lift_unit (andthen (settle (printdebug_from test k (free_list k) h2)) (\<lambda>h. Inr (s1\<lparr>hw := h\<rparr>)))) (\<lambda>_ s2.
            lift_unit (mutex_release lock s2))))"

section \<open>Reading under a lock\<close>

lemma taken_reads [simp]:
  "all_links (taken m s) = all_links s" "local_links (taken m s) = local_links s" "all_threads (taken m s) = all_threads s"
  "ready_threads (taken m s) = ready_threads s" "sleeping_threads (taken m s) = sleeping_threads s"
  "zombie_threads (taken m s) = zombie_threads s" "tid (tcbs (taken m s) t) = tid (tcbs s t)"
  by (simp_all add: taken_def set_blocker_def upd_tcb_def upd_mutex_def upd_sem_def)

lemma locked_read:
  assumes "current_thread s \<noteq> 0" "lock_free s l" "r (taken l s) = Inr x"
  shows "bind_act (mutex_acquire l s) (\<lambda>_ s1.
      bind_act (lift (andthen (r s1) (\<lambda>x. Inr (x, s1)))) (\<lambda>x s2. bind_act (lift_unit (mutex_release l s2)) (\<lambda>_ s3. K x s3))) =
    K x (set_blocker (current_thread s) l BlockerType_Mutex s)"
  using acquire_free_lock [OF assms(1,2)] release_taken_lock [of s "\<lambda>s. s" l] assms by simp

lemma count_walk: "dll ns b h xs \<Longrightarrow> count_from ns h n = Some (n + of_nat (length xs))"
proof (induction xs arbitrary: b h n)
  case Nil
  then show ?case by (subst count_from.simps) simp
next
  case (Cons x xs)
  then show ?case using Cons.IH [of x "nxt (ns x)" "n + 1"] by (subst count_from.simps) (simp add: add.assoc)
qed

lemma find_walk:
  assumes "dll (all_links s) b h (map all_node ts)" "\<forall>t \<in> set ts. thread (all_links s (all_node t)) = t"
  shows "find_tid s n h = Some (case find (\<lambda>t. tid (tcbs s t) = n) ts of Some t \<Rightarrow> all_node t | None \<Rightarrow> 0)"
  using assms
proof (induction ts arbitrary: b h)
  case Nil
  then show ?case by (subst find_tid.simps) simp
next
  case (Cons t ts)
  then show ?case by (subst find_tid.simps) auto
qed

lemma place_dll: "kinv s v \<Longrightarrow> dll (local_links s) 0 (wait_queue_head (root s p)) (map local_node (v_at v p))"
  using lists_place [OF kinv_lists, of s v p] by (simp add: place_holds_def)

lemma count_locked_run:
  assumes "current_thread s \<noteq> 0" "lock_free s l" "dll (links s) 0 (head s) (map f xs)"
    "links (taken l s) = links s" "head (taken l s) = head s"
  shows "count_locked l links head s = Return (of_nat (length xs)) (set_blocker (current_thread s) l BlockerType_Mutex s)"
  using locked_read [OF assms(1,2), of "\<lambda>s. settle (count_from (links s) (head s) 0)" "of_nat (length xs)" Return]
    count_walk [OF assms(3), of 0] assms(4,5) by (simp add: count_locked_def settle_def)

text \<open>C28. The queries answer from the lists: each count is the number of threads in its list, and \<open>thread_get_by_tid\<close> returns the
  first thread that has the number. When no thread has it, the code reads through a null pointer.\<close>

theorem thread_queries_answer:
  assumes "kinv s v" "lock_free s (all_threads_lock (image s))" "lock_free s (local_threads_lock (image s))"
  shows "\<exists>s1 s2. thread_count s = Return (of_nat (length (v_all v))) s1 \<and>
     thread_count_ready s = Return (of_nat (length (v_ready v))) s2 \<and>
     thread_count_sleeping s = Return (of_nat (length (v_sleep v))) s2 \<and>
     thread_count_zombie s = Return (of_nat (length (v_zombie v))) s2 \<and>
     thread_get_by_tid n s = (case find (\<lambda>t. tid (tcbs s t) = n) (v_all v) of Some t \<Rightarrow> Return t s1 | None \<Rightarrow> Stop NullDeref) \<and>
     kinv s1 v \<and> kinv s2 v"
proof -
  let ?la = "all_threads_lock (image s)" and ?ll = "local_threads_lock (image s)"
  have c: "current_thread s \<noteq> 0" by (rule kinv_cur_nonnull [OF assms(1)])
  note ok = kinv_lists [OF assms(1)]
  let ?s1 = "set_blocker (current_thread s) ?la BlockerType_Mutex s" and ?s2 = "set_blocker (current_thread s) ?ll BlockerType_Mutex s"
  have "thread_count s = Return (of_nat (length (v_all v))) ?s1"
    unfolding thread_count_def using lists_all [OF ok] by (intro count_locked_run [OF c assms(2)]) simp_all
  moreover have "thread_count_ready s = Return (of_nat (length (v_ready v))) ?s2"
    unfolding thread_count_ready_def using place_dll [OF assms(1), of P_ready] by (intro count_locked_run [OF c assms(3)]) simp_all
  moreover have "thread_count_sleeping s = Return (of_nat (length (v_sleep v))) ?s2"
    unfolding thread_count_sleeping_def using place_dll [OF assms(1), of P_sleep] by (intro count_locked_run [OF c assms(3)]) simp_all
  moreover have "thread_count_zombie s = Return (of_nat (length (v_zombie v))) ?s2"
    unfolding thread_count_zombie_def using place_dll [OF assms(1), of P_zombie] by (intro count_locked_run [OF c assms(3)]) simp_all
  moreover have "thread_get_by_tid n s = (case find (\<lambda>t. tid (tcbs s t) = n) (v_all v) of Some t \<Rightarrow> Return t ?s1 | None \<Rightarrow> Stop NullDeref)"
  proof -
    let ?f = "find (\<lambda>t. tid (tcbs s t) = n) (v_all v)"
    let ?node = "case ?f of Some t \<Rightarrow> all_node t | None \<Rightarrow> 0"
    have nodes: "\<forall>t \<in> set (v_all v). node_ok s t" using lists_node [OF ok] by blast
    have "find_tid (taken ?la s) n (all_threads s) = Some ?node"
      using find_walk [of "taken ?la s" 0 "all_threads s" "v_all v" n] lists_all [OF ok] nodes by (simp add: node_ok_def)
    then have "thread_get_by_tid n s = (if ?node = 0 then Stop NullDeref else Return (thread (all_links ?s1 ?node)) ?s1)"
      using locked_read [OF c assms(2), of "\<lambda>s. settle (find_tid s n (all_threads s))" ?node
          "\<lambda>node s3. if node = 0 then Stop NullDeref else Return (thread (all_links s3 node)) s3"]
        acquire_free_lock [OF c assms(2)]
      by (simp add: thread_get_by_tid_def settle_def)
    moreover have "node_ok s t" if "?f = Some t" for t using that nodes by (auto simp: find_Some_iff)
    moreover have "all_links ?s1 = all_links s" by (simp add: set_blocker_def upd_tcb_def)
    ultimately show ?thesis by (cases ?f) (auto simp: node_ok_def)
  qed
  ultimately show ?thesis using assms(1) by (intro exI [of _ ?s1] exI [of _ ?s2]) simp
qed

theorem thread_queries_answer_witness:
  "(\<exists>s'. thread_count (ex_kern P_sleep) = Return 3 s') \<and> (\<exists>s'. thread_count_sleeping (ex_kern P_sleep) = Return 1 s') \<and>
   (\<exists>s'. thread_get_by_tid 2 (ex_kern P_sleep) = Return t_two s') \<and> thread_get_by_tid 7 (ex_kern P_sleep) = Stop NullDeref"
proof -
  have lf: "lock_free (ex_kern P_sleep) l" for l by (simp add: lock_free_def ex_kern_def ex_queue_def)
  have f: "find (\<lambda>t. tid (tcbs (ex_kern P_sleep) t) = 2) (v_all (ex_view P_sleep)) = Some t_two"
    "find (\<lambda>t. tid (tcbs (ex_kern P_sleep) t) = 7) (v_all (ex_view P_sleep)) = None"
    "length (v_all (ex_view P_sleep)) = 3" "length (v_sleep (ex_view P_sleep)) = 1"
    by (simp_all add: ex_kern_def ex_view_def ex_tcb_def)
  show ?thesis
    using thread_queries_answer [OF ex_kinv [of P_sleep] lf lf, of 2] thread_queries_answer [OF ex_kinv [of P_sleep] lf lf, of 7]
    unfolding f by auto
qed

section \<open>Printing\<close>

definition can_print :: "kern \<Rightarrow> bool" where
  "can_print s \<longleftrightarrow> current_thread s \<noteq> 0 \<and> interrupt_is_enabled (hw s) \<and> serial_locks_initialized s COMPort_1 \<and>
     lock_free s (serial_lock (image s) COMPort_1)"

definition printed :: "(string \<times> printf_arg list) list \<Rightarrow> kern \<Rightarrow> kern" where
  "printed ps s = (if ps = [] then s else set_blocker (current_thread s) (serial_lock (image s) COMPort_1) BlockerType_Mutex
     (s\<lparr>hw := fold (\<lambda>(f, args). io_serial_unsafe_printf COMPort_1 f args) ps (hw s)\<rparr>))"

lemma print_one: "can_print s \<Longrightarrow> printf f args s = Return () (printed [(f, args)] s)"
  using printf_run [of s f args] by (simp add: can_print_def printed_def)

lemma printed_append [simp]: "printed qs (printed ps s) = printed (ps @ qs) s"
  by (simp add: printed_def set_blocker_def upd_tcb_def)

lemma printed_nil [simp]: "printed [] s = s"
  by (simp add: printed_def)

lemma printed_hw: "hw (printed ps s) = fold (\<lambda>(f, args). io_serial_unsafe_printf COMPort_1 f args) ps (hw s)"
  by (simp add: printed_def)

lemma printed_eflags [simp]: "eflags (hw (printed ps s)) = eflags (hw s)"
proof -
  have "eflags (fold (\<lambda>(f, args). io_serial_unsafe_printf COMPort_1 f args) ps h) = eflags h" for h
    by (induction ps arbitrary: h) auto
  then show ?thesis by (simp add: printed_hw)
qed

lemma printed_fields [simp]:
  "all_links (printed ps s) = all_links s" "local_links (printed ps s) = local_links s" "tid (tcbs (printed ps s) t) = tid (tcbs s t)"
  "status (tcbs (printed ps s) t) = status (tcbs s t)" "mutexes (printed ps s) = mutexes s" "sems (printed ps s) = sems s"
  "current_thread (printed ps s) = current_thread s" "image (printed ps s) = image s"
  "lock_free (printed ps s) l = lock_free s l" "serial_locks_initialized (printed ps s) = serial_locks_initialized s"
  "all_threads (printed ps s) = all_threads s"
  "t \<noteq> current_thread s \<Longrightarrow> tcbs (printed ps s) t = tcbs s t"
  by (simp_all add: printed_def set_blocker_def upd_tcb_def lock_free_def)

lemma printed_kinv [simp]: "kinv (printed ps s) v = kinv s v" "running (printed ps s) = running s"
  by (simp_all add: printed_def)

lemma can_print_printed [simp]: "can_print (printed ps s) = can_print s"
  using enabled_cong [OF printed_eflags] by (simp add: can_print_def)

fun list_items :: "kern \<Rightarrow> u32 list \<Rightarrow> (string \<times> printf_arg list) list" where
  "list_items s [] = []"
| "list_items s [t] = [(''%u'', [Val (tid (tcbs s t))])]"
| "list_items s (t # u # ts) = (''%u'', [Val (tid (tcbs s t))]) # ('', '', []) # list_items s (u # ts)"

lemma list_items_printed [simp]: "list_items (printed ps s) ts = list_items s ts"
  by (induction s ts rule: list_items.induct) simp_all

lemma print_nodes_run:
  assumes "dll (links s) b h (map f ts)" "\<forall>t \<in> set ts. thread (links s (f t)) = t" "can_print s"
    "\<And>ps s. links (printed ps s) = links s" "length ts \<le> n"
  shows "print_nodes links n h s = Return () (printed (list_items s ts) s)"
  using assms
proof (induction ts arbitrary: n b h s)
  case Nil
  then show ?case by (subst print_nodes.simps) simp
next
  case (Cons t ts)
  obtain k where n: "n = Suc k" using Cons.prems(5) by (cases n) auto
  have h: "h = f t" "f t \<noteq> 0" "dll (links s) (f t) (nxt (links s (f t))) (map f ts)" "thread (links s (f t)) = t"
    using Cons.prems(1,2) by auto
  note p = print_one [OF Cons.prems(3)] and links = Cons.prems(4)
  let ?s1 = "printed [(''%u'', [Val (tid (tcbs s t))])] s"
  show ?case
  proof (cases ts)
    case Nil
    then have "nxt (links s (f t)) = 0" using h(3) by simp
    then show ?thesis using n h(1,2,4) Nil p links by (subst print_nodes.simps) (simp, subst print_nodes.simps, simp)
  next
    case (Cons u us)
    let ?s2 = "printed [('', '', [])] ?s1"
    have nx: "nxt (links s (f t)) = f u" "f u \<noteq> 0" "prev (links s (f u)) = f t" using h(3) Cons by auto
    have "print_nodes links k (f u) ?s2 = Return () (printed (list_items ?s2 ts) ?s2)"
    proof (rule Cons.IH)
      show "dll (links ?s2) (f t) (f u) (map f ts)" using h(3) nx(1) links by simp
      show "\<forall>t \<in> set ts. thread (links ?s2 (f t)) = t" using Cons.prems(2) links by simp
    qed (use Cons.prems(3,5) links n in simp_all)
    then show ?thesis
      using n h nx p links print_one [of ?s1 "'', ''" "[]"] Cons.prems(3) Cons by (subst print_nodes.simps) simp
  qed
qed

text \<open>The heading is that of the first of the lists that starts at the same node.\<close>

definition heading :: "u32 \<Rightarrow> kern \<Rightarrow> (string \<times> printf_arg list) list" where
  "heading head s =
     (if head = ready_threads s then [(''ready threads: '', [])] else if head = sleeping_threads s then [(''sleeping threads: '', [])]
      else if head = zombie_threads s then [(''zombie threads: '', [])] else if head = all_threads s then [(''all threads: '', [])] else [])"

lemma print_threads_run:
  assumes "dll (links s) b h (map f ts)" "\<forall>t \<in> set ts. thread (links s (f t)) = t" "can_print s"
    "\<And>ps s. links (printed ps s) = links s" "length ts \<le> n"
  shows "print_threads links n h s = Return () (printed (heading h s @ (''['', []) # list_items s ts @ [('']\<newline>'', [])]) s)"
proof -
  let ?s1 = "printed (heading h s) s" and ?s2 = "printed (heading h s @ [(''['', [])]) s"
  have "print_nodes links n h ?s2 = Return () (printed (list_items ?s2 ts) ?s2)"
    by (rule print_nodes_run [where b = b and f = f]) (use assms in simp_all)
  moreover have "(if h = ready_threads s then printf ''ready threads: '' [] s
        else if h = sleeping_threads s then printf ''sleeping threads: '' [] s
        else if h = zombie_threads s then printf ''zombie threads: '' [] s
        else if h = all_threads s then printf ''all threads: '' [] s
        else Return () s) = Return () ?s1" using print_one [OF assms(3)] by (simp add: heading_def)
  moreover have "can_print x \<Longrightarrow> printf g args x = Return () (printed [(g, args)] x)" for g args x by (rule print_one)
  ultimately show ?thesis using assms(3) by (simp add: print_threads_def)
qed

text \<open>\<open>print_threads\<close> prints the numbers of the threads of a list in order, between brackets; a list that is empty while the
  ready list is empty too is announced as the ready list, whichever it is.\<close>

theorem print_threads_prints:
  assumes "kinv s v" "can_print s" "length (v_all v) \<le> n"
  shows "(\<exists>s'. print_threads all_links n (all_threads s) s = Return () s' \<and>
       hw s' = fold (\<lambda>(f, args). io_serial_unsafe_printf COMPort_1 f args)
         (heading (all_threads s) s @ (''['', []) # list_items s (v_all v) @ [('']\<newline>'', [])]) (hw s)) \<and>
     (\<forall>p. \<exists>s'. print_threads local_links n (wait_queue_head (root s p)) s = Return () s' \<and>
       hw s' = fold (\<lambda>(f, args). io_serial_unsafe_printf COMPort_1 f args)
         (heading (wait_queue_head (root s p)) s @ (''['', []) # list_items s (v_at v p) @ [('']\<newline>'', [])]) (hw s)) \<and>
     (v_ready v = [] \<and> v_at v p = [] \<longrightarrow> heading (wait_queue_head (root s p)) s = [(''ready threads: '', [])])"
proof -
  note ok = kinv_lists [OF assms(1)]
  have nodes: "\<forall>t \<in> set (v_all v). thread (all_links s (all_node t)) = t" "\<forall>t \<in> set (v_at v p). thread (local_links s (local_node t)) = t" for p
    using lists_node [OF ok] lists_member [OF ok] by (auto simp: node_ok_def)
  have len: "length (v_at v p) \<le> n" for p
  proof -
    have "card (set (v_at v p)) \<le> card (set (v_all v))" using lists_member [OF ok] by (intro card_mono) auto
    then show ?thesis using lists_distinct [OF ok] assms(3) by (simp add: distinct_card)
  qed
  have "print_threads all_links n (all_threads s) s =
      Return () (printed (heading (all_threads s) s @ (''['', []) # list_items s (v_all v) @ [('']\<newline>'', [])]) s)"
    by (rule print_threads_run [where links = all_links and f = all_node, OF lists_all [OF ok] nodes(1) assms(2) _ assms(3)]) simp
  moreover have "print_threads local_links n (wait_queue_head (root s p)) s =
      Return () (printed (heading (wait_queue_head (root s p)) s @ (''['', []) # list_items s (v_at v p) @ [('']\<newline>'', [])]) s)" for p
    by (rule print_threads_run [where links = local_links and f = local_node, OF place_dll [OF assms(1)] nodes(2) assms(2) _ len]) simp
  moreover have "heading (wait_queue_head (root s p)) s = [(''ready threads: '', [])]" if "v_ready v = []" "v_at v p = []"
    using place_dll [OF assms(1), of P_ready] place_dll [OF assms(1), of p] that by (simp add: heading_def)
  ultimately show ?thesis by (auto simp: printed_hw)
qed

section \<open>Who waits for whom\<close>

definition blocked :: "kern \<Rightarrow> u32 \<Rightarrow> bool" where
  "blocked s t \<longleftrightarrow> status (tcbs s t) = ThreadStatus_Blocked"

definition ownerless :: "kern \<Rightarrow> u32 \<Rightarrow> bool" where
  "ownerless s t \<longleftrightarrow> blocked s t \<and> blocker_type (tcbs s t) = BlockerType_Mutex \<and> holder (mutexes s (blocked_on (tcbs s t))) = 0"

fun dependency :: "kern \<Rightarrow> u32 \<Rightarrow> (string \<times> printf_arg list) list" where
  "dependency s t =
     (if \<not> blocked s t then []
      else [(''Thread %u is blocked on '', [Val (tid (tcbs s t))]),
        (case blocker_type (tcbs s t) of
           BlockerType_Mutex \<Rightarrow> (''Mutex at %p (Owner: %u)\<newline>'', [Val (blocked_on (tcbs s t)), Val (tid (tcbs s (holder (mutexes s (blocked_on (tcbs s t))))))])
         | BlockerType_Semaphore \<Rightarrow> (''Semaphore at %p\<newline>'', [Val (blocked_on (tcbs s t))])
         | _ \<Rightarrow> (''Condition Variable at %p\<newline>'', [Val (blocked_on (tcbs s t))]))])"

declare dependency.simps [simp del]

lemma dependency_printed:
  assumes "\<not> blocked s (current_thread s)"
  shows "blocked (printed ps s) t = blocked s t" "ownerless (printed ps s) t = ownerless s t" "dependency (printed ps s) t = dependency s t"
    "blocked s t \<Longrightarrow> tcbs (printed ps s) t = tcbs s t"
proof -
  show b: "blocked (printed ps s) t = blocked s t" by (simp add: blocked_def)
  show e: "blocked s t \<Longrightarrow> tcbs (printed ps s) t = tcbs s t" using assms by (cases "t = current_thread s") auto
  show "ownerless (printed ps s) t = ownerless s t" using b e by (auto simp: ownerless_def)
  show "dependency (printed ps s) t = dependency s t" using b e by (cases "blocked s t"; cases "blocker_type (tcbs s t)") (simp_all add: dependency.simps)
qed

lemma debug_nodes_run:
  assumes "dll (all_links s) b h (map all_node ts)" "\<forall>t \<in> set ts. thread (all_links s (all_node t)) = t" "can_print s"
    "\<not> blocked s (current_thread s)" "\<forall>t \<in> set ts. blocked s t \<longrightarrow> blocker_type (tcbs s t) \<noteq> BlockerType_None" "length ts \<le> n"
  shows "debug_nodes n h s = (if \<exists>t \<in> set ts. ownerless s t then Stop NullDeref
     else Return () (printed (concat (map (dependency s) ts)) s))"
  using assms
proof (induction ts arbitrary: n b h s)
  case Nil
  then show ?case by (subst debug_nodes.simps) simp
next
  case (Cons t ts)
  obtain k where n: "n = Suc k" using Cons.prems(6) by (cases n) auto
  have h: "h = all_node t" "all_node t \<noteq> 0" "dll (all_links s) (all_node t) (nxt (all_links s (all_node t))) (map all_node ts)"
    "thread (all_links s (all_node t)) = t" using Cons.prems(1,2) by auto
  note dp = dependency_printed [OF Cons.prems(4)]
  let ?s2 = "printed (dependency s t) s"
  have ih: "debug_nodes k (nxt (all_links s (all_node t))) ?s2 = (if \<exists>t \<in> set ts. ownerless s t then Stop NullDeref
     else Return () (printed (concat (map (dependency s) (t # ts))) s))"
  proof -
    have "debug_nodes k (nxt (all_links s (all_node t))) ?s2 = (if \<exists>t \<in> set ts. ownerless ?s2 t then Stop NullDeref
       else Return () (printed (concat (map (dependency ?s2) ts)) ?s2))"
      by (rule Cons.IH [of ?s2 "all_node t"]) (use Cons.prems h n dp in auto)
    then show ?thesis using dp by (simp cong: map_cong)
  qed
  show ?case
  proof (cases "blocked s t")
    case False
    then have "dependency s t = []" "\<not> ownerless s t" by (simp_all add: dependency.simps ownerless_def)
    then show ?thesis using ih n h False by (subst debug_nodes.simps) (simp add: blocked_def)
  next
    case True
    let ?s1 = "printed [(''Thread %u is blocked on '', [Val (tid (tcbs s t))])] s"
    have "bind_act (printf ''Thread %u is blocked on '' [Val (tid (tcbs s t))] s) (\<lambda>_. print_blocker t) =
        (if ownerless s t then Stop NullDeref else Return () ?s2)"
      using print_one [OF Cons.prems(3)] print_one [of ?s1] Cons.prems(3,5) True dp(4) [OF True]
      by (cases "blocker_type (tcbs s t)") (auto simp: print_blocker_def ownerless_def dependency.simps Let_def)
    then show ?thesis using ih n h True by (subst debug_nodes.simps) (simp add: blocked_def Let_def)
  qed
qed

text \<open>C29. The report of who waits for whom: \<open>thread_debug_synch_dependencies\<close> prints a line for every blocked thread with
  what it waits for and, for a mutex, who holds it. It reads the holder without a check: when a mutex has
  just been released to a waiter that has not run yet, and another thread waits for it, the
  report reads through a null pointer.\<close>

theorem synch_dependencies_report:
  assumes "kinv s v" "running s" "can_print s" "lock_free s (all_threads_lock (image s))"
    "all_threads_lock (image s) \<noteq> serial_lock (image s) COMPort_1" "length (v_all v) \<le> n"
    "\<forall>t \<in> set (v_all v). blocked s t \<longrightarrow> blocker_type (tcbs s t) \<noteq> BlockerType_None"
  shows "let s1 = taken (all_threads_lock (image s)) s in
     if \<exists>t \<in> set (v_all v). ownerless s1 t then thread_debug_synch_dependencies n s = Stop NullDeref
     else \<exists>s'. thread_debug_synch_dependencies n s = Return () s' \<and> kinv s' v \<and>
       hw s' = fold (\<lambda>(f, args). io_serial_unsafe_printf COMPort_1 f args) (concat (map (dependency s1) (v_all v))) (hw s)"
proof -
  let ?l = "all_threads_lock (image s)"
  let ?s1 = "taken ?l s"
  note ok = kinv_lists [OF assms(1)]
  have c: "current_thread s \<noteq> 0" by (rule kinv_cur_nonnull [OF assms(1)])
  have hw: "hw ?s1 = hw s" by (simp add: taken_def upd_mutex_def upd_sem_def)
  have cp: "can_print ?s1"
    using assms(3,5) by (simp add: can_print_def hw lock_free_def) (simp add: taken_def upd_mutex_def upd_sem_def set_blocker_def upd_tcb_def)
  have st: "blocked ?s1 t = blocked s t" "t \<noteq> current_thread s \<Longrightarrow> tcbs ?s1 t = tcbs s t" for t
    by (simp_all add: blocked_def taken_def upd_mutex_def upd_sem_def set_blocker_def upd_tcb_def)
  have nb: "\<not> blocked ?s1 (current_thread ?s1)" using assms(2) st(1) by (simp add: running_def blocked_def)
  have bt: "\<forall>t \<in> set (v_all v). blocked ?s1 t \<longrightarrow> blocker_type (tcbs ?s1 t) \<noteq> BlockerType_None"
    using assms(7) st nb by (metis taken_fields(3))
  let ?ds = "concat (map (dependency ?s1) (v_all v))"
  have d: "debug_nodes n (all_threads ?s1) ?s1 = (if \<exists>t \<in> set (v_all v). ownerless ?s1 t then Stop NullDeref else Return () (printed ?ds ?s1))"
  proof (rule debug_nodes_run [where b = 0])
    show "dll (all_links ?s1) 0 (all_threads ?s1) (map all_node (v_all v))" using lists_all [OF ok] by simp
    show "\<forall>t \<in> set (v_all v). thread (all_links ?s1 (all_node t)) = t" using lists_node [OF ok] by (simp add: node_ok_def)
  qed (use cp nb bt assms(6) in simp_all)
  have rel: "mutex_release ?l (printed ps ?s1) = Inr (dropped ?l (printed ps ?s1))" for ps
    using c assms(4) by (intro release_held_lock) (simp_all add: taken_def lock_free_def upd_mutex_def upd_sem_def)
  have "kinv (dropped ?l (printed ps ?s1)) v" for ps using assms(1) by (simp add: dropped_def taken_def)
  moreover have "hw (dropped ?l (printed ps ?s1)) = hw (printed ps ?s1)" for ps by (simp add: dropped_def upd_mutex_def upd_sem_def)
  ultimately show ?thesis
    using acquire_free_lock [OF c assms(4)] d rel
    by (simp add: thread_debug_synch_dependencies_def Let_def printed_hw hw)
qed

text \<open>The second thread waits for a mutex that has no holder at the moment.\<close>

definition ex_handed_over :: kern where
  "ex_handed_over = set_blocker t_two 0x130000 BlockerType_Mutex (ex_kern (P_wait (SemQ 0x130000)))"

theorem synch_dependencies_report_witness: "thread_debug_synch_dependencies 3 ex_handed_over = Stop NullDeref"
proof -
  let ?v = "ex_view (P_wait (SemQ 0x130000))" and ?l = "all_threads_lock (image ex_handed_over)"
  have k: "kinv ex_handed_over ?v" "running ex_handed_over" using ex_kinv ex_running by (simp_all add: ex_handed_over_def)
  have im: "image ex_handed_over = ex_image" by (simp add: ex_handed_over_def ex_kern_def)
  have lf: "lock_free ex_handed_over 0x120000" "lock_free ex_handed_over 0x120060"
    by (simp_all add: ex_handed_over_def lock_free_def ex_kern_def ex_queue_def set_blocker_def upd_tcb_def)
  have cp: "can_print ex_handed_over"
    using lf im by (simp add: can_print_def ex_image_def)
      (simp add: ex_handed_over_def ex_kern_def set_blocker_def upd_tcb_def interrupt_is_enabled_bit)
  have bt: "\<forall>t \<in> set (v_all ?v). blocked ex_handed_over t \<longrightarrow> blocker_type (tcbs ex_handed_over t) \<noteq> BlockerType_None"
    by (simp add: blocked_def ex_handed_over_def ex_view_def ex_kern_def ex_tcb_def set_blocker_def upd_tcb_def)
  have "ownerless (taken ?l ex_handed_over) t_two"
    by (simp add: ownerless_def blocked_def taken_def im ex_image_def)
      (simp add: ex_handed_over_def ex_kern_def ex_tcb_def free_mutex_def set_blocker_def upd_tcb_def upd_mutex_def upd_sem_def)
  then have "\<exists>t \<in> set (v_all ?v). ownerless (taken ?l ex_handed_over) t" by (auto simp: ex_view_def)
  moreover have "lock_free ex_handed_over ?l" "?l \<noteq> serial_lock (image ex_handed_over) COMPort_1" "length (v_all ?v) \<le> 3"
    using lf(1) by (simp_all add: im ex_image_def ex_view_def)
  ultimately show ?thesis
    using synch_dependencies_report [OF k cp _ _ _ bt, of 3] by (simp add: Let_def)
qed

section \<open>The heap\<close>

definition block_report :: "nat \<times> nat \<Rightarrow> (string \<times> printf_arg list) list" where
  "block_report x = (case x of (a, n) \<Rightarrow>
     [(''> [%x,%x]\<newline>'', [Val (of_nat a), Val (of_nat (a + n))]),
      (CHR 0x09 # ''> Allocated:%b, Valid Magic: %b, Size: %x\<newline>'', [Val 0, Val 1, Val (of_nat n)])])"

definition heap_report :: "km_state \<Rightarrow> block list \<Rightarrow> (string \<times> printf_arg list) list" where
  "heap_report k g = (let st = kmalloc_stats k in
     [(''Kernel Heap: %u Allocations, %u Releases\<newline>'', [Val (allocation_cnt st), Val (free_cnt st)]),
      (''> Total Allocated Bytes: %u\<newline>> Total Freed Bytes: %u\<newline>'', [Val (allocation_bytes st), Val (free_bytes st)])] @
     concat (map block_report (frees g)))"

definition debug_all :: "bool \<Rightarrow> km_state \<Rightarrow> (string \<times> printf_arg list) list \<Rightarrow> machine \<Rightarrow> machine" where
  "debug_all test k ps = fold (\<lambda>(f, args). DEBUG test k f args) ps"

lemma printdebug_walk:
  assumes "free_chain (mem k) p xs" "\<forall>(a, n) \<in> set xs. hdr_ok (mem k) (a, n, False)"
  shows "printdebug_from test k p h = Some (debug_all test k (concat (map block_report xs)) h)"
  using assms
proof (induction xs arbitrary: p h)
  case Nil
  then show ?case by (subst printdebug_from.simps) (simp add: debug_all_def)
next
  case (Cons x xs)
  obtain a n where x: "x = (a, n)" by (cases x)
  have c: "p = of_nat a" "p \<noteq> 0" "km_getsize (mem k) p = of_nat n" "free_chain (mem k) (km_next (mem k) p) xs"
    using Cons.prems(1) x header_nonzero [of a] by auto
  have h: "\<not> km_isalloc (mem k) p" "km_checkmagic (mem k) p" using Cons.prems(2) x c(1) by (auto simp: hdr_ok_def)
  note ih = Cons.IH [OF c(4)]
  have "printdebug_from test k p h = printdebug_from test k (km_next (mem k) p) (debug_all test k (block_report x) h)"
    using c h x by (subst printdebug_from.simps) (simp add: debug_all_def block_report_def Let_def)
  also have "\<dots> = Some (debug_all test k (concat (map block_report (x # xs))) h)"
    using ih Cons.prems(2) by (simp add: debug_all_def)
  finally show ?case .
qed

text \<open>The report of the heap has a line for the calls, one for the bytes, and two for every free block, in address
  order; it changes nothing but the output.\<close>

theorem kmalloc_printdebug_reports:
  assumes "current_thread s \<noteq> 0" "lock_free s (free_list_lock (image s))" "heap_inv (heap s) g"
  shows "kmalloc_printdebug test s = Return () (set_blocker (current_thread s) (free_list_lock (image s)) BlockerType_Mutex
     (s\<lparr>hw := debug_all test (heap s) (heap_report (heap s) g) (hw s)\<rparr>))"
proof -
  let ?l = "free_list_lock (image s)" and ?h = "debug_all test (heap s) (heap_report (heap s) g) (hw s)"
  let ?st = "kmalloc_stats (heap s)"
  have chain: "free_chain (mem (heap s)) (free_list (heap s)) (frees g)" "\<forall>(a, n) \<in> set (frees g). hdr_ok (mem (heap s)) (a, n, False)"
    using assms(3) by (auto simp: heap_inv_def frees_mem)
  have lh: "lock_free (s\<lparr>hw := ?h\<rparr>) ?l" using assms(2) by (simp add: lock_free_def)
  have hw: "hw (taken ?l s) = hw s" by (simp add: taken_def upd_mutex_def upd_sem_def)
  have "mutex_release ?l ((taken ?l s)\<lparr>hw := ?h\<rparr>) = Inr (set_blocker (current_thread s) ?l BlockerType_Mutex (s\<lparr>hw := ?h\<rparr>))"
    using assms(1) lh by (intro release_taken_lock) (simp_all add: taken_def upd_mutex_def upd_sem_def set_blocker_def upd_tcb_def)
  then show ?thesis
    using acquire_free_lock [OF assms(1,2)] printdebug_walk [OF chain]
    by (simp add: kmalloc_printdebug_def Let_def settle_def hw debug_all_def heap_report_def)
qed

end
