(* ===== verification/Hazards.thy ===== *)
theory Hazards
  imports ThreadExample
begin

text \<open>
  What the scheduler's freeing of dead threads can run into: it calls \<^verbatim>\<open>kfree\<close> from within the timer interrupt, which takes the
  lock of the heap like any other caller (\<^verbatim>\<open>clean_zombies\<close> of \<^verbatim>\<open>src/kernel/thread.c\<close>).
\<close>

lemma acquire_would_wait:
  assumes "current_thread s \<noteq> 0" "holder (mutexes s m) \<noteq> current_thread s" "level s m \<le> 0" "- 2147483648 < level s m"
  shows "\<exists>s' k. mutex_acquire m s = Yield s' k"
proof -
  have "sint (sem_count (sems s m) - 1) < 0"
    using assms(3) sint_dec [OF assms(4)] by simp
  then show ?thesis
    using assms(1,2) by (auto simp: mutex_acquire_def semaphore_down_def thread_yield_def irq_off_def interrupt_disable_def Let_def upd_sem_def)
qed

lemma zombie_waits:
  assumes inv: "kinv s v" and q: "v_zombie v = t # zs" and m: "holder (mutexes s (free_list_lock (image s))) \<noteq> current_thread s"
    "level s (free_list_lock (image s)) \<le> 0" "- 2147483648 < level s (free_list_lock (image s))"
  shows "clean_zombies s = Inl IrqBlock"
proof -
  obtain q1 ns1 h ns where u: "clean_zombie t s = (let s2 = unlinked t q1 ns1 h ns s in
       andthen (irq_routine (kfree (stack_base (tcbs s2 t)) s2)) (\<lambda>s3. irq_routine (kfree t s3)))"
    using clean_zombie_unlinks [OF inv q] by blast
  let ?s2 = "unlinked t q1 ns1 h ns s"
  have "current_thread s \<noteq> 0" by (rule kinv_cur_nonnull [OF inv])
  then obtain s' k where "mutex_acquire (free_list_lock (image ?s2)) ?s2 = Yield s' k"
    using acquire_would_wait [of ?s2 "free_list_lock (image s)"] m by (auto simp: unlinked_def)
  then have "irq_routine (kfree p ?s2) = Inl IrqBlock" for p by (simp add: kfree_def Let_def irq_routine_def)
  then have c: "clean_zombie t s = Inl IrqBlock" unfolding u Let_def by simp
  have "zombie_threads s = local_node t" "local_node t \<noteq> 0" "thread (local_links s (local_node t)) = t"
    using lists_place [OF kinv_lists [OF inv], of P_zombie] lists_node [OF kinv_lists [OF inv], of t]
      lists_member [OF kinv_lists [OF inv], of t P_zombie] q by (auto simp: place_holds_def node_ok_def)
  then show ?thesis using c by (simp add: clean_zombies_def clean_zombies_from.simps settle_loop_def Let_def)
qed

text \<open>C27. The heap lock and the scheduler do not fit together: when a thread has died and, at the next timer interrupt,
  a thread other than the interrupted one holds the lock of the heap, the interrupt handler has to wait
  for the lock, which an interrupt handler cannot do.\<close>

theorem dead_thread_under_heap_lock:
  assumes "kinv s v" "v_zombie v \<noteq> []" "holder (mutexes s (free_list_lock (image s))) \<noteq> current_thread s"
    "level s (free_list_lock (image s)) \<le> 0" "- 2147483648 < level s (free_list_lock (image s))"
  shows "isr_IRQ0 s = Inl IrqBlock"
proof -
  obtain s3 where t: "isr_IRQ0 s = andthen (scheduler_next s3) (\<lambda>s4. Inr (s4\<lparr>esp_reg := esp (tcbs s4 (current_thread s4)) + 56\<rparr>))"
    "kinv s3 (ticked_view s v)"
    "sframe (s\<lparr>hw := cli (hw s), esp_reg := esp_reg s - 56, timer_ticks := timer_ticks s + 1\<rparr>) s3"
    using irq_reaches_scheduler [OF assms(1)] by blast
  obtain t zs where "v_zombie (ticked_view s v) = t # zs"
    using assms(2) by (auto simp: ticked_view_def tick_view_def neq_Nil_conv)
  from zombie_waits [OF t(2) this] have "clean_zombies s3 = Inl IrqBlock" using assms(3-5) sframeD [OF t(3)] by simp
  then show ?thesis unfolding t(1) by (simp add: scheduler_next_def find_ready_thread_def)
qed

definition ex_dead_locked :: kern where
  "ex_dead_locked = upd_mutex 0x120040 (\<lambda>_. \<lparr>holder = t_idle, recursion_count = 1\<rparr>) (set_count 0x120040 0 (ex_kern P_zombie))"

theorem dead_thread_under_heap_lock_witness: "isr_IRQ0 ex_dead_locked = Inl IrqBlock"
proof (rule dead_thread_under_heap_lock)
  show "kinv ex_dead_locked (ex_view P_zombie)" using ex_kinv [of P_zombie] by (simp add: ex_dead_locked_def)
  show "v_zombie (ex_view P_zombie) \<noteq> []" by (simp add: ex_view_def)
qed (simp_all add: ex_dead_locked_def ex_kern_def ex_image_def upd_mutex_def upd_sem_def)

text \<open>
  When the interrupted thread itself holds the lock, the lock does not protect the heap from the handler, because it
  is recursive: the handler frees at whatever point of the heap routine the interrupt struck.
\<close>

lemma handler_enters_locked_heap:
  assumes k: "kinv s v" and own: "holder (mutexes s (free_list_lock (image s))) = current_thread s"
    and r: "0 < recursion_count (mutexes s (free_list_lock (image s)))" "recursion_count (mutexes s (free_list_lock (image s))) \<noteq> 0xFFFFFFFF"
  shows "irq_routine (kfree p s) = andthen (kfree_unsafe (heap s) p) (\<lambda>h. Inr (s\<lparr>heap := h\<rparr>))"
proof (cases "kfree_unsafe (heap s) p")
  case (Inr h)
  let ?m = "free_list_lock (image s)"
  let ?s1 = "upd_mutex ?m (\<lambda>c. c\<lparr>recursion_count := recursion_count c + 1\<rparr>) s"
  let ?r = "recursion_count (mutexes s ?m)"
  have "1 + ?r \<noteq> 0" using r(2) add_eq_0_iff [of 1 ?r] by auto
  then have "1 < ?r + 1" using unatSuc [of ?r] r(1) by (simp add: word_less_nat_alt add.commute)
  moreover have "kinv (?s1\<lparr>heap := h\<rparr>) v" using k by simp
  ultimately have "mutex_release ?m (?s1\<lparr>heap := h\<rparr>) = Inr (s\<lparr>heap := h\<rparr>)"
    using mutex_release_nested [of "?s1\<lparr>heap := h\<rparr>" v ?m] own by (simp add: upd_mutex_def)
  then show ?thesis
    using mutex_acquire_again [OF k own] Inr by (simp add: kfree_def Let_def with_heap_def irq_routine_def upd_mutex_def)
qed (use mutex_acquire_again [OF k own] in \<open>simp add: kfree_def Let_def with_heap_def irq_routine_def upd_mutex_def\<close>)

end
