(* ===== verification/Layout.thy ===== *)
theory Layout
  imports InterruptStubs
begin

text \<open>
  The layout of the structures in memory, by the rules of the compiler for i386 (System V ABI), and the bytes of a structure
  whose members have given values. The boot loader hands its information structure and its memory map over as such bytes
  (the structures of \<^verbatim>\<open>include/alienos/kernel/multiboot.h\<close>); the search for the end of the heap reads from them
  what was put in.
\<close>

section \<open>Types of C\<close>

text \<open>\<open>CStruct True\<close> is a structure with the attribute \<^verbatim>\<open>packed\<close>.\<close>

datatype ctype = CInt nat | CPtr | CEnum | CArr nat ctype | CStruct bool fields | CUnion fields
  and fields = FNil | FCons string ctype fields

definition members :: "(string \<times> ctype) list \<Rightarrow> fields" where
  "members xs = foldr (\<lambda>(n, t). FCons n t) xs FNil"

definition pad_to :: "nat \<Rightarrow> nat \<Rightarrow> nat" where
  "pad_to a n = (n + a - 1) div a * a"

text \<open>No type is aligned to more than four bytes inside a structure.\<close>

primrec align_of :: "ctype \<Rightarrow> nat" and align_max :: "fields \<Rightarrow> nat" where
  "align_of (CInt n) = max 1 (min n 4)"
| "align_of CPtr = 4"
| "align_of CEnum = 4"
| "align_of (CArr k t) = align_of t"
| "align_of (CStruct packed fs) = (if packed then 1 else align_max fs)"
| "align_of (CUnion fs) = align_max fs"
| "align_max FNil = 1"
| "align_max (FCons x t fs) = max (align_of t) (align_max fs)"

fun size_of :: "ctype \<Rightarrow> nat" and end_of :: "fields \<Rightarrow> bool \<Rightarrow> nat \<Rightarrow> nat" and size_max :: "fields \<Rightarrow> nat" where
  "size_of (CInt n) = n"
| "size_of CPtr = 4"
| "size_of CEnum = 4"
| "size_of (CArr k t) = k * size_of t"
| "size_of (CStruct packed fs) = pad_to (if packed then 1 else align_max fs) (end_of fs packed 0)"
| "size_of (CUnion fs) = pad_to (align_max fs) (size_max fs)"
| "end_of FNil packed off = off"
| "end_of (FCons x t fs) packed off = end_of fs packed (pad_to (if packed then 1 else align_of t) off + size_of t)"
| "size_max FNil = 0"
| "size_max (FCons x t fs) = max (size_of t) (size_max fs)"

text \<open>Where a member begins, from the offset reached so far.\<close>

fun offset_in :: "bool \<Rightarrow> nat \<Rightarrow> fields \<Rightarrow> string \<Rightarrow> nat option" where
  "offset_in packed off FNil x = None"
| "offset_in packed off (FCons y t fs) x =
     (let start = pad_to (if packed then 1 else align_of t) off
      in if x = y then Some start else offset_in packed (start + size_of t) fs x)"

fun offset_of :: "ctype \<Rightarrow> string \<Rightarrow> nat option" where
  "offset_of (CStruct packed fs) x = offset_in packed 0 fs x"
| "offset_of _ x = None"

definition plain_struct :: "(string \<times> ctype) list \<Rightarrow> ctype" where
  "plain_struct xs = CStruct False (members xs)"

definition packed_struct :: "(string \<times> ctype) list \<Rightarrow> ctype" where
  "packed_struct xs = CStruct True (members xs)"

definition words_named :: "string list \<Rightarrow> (string \<times> ctype) list" where
  "words_named xs = map (\<lambda>x. (x, CInt 4)) xs"

section \<open>The bytes of a structure\<close>

definition le_bytes :: "nat \<Rightarrow> nat \<Rightarrow> u8 list" where
  "le_bytes n v = map (\<lambda>i. of_nat (drop_bit (8 * i) v)) [0..<n]"

text \<open>
  Each member takes the bytes of its value, least significant first, behind the padding that its alignment asks for. The value of
  an array, a structure or a union is the number that its bytes make up.
\<close>

fun encode_in :: "bool \<Rightarrow> nat \<Rightarrow> fields \<Rightarrow> (string \<Rightarrow> nat) \<Rightarrow> u8 list" where
  "encode_in packed off FNil vals = []"
| "encode_in packed off (FCons x t fs) vals =
     (let start = pad_to (if packed then 1 else align_of t) off
      in replicate (start - off) 0 @ le_bytes (size_of t) (vals x) @ encode_in packed (start + size_of t) fs vals)"

fun encode :: "ctype \<Rightarrow> (string \<Rightarrow> nat) \<Rightarrow> u8 list" where
  "encode (CStruct packed fs) vals =
     (let bs = encode_in packed 0 fs vals in bs @ replicate (size_of (CStruct packed fs) - length bs) 0)"
| "encode _ vals = []"

fun member_size :: "fields \<Rightarrow> string \<Rightarrow> nat" where
  "member_size FNil x = 0"
| "member_size (FCons y t fs) x = (if x = y then size_of t else member_size fs x)"

text \<open>Memory holds the bytes from an address on.\<close>

definition stored :: "memory \<Rightarrow> u32 \<Rightarrow> u8 list \<Rightarrow> bool" where
  "stored m p bs \<longleftrightarrow> (\<forall>i < length bs. m (p + of_nat i) = bs ! i)"

lemma align_pos: "0 < align_of t" "0 < align_max fs"
  by (induction t and fs) auto

lemma pad_to_ge: "0 < a \<Longrightarrow> n \<le> pad_to a n"
proof -
  assume a: "0 < a"
  have "n + a - 1 = (n + a - 1) div a * a + (n + a - 1) mod a" by simp
  moreover have "(n + a - 1) mod a \<le> a - 1" using a by (simp add: less_eq_iff_succ_less)
  ultimately show "n \<le> pad_to a n" using a unfolding pad_to_def by linarith
qed

lemma start_ge: "off \<le> pad_to (if packed then 1 else align_of t) off"
  by (rule pad_to_ge) (simp add: align_pos)

lemma length_le_bytes [simp]: "length (le_bytes n v) = n"
  by (simp add: le_bytes_def)

lemma length_encode_in: "off + length (encode_in packed off fs vals) = end_of fs packed off"
proof (induction packed off fs vals rule: encode_in.induct)
  case (2 packed off x t fs vals)
  then show ?case using start_ge [of off packed t] by (simp add: Let_def)
qed simp

lemma length_encode: "length (encode (CStruct packed fs) vals) = size_of (CStruct packed fs)"
proof -
  have "end_of fs packed 0 \<le> size_of (CStruct packed fs)" using pad_to_ge align_pos(2) by simp
  then show ?thesis using length_encode_in [of 0 packed fs vals] by (simp add: Let_def)
qed

lemma encode_in_member:
  assumes "offset_in packed off fs x = Some k"
  shows "off \<le> k \<and> k + member_size fs x \<le> off + length (encode_in packed off fs vals) \<and>
     (\<forall>i < member_size fs x. encode_in packed off fs vals ! (k - off + i) = of_nat (drop_bit (8 * i) (vals x)))"
  using assms
proof (induction packed off fs x rule: offset_in.induct)
  case (2 packed off y t fs x)
  define st where "st = pad_to (if packed then 1 else align_of t) off"
  have ge: "off \<le> st" unfolding st_def by (rule start_ge)
  have enc: "encode_in packed off (FCons y t fs) vals =
      replicate (st - off) 0 @ le_bytes (size_of t) (vals y) @ encode_in packed (st + size_of t) fs vals"
    by (simp only: encode_in.simps Let_def st_def)
  have off: "offset_in packed off (FCons y t fs) x = (if x = y then Some st else offset_in packed (st + size_of t) fs x)"
    by (simp only: offset_in.simps Let_def st_def)
  show ?case
  proof (cases "x = y")
    case True
    then have "k = st" using 2(2) off by simp
    then show ?thesis using ge True unfolding enc by (auto simp: nth_append le_bytes_def)
  next
    case False
    have o: "offset_in packed (st + size_of t) fs x = Some k" using 2(2) off False by simp
    note ih = 2(1) [OF st_def False o]
    have "k - off + i = (st - off) + (size_of t + (k - (st + size_of t) + i))" for i using ih ge by simp
    then have nth: "encode_in packed off (FCons y t fs) vals ! (k - off + i) =
        encode_in packed (st + size_of t) fs vals ! (k - (st + size_of t) + i)" for i
      unfolding enc by (simp only:) (simp add: nth_append)
    moreover have "off + length (encode_in packed off (FCons y t fs) vals) =
        st + size_of t + length (encode_in packed (st + size_of t) fs vals)" using ge unfolding enc by simp
    ultimately show ?thesis unfolding nth using ih ge False by auto
  qed
qed simp

lemma load32_of_bytes:
  assumes "\<And>i. i < 4 \<Longrightarrow> m (a + of_nat i) = of_nat (drop_bit (8 * i) v)"
  shows "load32 m a = of_nat v"
proof (rule bit_word_eqI)
  fix n assume n: "n < LENGTH(32)"
  have b: "m a = of_nat v" "m (a + 1) = of_nat (drop_bit 8 v)" "m (a + 2) = of_nat (drop_bit 16 v)" "m (a + 3) = of_nat (drop_bit 24 v)"
    using assms [of 0] assms [of 1] assms [of 2] assms [of 3] by simp_all
  consider "n < 8" | "8 \<le> n" "n < 16" | "16 \<le> n" "n < 24" | "24 \<le> n" "n < 32" using n by fastforce
  then show "bit (load32 m a) n = bit (of_nat v :: u32) n"
    by cases (auto simp: load32_def b bit_simps)
qed

lemma read_member:
  assumes "stored m p (encode (CStruct packed fs) vals @ rest)" "offset_of (CStruct packed fs) x = Some k" "4 \<le> member_size fs x"
  shows "load32 m (p + of_nat k) = of_nat (vals x)"
proof (rule load32_of_bytes)
  fix i :: nat assume i: "i < 4"
  let ?bs = "encode_in packed 0 fs vals"
  have k: "k + member_size fs x \<le> length ?bs" "\<forall>i < member_size fs x. ?bs ! (k + i) = of_nat (drop_bit (8 * i) (vals x))"
    using encode_in_member [of packed 0 fs x k vals] assms(2) by simp_all
  then have "k + i < length ?bs" "?bs ! (k + i) = of_nat (drop_bit (8 * i) (vals x))" using i assms(3) by simp_all
  moreover obtain zs where "encode (CStruct packed fs) vals @ rest = ?bs @ zs" by (simp add: Let_def)
  ultimately show "m (p + of_nat k + of_nat i) = of_nat (drop_bit (8 * i) (vals x))"
    using assms(1) unfolding stored_def by (simp add: nth_append add.assoc flip: of_nat_add)
qed

lemma stored_append:
  "stored m p (xs @ ys) \<longleftrightarrow> stored m p xs \<and> stored m (p + of_nat (length xs)) ys"
proof -
  have "(\<forall>i < length xs + length ys. P i) \<longleftrightarrow> (\<forall>i < length xs. P i) \<and> (\<forall>i < length ys. P (length xs + i))" for P
  proof (intro iffI conjI allI impI)
    fix i assume "(\<forall>i < length xs. P i) \<and> (\<forall>i < length ys. P (length xs + i))" "i < length xs + length ys"
    then show "P i" by (cases "i < length xs") (auto dest!: spec [of _ "i - length xs"])
  qed auto
  then show ?thesis by (simp add: stored_def nth_append add.assoc)
qed

section \<open>Structures of the kernel\<close>

definition tlistnode_t :: ctype where
  "tlistnode_t = plain_struct [(''thread'', CPtr), (''next'', CPtr), (''prev'', CPtr)]"

definition thread_t :: ctype where
  "thread_t = plain_struct
     [(''tid'', CInt 4), (''esp'', CInt 4), (''status'', CEnum), (''exit_code'', CInt 4), (''wakeup_ticks'', CInt 4),
      (''stack_base'', CPtr), (''blocker_type'', CEnum), (''blocked_on'', CPtr),
      (''all_list'', tlistnode_t), (''local_list'', tlistnode_t)]"

definition km_block_header_t :: ctype where
  "km_block_header_t = packed_struct [(''metadata'', CInt 4), (''next'', CPtr), (''pad'', CArr 2 (CInt 4))]"

definition InterruptFrame_t :: ctype where
  "InterruptFrame_t = packed_struct (words_named
     [''edi'', ''esi'', ''ebp'', ''esp'', ''ebx'', ''edx'', ''ecx'', ''eax'', ''intno'', ''errcode'',
      ''eip'', ''cs'', ''eflags'', ''oldesp'', ''oldss''])"

section \<open>Structures of the boot loader\<close>

definition multiboot_aout_symbol_table_t :: ctype where
  "multiboot_aout_symbol_table_t = plain_struct (words_named [''tabsize'', ''strsize'', ''addr'', ''reserved''])"

definition multiboot_elf_section_header_table_t :: ctype where
  "multiboot_elf_section_header_table_t = plain_struct (words_named [''num'', ''size'', ''addr'', ''shndx''])"

text \<open>The members of the anonymous union at the end are reached without a name of its own.\<close>

definition multiboot_info_t :: ctype where
  "multiboot_info_t = plain_struct
     (words_named [''flags'', ''mem_lower'', ''mem_upper'', ''boot_device'', ''cmdline'', ''mods_count'', ''mods_addr''] @
      [(''u'', CUnion (members [(''aout_sym'', multiboot_aout_symbol_table_t),
                                (''elf_sec'', multiboot_elf_section_header_table_t)]))] @
      words_named [''mmap_length'', ''mmap_addr'', ''drives_length'', ''drives_addr'', ''config_table'',
        ''boot_loader_name'', ''apm_table'', ''vbe_control_info'', ''vbe_mode_info''] @
      [(''vbe_mode'', CInt 2), (''vbe_interface_seg'', CInt 2), (''vbe_interface_off'', CInt 2),
       (''vbe_interface_len'', CInt 2), (''framebuffer_addr'', CInt 8), (''framebuffer_pitch'', CInt 4),
       (''framebuffer_width'', CInt 4), (''framebuffer_height'', CInt 4), (''framebuffer_bpp'', CInt 1),
       (''framebuffer_type'', CInt 1),
       ('''', CUnion (members
         [('''', plain_struct [(''framebuffer_palette_addr'', CInt 4), (''framebuffer_palette_num_colors'', CInt 2)]),
          ('''', plain_struct (map (\<lambda>x. (x, CInt 1))
            [''framebuffer_red_field_position'', ''framebuffer_red_mask_size'', ''framebuffer_green_field_position'',
             ''framebuffer_green_mask_size'', ''framebuffer_blue_field_position'', ''framebuffer_blue_mask_size'']))]))])"

definition multiboot_memory_map_t :: ctype where
  "multiboot_memory_map_t =
     packed_struct [(''size'', CInt 4), (''addr'', CInt 8), (''len'', CInt 8), (''type'', CInt 4)]"

section \<open>The memory map\<close>

text \<open>
  A region of memory as the boot loader reports it: its entry may be longer than the declared structure, and its \<^verbatim>\<open>size\<close> counts what
  follows that member.
\<close>

record memory_region =
  region_addr :: "64 word"
  region_len :: "64 word"
  region_type :: u32
  region_extra :: "u8 list"

definition entry_vals :: "memory_region \<Rightarrow> string \<Rightarrow> nat" where
  "entry_vals e = (\<lambda>_. 0)(''size'' := 20 + length (region_extra e), ''addr'' := unat (region_addr e), ''len'' := unat (region_len e),
     ''type'' := unat (region_type e))"

definition entry_bytes :: "memory_region \<Rightarrow> u8 list" where
  "entry_bytes e = encode multiboot_memory_map_t (entry_vals e) @ region_extra e"

definition map_bytes :: "memory_region list \<Rightarrow> u8 list" where
  "map_bytes es = concat (map entry_bytes es)"

definition low_words :: "memory_region \<Rightarrow> u32 \<times> u32 \<times> u32" where
  "low_words e = (ucast (region_addr e), ucast (region_len e), region_type e)"

lemma info_offsets:
  "map (offset_of multiboot_info_t) [''flags'', ''mmap_length'', ''mmap_addr''] = [Some 0, Some 44, Some 48]"
  "map (offset_of multiboot_memory_map_t) [''size'', ''addr'', ''len'', ''type''] = [Some 0, Some 4, Some 12, Some 20]"
  "size_of multiboot_info_t = 120" "size_of multiboot_memory_map_t = 24"
  by code_simp+

text \<open>The members of a structure type.\<close>

primrec fields_of :: "ctype \<Rightarrow> fields" where
  "fields_of (CInt n) = FNil" | "fields_of CPtr = FNil" | "fields_of CEnum = FNil" | "fields_of (CArr k t) = FNil"
| "fields_of (CStruct packed fs) = fs" | "fields_of (CUnion fs) = FNil"

primrec is_struct :: "ctype \<Rightarrow> bool" where
  "is_struct (CInt n) = False" | "is_struct CPtr = False" | "is_struct CEnum = False" | "is_struct (CArr k t) = False"
| "is_struct (CStruct packed fs) = True" | "is_struct (CUnion fs) = False"

lemma read_word:
  assumes "is_struct t" "stored m p (encode t vals @ rest)" "offset_of t x = Some k" "4 \<le> member_size (fields_of t) x"
  shows "load32 m (p + of_nat k) = of_nat (vals x)"
  using assms read_member by (cases t) auto

lemma encode_length: "is_struct t \<Longrightarrow> length (encode t vals) = size_of t"
  using length_encode by (cases t) auto

lemma info_members:
  "is_struct multiboot_info_t" "is_struct multiboot_memory_map_t"
  "list_all (\<lambda>x. 4 \<le> member_size (fields_of multiboot_info_t) x) [''flags'', ''mmap_length'', ''mmap_addr'']"
  "list_all (\<lambda>x. 4 \<le> member_size (fields_of multiboot_memory_map_t) x) [''size'', ''addr'', ''len'', ''type'']"
  by code_simp+

lemma read_entry:
  assumes "stored m p (entry_bytes e)"
  shows "load32 m p = of_nat (20 + length (region_extra e))" "load32 m (p + 4) = ucast (region_addr e)"
    "load32 m (p + 12) = ucast (region_len e)" "load32 m (p + 20) = region_type e"
proof -
  have r: "load32 m (p + of_nat k) = of_nat (entry_vals e x)"
    if "offset_of multiboot_memory_map_t x = Some k" "4 \<le> member_size (fields_of multiboot_memory_map_t) x" for x k
    using read_word [OF info_members(2) _ that] assms by (simp add: entry_bytes_def)
  have u: "of_nat (unat w) = (ucast w :: u32)" for w :: "'a :: len word" by simp
  show "load32 m p = of_nat (20 + length (region_extra e))" "load32 m (p + 4) = ucast (region_addr e)"
    "load32 m (p + 12) = ucast (region_len e)" "load32 m (p + 20) = region_type e"
    using r [of "''size''" 0] r [of "''addr''" 4] r [of "''len''" 12] r [of "''type''" 20] info_offsets(2) info_members(4)
    by (simp_all add: entry_vals_def u)
qed

lemma map_laid_out:
  assumes "stored m p (map_bytes es)" "unat p + length (map_bytes es) < 4294967296"
  shows "mmap_at m p (map low_words es) (p + of_nat (length (map_bytes es)))"
  using assms
proof (induction es arbitrary: p)
  case (Cons e es)
  let ?n = "length (entry_bytes e)"
  have n: "?n = 24 + length (region_extra e)" using encode_length [OF info_members(2)] info_offsets(4) by (simp add: entry_bytes_def)
  have len: "length (map_bytes (e # es)) = ?n + length (map_bytes es)" by (simp add: map_bytes_def)
  have st: "stored m p (entry_bytes e)" "stored m (p + of_nat ?n) (map_bytes es)"
    using Cons.prems(1) by (simp_all add: map_bytes_def stored_append)
  have up: "unat (p + of_nat k) = unat p + k" if "unat p + k < 4294967296" for k
    using that by (simp add: unat_word_ariths unat_of_nat32)
  have "unat (p + of_nat ?n) = unat p + ?n" using up Cons.prems(2) len by simp
  then have "mmap_at m (p + of_nat ?n) (map low_words es) (p + of_nat ?n + of_nat (length (map_bytes es)))"
    using Cons.IH [OF st(2)] Cons.prems(2) len by simp
  moreover have "p + load32 m p + 4 = p + of_nat ?n" using read_entry(1) [OF st(1)] n by simp
  moreover have "p < p + of_nat (length (map_bytes (e # es)))"
    using up [OF Cons.prems(2)] len n unfolding word_less_nat_alt by linarith
  moreover have "map low_words (e # es) = (ucast (region_addr e), ucast (region_len e), region_type e) # map low_words es"
    by (simp add: low_words_def)
  ultimately show ?case using read_entry [OF st(1)] len by (simp add: add.assoc)
qed (simp add: map_bytes_def)

lemma find_mapped: "find P (map f xs) = map_option f (find (\<lambda>x. P (f x)) xs)"
  by (induction xs) auto

lemma info_read:
  assumes "stored m info (encode multiboot_info_t vals)"
  shows "load32 m info = of_nat (vals ''flags'')" "load32 m (info + 44) = of_nat (vals ''mmap_length'')"
    "load32 m (info + 48) = of_nat (vals ''mmap_addr'')"
proof -
  have r: "load32 m (info + of_nat k) = of_nat (vals x)"
    if "offset_of multiboot_info_t x = Some k" "4 \<le> member_size (fields_of multiboot_info_t) x" for x k
    using read_word [OF info_members(1) _ that, of m info vals "[]"] assms by simp
  show "load32 m info = of_nat (vals ''flags'')" "load32 m (info + 44) = of_nat (vals ''mmap_length'')"
    "load32 m (info + 48) = of_nat (vals ''mmap_addr'')"
    using r [of "''flags''" 0] r [of "''mmap_length''" 44] r [of "''mmap_addr''" 48] info_offsets(1) info_members(3) by simp_all
qed

lemma flag_bit: "(of_nat v AND 0x40 :: u32) = 0 \<longleftrightarrow> \<not> bit v 6"
proof -
  have "(0x40 :: u32) = push_bit 6 1" by simp
  then have "(of_nat v AND 0x40 :: u32) = 0 \<longleftrightarrow> \<not> bit (of_nat v :: u32) 6"
    by (metis bit_iff_and_push_bit_not_eq_0)
  then show ?thesis by (simp add: bit_simps)
qed

text \<open>What the search gives on a map that the boot loader wrote, whatever its regions: it compares the low words only.\<close>

lemma memory_map_low:
  assumes "stored (mem s) info (encode multiboot_info_t vals)" "stored (mem s) p (map_bytes es)"
    "vals ''mmap_addr'' = unat p" "vals ''mmap_length'' = length (map_bytes es)" "unat p + length (map_bytes es) < 4294967296"
  shows "internal_read_multibootinfo s info kernel_end =
    (if bit (vals ''flags'') 6 then
       case find (\<lambda>e. holds_kernel kernel_end (low_words e)) es of
         None \<Rightarrow> Inl (Panic ''kmalloc_init(): failed to find valid memory block'')
       | Some e \<Rightarrow> Inr (s\<lparr>kheap_max_end := ucast (region_addr e) + ucast (region_len e)\<rparr>)
     else Inl (Panic ''kmalloc_init(): mmap unavailable''))"
proof (cases "bit (vals ''flags'') 6")
  case True
  note i = info_read [OF assms(1), unfolded assms(3,4)]
  have "boot_map (mem s) info (map low_words es)"
    using map_laid_out [OF assms(2,5)] i True flag_bit by (simp add: boot_map_def)
  from read_multibootinfo_found [OF this, of kernel_end] read_multibootinfo_missing [OF this, of kernel_end] show ?thesis
    using True by (auto simp: find_mapped low_words_def split: option.splits)
next
  case False
  then show ?thesis using info_read(1) [OF assms(1)] flag_bit by (simp add: internal_read_multibootinfo_def kernel_assert_def kernel_panic_def)
qed

lemma holds_low:
  assumes "region_type e = 1 \<Longrightarrow> unat (region_addr e) + unat (region_len e) < 4294967296"
  shows "holds_kernel k (low_words e) \<longleftrightarrow>
     region_type e = 1 \<and> unat (region_addr e) \<le> unat k \<and> unat k < unat (region_addr e) + unat (region_len e)"
proof (cases "region_type e = 1")
  case True
  have "unat (ucast w :: u32) = unat w" if "unat w < 4294967296" for w :: "64 word"
    using that by (simp add: unsigned_ucast_eq take_bit_nat_eq_self)
  then have "unat (ucast (region_addr e) :: u32) = unat (region_addr e)" "unat (ucast (region_len e) :: u32) = unat (region_len e)"
    using assms [OF True] by simp_all
  then show ?thesis using assms [OF True] by (auto simp: low_words_def word_less_nat_alt word_le_nat_alt unat_word_ariths)
qed (simp add: low_words_def)

text \<open>C30. What the boot loader wrote is what the kernel reads. Memory holds the bytes of an information structure, laid out as
  \<^verbatim>\<open>multiboot.h\<close> declares it, that announces a memory map, and those of the map's entries (of any length, with 64-bit addresses and
  lengths); the available regions end below 4 GiB. Then \<^verbatim>\<open>internal_read_multibootinfo\<close> returns, with the end of the heap's memory set to
  the end of the first available region in which the kernel image ends, or stops the kernel if there is none; without the
  flag for the map it stops the kernel as well.\<close>

theorem memory_map_read:
  assumes "stored (mem s) info (encode multiboot_info_t vals)" "stored (mem s) p (map_bytes es)"
    "vals ''mmap_addr'' = unat p" "vals ''mmap_length'' = length (map_bytes es)" "unat p + length (map_bytes es) < 4294967296"
    "\<forall>e \<in> set es. region_type e = 1 \<longrightarrow> unat (region_addr e) + unat (region_len e) < 4294967296"
  shows "internal_read_multibootinfo s info kernel_end =
    (if bit (vals ''flags'') 6 then
       case find (\<lambda>e. region_type e = 1 \<and> unat (region_addr e) \<le> unat kernel_end \<and>
            unat kernel_end < unat (region_addr e) + unat (region_len e)) es of
         None \<Rightarrow> Inl (Panic ''kmalloc_init(): failed to find valid memory block'')
       | Some e \<Rightarrow> Inr (s\<lparr>kheap_max_end := of_nat (unat (region_addr e) + unat (region_len e))\<rparr>)
     else Inl (Panic ''kmalloc_init(): mmap unavailable''))"
proof -
  have "find (\<lambda>e. holds_kernel kernel_end (low_words e)) es =
      find (\<lambda>e. region_type e = 1 \<and> unat (region_addr e) \<le> unat kernel_end \<and>
        unat kernel_end < unat (region_addr e) + unat (region_len e)) es"
    using assms(6) by (intro find_cong refl) (simp add: holds_low)
  then show ?thesis unfolding memory_map_low [OF assms(1-5)] by (simp cong: option.case_cong)
qed

text \<open>A boot loader that reports a region of low memory, reserved memory and the region of the kernel, in an entry four bytes longer.\<close>

definition poke :: "u32 \<Rightarrow> u8 list \<Rightarrow> memory \<Rightarrow> memory" where
  "poke p bs m = (\<lambda>a. if unat (a - p) < length bs then bs ! unat (a - p) else m a)"

lemma stored_poke: "length bs \<le> 4294967296 \<Longrightarrow> stored (poke p bs m) p bs"
  by (simp add: stored_def poke_def unat_of_nat32)

lemma stored_poke_apart:
  assumes "stored m q cs" "unat q + length cs \<le> unat p" "unat p + length bs \<le> 4294967296"
  shows "stored (poke p bs m) q cs"
  unfolding stored_def
proof (intro allI impI)
  fix i assume i: "i < length cs"
  have u: "unat (q + of_nat i) = unat q + i" 
    using i assms(2,3) by (simp add: unat_word_ariths unat_of_nat32)
  have "unat (q + of_nat i - p) = 4294967296 + unat (q + of_nat i) - unat p"
    using u i assms(2) by (simp add: unat_sub_if' )
  then have "\<not> unat (q + of_nat i - p) < length bs" using u assms(3) i assms(2) by simp
  then show "poke p bs m (q + of_nat i) = cs ! i" using assms(1) i by (simp add: poke_def stored_def)
qed

definition ex_regions :: "memory_region list" where
  "ex_regions =
     [\<lparr>region_addr = 0, region_len = 0x9FC00, region_type = 1, region_extra = []\<rparr>,
      \<lparr>region_addr = 0xF0000, region_len = 0x10000, region_type = 2, region_extra = []\<rparr>,
      \<lparr>region_addr = 0x100000, region_len = 0x7EE0000, region_type = 1, region_extra = [1, 0, 0, 0]\<rparr>]"

definition ex_info :: "string \<Rightarrow> nat" where
  "ex_info = (\<lambda>_. 0)(''flags'' := 0x4F, ''mmap_addr'' := 0x9100, ''mmap_length'' := 76)"

definition ex_boot_memory :: memory where
  "ex_boot_memory = poke 0x9100 (map_bytes ex_regions) (poke 0x9000 (encode multiboot_info_t ex_info) (\<lambda>_. 0))"

theorem memory_map_read_witness:
  "internal_read_multibootinfo (ex_heap\<lparr>mem := ex_boot_memory\<rparr>) 0x9000 0x1FF123 =
     Inr (ex_heap\<lparr>mem := ex_boot_memory, kheap_max_end := 0x7FE0000\<rparr>)"
proof -
  have len: "length (map_bytes ex_regions) = 76" "length (encode multiboot_info_t ex_info) = 120"
    using encode_length [OF info_members(1)] encode_length [OF info_members(2)]
    by (simp_all add: map_bytes_def ex_regions_def entry_bytes_def info_offsets)
  have m: "stored ex_boot_memory 0x9000 (encode multiboot_info_t ex_info)" "stored ex_boot_memory 0x9100 (map_bytes ex_regions)"
    unfolding ex_boot_memory_def by (rule stored_poke_apart stored_poke; simp add: len stored_poke)+
  have below: "\<forall>e \<in> set ex_regions. region_type e = 1 \<longrightarrow> unat (region_addr e) + unat (region_len e) < 4294967296"
    by (simp add: ex_regions_def)
  show ?thesis
    using memory_map_read [of "ex_heap\<lparr>mem := ex_boot_memory\<rparr>" "0x9000" ex_info "0x9100" ex_regions "0x1FF123"] m below
    by (simp add: len ex_info_def) (simp add: ex_regions_def bit_simps)
qed

text \<open>
  The low words decide: an available region from 4 GiB on is taken for one from 0 on, so that it is used
  although the kernel is not in it when the map lists it first.
\<close>

lemma high_region_taken:
  assumes "stored (mem s) info (encode multiboot_info_t vals)" "stored (mem s) p (map_bytes (e # es))" "bit (vals ''flags'') 6"
    "vals ''mmap_addr'' = unat p" "vals ''mmap_length'' = length (map_bytes (e # es))" "unat p + length (map_bytes (e # es)) < 4294967296"
    "region_type e = 1" "region_addr e = 0x100000000" "region_len e = 0x40000000" "kernel_end < 0x40000000"
  shows "internal_read_multibootinfo s info kernel_end = Inr (s\<lparr>kheap_max_end := 0x40000000\<rparr>)"
proof -
  have low: "low_words e = (0, 0x40000000, 1)" using assms(7-9) by (simp add: low_words_def)
  then have "find (\<lambda>e. holds_kernel kernel_end (low_words e)) (e # es) = Some e" using assms(10) by simp
  then show ?thesis using memory_map_low [OF assms(1,2,4-6), of kernel_end] assms(3) low by (simp add: low_words_def)
qed

section \<open>Members at fixed offsets\<close>

text \<open>
  Where the model reads a member at an offset, memory that holds the bytes of the declared structure gives its value: the header of a
  heap block, with the magic number in its padding, and the frame of an interrupt.
\<close>

lemma header_members_read:
  assumes "stored m p (encode km_block_header_t vals)"
  shows "km_metadata m p = of_nat (vals ''metadata'')" "km_next m p = of_nat (vals ''next'')"
    "km_checkmagic m p \<longleftrightarrow> of_nat (vals ''pad'') = KMALLOC_MAGIC"
proof -
  have l: "is_struct km_block_header_t" "map (offset_of km_block_header_t) [''metadata'', ''next'', ''pad''] = [Some 0, Some 4, Some 8]"
    "list_all (\<lambda>x. 4 \<le> member_size (fields_of km_block_header_t) x) [''metadata'', ''next'', ''pad'']" by code_simp+
  have r: "load32 m (p + of_nat k) = of_nat (vals x)"
    if "offset_of km_block_header_t x = Some k" "4 \<le> member_size (fields_of km_block_header_t) x" for x k
    using read_word [OF l(1) _ that, of m p vals "[]"] assms by simp
  show "km_metadata m p = of_nat (vals ''metadata'')" "km_next m p = of_nat (vals ''next'')"
    "km_checkmagic m p \<longleftrightarrow> of_nat (vals ''pad'') = KMALLOC_MAGIC"
    using r [of "''metadata''" 0] r [of "''next''" 4] r [of "''pad''" 8] l(2,3) by (simp_all add: km_metadata_def km_next_def km_checkmagic_def)
qed

lemma frame_members_read:
  assumes "stored m p (encode InterruptFrame_t vals)"
  shows "map (\<lambda>f. f (read_frame m p))
     [frame_edi, frame_esi, frame_ebp, frame_esp, frame_ebx, frame_edx, frame_ecx, frame_eax, intno, errcode,
      frame_eip, frame_cs, frame_eflags, frame_oldesp, frame_oldss] =
   map (\<lambda>x. of_nat (vals x))
     [''edi'', ''esi'', ''ebp'', ''esp'', ''ebx'', ''edx'', ''ecx'', ''eax'', ''intno'', ''errcode'',
      ''eip'', ''cs'', ''eflags'', ''oldesp'', ''oldss'']"
proof -
  let ?names = "[''edi'', ''esi'', ''ebp'', ''esp'', ''ebx'', ''edx'', ''ecx'', ''eax'', ''intno'', ''errcode'',
      ''eip'', ''cs'', ''eflags'', ''oldesp'', ''oldss'']"
  have l: "is_struct InterruptFrame_t" "list_all (\<lambda>x. 4 \<le> member_size (fields_of InterruptFrame_t) x) ?names"
    "map (offset_of InterruptFrame_t) ?names = map Some [0, 4, 8, 12, 16, 20, 24, 28, 32, 36, 40, 44, 48, 52, 56]" by code_simp+
  have r: "load32 m (p + of_nat k) = of_nat (vals x)"
    if "offset_of InterruptFrame_t x = Some k" "4 \<le> member_size (fields_of InterruptFrame_t) x" for x k
    using read_word [OF l(1) _ that, of m p vals "[]"] assms by simp
  have "list_all (\<lambda>x. \<exists>k. offset_of InterruptFrame_t x = Some k) ?names"
    using l(3) by (simp only: list.map list.inject list.pred_inject option.inject) simp
  then have "load32 m (p + of_nat (the (offset_of InterruptFrame_t x))) = of_nat (vals x)" if "x \<in> set ?names" for x
    using r l(2) that unfolding list_all_iff by force
  then have "map (\<lambda>x. load32 m (p + of_nat (the (offset_of InterruptFrame_t x)))) ?names = map (\<lambda>x. of_nat (vals x)) ?names"
    by (intro map_cong refl)
  then have "map (\<lambda>x. of_nat (vals x)) ?names = map (\<lambda>k. load32 m (p + of_nat (the k))) (map (offset_of InterruptFrame_t) ?names)"
    unfolding map_map comp_def by (rule sym)
  then show ?thesis unfolding l(3) by (simp add: read_frame_def)
qed

text \<open>The nodes and the size of a thread's control block.\<close>

lemma thread_layout:
  "size_of thread_t = unat sizeof_thread_t" "offset_of thread_t ''esp'' = Some 4"
  "map_option (\<lambda>off. t + of_nat off) (offset_of thread_t ''all_list'') = Some (all_node t)"
  "map_option (\<lambda>off. t + of_nat off) (offset_of thread_t ''local_list'') = Some (local_node t)"
proof -
  have "size_of thread_t = 56" "offset_of thread_t ''all_list'' = Some 32" "offset_of thread_t ''local_list'' = Some 44" by code_simp+
  then show "size_of thread_t = unat sizeof_thread_t" "map_option (\<lambda>off. t + of_nat off) (offset_of thread_t ''all_list'') = Some (all_node t)"
    "map_option (\<lambda>off. t + of_nat off) (offset_of thread_t ''local_list'') = Some (local_node t)"
    by (simp_all add: all_node_def local_node_def)
  show "offset_of thread_t ''esp'' = Some 4" by code_simp
qed

end
