(* ===== verification/StartAsm.thy ===== *)
theory StartAsm
  imports BootSwitch
begin

text \<open>
  The assembly that runs before and under the initialisation: \<^verbatim>\<open>_start\<close> of \<^verbatim>\<open>src/kernel/bootasm.s\<close>, which sets up the
  boot stack and calls \<^verbatim>\<open>kernel_main\<close>, and the routines of \<^verbatim>\<open>src/mem/gdtasm.s\<close> and \<^verbatim>\<open>src/io/interruptasm.s\<close> that load
  the descriptor table registers.
\<close>

section \<open>The entry\<close>

text \<open>
  \<^verbatim>\<open>_start\<close> up to the first instruction of \<^verbatim>\<open>kernel_main\<close>: the boot loader has left its magic number in \<^verbatim>\<open>eax\<close> and the
  address of its information in \<^verbatim>\<open>ebx\<close>. The address of \<^verbatim>\<open>stack_top\<close> and the return address of the call are the linker's.
\<close>

definition start_entry :: "u32 \<Rightarrow> u32 \<Rightarrow> cpu \<Rightarrow> kern \<Rightarrow> kern" where
  "start_entry stack_top ret r s =
     (let s1 = s\<lparr>hw := cli (hw s)\<rparr>;
          s2 = s1\<lparr>esp_reg := stack_top\<rparr>;
          s3 = pushl (ebx r) s2;
          s4 = pushl (eax r) s3
      in pushl ret s4)"

text \<open>
  The whole of \<^verbatim>\<open>_start\<close>. The called function finds its arguments above the return address; when it returns, the processor
  halts for good with interrupts off, in the state that is returned here.
\<close>

definition start :: "boot_env \<Rightarrow> nat \<Rightarrow> u32 \<Rightarrow> u32 \<Rightarrow> cpu \<Rightarrow> computer \<Rightarrow> (computer, unit) act" where
  "start env rounds stack_top ret r c =
     (let s = start_entry stack_top ret r (kernel c); m = mem (heap s)
      in bind_act (kernel_main env rounds (load32 m (esp_reg s + 4)) (load32 m (esp_reg s + 8)) (c\<lparr>kernel := s\<rparr>)) (\<lambda>_ c1.
         let s1 = snd (popl (kernel c1))
         in Return () (c1\<lparr>kernel := s1\<lparr>hw := cli (hw s1)\<rparr>\<rparr>)))"

section \<open>What the boot loader leaves\<close>

text \<open>A range of bytes that a region of memory does not touch.\<close>

definition clear_of :: "nat \<times> nat \<Rightarrow> u32 \<Rightarrow> nat \<Rightarrow> bool" where
  "clear_of r p n \<longleftrightarrow> unat p + n \<le> 4294967296 \<and> apart (unat p, unat p + n) r"

fun map_clear :: "nat \<times> nat \<Rightarrow> memory \<Rightarrow> u32 \<Rightarrow> (u32 \<times> u32 \<times> u32) list \<Rightarrow> bool" where
  "map_clear r m p [] \<longleftrightarrow> True"
| "map_clear r m p (e # es) \<longleftrightarrow> clear_of r p 24 \<and> map_clear r m (p + load32 m p + 4) es"

text \<open>
  The image with its zeroed data and a memory map, as for \<^verbatim>\<open>kernel_main\<close> but whatever the interrupt flag; the 64 KiB of the
  boot stack are in the image, apart from the stack of the idle thread, and the boot loader keeps its tables clear of them.
\<close>

definition boot_range :: "u32 \<Rightarrow> nat \<times> nat" where
  "boot_range stack_top = (unat stack_top - 65536, unat stack_top)"

definition handed_over :: "boot_env \<Rightarrow> u32 \<Rightarrow> u32 \<Rightarrow> computer \<Rightarrow> bool" where
  "handed_over env stack_top mbinfo c \<longleftrightarrow>
     (let m = mem (heap (kernel c)) in
      loaded env mbinfo (set_hw (cli (hw (kernel c))) c) \<and> \<not> main_inited c \<and>
      65536 \<le> unat stack_top \<and> unat stack_top \<le> unat (kernel_end_addr env) \<and>
      apart (boot_range stack_top) (unat (idle_stack (image (kernel c))), unat (idle_stack (image (kernel c))) + 65536) \<and>
      clear_of (boot_range stack_top) mbinfo 52 \<and>
      (\<forall>es. boot_map m mbinfo es \<longrightarrow> map_clear (boot_range stack_top) m (load32 m (mbinfo + 48)) es))"

section \<open>The stack at the call\<close>

lemma start_entry_words:
  "start_entry stk ret r s = s\<lparr>heap := (heap s)\<lparr>mem := fst (push_words (mem (heap s)) stk [ebx r, eax r, ret])\<rparr>,
     esp_reg := stk - 12, hw := cli (hw s)\<rparr>"
  by (simp add: start_entry_def pushl_def Let_def)

lemma start_arguments:
  assumes "12 \<le> unat stk"
  shows "load32 (mem (heap (start_entry stk ret r s))) (stk - 8) = eax r"
    "load32 (mem (heap (start_entry stk ret r s))) (stk - 4) = ebx r"
    "load32 (mem (heap (start_entry stk ret r s))) (stk - 12) = ret"
proof -
  let ?ws = "[ebx r, eax r, ret]"
  have "load32 (fst (push_words (mem (heap s)) stk ?ws)) (stk - of_nat (4 * (i + 1))) = ?ws ! i" if "i < 3" for i
    using push_words_spec [of ?ws stk "mem (heap s)"] assms that by (simp del: push_words.simps)
  from this [of 0] this [of 1] this [of 2] show
    "load32 (mem (heap (start_entry stk ret r s))) (stk - 8) = eax r"
    "load32 (mem (heap (start_entry stk ret r s))) (stk - 4) = ebx r"
    "load32 (mem (heap (start_entry stk ret r s))) (stk - 12) = ret"
    by (simp_all add: start_entry_words)
qed

lemma load_clear:
  assumes "clear_of (boot_range stk) p n" "12 \<le> unat stk" "i + 4 \<le> n" "65536 \<le> unat stk"
  shows "load32 (mem (heap (start_entry stk ret r s))) (p + of_nat i) = load32 (mem (heap s)) (p + of_nat i)"
proof -
  have "unat (p + of_nat i) = unat p + i"
    using assms(1,3) by (simp add: clear_of_def unat_word_ariths unat_of_nat)
  then have "unat (p + of_nat i) + 4 \<le> 4294967296" "unat (p + of_nat i) + 4 \<le> unat stk - 12 \<or> unat stk \<le> unat (p + of_nat i)"
    using assms by (auto simp: clear_of_def boot_range_def apart_def)
  then show ?thesis using push_words_load [of "[ebx r, eax r, ret]" stk] assms(2) by (simp add: start_entry_words)
qed

lemma map_kept:
  assumes "mmap_at (mem (heap s)) p es lim" "map_clear (boot_range stk) (mem (heap s)) p es" "65536 \<le> unat stk"
  shows "mmap_at (mem (heap (start_entry stk ret r s))) p es lim"
  using assms
proof (induction "mem (heap s)" p es lim rule: mmap_at.induct)
  case (2 p st ln ty es lim)
  have "load32 (mem (heap (start_entry stk ret r s))) (p + of_nat i) = load32 (mem (heap s)) (p + of_nat i)" if "i + 4 \<le> 24" for i
    by (rule load_clear [where n = 24]) (use 2 that in simp_all)
  from this [of 0] this [of 4] this [of 12] this [of 20] show ?case using 2 by simp
qed simp

lemma boot_map_kept:
  assumes "boot_map (mem (heap s)) mb es" "clear_of (boot_range stk) mb 52" "65536 \<le> unat stk"
    "map_clear (boot_range stk) (mem (heap s)) (load32 (mem (heap s)) (mb + 48)) es"
  shows "boot_map (mem (heap (start_entry stk ret r s))) mb es"
proof -
  have "load32 (mem (heap (start_entry stk ret r s))) (mb + of_nat i) = load32 (mem (heap s)) (mb + of_nat i)" if "i + 4 \<le> 52" for i
    by (rule load_clear [where n = 52]) (use assms that in simp_all)
  from this [of 0] this [of 44] this [of 48] show ?thesis
    using assms map_kept [OF _ assms(4,3)] by (simp add: boot_map_def)
qed

lemma start_loaded:
  assumes "handed_over env stk mb c"
  shows "loaded env mb (c\<lparr>kernel := start_entry stk ret r (kernel c)\<rparr>)"
    "boot_stack_at env (c\<lparr>kernel := start_entry stk ret r (kernel c)\<rparr>) (boot_range stk)"
proof -
  let ?s = "kernel c" and ?s' = "start_entry stk ret r (kernel c)"
  have h: "loaded env mb (set_hw (cli (hw ?s)) c)" "65536 \<le> unat stk" "unat stk \<le> unat (kernel_end_addr env)"
    "clear_of (boot_range stk) mb 52" "\<forall>es. boot_map (mem (heap ?s)) mb es \<longrightarrow> map_clear (boot_range stk) (mem (heap ?s)) (load32 (mem (heap ?s)) (mb + 48)) es"
    "apart (boot_range stk) (unat (idle_stack (image ?s)), unat (idle_stack (image ?s)) + 65536)"
    using assms by (simp_all add: handed_over_def Let_def)
  have map: "boot_map (mem (heap ?s')) mb es" if "boot_map (mem (heap ?s)) mb es" for es
    using boot_map_kept [OF that h(4,2)] h(5) that by blast
  show "loaded env mb (c\<lparr>kernel := ?s'\<rparr>)"
    using h(1) map unfolding loaded_def Let_def
    by (auto simp: set_hw_def start_entry_words bare_def)
  have "unat (stk - 12) = unat stk - 12" using h(2) by (simp add: unat_sub word_le_nat_alt)
  then show "boot_stack_at env (c\<lparr>kernel := ?s'\<rparr>) (boot_range stk)"
    using h(2,3,6) by (simp add: boot_stack_at_def boot_range_def esp_in_def start_entry_words)
qed

section \<open>The idle loop does not return\<close>

lemma on_kern_set: "on_kern a (c\<lparr>kernel := s\<rparr>) = on_kern a c"
  by (cases a) simp_all

lemma on_kern_bind:
  "on_kern (bind_act a f) c = bind_act (on_kern a c) (\<lambda>x c1. on_kern (f x (kernel c1)) c1)"
  by (induction a arbitrary: c) (simp_all add: on_kern_set)

lemma idle_loop_bind: "bind_act (on_kern (cpu_idle_loop n s) c) f = on_kern (cpu_idle_loop n s) c"
proof (induction n arbitrary: s c)
  case (Suc n)
  have "bind_act (on_kern (bind_act a (\<lambda>_ s2. cpu_idle_loop n s2)) c1) f = on_kern (bind_act a (\<lambda>_ s2. cpu_idle_loop n s2)) c1"
    for a :: "unit routine" and c1
    by (simp add: on_kern_bind bind_act_assoc Suc)
  then show ?case by simp
qed simp

section \<open>The start of the kernel\<close>

lemma start_runs:
  assumes "12 \<le> unat stk"
  shows "start env n stk ret r c = bind_act (kernel_main env n (eax r) (ebx r) (c\<lparr>kernel := start_entry stk ret r (kernel c)\<rparr>)) (\<lambda>_ c1.
     Return () (c1\<lparr>kernel := (kernel c1)\<lparr>esp_reg := esp_reg (kernel c1) + 4, hw := cli (hw (kernel c1))\<rparr>\<rparr>))"
proof -
  have "esp_reg (start_entry stk ret r (kernel c)) = stk - 12" by (simp add: start_entry_words)
  then show ?thesis using start_arguments [OF assms, of ret r "kernel c"] by (simp add: start_def popl_def Let_def)
qed

definition gates_installed :: "boot_env \<Rightarrow> computer \<Rightarrow> bool" where
  "gates_installed env c \<longleftrightarrow> (\<forall>k < 256. gate_present (idt (machine.extend (hw (kernel c)) (gates c)) ! k) \<and>
     gate_offset (idt (machine.extend (hw (kernel c)) (gates c)) ! k) = isr_addr env (vector_name k))"

lemma start_ready:
  assumes h: "handed_over env stk mb c" and c1_def: "c1 = c\<lparr>kernel := start_entry stk ret r (kernel c)\<rparr>"
  shows "\<exists>c'. kernel_main env n 0x2BADB002 mb c1 = on_kern (cpu_idle_loop n (kernel c')) c' \<and>
     interrupt_is_enabled (hw (kernel c')) \<and> esp_reg (kernel c') = stk - 12 \<and> gates_installed env c' \<and>
     (\<forall>c0. mach_ok (boot_locks (image (kernel c))) (boot_range stk) (machine_at (kernel c') c0 (boot_saved (image (kernel c)))))"
proof -
  have mi: "\<not> main_inited c1" using h by (simp add: handed_over_def Let_def c1_def)
  note ld = start_loaded [OF h, of ret r, folded c1_def]
  have im: "image (kernel c1) = image (kernel c)" by (simp add: start_entry_words c1_def)
  obtain c' g where c': "kernel_main env n 0x2BADB002 mb c1 = on_kern (cpu_idle_loop n (kernel c')) c'"
    "initial (boot_locks (image (kernel c1))) (kernel c') \<lparr>v_all = [idle_thread (kernel c1), current_thread (kernel c')], v_at = (\<lambda>_. [])\<rparr> g"
    "interrupt_is_enabled (hw (kernel c'))" "idle_made (kernel c1) (kernel c')" "image (kernel c') = image (kernel c1)"
    "unat (kernel_end_addr env) \<le> unat (kheap_begin (heap (kernel c')))" "gates_installed env c'"
    unfolding gates_installed_def using kernel_main_idles [OF ld(1) mi, of n] by blast
  have "mach_ok (boot_locks (image (kernel c))) (boot_range stk) (machine_at (kernel c') c0 (boot_saved (image (kernel c))))" for c0
    using ready_ok [OF booted_ready [OF ld c'(2,4,5,6)]] c'(5) im by simp
  moreover have "esp_reg (kernel c') = stk - 12" using c'(4) by (simp add: idle_made_def start_entry_words c1_def)
  ultimately show ?thesis using c'(1,3,7) by blast
qed

lemma start_rejects:
  assumes "12 \<le> unat stk" "eax r \<noteq> 0x2BADB002" "\<not> main_inited c"
  shows "\<exists>m h. start env n stk ret r c =
       Return () (c\<lparr>kernel := (kernel c)\<lparr>heap := (heap (kernel c))\<lparr>mem := m\<rparr>, esp_reg := stk - 8, hw := h\<rparr>, main_inited := True\<rparr>) \<and>
     \<not> interrupt_is_enabled h \<and> io_trace h = io_trace (hw (kernel c)) \<and>
     (\<forall>x. unat x < unat stk - 12 \<or> unat stk \<le> unat x \<longrightarrow> m x = mem (heap (kernel c)) x)"
proof -
  let ?ws = "[ebx r, eax r, ret]"
  have "4 * length ?ws \<le> unat stk" using assms(1) by simp
  from push_words_spec [OF this, of "mem (heap (kernel c))"]
  have "\<forall>x. unat x < unat stk - 12 \<or> unat stk \<le> unat x \<longrightarrow>
      fst (push_words (mem (heap (kernel c))) stk ?ws) x = mem (heap (kernel c)) x" by (simp del: push_words.simps)
  moreover have "stk - 12 + 4 = stk - 8" by simp
  moreover have "start env n stk ret r c = Return () (c\<lparr>kernel := (kernel c)\<lparr>heap := (heap (kernel c))\<lparr>mem := fst (push_words (mem (heap (kernel c))) stk ?ws)\<rparr>,
      esp_reg := stk - 12 + 4, hw := cli (cli (hw (kernel c)))\<rparr>, main_inited := True\<rparr>)"
    using assms(2,3) by (simp add: start_runs [OF assms(1)] kernel_main_def start_entry_words del: push_words.simps)
  ultimately show ?thesis
    by (intro exI [of _ "fst (push_words (mem (heap (kernel c))) stk ?ws)"] exI [of _ "cli (cli (hw (kernel c)))"])
      (simp del: push_words.simps)
qed

text \<open>C15. From the boot loader to the idle loop: entered with the boot loader's magic number in \<^verbatim>\<open>eax\<close>, \<open>_start\<close> calls
  \<open>kernel_main\<close> on the boot stack, which brings the kernel up and never comes back: it idles on the same stack, with interrupts
  on and all gates installed, and whatever the threads do from there, every timer interrupt runs to its end. Entered with
  anything else, the kernel halts with interrupts off, having touched nothing but the top three words of its stack.\<close>

theorem start_boots:
  assumes "handed_over env stk (ebx r) c"
  shows "(eax r = 0x2BADB002 \<longrightarrow> (\<exists>c'. start env n stk ret r c = on_kern (cpu_idle_loop n (kernel c')) c' \<and>
       interrupt_is_enabled (hw (kernel c')) \<and> esp_reg (kernel c') = stk - 12 \<and> gates_installed env c' \<and>
       (\<forall>c0 y s k junk. mreach (boot_locks (image (kernel c))) (boot_range stk)
            (machine_at (kernel c') c0 (boot_saved (image (kernel c)))) y \<and> doing (sys y) = Yield s k \<longrightarrow>
          (\<exists>c2 s2. isr_IRQ0_asm junk (regs y) s = Inr (c2, s2))))) \<and>
     (eax r \<noteq> 0x2BADB002 \<longrightarrow> (\<exists>m h. start env n stk ret r c =
         Return () (c\<lparr>kernel := (kernel c)\<lparr>heap := (heap (kernel c))\<lparr>mem := m\<rparr>, esp_reg := stk - 8, hw := h\<rparr>, main_inited := True\<rparr>) \<and>
       \<not> interrupt_is_enabled h \<and> io_trace h = io_trace (hw (kernel c)) \<and>
       (\<forall>x. unat x < unat stk - 12 \<or> unat stk \<le> unat x \<longrightarrow> m x = mem (heap (kernel c)) x)))"
proof -
  have mi: "\<not> main_inited c" and le: "65536 \<le> unat stk" using assms by (simp_all add: handed_over_def Let_def)
  then have r: "12 \<le> unat stk" by simp
  obtain c' where c': "kernel_main env n 0x2BADB002 (ebx r) (c\<lparr>kernel := start_entry stk ret r (kernel c)\<rparr>) =
      on_kern (cpu_idle_loop n (kernel c')) c'"
     "interrupt_is_enabled (hw (kernel c'))" "esp_reg (kernel c') = stk - 12" "gates_installed env c'"
     and ok: "\<And>c0. mach_ok (boot_locks (image (kernel c))) (boot_range stk) (machine_at (kernel c') c0 (boot_saved (image (kernel c))))"
    using start_ready [OF assms refl, of n ret r] by blast
  have "\<exists>c2 s2. isr_IRQ0_asm junk (regs y) s = Inr (c2, s2)"
    if "mreach (boot_locks (image (kernel c))) (boot_range stk) (machine_at (kernel c') c0 (boot_saved (image (kernel c)))) y"
      "doing (sys y) = Yield s k" for c0 y s k junk
    using real_interrupt [OF mach_reach_ok [OF that(1) ok] that(2)] by blast
  moreover have "start env n stk ret r c = on_kern (cpu_idle_loop n (kernel c')) c'" if "eax r = 0x2BADB002"
    using c'(1) that by (simp add: start_runs [OF r] idle_loop_bind)
  ultimately show ?thesis using start_rejects [OF r _ mi] c'(2-4) by blast
qed

lemma off_computer_handed_over: "handed_over some_env 0x140000 0x1000 off_computer"
proof -
  have m: "mem (heap (kernel off_computer)) = boot_info" by (simp add: off_computer_def zero_kern_def booted_def)
  have "eflags (cli \<lparr>io_trace = [], eflags = 2\<rparr>) = 2" by (simp add: cli_def)
  then have "cli (hw (kernel off_computer)) = hw (kernel off_computer)" by (simp add: off_computer_def zero_kern_def cli_def)
  then have "set_hw (cli (hw (kernel off_computer))) off_computer = off_computer" by (simp add: set_hw_def)
  then have ld: "loaded some_env 0x1000 (set_hw (cli (hw (kernel off_computer))) off_computer)" using off_computer_loaded by simp
  have "map_clear (boot_range 0x140000) boot_info 0x2000 es" if "boot_map boot_info 0x1000 es" for es
  proof (cases es)
    case (Cons e es')
    then have "mmap_at boot_info 0x2018 es' 0x2018" using that by (cases e) (simp add: boot_map_def boot_info_words)
    then have "es' = []" by (cases es') auto
    then show ?thesis using Cons by (simp add: clear_of_def boot_range_def apart_def)
  qed simp
  then show ?thesis using ld m
    by (simp add: handed_over_def boot_info_words clear_of_def boot_range_def apart_def)
      (simp add: off_computer_def zero_kern_def some_env_def)
qed

theorem start_boots_witness:
  "\<exists>c'. start some_env 7 0x140000 0x100010 ((entry_regs 0x100000)\<lparr>eax := 0x2BADB002, ebx := 0x1000\<rparr>) off_computer =
     on_kern (cpu_idle_loop 7 (kernel c')) c' \<and> esp_reg (kernel c') = 0x13FFF4 \<and> interrupt_is_enabled (hw (kernel c'))"
proof -
  let ?r = "(entry_regs 0x100000)\<lparr>eax := 0x2BADB002, ebx := 0x1000\<rparr>"
  have "handed_over some_env 0x140000 (ebx ?r) off_computer" using off_computer_handed_over by simp
  moreover have "eax ?r = 0x2BADB002" "(0x140000 :: u32) - 12 = 0x13FFF4" by simp_all
  ultimately show ?thesis using start_boots [of some_env "0x140000" ?r off_computer 7 "0x100010"] by metis
qed

section \<open>Loading the descriptor tables\<close>

definition load16 :: "memory \<Rightarrow> u32 \<Rightarrow> u16" where
  "load16 m a = ucast (m a) OR push_bit 8 (ucast (m (a + 1)))"

definition store16 :: "memory \<Rightarrow> u32 \<Rightarrow> u16 \<Rightarrow> memory" where
  "store16 m a v = m(a := ucast v, a + 1 := ucast (drop_bit 8 v))"

text \<open>The registers that only the loading instructions set.\<close>

record descriptor_regs =
  gdtr_reg :: "u16 \<times> u32"
  idtr_reg :: "u16 \<times> u32"
  tr_reg :: u16
  ss_reg :: u16

definition set_ax :: "u16 \<Rightarrow> cpu \<Rightarrow> cpu" where
  "set_ax w c = c\<lparr>eax := (eax c AND NOT 0xFFFF) OR ucast w\<rparr>"

text \<open>
  The instructions \<^verbatim>\<open>gdtr_init\<close> and \<^verbatim>\<open>idtr_init\<close> begin with: the two arguments go from the stack into the six bytes of the
  variable, of which the processor then loads its register.
\<close>

definition table_pointer :: "u32 \<Rightarrow> cpu \<Rightarrow> kern \<Rightarrow> (u16 \<times> u32) \<times> cpu \<times> kern" where
  "table_pointer var c s =
     (let m = mem (heap s);
          c1 = set_ax (load16 m (esp_reg s + 4)) c;
          m1 = store16 m var (ucast (eax c1));
          c2 = c1\<lparr>eax := load32 m1 (esp_reg s + 8)\<rparr>;
          m2 = store32 m1 (var + 2) (eax c2)
      in ((load16 m2 var, load32 m2 (var + 2)), c2, s\<lparr>heap := (heap s)\<lparr>mem := m2\<rparr>\<rparr>))"

definition reload_segments :: "cpu \<Rightarrow> descriptor_regs \<Rightarrow> cpu \<times> descriptor_regs" where
  "reload_segments c d =
     (let c1 = set_ax 0x10 (c\<lparr>cs_reg := 0x08\<rparr>); ax = ucast (eax c1)
      in (c1\<lparr>ds_reg := ax, es_reg := ax, fs_reg := ax, gs_reg := ax\<rparr>, d\<lparr>ss_reg := ax\<rparr>))"

definition gdtr_init :: "u32 \<Rightarrow> u32 \<Rightarrow> cpu \<times> descriptor_regs \<times> kern \<Rightarrow> cpu \<times> descriptor_regs \<times> kern" where
  "gdtr_init var ret = (\<lambda>(c, d, s).
     let (reg, c1, s1) = table_pointer var c s;
         s2 = pushl ret s1;
         (c2, d2) = reload_segments c1 (d\<lparr>gdtr_reg := reg\<rparr>);
         s3 = snd (popl s2)
     in (c2, d2, snd (popl s3)))"

definition idtr_init :: "u32 \<Rightarrow> cpu \<times> descriptor_regs \<times> kern \<Rightarrow> cpu \<times> descriptor_regs \<times> kern" where
  "idtr_init var = (\<lambda>(c, d, s).
     let (reg, c1, s1) = table_pointer var c s in (c1, d\<lparr>idtr_reg := reg\<rparr>, snd (popl s1)))"

definition tss_flush :: "cpu \<times> descriptor_regs \<times> kern \<Rightarrow> cpu \<times> descriptor_regs \<times> kern" where
  "tss_flush = (\<lambda>(c, d, s).
     let c1 = set_ax (load16 (mem (heap s)) (esp_reg s + 4)) c
     in (c1, d\<lparr>tr_reg := ucast (eax c1)\<rparr>, snd (popl s)))"

text \<open>A call from C: the arguments from the last to the first, and the return address.\<close>

definition c_call :: "u32 list \<Rightarrow> u32 \<Rightarrow> cpu \<times> descriptor_regs \<times> kern \<Rightarrow> cpu \<times> descriptor_regs \<times> kern" where
  "c_call args ret = (\<lambda>(c, d, s). (c, d, pushl ret (foldr pushl args s)))"

lemma load16_low: "load16 m a = ucast (load32 m a)"
proof (rule bit_word_eqI)
  fix n :: nat assume "n < LENGTH(16)"
  then have "n < 8 \<or> (8 \<le> n \<and> n < 16)" by auto
  then show "bit (load16 m a) n = bit (ucast (load32 m a) :: u16) n"
    by (auto simp: load16_def load32_def bit_or_iff bit_push_bit_iff bit_ucast_iff)
qed

lemma load16_store16: "load16 (store16 m a v) a = v"
proof (rule bit_word_eqI)
  fix n :: nat assume "n < LENGTH(16)"
  then have "n < 8 \<or> (8 \<le> n \<and> n < 16)" by auto
  then show "bit (load16 (store16 m a v) a) n = bit v n"
    by (auto simp: load16_def store16_def bit_or_iff bit_push_bit_iff bit_ucast_iff bit_drop_bit_eq)
qed

lemma ax_set: "ucast (eax (set_ax w c)) = w"
proof (rule bit_word_eqI)
  fix n :: nat assume n: "n < LENGTH(16)"
  have "(NOT (mask 16) :: u32) = NOT 0xFFFF" by (simp add: mask_eq_exp_minus_1)
  moreover have "\<not> bit (NOT (mask 16) :: u32) n" using n by (simp only: bit_not_iff bit_mask_iff) simp
  ultimately have "\<not> bit (NOT 0xFFFF :: u32) n" by simp
  then show "bit (ucast (eax (set_ax w c)) :: u16) n = bit w n"
    using n by (simp add: set_ax_def bit_ucast_iff bit_or_iff bit_and_iff)
qed

lemma ax_segments [simp]: "cs_reg (set_ax w c) = cs_reg c" "ds_reg (set_ax w c) = ds_reg c"
  by (simp_all add: set_ax_def)

text \<open>The variable is not on the part of the stack the call uses.\<close>

definition var_apart :: "u32 \<Rightarrow> kern \<Rightarrow> bool" where
  "var_apart var s \<longleftrightarrow> 16 \<le> unat (esp_reg s) \<and> clear_of (unat (esp_reg s) - 16, unat (esp_reg s)) var 6"

lemma table_pointer_loads:
  assumes v: "var_apart var s" and s1: "c_call [w, a] ret (c, d, s) = (c, d, s1)"
  shows "\<exists>c' s'. table_pointer var c s1 = ((ucast w, a), c', s')"
proof -
  let ?e = "esp_reg s" and ?ws = "[a, w, ret]"
  have e: "4 * length ?ws \<le> unat ?e" using v by (simp add: var_apart_def)
  have s1': "mem (heap s1) = fst (push_words (mem (heap s)) ?e ?ws)" "esp_reg s1 = ?e - 12"
    using s1 by (auto simp: c_call_def pushl_def)
  have "load32 (mem (heap s1)) (?e - of_nat (4 * (i + 1))) = ?ws ! i" if "i < 3" for i
    using push_words_spec [OF e, of "mem (heap s)"] that unfolding s1' by simp
  from this [of 0] this [of 1] have l: "load32 (mem (heap s1)) (?e - 4) = a" "load32 (mem (heap s1)) (?e - 8) = w" by simp_all
  have kept: "load32 (store16 (mem (heap s1)) var x) (?e - 4) = load32 (mem (heap s1)) (?e - 4)" for x
  proof (rule load32_cong)
    fix y assume "within (?e - 4) 4 y"
    moreover have e4: "unat (?e - 4) = unat ?e - 4" using e by (intro unat_minus4) simp
    moreover have "unat ?e - 4 \<le> 4294967292" using unat32_bound [of ?e] by linarith
    ultimately have y: "unat ?e - 4 \<le> unat y" "unat y < unat ?e"
      using within_of_nat [of "unat (?e - 4)" 4 y] e by simp_all
    have "unat (var + 1) = unat var + 1" using v by (simp add: var_apart_def clear_of_def unat_word_ariths)
    then have "y \<noteq> var" "y \<noteq> var + 1" using v y e by (auto simp: var_apart_def clear_of_def apart_def)
    then show "store16 (mem (heap s1)) var x y = mem (heap s1) y" by (simp add: store16_def)
  qed
  have low: "load16 (store32 (store16 m var x) (var + 2) z) var = x" for m x z
    using load16_store16 [of m var x] by (simp add: load16_def store32_def)
  show ?thesis
    using l kept by (simp add: table_pointer_def Let_def s1'(2) ax_set load16_low [of "mem (heap s1)"] low load32_store32_same)
qed

lemma selector_loads:
  assumes v: "var_apart var s"
  shows "\<exists>c1 d1 s1. tss_flush (c_call [ucast (w :: u16)] ret (c, d, s)) = (c1, d1, s1) \<and> tr_reg d1 = w"
proof -
  let ?e = "esp_reg s" and ?ws = "[ucast w, ret] :: u32 list"
  have e: "4 * length ?ws \<le> unat ?e" using v by (simp add: var_apart_def)
  have "load32 (fst (push_words (mem (heap s)) ?e ?ws)) (?e - of_nat (4 * (i + 1))) = ?ws ! i" if "i < 2" for i
    using push_words_spec [OF e, of "mem (heap s)"] that by (simp del: push_words.simps)
  from this [of 0] have "load16 (store32 (store32 (mem (heap s)) (?e - 4) (ucast w)) (?e - 8) ret) (?e - 4) = w"
    by (simp add: load16_low)
  then show ?thesis by (simp add: tss_flush_def c_call_def pushl_def ax_set Let_def)
qed

text \<open>
  What the model of \<^verbatim>\<open>gdt_init\<close> and \<^verbatim>\<open>idt_init\<close> records as the contents of the registers is what the assembly leaves in them, and
  the segment registers hold the selectors of the kernel's segments, those of the frame of a new thread.
\<close>

theorem descriptor_registers_loaded:
  assumes "var_apart var s" "gdt_init ga ta g = Inr g'" "idt_init isr ia i = Inr i'"
  shows "\<exists>c1 d1 s1. gdtr_init var ret2 (c_call [6 * 8 - 1, ga] ret (c, d, s)) = (c1, d1, s1) \<and> gdtr_reg d1 = gdtr g' \<and>
       cs_reg c1 = segselector_init SegmentKernelCode TableIndex_GDT SegmentPrivilege_Ring0 \<and>
       (\<forall>f \<in> {ds_reg, es_reg, fs_reg, gs_reg}. f c1 = segselector_init SegmentKernelData TableIndex_GDT SegmentPrivilege_Ring0) \<and>
       ss_reg d1 = segselector_init SegmentKernelData TableIndex_GDT SegmentPrivilege_Ring0"
    "\<exists>c1 d1 s1. idtr_init var (c_call [256 * 8 - 1, ia] ret (c, d, s)) = (c1, d1, s1) \<and> idtr_reg d1 = idtr i'"
    "\<exists>c1 d1 s1. tss_flush (c_call [ucast (segselector_init SegmentTaskState TableIndex_GDT SegmentPrivilege_Ring0)] ret (c, d, s)) =
       (c1, d1, s1) \<and> tr_reg d1 = task_register g'"
proof -
  have sel: "segselector_init SegmentKernelCode TableIndex_GDT SegmentPrivilege_Ring0 = 8"
    "segselector_init SegmentKernelData TableIndex_GDT SegmentPrivilege_Ring0 = 0x10" by code_simp+
  have g': "gdtr g' = (47, ga)" "task_register g' = segselector_init SegmentTaskState TableIndex_GDT SegmentPrivilege_Ring0"
    using assms(2) by (auto simp: gdt_init_def Let_def)
  have i': "idtr i' = (2047, ia)" using assms(3) by (auto simp: idt_init_def Let_def)
  obtain s1 where s1: "c_call [6 * 8 - 1, ga] ret (c, d, s) = (c, d, s1)" by (simp add: c_call_def)
  from table_pointer_loads [OF assms(1) s1] obtain c' s' where t: "table_pointer var c s1 = ((47, ga), c', s')" by auto
  show "\<exists>c1 d1 s1. gdtr_init var ret2 (c_call [6 * 8 - 1, ga] ret (c, d, s)) = (c1, d1, s1) \<and> gdtr_reg d1 = gdtr g' \<and>
       cs_reg c1 = segselector_init SegmentKernelCode TableIndex_GDT SegmentPrivilege_Ring0 \<and>
       (\<forall>f \<in> {ds_reg, es_reg, fs_reg, gs_reg}. f c1 = segselector_init SegmentKernelData TableIndex_GDT SegmentPrivilege_Ring0) \<and>
       ss_reg d1 = segselector_init SegmentKernelData TableIndex_GDT SegmentPrivilege_Ring0"
    unfolding s1 using t by (simp add: gdtr_init_def reload_segments_def Let_def sel g' ax_set)
  obtain s2 where s2: "c_call [256 * 8 - 1, ia] ret (c, d, s) = (c, d, s2)" by (simp add: c_call_def)
  from table_pointer_loads [OF assms(1) s2] obtain c2 s2' where t2: "table_pointer var c s2 = ((2047, ia), c2, s2')" by auto
  show "\<exists>c1 d1 s1. idtr_init var (c_call [256 * 8 - 1, ia] ret (c, d, s)) = (c1, d1, s1) \<and> idtr_reg d1 = idtr i'"
    unfolding s2 using t2 by (simp add: idtr_init_def i')
  show "\<exists>c1 d1 s1. tss_flush (c_call [ucast (segselector_init SegmentTaskState TableIndex_GDT SegmentPrivilege_Ring0)] ret (c, d, s)) =
       (c1, d1, s1) \<and> tr_reg d1 = task_register g'"
    unfolding g'(2) by (rule selector_loads [OF assms(1)])
qed

end
