(* ===== verification/Constants.thy ===== *)
theory Constants
  imports InterruptStubs
begin

text \<open>
  Numbers that several files of the source give independently: the vectors of the handlers, declared in
  \<^verbatim>\<open>src/io/interrupt.c\<close>, entered into the descriptor table there and pushed by the stubs of \<^verbatim>\<open>src/io/interruptasm.s\<close>; and
  the positions of the processor flags in \<^verbatim>\<open>kernel/eflags.h\<close>.
\<close>

section \<open>Vectors\<close>

text \<open>The declarations \<^verbatim>\<open>ISR (mnemonic, intno)\<close>.\<close>

definition isr_numbers :: "(string \<times> u8) list" where
  "isr_numbers =
     [(''ERR'', 0xFF), (''DE'', 0x00), (''DB'', 0x01), (''NMI'', 0x02), (''BP'', 0x03), (''OF'', 0x04), (''BR'', 0x05), (''UD'', 0x06),
      (''NM'', 0x07), (''DF'', 0x08), (''MP'', 0x09), (''TS'', 0x0A), (''NP'', 0x0B), (''SS'', 0x0C), (''GP'', 0x0D), (''PF'', 0x0E),
      (''MF'', 0x10), (''AC'', 0x11), (''MC'', 0x12), (''XM'', 0x13), (''VE'', 0x14), (''CP'', 0x15), (''HV'', 0x1C), (''VC'', 0x1D),
      (''SX'', 0x1E), (''SYS'', 0x80), (''IRQ0'', 0x20), (''IRQ1'', 0x21), (''IRQ2'', 0x22), (''IRQ3'', 0x23), (''IRQ4'', 0x24),
      (''IRQ5'', 0x25), (''IRQ6'', 0x26), (''IRQ7'', 0x27), (''IRQ8'', 0x28), (''IRQ9'', 0x29), (''IRQ10'', 0x2A), (''IRQ11'', 0x2B),
      (''IRQ12'', 0x2C), (''IRQ13'', 0x2D), (''IRQ14'', 0x2E), (''IRQ15'', 0x2F)]"

fun stub_number :: "stub \<Rightarrow> u32" where
  "stub_number (Isr n) = n"
| "stub_number (Isrer n) = n"

text \<open>
  Every declared vector but the two special ones is entered under its number, every declared handler but that of the
  timer has a stub that pushes its number, and nothing else is entered.
\<close>

theorem isr_numbers_agree:
  "list_all (\<lambda>(x, n). (x \<in> {''ERR'', ''SYS''} \<or> map_of isr_table (unat n) = Some x) \<and>
     (x = ''IRQ0'' \<or> map_option stub_number (map_of stub_table x) = Some (ucast n))) isr_numbers"
  "list_all (\<lambda>(i, x). map_of isr_numbers x = Some (of_nat i)) isr_table" "distinct (map snd isr_numbers)"
  by code_simp+

section \<open>Flags\<close>

definition eflags_bits :: "(string \<times> nat) list" where
  "eflags_bits =
     [(''CF'', 0), (''PF'', 2), (''AF'', 4), (''ZF'', 6), (''SF'', 7), (''TF'', 8), (''IF'', 9), (''DF'', 10), (''OF'', 11),
      (''IOPL'', 12), (''NT'', 14), (''RF'', 16), (''VM'', 17)]"

text \<open>The instructions that set and clear a flag change the bit that the header names, and no other.\<close>

theorem flag_instructions:
  "bit (eflags (cli s)) n = (map_of eflags_bits ''IF'' \<noteq> Some n \<and> bit (eflags s) n)"
  "bit (eflags (sti s)) n = (map_of eflags_bits ''IF'' = Some n \<or> bit (eflags s) n)"
  "bit (eflags (cld s)) n = (map_of eflags_bits ''DF'' \<noteq> Some n \<and> bit (eflags s) n)"
  "bit EFLAGS_DEFAULT n = (n = 1 \<or> map_of eflags_bits ''IF'' = Some n)"
proof -
  have m: "map_of eflags_bits ''IF'' = Some 9" "map_of eflags_bits ''DF'' = Some 10" by code_simp+
  have b: "bit (push_bit k 1 :: u32) n = (k = n)" if "k < 32" for k
    using that by (auto simp: bit_simps)
  have e: "eflags (cli s) = eflags s AND NOT (push_bit 9 1)" "eflags (sti s) = eflags s OR push_bit 9 1"
    "eflags (cld s) = eflags s AND NOT (push_bit 10 1)" "EFLAGS_DEFAULT = push_bit 1 1 OR push_bit 9 1"
    by (simp_all add: cli_def sti_def cld_def)
  note bits = bit_and_iff bit_or_iff bit_not_iff m option.inject
  show "bit (eflags (cli s)) n = (map_of eflags_bits ''IF'' \<noteq> Some n \<and> bit (eflags s) n)"
    using b [of 9] bit_imp_le_length [of "eflags s" n] unfolding e bits by auto
  show "bit (eflags (sti s)) n = (map_of eflags_bits ''IF'' = Some n \<or> bit (eflags s) n)"
    using b [of 9] unfolding e bits by auto
  show "bit (eflags (cld s)) n = (map_of eflags_bits ''DF'' \<noteq> Some n \<and> bit (eflags s) n)"
    using b [of 10] bit_imp_le_length [of "eflags s" n] unfolding e bits by auto
  show "bit EFLAGS_DEFAULT n = (n = 1 \<or> map_of eflags_bits ''IF'' = Some n)"
    using b [of 9] b [of 1] unfolding e(4) bits by auto
qed

end
