(* ===== verification/Fairness.thy ===== *)
theory Fairness
  imports SharedHeap ThreadProps
begin

text \<open>
  No ready thread starves: in the system of concurrent threads, to which the creation of threads is added here, the
  number of threads that are served before a ready thread never grows and goes down with every timer interrupt.
\<close>

section \<open>The lists of a state\<close>

lemma ready_unique:
  assumes "kinv s v" "kinv s w"
  shows "v_ready w = v_ready v"
proof -
  have d: "dll (local_links s) 0 (wait_queue_head (root s P_ready)) (map local_node (v_ready u))" if "kinv s u" for u
    using lists_place [OF kinv_lists [OF that], of P_ready] by (simp add: place_holds_def)
  have "map local_node (v_ready w) = map local_node (v_ready v)" by (rule dll_unique [OF d [OF assms(2)] d [OF assms(1)]])
  then show ?thesis by (simp add: inj_map_eq_map inj_def)
qed

lemma all_view_unique:
  assumes "kinv s v" "kinv s w"
  shows "v_all v = v_all w"
proof -
  have "map all_node (v_all v) = map all_node (v_all w)"
    by (rule dll_unique [OF lists_all [OF kinv_lists [OF assms(1)]] lists_all [OF kinv_lists [OF assms(2)]]])
  then show ?thesis by (simp add: inj_map_eq_map inj_def)
qed

section \<open>Creating threads\<close>

text \<open>
  The calls that a thread makes to create another, in a state in which the locks they take are free and memory is left. The
  new thread begins with the context that \<open>internal_thread_init\<close> has laid out.
\<close>

definition can_create :: "system \<Rightarrow> kern \<Rightarrow> bool" where
  "can_create x s \<longleftrightarrow> next_tid s \<noteq> 0 \<and> lock_free s (free_list_lock (image s)) \<and> lock_free s (all_threads_lock (image s)) \<and>
     lock_free s (local_threads_lock (image s)) \<and> unat (kheap_end (heap s)) + 0x12000 \<le> unat (kheap_max_end (heap s)) \<and>
     unat (idle_thread s) \<le> unat (kheap_begin (heap s)) \<and> (\<forall>v. kinv s v \<longrightarrow> length (v_all v) + 1 < 2147483648)"

definition add_context :: "u32 \<Rightarrow> system \<Rightarrow> system" where
  "add_context t x = x\<lparr>contexts := (contexts x)(t := (EFLAGS_DEFAULT, Return ())), awaits := (awaits x)(t := None)\<rparr>"

inductive fstep :: "u32 set \<Rightarrow> system \<Rightarrow> system \<Rightarrow> bool" for M where
  step: "sstep M x x' \<Longrightarrow> fstep M x x'"
| create: "doing x = Return () s \<Longrightarrow> can_create x s \<Longrightarrow> thread_create_arg entry arg s = Return t s' \<Longrightarrow>
     fstep M x (add_context t (x\<lparr>doing := Return () s'\<rparr>))"

lemma add_context_simps [simp]:
  "doing (add_context t x) = doing x" "owns (add_context t x) = owns x" "depth (add_context t x) = depth x"
  "contexts (add_context t x) = (contexts x)(t := (EFLAGS_DEFAULT, Return ()))" "awaits (add_context t x) = (awaits x)(t := None)"
  by (simp_all add: add_context_def)

lemma born_at:
  "v_all (born_view t v) = t # v_all v" "v_at (born_view t v) (P_wait w) = v_at v (P_wait w)" "v_zombie (born_view t v) = v_zombie v"
  "v_ready (born_view t v) = t # v_ready v"
  by (simp_all add: born_view_def)

lemma good_created:
  assumes g: "good M s v g X x" and c: "created t g g' s s'" "kinv s' (born_view t v)" "heap_ok s' (born_view t v) g'"
      "handed_out g \<subseteq> handed_out g'" and t: "t \<notin> set (v_all v)" and len: "length (v_all v) + 1 < 2147483648"
  shows "good M s' (born_view t v) g' (X(t := K_plain)) (add_context t x)"
proof -
  let ?v = "born_view t v" and ?X = "X(t := K_plain)" and ?x = "add_context t x"
  note k = good_kinv [OF g]
  have eqs: "image s' = image s" "current_thread s' = current_thread s" "mutexes s' = mutexes s" "sems s' = sems s"
    "\<And>u. u \<noteq> t \<Longrightarrow> stack_base (tcbs s' u) = stack_base (tcbs s u) \<and> status (tcbs s' u) = status (tcbs s u)"
    and new: "unat t \<notin> fst ` handed_out g" "unat (stack_base (tcbs s' t)) \<notin> fst ` handed_out g"
    using c(1) by (simp_all add: created_def)
  have ti: "t \<noteq> idle_thread s" using t kinv_idle(1) [OF k] by auto
  have ready: "status (tcbs s' t) = ThreadStatus_Ready" using kinv_status [OF c(2), of t P_ready] by (simp add: born_at)
  have at: "t \<notin> set (v_at v p)" for p using t lists_member [OF kinv_lists [OF k]] by blast
  have "owners_ok s' ?v g' (owns ?x)"
  proof -
    have ow: "covers (handed_out g) (owns x)" "\<And>p. owns x p \<noteq> None \<Longrightarrow> p \<notin> set (owned_by s (v_all v))"
      using good_owners [OF g] by (simp_all add: owners_ok_def)
    have "unat p \<in> fst ` handed_out g" if "owns x p \<noteq> None" for p
      using that coversD [OF ow(1), of p] by (force simp: image_iff)
    then have "p \<noteq> t" "p \<noteq> stack_base (tcbs s' t)" if "owns x p \<noteq> None" for p using new that by auto
    moreover have "owned_by s' (v_all v) = owned_by s (v_all v)"
      using t by (intro owned_by_members [OF eqs(1)]) (metis eqs(5))
    moreover have "set (owned_by s' (t # v_all v)) \<subseteq> {t, stack_base (tcbs s' t)} \<union> set (owned_by s' (v_all v))"
      by (auto simp: owned_by_def owned_def)
    moreover have "covers (handed_out g') (owns x)" using ow(1) c(4) unfolding covers_def by blast
    ultimately have "p \<notin> set (owned_by s' (t # v_all v)) \<and> covers (handed_out g') (owns x)" if "owns x p \<noteq> None" for p
      using ow(2) [OF that] that by fastforce
    then show ?thesis using ow(1) c(4) unfolding owners_ok_def born_at add_context_simps covers_def by blast
  qed
  moreover have "status (tcbs s' u) = status (tcbs s u)" if "u \<in> set (v_all v)" for u using that t eqs(5) by metis
  then have "quiet M s' ?v"
    using good_quiet [OF g] eqs(1,3,4) ready by (auto simp: quiet_def born_at lock_free_def)
  moreover have "kind_ok M s' ?v ?X ?x u" if u: "u \<in> set (v_all ?v)" for u
  proof (cases "u = t")
    case True
    then show ?thesis using at ready by (simp add: kind_ok_def born_at)
  next
    case False
    then show ?thesis using good_kind [OF g, of u] u eqs(5) by (simp add: kind_ok_def born_at)
  qed
  moreover have "mutex_ok s' ?v ?X (depth ?x) m" if m: "m \<in> M" for m
  proof -
    have "heirs ?v ?X m = heirs v X m" using t by (auto simp: heirs_def born_at)
    then show ?thesis using eqs by (intro mutex_ok_cong [OF good_mutex [OF g m]]) auto
  qed
  moreover have "sem_ok s' ?v a" for a by (rule sem_ok_cong [OF good_sem [OF g]]) (simp_all add: eqs born_at)
  moreover have "snd (contexts ?x u) = code (?X u)" if "u \<in> set (v_all ?v)" "u \<noteq> current_thread s'" for u
    using good_context [OF g, of u] that eqs(2) by (auto simp: born_at fun_eq_iff)
  ultimately show ?thesis using c(2,3) len good_idle [OF g] eqs(1) ti by (simp add: good_def born_at)
qed

lemma sys_create:
  assumes ok: "system_ok M x" and x: "doing x = Return () s" and k: "kinv s v" and c: "can_create x s"
    and r: "thread_create_arg entry arg s = Return t s'"
  shows "system_ok M (add_context t (x\<lparr>doing := Return () s'\<rparr>))" "kinv s' (born_view t v)"
    "current_thread s' = current_thread s" "t \<notin> set (v_all v)"
proof -
  obtain v0 g X where g: "good M s v0 g X x" "running s" "X (current_thread s) = K_plain"
    using ok x by (auto simp: system_ok_def)
  have new: "t \<notin> set (v_all w) \<and> kinv s' (born_view t w) \<and> (\<exists>g'. heap_ok s' (born_view t w) g' \<and> handed_out g \<subseteq> handed_out g' \<and> created t g g' s s')"
    if "kinv s w" "heap_ok s w g" for w
    using thread_create_ok [OF that, of entry arg] c r by (auto simp: can_create_def)
  obtain g' where g': "t \<notin> set (v_all v0)" "kinv s' (born_view t v0)" "heap_ok s' (born_view t v0) g'" "handed_out g \<subseteq> handed_out g'"
    "created t g g' s s'" using new [OF good_kinv [OF g(1)] good_heap [OF g(1)]] by blast
  have len: "length (v_all v0) + 1 < 2147483648" using c good_kinv [OF g(1)] by (simp add: can_create_def)
  have cur: "current_thread s' = current_thread s" "status (tcbs s' (current_thread s)) = status (tcbs s (current_thread s))"
    "t \<noteq> current_thread s"
    using g'(1,5) kinv_cur [OF good_kinv [OF g(1)]] by (auto simp: created_def)
  then have run: "running s'" using g(2) by (simp add: running_def)
  have "good M s' (born_view t v0) g' (X(t := K_plain)) (add_context t x)" by (rule good_created [OF g(1) g'(5,2-4,1) len])
  moreover have "add_context t (x\<lparr>doing := Return () s'\<rparr>) = (add_context t x)\<lparr>doing := Return () s'\<rparr>" by (simp add: add_context_def)
  ultimately show "system_ok M (add_context t (x\<lparr>doing := Return () s'\<rparr>))"
    using run g(3) cur by (metis good_doing system_ok_return fun_upd_apply system.select_convs(1) system.update_convs(1) system.surjective)
  have "v_all v = v_all v0" using all_view_unique [OF k good_kinv [OF g(1)]] .
  then have "heap_ok s v g" using good_heap [OF g(1)] by (simp add: heap_ok_def)
  from new [OF k this] show "kinv s' (born_view t v)" "t \<notin> set (v_all v)" by simp_all
  show "current_thread s' = current_thread s" by (rule cur)
qed

section \<open>The ready list under the calls\<close>

text \<open>Threads join the ready list only at the end from which they are served last.\<close>

fun grown :: "u32 list \<Rightarrow> unit routine \<Rightarrow> bool" where
  "grown q (Return _ s) \<longleftrightarrow> (\<exists>v pre. kinv s v \<and> v_ready v = pre @ q)"
| "grown q (Yield s k) \<longleftrightarrow> (\<exists>v pre. kinv s v \<and> v_ready v = pre @ q)"
| "grown q (Stop e) \<longleftrightarrow> True"

lemma wake_view_ready: "\<exists>pre. v_ready (wake_view w v) = pre @ v_ready v"
  by (auto simp: wake_view_def split: list.splits)

lemma wait_view_ready [simp]: "v_ready (wait_view w t v) = v_ready v"
  by (simp add: wait_view_at)

lemma grown_same: "kinv s v \<Longrightarrow> grown (v_ready v) (Return () s)" "kinv s v \<Longrightarrow> grown (v_ready v) (Yield s k)"
  by (auto intro: exI [of _ v])

lemma yield_grows: "kinv s v \<Longrightarrow> grown (v_ready v) (thread_yield s)"
  unfolding thread_yield_def by (rule grown_same(2))

lemma grown_wake: "kinv s (wake_view w v) \<Longrightarrow> grown (v_ready v) (Return () s)" "kinv s (wake_view w v) \<Longrightarrow> grown (v_ready v) (Yield s k)"
  using wake_view_ready [of w v] by auto

lemma acquire_grows:
  assumes g: "good M s v g X x" and run: "running s" and nidle: "current_thread s \<noteq> idle_thread s"
  shows "grown (v_ready v) (mutex_acquire m s)"
proof -
  note k = good_kinv [OF g]
  consider "holder (mutexes s m) = current_thread s" | "holder (mutexes s m) \<noteq> current_thread s" "0 < level s m"
    | "holder (mutexes s m) \<noteq> current_thread s" "level s m \<le> 0" by linarith
  then show ?thesis
  proof cases
    case 1
    then show ?thesis using mutex_acquire_again [OF k 1] k grown_same(1) by simp
  next
    case 2
    then show ?thesis using mutex_acquire_free [OF k 2] k grown_same(1) by simp
  next
    case 3
    then obtain s' where "mutex_acquire m s = Yield s' (\<lambda>s1. Return () (finish_acquire m (interrupt_is_enabled (hw s)) s1))"
      "kinv s' (wait_view (SemQ m) (current_thread s) v)"
      using mutex_acquire_waits [OF k run nidle good_sem [OF g] 3(2) good_level [OF g] 3(1)] by blast
    then show ?thesis using grown_same(2) [of s' "wait_view (SemQ m) (current_thread s) v"] by simp
  qed
qed

lemma release_grows:
  assumes r: "at_rest M s v g X x" and m: "m \<in> M" and own: "holder (mutexes s m) = current_thread s"
  shows "grown (v_ready v) (lift_unit (mutex_release m s))"
proof -
  note g = at_restD(1) [OF r] and k = at_restD(4) [OF r]
  have h: "holder (mutexes s m) \<noteq> 0" using own kinv_cur_nonnull [OF k] by simp
  note mo = mutex_okD(3) [OF good_mutex [OF g m] h]
  show ?thesis
  proof (cases "recursion_count (mutexes s m) = 1")
    case False
    then have True: "1 < recursion_count (mutexes s m)" using mo by (metis word_greater_zero_iff word_gt_0_no word_le_less_eq inc_le add_0)
    then show ?thesis using mutex_release_nested [OF k own True] k grown_same(1) by simp
  next
    case True
    then have "mutexes s m = \<lparr>holder = current_thread s, recursion_count = 1\<rparr>" using own by (intro mutex.equality) simp_all
    moreover have "v_sem v m \<noteq> [] \<Longrightarrow> hd (v_sem v m) \<noteq> current_thread s"
      using at_restD(7) [OF r, of "P_wait (SemQ m)"] hd_in_set [of "v_sem v m"] by fastforce
    ultimately obtain s' where "mutex_release m s = Inr s'" "kinv s' (wake_view (SemQ m) v)"
      using mutex_release_last [OF k _ good_sem [OF g]] mo by fastforce
    then show ?thesis using grown_wake(1) by simp
  qed
qed

lemma up_grows:
  assumes r: "at_rest M s v g X x" and lim: "level s a < 2147483647"
  shows "grown (v_ready v) (lift_unit (semaphore_up a s))"
proof -
  have "v_sem v a \<noteq> [] \<Longrightarrow> hd (v_sem v a) \<noteq> current_thread s"
    using at_restD(7) [OF r, of "P_wait (SemQ a)"] hd_in_set [of "v_sem v a"] by fastforce
  then obtain s' where "semaphore_up a s = Inr s'" "kinv s' (wake_view (SemQ a) v)"
    using semaphore_up_wakes [OF at_restD(4) [OF r] good_sem [OF at_restD(1) [OF r]] lim] by blast
  then show ?thesis using grown_wake(1) by simp
qed

lemma down_grows:
  assumes r: "at_rest M s v g X x" and nidle: "current_thread s \<noteq> idle_thread s"
  shows "grown (v_ready v) (semaphore_down a s)"
proof (cases "0 < level s a")
  case True
  then show ?thesis using semaphore_down_takes [OF at_restD(4) [OF r] True] at_restD(4) [OF r] grown_same(1) by simp
next
  case False
  then obtain s' where "semaphore_down a s = Yield s' (\<lambda>s1. Return () (irq_restore (interrupt_is_enabled (hw s)) s1))"
    "kinv s' (wait_view (SemQ a) (current_thread s) v)"
    using semaphore_down_waits [OF at_restD(4,2) [OF r] nidle good_sem [OF at_restD(1) [OF r]] _ good_level [OF at_restD(1) [OF r]], of a]
    by force
  then show ?thesis using grown_same(2) [of s' "wait_view (SemQ a) (current_thread s) v"] by simp
qed

lemma wait_grows:
  assumes r: "at_rest M s v g X x" and al: "allowed M s (Call_wait c m)"
  shows "grown (v_ready v) (condvar_wait c m s)"
proof -
  note g = at_restD(1) [OF r] and k = at_restD(4) [OF r]
  have m: "m \<in> M" "mutexes s m = \<lparr>holder = current_thread s, recursion_count = 1\<rparr>" "current_thread s \<noteq> idle_thread s"
    using al by simp_all
  then have "level s m < 2147483647" using mutex_okD(3) [OF good_mutex [OF g m(1)]] kinv_cur_nonnull [OF k] by simp
  then obtain s' where s': "condvar_wait c m s = Yield s' (\<lambda>s1. mutex_acquire m (irq_restore (interrupt_is_enabled (hw s)) s1))"
    "kinv s' (wake_view (SemQ m) (wait_view (CondQ c) (current_thread s) v))"
    using condvar_wait_waits [OF k at_restD(2) [OF r] m(3,2) good_sem [OF g]] by blast
  show ?thesis using s'(1) grown_wake(2) [OF s'(2)] by simp
qed

lemma retire_grows:
  assumes r: "at_rest M s v g X x" and nidle: "current_thread s \<noteq> idle_thread s"
  shows "grown (v_ready v) (go_to_sleep ticks s)" "grown (v_ready v) (thread_exit s)"
proof -
  note k = at_restD(4) [OF r]
  let ?z = "set_status (current_thread s) ThreadStatus_Zombie
     (say ''Thread %u exiting\<newline>'' [Val (tid (tcbs s (current_thread s)))] (s\<lparr>hw := cli (hw s)\<rparr>))"
  let ?n = "set_status (current_thread s) ThreadStatus_Sleeping
     (upd_tcb (current_thread s) (\<lambda>c. c\<lparr>wakeup_ticks := timer_ticks s + ticks\<rparr>) s)"
  have l: "lists_ok ?n v" "lists_ok ?z v" using kinv_lists [OF k] by simp_all
  have "kinv ?n v" by (rule kinv_retire [OF k at_restD(2) [OF r] nidle l(1)]) (simp_all add: set_status_def upd_tcb_def)
  moreover have "kinv ?z v"
    by (rule kinv_retire [OF k at_restD(2) [OF r] nidle l(2)]) (simp_all add: set_status_def upd_tcb_def say_def)
  ultimately show "grown (v_ready v) (go_to_sleep ticks s)" "grown (v_ready v) (thread_exit s)"
    using grown_same(2) [of ?n v] grown_same(2) [of ?z v]
    by (simp_all add: go_to_sleep_def thread_exit_def thread_yield_def irq_off_eq Let_def)
qed

lemma perform_grows:
  assumes r: "at_rest M s v g X x" and al: "allowed M s c"
  shows "grown (v_ready v) (perform c s)"
proof (cases c)
  case (Call_signal cv)
  obtain s' where "condvar_signal cv s = Inr s'" "kinv s' (wake_view (CondQ cv) v)"
    using condvar_signal_wakes [OF at_restD(4,2) [OF r]] by blast
  then show ?thesis using Call_signal grown_wake(1) by simp
next
  case (Call_broadcast cv)
  obtain s' where "condvar_broadcast cv s = Inr s'" "kinv s' (wake_all_view cv v)"
    using condvar_broadcast_wakes [OF at_restD(4,2) [OF r]] by blast
  then show ?thesis using Call_broadcast by (auto simp: wake_all_view_def intro: exI [of _ "wake_all_view cv v"])
qed (use r al down_grows [OF r] up_grows [OF r] release_grows [OF r] wait_grows [OF r] retire_grows [OF r]
    acquire_grows [OF at_restD(1,2) [OF r]] grown_same(2) [OF at_restD(4) [OF r]] in \<open>simp_all add: thread_yield_def\<close>)

lemma code_grows:
  assumes g: "good M s v g X x" and run: "running s"
  shows "grown (v_ready v) (code (X (current_thread s)) s)"
proof (cases "X (current_thread s)")
  case (K_wait m b)
  have "current_thread s \<noteq> idle_thread s" using good_idle [OF g] K_wait by auto
  then show ?thesis using acquire_grows [of M "irq_restore b s" v g X x m] g run K_wait by simp
qed (use good_kinv [OF g] grown_same(1) in auto)

section \<open>Turns\<close>

definition interrupted :: "system \<Rightarrow> bool" where
  "interrupted x \<longleftrightarrow> (\<exists>s k. doing x = Yield s k)"

text \<open>The thread \<open>t\<close> is ready, and \<open>n\<close> threads will be served before it.\<close>

definition waits_behind :: "system \<Rightarrow> u32 \<Rightarrow> nat \<Rightarrow> bool" where
  "waits_behind x t n \<longleftrightarrow> (\<exists>v xs ys. kinv (kern_of x) v \<and> v_ready v = xs @ t # ys \<and> length ys = n)"

text \<open>Any steps that do not let \<open>t\<close> run, with the number of timer interrupts (real ones and those that yielding raises) among them.\<close>

inductive turns :: "u32 set \<Rightarrow> u32 \<Rightarrow> system \<Rightarrow> nat \<Rightarrow> system \<Rightarrow> bool" for M t x where
  none: "turns M t x 0 x"
| more: "turns M t x k y \<Longrightarrow> fstep M y z \<Longrightarrow> current_thread (kern_of z) \<noteq> t \<Longrightarrow>
     turns M t x (if interrupted y then Suc k else k) z"

lemma grown_kern:
  assumes "grown q (doing x)" "system_ok M x"
  shows "\<exists>v pre. kinv (kern_of x) v \<and> v_ready v = pre @ q"
  using assms by (cases "doing x") (auto simp: kern_of_def system_ok_def)

lemma grown_behind:
  assumes "grown (xs @ t # ys) (doing x)" "system_ok M x"
  shows "waits_behind x t (length ys)"
proof -
  obtain v pre where "kinv (kern_of x) v" "v_ready v = pre @ xs @ t # ys" using grown_kern [OF assms] by auto
  then show ?thesis unfolding waits_behind_def by (intro exI [of _ v] exI [of _ "pre @ xs"] exI [of _ ys]) simp
qed

lemma rest_behind:
  assumes ok: "system_ok M x" and x: "doing x = Return () s" and w: "waits_behind x t n"
  obtains v g X xs ys where "at_rest M s v g X x" "v_ready v = xs @ t # ys" "length ys = n"
proof -
  obtain v g X where r: "at_rest M s v g X x" using ok x by (auto simp: system_ok_def at_rest_def)
  obtain w xs ys where w: "kinv s w" "v_ready w = xs @ t # ys" "length ys = n" using w x by (auto simp: waits_behind_def kern_of_def)
  then have "v_ready v = xs @ t # ys" using ready_unique [OF w(1) at_restD(4) [OF r]] by simp
  then show thesis using that r w(3) by blast
qed

lemma switch_behind:
  assumes ok: "system_ok M x" and x: "doing x = Yield s k" and w: "waits_behind x t n"
  shows "if n = 0 then current_thread (kern_of (switch s k x)) = t else waits_behind (switch s k x) t (n - 1)"
proof -
  obtain v g X where g: "good M s v g X x" and k: "k = code (X (current_thread s))" using ok x by (auto simp: system_ok_def)
  obtain w xs ys where w: "kinv s w" "v_ready w = xs @ t # ys" "length ys = n" using w x by (auto simp: waits_behind_def kern_of_def)
  then have q: "v_ready v = xs @ t # ys" using ready_unique [OF w(1) good_kinv [OF g]] by simp
  let ?v = "sched_view s (ticked_view s v)" and ?ctx = "(contexts x)(current_thread s := (eflags (hw s), k))"
  obtain s' g' where i: "isr_IRQ0 s = Inr s'" "kinv s' ?v" "running s'" "heap_ok s' ?v g'"
    "lock_free s (free_list_lock (image s)) \<longrightarrow> lock_free s' (free_list_lock (image s))" "image s' = image s" "mutexes s' = mutexes s"
    "\<And>a. sem_count (sems s' a) = sem_count (sems s a)" "\<And>t. stack_base (tcbs s' t) = stack_base (tcbs s t)"
    "handed_out g' = {r \<in> handed_out g. fst r \<notin> unat ` set (owned_by s (v_zombie v))}" "current_thread s' = pick s (ticked_view s v)"
    using isr_IRQ0_ok [OF good_kinv [OF g] good_heap [OF g] good_can_clean [OF g]] by blast
  let ?x = "x\<lparr>contexts := ?ctx\<rparr>" and ?n = "current_thread s'"
  have g': "good M s' ?v g' X ?x" by (rule good_switch [OF g k i(2-10)])
  have n: "?n \<in> set (v_all v)" using kinv_cur [OF i(2)] by (simp add: sched_view_all [OF good_kinv [OF g]] ticked_view_at)
  have c: "snd (?ctx ?n) = code (X ?n)" using good_context [OF g n] k by simp
  let ?s = "s'\<lparr>hw := eflags_set (fst (?ctx ?n)) (hw s')\<rparr>"
  have d: "doing (switch s k x) = code (X ?n) ?s" using i(1) c by (simp add: switch_def Let_def case_prod_beta)
  note ok' = sys_interrupt [OF ok x]
  show ?thesis
  proof (cases "n = 0")
    case True
    have "base_state (kern_of (switch s k x)) = base_state ?s" using keeps_kern [OF ok'] code_keeps [of ?s "X ?n"] d by simp
    then have "current_thread (kern_of (switch s k x)) = current_thread ?s" by (rule baseD(3))
    moreover have "pick s (ticked_view s v) = t" using True w(3) q by (simp add: pick_def ticked_view_def tick_view_def)
    ultimately show ?thesis using True i(11) by simp
  next
    case False
    then have "ys \<noteq> []" using w(3) by auto
    then obtain xs' where "v_ready ?v = xs' @ t # butlast ys" using round_advances [OF good_kinv [OF g] q] by blast
    moreover have "grown (v_ready ?v) (code (X ?n) ?s)" using code_grows [of M ?s ?v g' X ?x] g' i(3) by simp
    ultimately show ?thesis using grown_behind [OF _ ok', of xs' t "butlast ys"] d w(3) False by simp
  qed
qed

lemma step_behind:
  assumes f: "fstep M x x'" and ok: "system_ok M x" and w: "waits_behind x t n"
  shows "system_ok M x' \<and> (if \<not> interrupted x then waits_behind x' t n
     else if n = 0 then current_thread (kern_of x') = t else waits_behind x' t (n - 1))"
  using f
proof cases
  case step
  note ok' = sys_step [OF step ok]
  from step show ?thesis
  proof cases
    case (call s c)
    obtain v g X xs ys where r: "at_rest M s v g X x" "v_ready v = xs @ t # ys" "length ys = n" by (rule rest_behind [OF ok call(2) w])
    have "grown (xs @ t # ys) (doing x')" using perform_grows [OF r(1) call(3)] r(2) call(1) by simp
    then show ?thesis using grown_behind [OF _ ok'] r(3) ok' call(2) by (auto simp: interrupted_def)
  next
    case (heap s op)
    obtain v g X xs ys where r: "at_rest M s v g X x" "v_ready v = xs @ t # ys" "length ys = n" by (rule rest_behind [OF ok heap(2) w])
    obtain p h g' where h: "heap_call op (heap s) = Inr (p, h)" using good_heap_step [OF at_restD(1) [OF r(1)] heap(3)] by blast
    then have "doing x' = Return () (s\<lparr>heap := h\<rparr>)" "kinv (s\<lparr>heap := h\<rparr>) v" using heap(1) at_restD(4) [OF r(1)] by (simp_all add: heap_step_def)
    then have "grown (xs @ t # ys) (doing x')" using grown_same(1) [of "s\<lparr>heap := h\<rparr>" v] r(2) by simp
    then show ?thesis using grown_behind [OF _ ok'] r(3) ok' heap(2) by (auto simp: interrupted_def)
  next
    case (preempt s)
    obtain v g X xs ys where r: "at_rest M s v g X x" "v_ready v = xs @ t # ys" "length ys = n" by (rule rest_behind [OF ok preempt(2) w])
    have "doing x' = thread_yield s" using preempt(1) by simp
    then have "grown (xs @ t # ys) (doing x')" using yield_grows [OF at_restD(4) [OF r(1)]] unfolding r(2) by (rule ssubst)
    then show ?thesis using grown_behind [OF _ ok'] r(3) ok' preempt(2) by (auto simp: interrupted_def)
  next
    case (interrupt s k)
    then show ?thesis using switch_behind [OF ok interrupt(2) w] ok' by (auto simp: interrupted_def)
  qed
next
  case (create s entry arg u s')
  obtain v g X xs ys where r: "at_rest M s v g X x" "v_ready v = xs @ t # ys" "length ys = n" by (rule rest_behind [OF ok create(2) w])
  note c = sys_create [OF ok create(2) at_restD(4) [OF r(1)] create(3,4)]
  have "grown (xs @ t # ys) (doing x')" using c(2) r(2) create(1) by (auto simp: born_at intro!: exI [of _ "born_view u v"])
  then show ?thesis using grown_behind [of xs t ys x' M] r(3) c(1) create(1,2) by (auto simp: interrupted_def)
qed

lemma turns_behind:
  assumes "turns M t x k y" "system_ok M x" "waits_behind x t n"
  shows "system_ok M y \<and> k \<le> n \<and> waits_behind y t (n - k)"
  using assms
proof (induction rule: turns.induct)
  case (more k y z)
  then have y: "system_ok M y" "k \<le> n" "waits_behind y t (n - k)" by blast+
  show ?case using step_behind [OF more.hyps(2) y(1,3)] more.hyps(3) y(2) by (auto split: if_splits)
qed simp

lemma fstep_ok:
  assumes "fstep M x x'" "system_ok M x"
  shows "system_ok M x'"
  using assms(1)
proof cases
  case step
  then show ?thesis using sys_step assms(2) by blast
next
  case (create s entry arg t s')
  obtain v g X where "good M s v g X x" using assms(2) create(2) by (auto simp: system_ok_def)
  then show ?thesis using sys_create(1) [OF assms(2) create(2) good_kinv create(3,4)] create(1) by simp
qed

lemma fsteps_ok: "(fstep M)\<^sup>*\<^sup>* x y \<Longrightarrow> system_ok M x \<Longrightarrow> system_ok M y"
  by (induction rule: rtranclp_induct) (auto intro: fstep_ok)

lemma system_goes_on:
  assumes "system_ok M x"
  shows "\<exists>z. sstep M x z"
proof (cases "doing x")
  case (Return u s)
  then show ?thesis using sstep.call [of x s M Call_yield] by auto
next
  case (Yield s k)
  then show ?thesis using sstep.interrupt [of x s k M] by auto
qed (use assms in \<open>simp add: system_ok_def\<close>)

text \<open>C8. No ready thread starves: in every interleaving of synchronisation calls, heap calls, creations of threads and timer
  interrupts that starts in a well-formed kernel, a ready thread with \<open>n\<close> threads before it has at most \<open>n\<close> timer interrupts pass
  without running. As long as it has not run, one thread fewer is before it after each interrupt whatever the running threads do
  (those they wake or create queue up behind it), the interrupt after the \<open>n\<close>-th lets it run, and the system can always go on.
  Threads create others only while the locks for that are free and memory is left, and none exits while threads use the heap.\<close>

theorem ready_thread_runs:
  assumes "initial M s v g" "(fstep M)\<^sup>*\<^sup>* (start_system s) x" "waits_behind x t n" "turns M t x k y"
  shows "k \<le> n \<and> waits_behind y t (n - k) \<and> (\<exists>z. sstep M y z) \<and>
     (k = n \<longrightarrow> (\<forall>s' c. doing y = Yield s' c \<longrightarrow> current_thread (kern_of (switch s' c y)) = t))"
proof -
  have "system_ok M x" by (rule fsteps_ok [OF assms(2) initial_ok [OF assms(1)]])
  then have y: "system_ok M y" "k \<le> n" "waits_behind y t (n - k)" using turns_behind [OF assms(4) _ assms(3)] by blast+
  then show ?thesis using system_goes_on [OF y(1)] switch_behind [OF y(1)] by fastforce
qed

theorem ready_thread_runs_witness:
  "current_thread (kern_of (switch (ex_kern P_ready) (Return ()) ((start_system (ex_kern P_ready))\<lparr>doing := thread_yield (ex_kern P_ready)\<rparr>))) = t_two"
proof -
  let ?s = "ex_kern P_ready" and ?x = "start_system (ex_kern P_ready)"
  let ?y = "?x\<lparr>doing := thread_yield ?s\<rparr>"
  have d: "doing ?x = Return () ?s" by (simp add: start_system_def)
  have y: "doing ?y = Yield ?s (Return ())" by (simp add: thread_yield_def)
  have kx: "kern_of ?x = ?s" using d by (simp add: kern_of_def)
  have ky: "kern_of ?y = ?s" unfolding kern_of_def y by simp
  have "kinv (kern_of ?x) (ex_view P_ready)" "v_ready (ex_view P_ready) = [] @ t_two # []" using ex_kinv kx by simp_all
  then have w: "waits_behind ?x t_two 0" unfolding waits_behind_def by blast
  have "interrupt_is_enabled (hw ?s)" by (simp add: interrupt_is_enabled_bit)
  then have "fstep {} ?x ?y" using sstep.preempt [OF d] by (blast intro: fstep.step)
  moreover have "current_thread (kern_of ?y) \<noteq> t_two" unfolding ky by simp
  ultimately have "turns {} t_two ?x 0 ?y" using turns.more [OF turns.none] d by (metis act.distinct(1) interrupted_def)
  from ready_thread_runs [OF ex_initial rtranclp.rtrancl_refl w this] y show ?thesis by blast
qed

end
