(* ===== verification/Spec2Isabelle.thy ===== *)
theory Spec2Isabelle
  imports KmallocProps Timer Terminal ThreadProps SharedProps BootSwitch InterruptStubs ThreadQuery Hazards Layout StartAsm
    Constants Fairness
begin

text \<open>
  AlienOS is a small i386 kernel: a heap, preemptive threads with semaphores, mutexes and condition
  variables, the drivers for the interrupt controller, the timer, the serial ports and the text screen,
  and the C string functions they use. This development models its C code and its assembly and proves the
  properties that make each part correct. Paths below are relative
  to \<^verbatim>\<open>src/\<close> of the repository.

  \<^bold>\<open>How the code is modelled.\<close> Machine integers are words of their width, pointers are 32-bit words. The
  heap, the stacks and C strings live in a byte memory (\<open>Memory\<close>), so the block headers of the allocator
  are the words the code reads and writes. Thread control blocks, list nodes and synchronisation objects
  are typed stores indexed by address, as the code never reaches one through a pointer to another type;
  the memory they are allocated from is tracked by the heap (\<open>heap_ok\<close>). Port input and output and \<^verbatim>\<open>EFLAGS\<close> are a
  \<open>machine\<close> with a trace; what a device answers is a parameter. \<^verbatim>\<open>kernel_assert\<close> and \<^verbatim>\<open>kernel_panic\<close> are the
  error value \<open>Panic\<close>, a null dereference is \<open>NullDeref\<close>, a loop that does not end is \<open>Diverge\<close> (loops are
  \<^verbatim>\<open>partial_function (option)\<close>, and every theorem proves that the result is there). A routine that can
  give up the processor is a resumption (\<open>act\<close>): it returns, stops, or yields with the rest of its work.

  \<^bold>\<open>Theories and what they model.\<close>
  \<^item> \<open>Prelude\<close>, \<open>Memory\<close>: outcomes, chains of pointers, byte memory.
  \<^item> \<open>LibcString\<close>: \<^verbatim>\<open>libc/src/string.c\<close>. \<open>IoFormat\<close>: number and format printing of \<^verbatim>\<open>src/io/io.c\<close>.
  \<^item> \<open>Kmalloc\<close>: \<^verbatim>\<open>src/kernel/kmalloc.c\<close> without locks. \<open>KmallocHeader\<close>, \<open>KmallocList\<close>, \<open>KmallocTiling\<close>, \<open>KmallocHeap\<close>,
    \<open>KmallocOps\<close>, \<open>KmallocData\<close>, \<open>KmallocInit\<close>: the header words, the free list, the heap as a tiling of blocks, and that
    every routine refines an operation on block lists. \<open>HeapInterface\<close> states what clients may rely on as a
    locale, \<open>KmallocClient\<close> interprets it; \<open>KmallocProps\<close> has the theorems.
  \<^item> \<open>Machine\<close>: \<^verbatim>\<open>include/alienos/kernel/eflags.h\<close>, the interrupt flag, ports and serial registers.
    \<open>Interrupt\<close>: \<^verbatim>\<open>src/io/interrupt.c\<close>, with the 8259 controllers as a state that the bytes written to their ports build up. \<open>Gdt\<close>: \<^verbatim>\<open>src/mem/gdt.c\<close>. \<open>Timer\<close>: \<^verbatim>\<open>src/io/timer.c\<close>. \<open>Terminal\<close>: \<^verbatim>\<open>src/io/terminal.c\<close>.
  \<^item> \<open>ThreadList\<close>: the linked lists of \<^verbatim>\<open>src/kernel/thread.c\<close> and the wait queues of \<^verbatim>\<open>src/kernel/synch.c\<close>, which
    interpret the locale \<open>fifo\<close>. \<open>ThreadState\<close>: the state (\<open>kern\<close>). \<open>Synch\<close>: \<^verbatim>\<open>synch.c\<close>. \<open>Locked\<close>: the locked entry points of
    \<^verbatim>\<open>kmalloc.c\<close> and \<^verbatim>\<open>io.c\<close>. \<open>Thread\<close>: \<^verbatim>\<open>thread.c\<close>, \<^verbatim>\<open>timer_callback\<close> and \<^verbatim>\<open>isr_IRQ0\<close> of \<^verbatim>\<open>src/io/interruptasm.s\<close>.
  \<^item> \<open>ThreadLists\<close>, \<open>ThreadInv\<close>, \<open>SynchInv\<close>, \<open>SchedInv\<close>, \<open>ZombieInv\<close>, \<open>Scheduler\<close>, \<open>ThreadCreate\<close>: the lists as a \<open>view\<close>, the
    invariant \<open>kinv\<close>, and what each primitive, the scheduler, the timer interrupt and the creation of
    threads do to the view. \<open>ThreadSystem\<close>, \<open>SystemInv\<close>, \<open>SystemSafety\<close>: threads that run concurrently as a step
    relation, its invariant, and that every step keeps it. \<open>ThreadExample\<close>, \<open>ThreadProps\<close>: the theorems.
  \<^item> \<open>HeapShare\<close>, \<open>SharedHeap\<close>, \<open>SharedProps\<close>: the calls of \<^verbatim>\<open>kmalloc.c\<close> that concurrent threads make under the heap lock; which thread
    was given which memory, and that no step but the owner's own calls and writes touches it. \<open>Fairness\<close>: the system with the creation of
    threads added; how many threads are served before a ready one.
  \<^item> \<open>ContextSwitch\<close>: \<^verbatim>\<open>isr_IRQ0\<close> instruction by instruction on registers and on the stack in memory. \<open>Stacks\<close>, \<open>RegisterSystem\<close>,
    \<open>RegisterSwitch\<close>: the concurrent system with real registers and stacks, in which a thread may compute on its own stack at
    will, and its invariant. \<open>RegisterProps\<close>, \<open>ThreadStart\<close>: the theorems on switching and on the first run of a thread.
  \<^item> \<open>InterruptStubs\<close>: the other entry points of \<^verbatim>\<open>interruptasm.s\<close>, from the processor's entry through the stub and \<^verbatim>\<open>isr_wrapper\<close>
    to \<^verbatim>\<open>interrupt_handler\<close> and back.
  \<^item> \<open>ThreadQuery\<close>: the queries and debug printers of \<^verbatim>\<open>thread.c\<close> and \<^verbatim>\<open>kmalloc_printdebug\<close>. \<open>Hazards\<close>: what happens when a dead
    thread is cleaned up while the heap lock is held.
  \<^item> \<open>Boot\<close>: \<^verbatim>\<open>kernel_main\<close> (\<^verbatim>\<open>src/kernel/kernel.c\<close>) and \<^verbatim>\<open>cpu_idle_loop\<close> (\<^verbatim>\<open>src/cpu/cpu.c\<close>), which compose all the parts.
    \<open>BootSwitch\<close>: the booted machine as the start of the system with registers. \<open>StartAsm\<close>: \<^verbatim>\<open>_start\<close> of \<^verbatim>\<open>bootasm.s\<close> and the
    routines of \<^verbatim>\<open>src/mem/gdtasm.s\<close> and \<^verbatim>\<open>interruptasm.s\<close> that load the descriptor tables.
  \<^item> \<open>Layout\<close>: structures as types with the layout of the i386 ABI and the bytes that make them up: what the boot loader hands over
    (\<^verbatim>\<open>kernel/multiboot.h\<close>), control blocks, block headers, interrupt frames. \<open>Constants\<close>: numbers that C code and assembly give
    independently.

  \<^bold>\<open>What is shown.\<close> The allocator hands out fresh disjoint aligned memory, keeps the data of its clients,
  merges what is freed, and never fails a client that follows the rules; its limits (out of memory, double
  free, sizes near \<open>2^32\<close>) are theorems too. The timer interrupt implements round-robin scheduling, and in every
  interleaving, creations of threads included, a ready thread runs after as many interrupts as threads are before it; dead
  threads are freed once.
  The synchronisation primitives do what they promise in every state that satisfies the invariant, and in
  every interleaving of their calls with timer interrupts no assertion fails, no thread is lost and mutexes
  exclude each other; memory from the heap stays private to the thread that was given it. A thread that the timer
  interrupts gets its registers, stack pointer and flags back, whatever the others did in between; a new thread
  enters its function with its argument; every other interrupt reaches its handler with the number of its gate and a true
  frame and returns to unchanged registers. From the boot loader's entry the kernel comes up into the invariants
  of all this. What goes wrong is stated too: the scheduler that waits for the heap lock inside the timer
  interrupt, and the null pointers that the queries read. The memory map that the boot loader wrote
  is the one the kernel reads. The drivers program the devices with the
  right values (the interrupt controllers end up remapped from whatever state), the printers print what they should (numbers read back), the string functions agree with
  their specifications.

  \<^bold>\<open>Bounds.\<close> The counts of semaphores stay off the ends of their 32-bit range because fewer than \<open>2^31\<close>
  threads exist. The waiting loop of \<^verbatim>\<open>io_serial_nextinb\<close> has a fuel of \<open>0x10000\<close> yields, one more than the ticks it
  waits for, each of which advances the tick counter. \<^verbatim>\<open>cpu_idle_loop\<close> is given a number of rounds; theorems
  hold for all of them. The list walks of the debug printers take a bound on the nodes visited; any bound
  from the number of threads on is enough.

  \<^bold>\<open>Limits of the concurrent model.\<close> Interrupts strike between calls: the primitives run with interrupts
  disabled. In the concurrent system threads take the heap lock around the heap routines; as the scheduler calls
  \<^verbatim>\<open>kfree\<close> for dead threads, threads may exit there only when the heap lock is not one of the mutexes in use, and a
  clean-up under a held lock ends in \<open>IrqBlock\<close> (\<open>Hazards\<close>). In \<open>Fairness\<close> threads create others while the locks that
  takes are free and memory is left. Locked printing and \<^verbatim>\<open>thread_create_arg\<close> are shown for a run that no
  interrupt cuts in two. With registers, a thread's code may change its own stack and registers in any way between its calls, but
  the stack that the compiled C code of a call itself uses is not modelled; the boot stack is a range that \<open>StartAsm\<close> places in the image. Text
  printed on the way to a panic is not kept.

  \<^bold>\<open>Not modelled.\<close> The \<^verbatim>\<open>DEBUG\<close> lines inside the allocator's routines, empty outside the test build; \<^verbatim>\<open>keyboard.c\<close>, which holds two
  constants; the structures of \<^verbatim>\<open>multiboot.h\<close> that no code reads (image header, modules, colours, APM); \<^verbatim>\<open>cpu_halt\<close> beyond being the outcome of a panic; the instructions the compiler makes of the C code; and the unit
  tests.
\<close>

section \<open>From power on to running threads\<close>

text \<open>C12. The whole kernel: from what the boot loader leaves, \<open>kernel_main\<close> arrives in its idle loop, and from
  the thread system it has set up no interleaving of synchronisation calls, heap calls and timer
  interrupts ever fails an assertion, loses a thread, lets a count disagree with its queue or hands
  out the same memory twice. The mutexes are the static locks of the kernel, or some of them.\<close>

theorem booted_kernel_safe:
  assumes "loaded env mbinfo c" "\<not> main_inited c"
    "M \<subseteq> {free_list_lock (image (kernel c)), all_threads_lock (image (kernel c)), local_threads_lock (image (kernel c)),
       serial_lock (image (kernel c)) COMPort_1}"
  shows "\<exists>c'. kernel_main env n 0x2BADB002 mbinfo c = on_kern (cpu_idle_loop n (kernel c')) c' \<and>
     (\<forall>x. reach M (start_system (kernel c')) x \<longrightarrow>
        (\<exists>s v. (doing x = Return () s \<or> (\<exists>k. doing x = Yield s k)) \<and> kinv s v \<and> (\<forall>a. sem_ok s v a)) \<and>
        (\<forall>p q t u i j. owns x p = Some (t, i) \<and> owns x q = Some (u, j) \<and> p \<noteq> q \<longrightarrow>
           unat p + unat i + 16 \<le> unat q \<or> unat q + unat j + 16 \<le> unat p))"
proof -
  obtain c' g v where c': "kernel_main env n 0x2BADB002 mbinfo c = on_kern (cpu_idle_loop n (kernel c')) c'"
    "initial M (kernel c') v g"
    using kernel_main_idles [OF assms(1,2), of n] initial_subset [OF _ assms(3)] by blast
  have "system_ok M x" if "reach M (start_system (kernel c')) x" for x by (rule sys_reach [OF that initial_ok [OF c'(2)]])
  then show ?thesis using c'(1) system_ok_state owners_apart by blast
qed

theorem booted_kernel_safe_witness:
  "\<exists>c'. kernel_main some_env 7 0x2BADB002 0x1000 off_computer = on_kern (cpu_idle_loop 7 (kernel c')) c' \<and>
     (\<forall>x. reach {0x120040, 0x120060} (start_system (kernel c')) x \<longrightarrow>
        (\<exists>s v. (doing x = Return () s \<or> (\<exists>k. doing x = Yield s k)) \<and> kinv s v \<and> (\<forall>a. sem_ok s v a)))"
proof -
  have "\<not> main_inited off_computer" by (simp add: off_computer_def)
  moreover have "{0x120040, 0x120060} \<subseteq> {free_list_lock (image (kernel off_computer)), all_threads_lock (image (kernel off_computer)),
      local_threads_lock (image (kernel off_computer)), serial_lock (image (kernel off_computer)) COMPort_1}"
    by (simp add: off_computer_def zero_kern_def)
  ultimately show ?thesis using booted_kernel_safe [OF off_computer_loaded, of "{0x120040, 0x120060}" 7] by blast
qed

end
